(* ===== verification/Prelude.thy ===== *)
theory Prelude
  imports Main "HOL-Library.Word" "HOL-Library.Multiset"
begin

unbundle bit_operations_syntax

text \<open>
  The prelude of the aura-redis development: byte strings and the C library routines the
  sources lean on (\<open>strtoll\<close>, \<open>atoi\<close>, \<open>%lld\<close>, \<open>strlen\<close>), 64-bit unsigned and signed
  arithmetic with the wrap-around written out, and the generic facts on lists and multisets that
  the component theories share. The collections below gather the rewrite rules and the
  introduction rules the component proofs run on.
\<close>

named_theorems keeps_intros \<open>introduction rules of the frame calculus\<close>
named_theorems read_simps \<open>what a step leaves of the fields and views it does not write\<close>

type_synonym bytes = string


section \<open>64-bit arithmetic\<close>

text \<open>
  Sizes, counters and deadlines are \<open>nat\<close>. Where the C code can wrap (a deadline computed from a
  client's number, an unguarded subtraction) the reduction modulo \<open>2^64\<close> is written out.
\<close>

definition u64 :: "nat \<Rightarrow> nat" where
  "u64 n = n mod 2 ^ 64"

definition u64_sub :: "nat \<Rightarrow> nat \<Rightarrow> nat" where
  "u64_sub a b = (if b \<le> a then a - b else a + 2 ^ 64 - b)"

definition sat_sub :: "nat \<Rightarrow> nat \<Rightarrow> nat" where
  "sat_sub a b = (if b \<le> a then a - b else 0)"

definition u64_of_int :: "int \<Rightarrow> nat" where
  "u64_of_int x = nat (x mod 2 ^ 64)"

definition LLONG_MAX :: int where "LLONG_MAX = 9223372036854775807"
definition LLONG_MIN :: int where "LLONG_MIN = - 9223372036854775808"

definition s64 :: "int \<Rightarrow> int" where
  "s64 x = (x + 2 ^ 63) mod 2 ^ 64 - 2 ^ 63"

definition s32 :: "int \<Rightarrow> int" where
  "s32 x = (x + 2 ^ 31) mod 2 ^ 32 - 2 ^ 31"

lemma sat_sub_eq [simp]: "sat_sub a b = a - b"
  by (simp add: sat_sub_def)

lemma u64_sub_eq [simp]: "b \<le> a \<Longrightarrow> u64_sub a b = a - b"
  by (simp add: u64_sub_def)

lemma nat_int_diff [simp]: "nat (int a - int b) = a - b"
  by linarith

lemma u64_id: "n < 2 ^ 64 \<Longrightarrow> u64 n = n"
  by (simp add: u64_def)

lemma u64_less [simp]: "u64 n < 2 ^ 64"
  by (simp add: u64_def)

lemma s64_id: "LLONG_MIN \<le> x \<Longrightarrow> x \<le> LLONG_MAX \<Longrightarrow> s64 x = x"
  by (simp add: s64_def LLONG_MIN_def LLONG_MAX_def)

lemma s64_range: "LLONG_MIN \<le> s64 x \<and> s64 x \<le> LLONG_MAX"
proof -
  have "0 \<le> (x + 2 ^ 63) mod 2 ^ 64" and "(x + 2 ^ 63) mod 2 ^ 64 < (2 ^ 64 :: int)"
    by (rule pos_mod_sign, simp) (rule pos_mod_bound, simp)
  then show ?thesis by (simp add: s64_def LLONG_MIN_def LLONG_MAX_def)
qed

lemma u64_of_int_id: "0 \<le> x \<Longrightarrow> x < 2 ^ 64 \<Longrightarrow> u64_of_int x = nat x"
  by (simp add: u64_of_int_def)


section \<open>C strings, decimal printing and parsing\<close>

text \<open>
  A buffer that C reads as a string ends at its first NUL byte; \<open>cstr\<close> is what it reads.
\<close>

definition cstr :: "bytes \<Rightarrow> bytes" where
  "cstr s = takeWhile (\<lambda>ch. ch \<noteq> CHR 0x00) s"

definition is_digit :: "char \<Rightarrow> bool" where
  "is_digit ch = (48 \<le> (of_char ch :: nat) \<and> (of_char ch :: nat) \<le> 57)"

definition digit_val :: "char \<Rightarrow> nat" where
  "digit_val ch = of_char ch - 48"

definition digit_char :: "nat \<Rightarrow> char" where
  "digit_char d = char_of (48 + d)"

text \<open>\<open>isspace\<close> in the C locale.\<close>

definition is_space :: "char \<Rightarrow> bool" where
  "is_space ch = ((of_char ch :: nat) = 32 \<or> (9 \<le> (of_char ch :: nat) \<and> (of_char ch :: nat) \<le> 13))"

fun show_nat :: "nat \<Rightarrow> bytes" where
  "show_nat n = (if n < 10 then [digit_char n] else show_nat (n div 10) @ [digit_char (n mod 10)])"

declare show_nat.simps [simp del]

text \<open>The text \<open>%lld\<close> prints.\<close>

definition show_int :: "int \<Rightarrow> bytes" where
  "show_int v = (if v < 0 then CHR ''-'' # show_nat (nat (- v)) else show_nat (nat v))"

fun read_digits :: "nat \<Rightarrow> bytes \<Rightarrow> nat \<times> bytes" where
  "read_digits acc [] = (acc, [])"
| "read_digits acc (ch # cs) =
     (if is_digit ch then read_digits (acc * 10 + digit_val ch) cs else (acc, ch # cs))"

text \<open>
  \<open>strtoll(s, &end, 10)\<close>: leading white space, one optional sign, digits; the value is clamped to
  the range of \<open>long long\<close>. The result is \<open>None\<close> where C leaves \<open>end == s\<close> (no digits), else the
  value and the text \<open>end\<close> points at.
\<close>

definition clamp_ll :: "int \<Rightarrow> int" where
  "clamp_ll v = (if v > LLONG_MAX then LLONG_MAX else if v < LLONG_MIN then LLONG_MIN else v)"

definition strtoll :: "bytes \<Rightarrow> (int \<times> bytes) option" where
  "strtoll s =
     (let t = dropWhile is_space s;
          neg = (t \<noteq> [] \<and> hd t = CHR ''-'');
          u = (if t \<noteq> [] \<and> (hd t = CHR ''-'' \<or> hd t = CHR ''+'') then tl t else t)
      in if u = [] \<or> \<not> is_digit (hd u) then None
         else (case read_digits 0 u of
                 (m, rest) \<Rightarrow> Some (clamp_ll (if neg then - int m else int m), rest)))"

text \<open>\<open>end == tmp || *end != 0\<close> rejects; otherwise the value.\<close>

definition strtoll_all :: "bytes \<Rightarrow> int option" where
  "strtoll_all s = (case strtoll (cstr s) of Some (v, []) \<Rightarrow> Some v | _ \<Rightarrow> None)"

definition atoll :: "bytes \<Rightarrow> int" where
  "atoll s = (case strtoll (cstr s) of None \<Rightarrow> 0 | Some (v, _) \<Rightarrow> v)"

text \<open>\<open>atoi\<close> is \<open>(int) strtol\<close> (64-bit \<open>long\<close>).\<close>

definition atoi :: "bytes \<Rightarrow> int" where
  "atoi s = s32 (atoll s)"

lemma is_digit_digit_char [simp]: "d < 10 \<Longrightarrow> is_digit (digit_char d)"
  by (simp add: is_digit_def digit_char_def)

lemma digit_val_digit_char [simp]: "d < 10 \<Longrightarrow> digit_val (digit_char d) = d"
  by (simp add: digit_val_def digit_char_def)

lemma digit_char_not_nul [simp]: "d < 10 \<Longrightarrow> digit_char d \<noteq> CHR 0x00"
  using is_digit_digit_char [of d] by (auto simp: is_digit_def)

lemma is_digit_not_space: "is_digit ch \<Longrightarrow> \<not> is_space ch"
  by (auto simp: is_digit_def is_space_def)

lemma is_digit_not_sign: "is_digit ch \<Longrightarrow> ch \<noteq> CHR ''-'' \<and> ch \<noteq> CHR ''+''"
  by (auto simp: is_digit_def)

lemma show_nat_digits: "set (show_nat n) \<subseteq> Collect is_digit"
proof (induction n rule: show_nat.induct)
  case (1 n)
  then show ?case by (subst show_nat.simps) auto
qed

lemma show_nat_not_Nil [simp]: "show_nat n \<noteq> []"
  by (subst show_nat.simps) simp

lemma hd_show_nat: "is_digit (hd (show_nat n))"
  using show_nat_digits [of n] hd_in_set [OF show_nat_not_Nil [of n]] by blast

lemma read_digits_append:
  "set ds \<subseteq> Collect is_digit \<Longrightarrow>
   read_digits acc (ds @ cs) = read_digits (fst (read_digits acc ds)) cs"
  by (induction ds arbitrary: acc) auto

lemma read_digits_show_nat:
  "read_digits 0 (show_nat n) = (n, [])"
proof (induction n rule: show_nat.induct)
  case (1 n)
  show ?case
  proof (cases "n < 10")
    case True
    then show ?thesis by (subst show_nat.simps) simp
  next
    case False
    then have "read_digits 0 (show_nat (n div 10) @ [digit_char (n mod 10)]) = (n, [])"
      using 1 by (simp add: read_digits_append show_nat_digits mult.commute [of _ 10])
    with False show ?thesis by (subst show_nat.simps) simp
  qed
qed

lemma read_digits_stop:
  "read_digits 0 (show_nat n @ ch # cs) = (n, ch # cs)" if "\<not> is_digit ch"
  using that by (simp add: read_digits_append show_nat_digits read_digits_show_nat)

lemma dropWhile_hd_False: "xs \<noteq> [] \<Longrightarrow> \<not> P (hd xs) \<Longrightarrow> dropWhile P xs = xs"
  by (cases xs) auto

lemma strtoll_show_int:
  assumes "LLONG_MIN \<le> v" and "v \<le> LLONG_MAX"
  shows "strtoll (show_int v) = Some (v, [])"
proof (cases "v < 0")
  case True
  have "dropWhile is_space (CHR ''-'' # show_nat (nat (- v))) = CHR ''-'' # show_nat (nat (- v))"
    by (simp add: is_space_def)
  with True assms show ?thesis
    by (simp add: strtoll_def show_int_def hd_show_nat read_digits_show_nat clamp_ll_def)
next
  case False
  let ?s = "show_nat (nat v)"
  have "dropWhile is_space ?s = ?s"
    by (rule dropWhile_hd_False) (simp_all add: hd_show_nat is_digit_not_space)
  moreover have "hd ?s \<noteq> CHR ''-'' \<and> hd ?s \<noteq> CHR ''+''"
    by (rule is_digit_not_sign) (rule hd_show_nat)
  ultimately show ?thesis using False assms
    by (simp add: strtoll_def show_int_def hd_show_nat read_digits_show_nat clamp_ll_def)
qed

lemma cstr_digits: "set ds \<subseteq> Collect is_digit \<Longrightarrow> cstr ds = ds"
  unfolding cstr_def by (rule takeWhile_eq_all_conv [THEN iffD2]) (auto simp: is_digit_def)

lemma cstr_show_int [simp]: "cstr (show_int v) = show_int v"
  using cstr_digits [OF show_nat_digits [of "nat v"]] cstr_digits [OF show_nat_digits [of "nat (- v)"]]
  by (simp add: show_int_def cstr_def)

lemma strtoll_all_show_int:
  "LLONG_MIN \<le> v \<Longrightarrow> v \<le> LLONG_MAX \<Longrightarrow> strtoll_all (show_int v) = Some v"
  by (simp add: strtoll_all_def strtoll_show_int)

lemma strtoll_range: "strtoll s = Some (v, r) \<Longrightarrow> LLONG_MIN \<le> v \<and> v \<le> LLONG_MAX"
  by (auto simp: strtoll_def Let_def clamp_ll_def LLONG_MIN_def LLONG_MAX_def
      split: if_splits prod.splits)

lemma strtoll_all_range: "strtoll_all s = Some v \<Longrightarrow> LLONG_MIN \<le> v \<and> v \<le> LLONG_MAX"
  by (auto simp: strtoll_all_def dest: strtoll_range split: option.splits list.splits prod.splits)

lemma length_show_nat: "n < 10 ^ k \<Longrightarrow> 0 < k \<Longrightarrow> length (show_nat n) \<le> k"
proof (induction k arbitrary: n)
  case 0
  then show ?case by simp
next
  case (Suc k)
  show ?case
  proof (cases "n < 10")
    case True
    then show ?thesis by (subst show_nat.simps) simp
  next
    case False
    with Suc.prems have k: "0 < k" by (cases k) auto
    have "n div 10 < 10 ^ k" using Suc.prems by (simp add: less_mult_imp_div_less mult.commute)
    with k have "length (show_nat (n div 10)) \<le> k" by (rule Suc.IH [rotated])
    with False show ?thesis by (subst show_nat.simps) simp
  qed
qed


section \<open>Lists and multisets\<close>

lemma mset_concat_update:
  "i < length xss \<Longrightarrow> mset (concat (xss[i := ys])) + mset (xss ! i) = mset (concat xss) + mset ys"
proof (induction xss arbitrary: i)
  case Nil
  then show ?case by simp
next
  case (Cons xs xss)
  then show ?case by (cases i) (auto simp: ac_simps)
qed

lemma nth_subset_concat: "i < length xss \<Longrightarrow> set (xss ! i) \<subseteq> set (concat xss)"
  by (auto intro: nth_mem)

lemma in_concat_nth: "x \<in> set (concat xss) \<longleftrightarrow> (\<exists>i < length xss. x \<in> set (xss ! i))"
  by (auto simp: in_set_conv_nth [of _ xss] intro: nth_mem)

lemma concat_replicate_Nil [simp]: "concat (replicate n []) = []"
  by (induction n) auto

lemma concat_map_Nil [simp]: "concat (map (\<lambda>_. []) xs) = []"
  by (induction xs) auto

lemma map_if_distinct_mset:
  assumes "distinct (map key xs)" and "e \<in> set xs"
  shows "mset (map (\<lambda>x. if key x = key e then g x else x) xs) = add_mset (g e) (mset xs - {#e#})"
  using assms
proof (induction xs)
  case Nil
  then show ?case by simp
next
  case (Cons x xs)
  show ?case
  proof (cases "x = e")
    case True
    with Cons.prems have "map (\<lambda>x. if key x = key e then g x else x) xs = xs"
      by (intro map_idI) (auto simp: image_iff)
    with True show ?thesis by simp
  next
    case False
    with Cons.prems have "key x \<noteq> key e" and "e \<in> set xs" and "distinct (map key xs)"
      by (auto simp: image_iff)
    with Cons.IH False show ?thesis by simp
  qed
qed

lemma distinct_map_mset_eq: "mset (map f xs) = mset (map f ys) \<Longrightarrow> distinct (map f xs) = distinct (map f ys)"
  by (metis mset_eq_imp_distinct_iff)

lemma mset_eq_distinct_map: "mset xs = mset ys \<Longrightarrow> distinct (map f xs) = distinct (map f ys)"
  by (metis distinct_map_mset_eq mset_map)

lemma set_mset_minus_distinct: "distinct xs \<Longrightarrow> set_mset (mset xs - {#x#}) = set xs - {x}"
  by (simp flip: mset_remove1)

lemma and_less_nat: "0 < (n::nat) \<Longrightarrow> m AND (n - 1) < n"
proof -
  assume "0 < n"
  have "int (m AND (n - 1)) \<le> int (n - 1)"
    by (simp add: of_nat_and_eq AND_upper2)
  with \<open>0 < n\<close> show ?thesis by linarith
qed

end
