(* ===== verification/Chain.thy ===== *)
theory Chain
  imports Prelude
begin

text \<open>
  Chained hash tables. The key dictionary (\<open>ArEntry**\<close> in \<open>ar_core.c\<close>) and the field table of a
  HASH value (\<open>ArHashField**\<close> in \<open>ar_types.c\<close>) are the same structure: an array of buckets, each
  a singly linked chain, indexed by FNV-1a masked with the bucket count. A table is a list of
  chains; \<open>key\<close> reads the key of an element. An element is identified by its key where C
  compares pointers: \<open>ct_ok\<close> says that keys are distinct, so the two agree.
  The locale \<open>keyed_store\<close> is the contract of such a table as a finite map; its lemmas are the
  map laws the clients use, and both tables interpret it.
\<close>


section \<open>FNV-1a\<close>

fun fnv_loop :: "nat \<Rightarrow> bytes \<Rightarrow> nat" where
  "fnv_loop h [] = h"
| "fnv_loop h (ch # cs) = fnv_loop (u64 ((h XOR of_char ch) * 1099511628211)) cs"

definition hash_bin :: "bytes \<Rightarrow> nat" where
  "hash_bin s = fnv_loop 1469598103934665603 s"

definition ar_fnv_hash :: "bytes \<Rightarrow> nat" where
  "ar_fnv_hash s = fnv_loop 1469598103934665603 s"

lemma ar_fnv_hash_eq [simp]: "ar_fnv_hash = hash_bin"
  by (rule ext) (simp add: ar_fnv_hash_def hash_bin_def)

text \<open>\<open>hash & (nbuckets - 1)\<close>\<close>

definition ct_bucket :: "bytes \<Rightarrow> nat \<Rightarrow> nat" where
  "ct_bucket k nb = hash_bin k AND (nb - 1)"

lemma ct_bucket_less [simp]: "0 < nb \<Longrightarrow> ct_bucket k nb < nb"
  unfolding ct_bucket_def by (rule and_less_nat)

lemma ct_bucket_1 [simp]: "ct_bucket k (Suc 0) = 0"
  by (simp add: ct_bucket_def)


section \<open>Tables\<close>

definition ct_find :: "('e \<Rightarrow> bytes) \<Rightarrow> 'e list list \<Rightarrow> bytes \<Rightarrow> 'e option" where
  "ct_find key tbl k = find (\<lambda>e. key e = k) (tbl ! ct_bucket k (length tbl))"

definition ct_push :: "('e \<Rightarrow> bytes) \<Rightarrow> 'e list list \<Rightarrow> 'e \<Rightarrow> 'e list list" where
  "ct_push key tbl e = (let b = ct_bucket (key e) (length tbl) in tbl[b := e # tbl ! b])"

fun chain_remove :: "('e \<Rightarrow> bytes) \<Rightarrow> bytes \<Rightarrow> 'e list \<Rightarrow> 'e list" where
  "chain_remove key k [] = []"
| "chain_remove key k (e # es) = (if key e = k then es else e # chain_remove key k es)"

definition ct_unlink :: "('e \<Rightarrow> bytes) \<Rightarrow> 'e list list \<Rightarrow> nat \<Rightarrow> bytes \<Rightarrow> 'e list list" where
  "ct_unlink key tbl b k = tbl[b := chain_remove key k (tbl ! b)]"

definition ct_drop :: "('e \<Rightarrow> bytes) \<Rightarrow> 'e list list \<Rightarrow> bytes \<Rightarrow> 'e list list" where
  "ct_drop key tbl k = ct_unlink key tbl (ct_bucket k (length tbl)) k"

text \<open>A store through an element's pointer, wherever the element is linked.\<close>

definition ct_write :: "('e \<Rightarrow> bytes) \<Rightarrow> 'e list list \<Rightarrow> 'e \<Rightarrow> 'e list list" where
  "ct_write key tbl e = map (map (\<lambda>x. if key x = key e then e else x)) tbl"

definition ct_rehash :: "('e \<Rightarrow> bytes) \<Rightarrow> 'e list list \<Rightarrow> 'e list list" where
  "ct_rehash key tbl = foldl (ct_push key) (replicate (length tbl * 2) []) (concat tbl)"

definition ct_placed :: "('e \<Rightarrow> bytes) \<Rightarrow> 'e list list \<Rightarrow> bool" where
  "ct_placed key tbl \<longleftrightarrow> (\<forall>i < length tbl. \<forall>e \<in> set (tbl ! i). ct_bucket (key e) (length tbl) = i)"

definition ct_ok :: "('e \<Rightarrow> bytes) \<Rightarrow> 'e list list \<Rightarrow> bool" where
  "ct_ok key tbl \<longleftrightarrow> tbl \<noteq> [] \<and> ct_placed key tbl \<and> distinct (map key (concat tbl))"

lemma length_ct_simps [simp]:
  "length (ct_push key tbl e) = length tbl"
  "length (ct_unlink key tbl b k) = length tbl"
  "length (ct_drop key tbl k) = length tbl"
  "length (ct_write key tbl e) = length tbl"
  by (simp_all add: ct_push_def ct_unlink_def ct_drop_def ct_write_def Let_def)

lemma ct_Nil_simps [simp]:
  "ct_push key tbl e = [] \<longleftrightarrow> tbl = []"
  "ct_unlink key tbl b k = [] \<longleftrightarrow> tbl = []"
  "ct_drop key tbl k = [] \<longleftrightarrow> tbl = []"
  "ct_write key tbl e = [] \<longleftrightarrow> tbl = []"
  by (simp_all flip: length_0_conv)

lemma ct_write_Nil [simp]: "ct_write key [] e = []"
  by (simp add: ct_write_def)

lemma ct_placed_Nil [simp]: "ct_placed key []"
  by (simp add: ct_placed_def)

lemma ct_placedD: "ct_placed key tbl \<Longrightarrow> e \<in> set (concat tbl) \<Longrightarrow>
    e \<in> set (tbl ! ct_bucket (key e) (length tbl))"
  by (auto simp: ct_placed_def in_concat_nth simp del: set_concat)

lemma ct_placed_bucket: "ct_placed key tbl \<Longrightarrow> i < length tbl \<Longrightarrow> e \<in> set (tbl ! i) \<Longrightarrow>
    ct_bucket (key e) (length tbl) = i"
  by (simp add: ct_placed_def)


subsection \<open>Removal\<close>

lemma mset_chain_remove:
  "e \<in> set es \<Longrightarrow> distinct (map key es) \<Longrightarrow> mset (chain_remove key (key e) es) = mset es - {#e#}"
  by (induction es) (auto simp: image_iff)

lemma chain_remove_absent: "k \<notin> key ` set es \<Longrightarrow> chain_remove key k es = es"
  by (induction es) auto

lemma set_chain_remove_subset: "set (chain_remove key k es) \<subseteq> set es"
  by (induction es) auto

lemma distinct_keys_nth:
  "distinct (map key (concat tbl)) \<Longrightarrow> i < length tbl \<Longrightarrow> distinct (map key (tbl ! i))"
  by (induction tbl arbitrary: i) (auto simp: nth_Cons split: nat.splits)

lemma mset_ct_unlink:
  assumes "distinct (map key (concat tbl))" and "b < length tbl" and "e \<in> set (tbl ! b)"
  shows "mset (concat (ct_unlink key tbl b (key e))) = mset (concat tbl) - {#e#}"
proof -
  define A where "A = mset (chain_remove key (key e) (tbl ! b))"
  have "A = mset (tbl ! b) - {#e#}"
    using assms by (simp add: A_def mset_chain_remove distinct_keys_nth)
  then have "mset (tbl ! b) = add_mset e A" using assms(3) by simp
  then have "add_mset e (mset (concat (ct_unlink key tbl b (key e)))) + A = mset (concat tbl) + A"
    using mset_concat_update [OF assms(2), of "chain_remove key (key e) (tbl ! b)"]
    by (simp add: ct_unlink_def A_def)
  then have "add_mset e (mset (concat (ct_unlink key tbl b (key e)))) = mset (concat tbl)"
    by (simp only: add_right_cancel)
  then show ?thesis by (metis add_mset_remove_trivial)
qed

lemma ct_placed_unlink: "ct_placed key tbl \<Longrightarrow> ct_placed key (ct_unlink key tbl b k)"
  unfolding ct_placed_def ct_unlink_def
proof (intro allI impI ballI)
  fix i e
  assume p: "\<forall>i<length tbl. \<forall>e\<in>set (tbl ! i). ct_bucket (key e) (length tbl) = i"
    and i: "i < length (tbl[b := chain_remove key k (tbl ! b)])"
    and e: "e \<in> set (tbl[b := chain_remove key k (tbl ! b)] ! i)"
  then have "e \<in> set (tbl ! i)"
    using set_chain_remove_subset [of key k "tbl ! i"] by (cases "i = b") auto
  with p i show "ct_bucket (key e) (length (tbl[b := chain_remove key k (tbl ! b)])) = i" by simp
qed


subsection \<open>Insertion and rehash\<close>

lemma mset_ct_push: "tbl \<noteq> [] \<Longrightarrow> mset (concat (ct_push key tbl e)) = add_mset e (mset (concat tbl))"
  using mset_concat_update [of "ct_bucket (key e) (length tbl)" tbl "e # tbl ! ct_bucket (key e) (length tbl)"]
  by (simp add: ct_push_def Let_def)

lemma ct_placed_push: "tbl \<noteq> [] \<Longrightarrow> ct_placed key tbl \<Longrightarrow> ct_placed key (ct_push key tbl e)"
  by (auto simp: ct_placed_def ct_push_def Let_def nth_list_update)

lemma ct_foldl_push:
  "tbl \<noteq> [] \<Longrightarrow> ct_placed key tbl \<Longrightarrow>
   mset (concat (foldl (ct_push key) tbl es)) = mset es + mset (concat tbl) \<and>
   ct_placed key (foldl (ct_push key) tbl es) \<and> length (foldl (ct_push key) tbl es) = length tbl"
  by (induction es arbitrary: tbl) (auto simp: mset_ct_push ct_placed_push)

lemma ct_placed_empty [simp]: "ct_placed key (replicate n [])"
  by (simp add: ct_placed_def)

lemma ct_rehash_props:
  assumes "tbl \<noteq> []"
  shows "mset (concat (ct_rehash key tbl)) = mset (concat tbl)"
    and "ct_placed key (ct_rehash key tbl)"
    and "length (ct_rehash key tbl) = length tbl * 2"
  using ct_foldl_push [of "replicate (length tbl * 2) []" key "concat tbl"] assms
  by (simp_all add: ct_rehash_def)


lemma ct_rehash_Nil [simp]: "ct_rehash key tbl = [] \<longleftrightarrow> tbl = []"
proof (cases "tbl = []")
  case True
  then show ?thesis by (simp add: ct_rehash_def)
next
  case False
  from ct_rehash_props(3) [OF this, of key] False show ?thesis by auto
qed


subsection \<open>Writing an element in place\<close>

lemma concat_ct_write: "concat (ct_write key tbl e) = map (\<lambda>x. if key x = key e then e else x) (concat tbl)"
  by (simp add: ct_write_def map_concat)

lemma map_key_ct_write [simp]: "map key (concat (ct_write key tbl e)) = map key (concat tbl)"
  by (simp add: concat_ct_write)

lemma ct_placed_write: "ct_placed key tbl \<Longrightarrow> ct_placed key (ct_write key tbl e)"
  unfolding ct_placed_def ct_write_def by (auto split: if_splits; metis)

lemma ct_write_absent: "key e \<notin> key ` set (concat tbl) \<Longrightarrow> ct_write key tbl e = tbl"
  unfolding ct_write_def by (intro map_idI) (force simp: image_iff)


section \<open>The contract of a keyed table\<close>

locale keyed_store =
  fixes key :: "'e \<Rightarrow> bytes"
    and items :: "'t \<Rightarrow> 'e list"
    and inv :: "'t \<Rightarrow> bool"
    and lookup :: "'t \<Rightarrow> bytes \<Rightarrow> 'e option"
    and push :: "'t \<Rightarrow> 'e \<Rightarrow> 't"
    and remove :: "'t \<Rightarrow> bytes \<Rightarrow> 't"
    and store :: "'t \<Rightarrow> 'e \<Rightarrow> 't"
    and grow :: "'t \<Rightarrow> 't"
  assumes inv_distinct: "inv t \<Longrightarrow> distinct (map key (items t))"
    and lookup_iff: "inv t \<Longrightarrow> lookup t k = Some e \<longleftrightarrow> e \<in> set (items t) \<and> key e = k"
    and inv_push: "inv t \<Longrightarrow> lookup t (key e) = None \<Longrightarrow> inv (push t e)"
    and items_push: "inv t \<Longrightarrow> lookup t (key e) = None \<Longrightarrow>
           mset (items (push t e)) = add_mset e (mset (items t))"
    and inv_remove: "inv t \<Longrightarrow> lookup t k = Some e \<Longrightarrow> inv (remove t k)"
    and items_remove: "inv t \<Longrightarrow> lookup t k = Some e \<Longrightarrow>
           mset (items (remove t k)) = mset (items t) - {#e#}"
    and inv_store: "inv t \<Longrightarrow> lookup t (key e) = Some e0 \<Longrightarrow> inv (store t e)"
    and items_store: "inv t \<Longrightarrow> lookup t (key e) = Some e0 \<Longrightarrow>
           mset (items (store t e)) = add_mset e (mset (items t) - {#e0#})"
    and inv_grow: "inv t \<Longrightarrow> inv (grow t)"
    and items_grow: "inv t \<Longrightarrow> mset (items (grow t)) = mset (items t)"
begin

lemma lookup_None: "inv t \<Longrightarrow> lookup t k = None \<longleftrightarrow> k \<notin> key ` set (items t)"
  by (metis (no_types, lifting) image_iff lookup_iff not_Some_eq)

lemma lookup_cong_mset:
  assumes "inv t" and "inv t'" and "mset (items t') = mset (items t)"
  shows "lookup t' = lookup t"
proof
  fix k
  have "set (items t') = set (items t)" using assms(3) by (rule mset_eq_setD)
  then show "lookup t' k = lookup t k"
    using lookup_iff [OF assms(1)] lookup_iff [OF assms(2)] by (metis not_Some_eq)
qed

lemma lookup_grow: "inv t \<Longrightarrow> lookup (grow t) = lookup t"
  by (rule lookup_cong_mset) (simp_all add: inv_grow items_grow)

lemma lookup_push:
  assumes "inv t" and "lookup t (key e) = None"
  shows "lookup (push t e) = (lookup t)(key e \<mapsto> e)"
proof
  fix k
  have s: "set (items (push t e)) = insert e (set (items t))"
    using arg_cong [OF items_push [OF assms], of set_mset] by simp
  have i: "inv (push t e)" using assms by (rule inv_push)
  show "lookup (push t e) k = ((lookup t)(key e \<mapsto> e)) k"
  proof (cases "k = key e")
    case True
    with s show ?thesis by (simp add: lookup_iff [OF i])
  next
    case False
    then have "\<And>x. lookup (push t e) k = Some x \<longleftrightarrow> lookup t k = Some x"
      using s by (auto simp: lookup_iff [OF i] lookup_iff [OF assms(1)])
    with False show ?thesis by (metis fun_upd_other not_Some_eq)
  qed
qed

lemma lookup_remove:
  assumes "inv t" and "lookup t k = Some e"
  shows "lookup (remove t k) = (lookup t)(k := None)"
proof
  fix k'
  have i: "inv (remove t k)" using assms by (rule inv_remove)
  have e: "e \<in> set (items t)" "key e = k" using assms by (simp_all add: lookup_iff)
  have d: "distinct (map key (items t))" using assms(1) by (rule inv_distinct)
  then have "distinct (items t)" by (simp add: distinct_map)
  then have s: "set (items (remove t k)) = set (items t) - {e}"
    using arg_cong [OF items_remove [OF assms], of set_mset] by (simp add: set_mset_minus_distinct)
  have "\<And>x. x \<in> set (items (remove t k)) \<and> key x = k' \<longleftrightarrow>
      x \<in> set (items t) \<and> key x = k' \<and> k' \<noteq> k"
    using s e d by (auto simp: distinct_map inj_on_def)
  then have "\<And>x. lookup (remove t k) k' = Some x \<longleftrightarrow> ((lookup t)(k := None)) k' = Some x"
    by (auto simp: lookup_iff [OF i] lookup_iff [OF assms(1)])
  then show "lookup (remove t k) k' = ((lookup t)(k := None)) k'" by (metis not_Some_eq)
qed

lemma lookup_store:
  assumes "inv t" and "lookup t (key e) = Some e0"
  shows "lookup (store t e) = (lookup t)(key e \<mapsto> e)"
proof
  fix k
  have i: "inv (store t e)" using assms by (rule inv_store)
  have e0: "e0 \<in> set (items t)" "key e0 = key e" using assms by (simp_all add: lookup_iff)
  have d: "distinct (map key (items t))" using assms(1) by (rule inv_distinct)
  then have "distinct (items t)" by (simp add: distinct_map)
  then have s: "set (items (store t e)) = insert e (set (items t) - {e0})"
    using arg_cong [OF items_store [OF assms], of set_mset] by (simp add: set_mset_minus_distinct)
  have "x = e0" if "x \<in> set (items t)" "key x = key e" for x
    using d that e0 by (metis distinct_map inj_onD)
  then have "x \<in> set (items (store t e)) \<and> key x = k \<longleftrightarrow>
      (if k = key e then x = e else x \<in> set (items t) \<and> key x = k)" for x
    unfolding s using e0(2) by (cases "k = key e") auto
  then have "\<And>x. lookup (store t e) k = Some x \<longleftrightarrow> ((lookup t)(key e \<mapsto> e)) k = Some x"
    by (auto simp: lookup_iff [OF i] lookup_iff [OF assms(1)])
  then show "lookup (store t e) k = ((lookup t)(key e \<mapsto> e)) k" by (metis not_Some_eq)
qed

end


section \<open>Chained tables meet the contract\<close>

lemma find_key_iff:
  "distinct (map key xs) \<Longrightarrow> find (\<lambda>x. key x = k) xs = Some e \<longleftrightarrow> e \<in> set xs \<and> key e = k"
  by (induction xs) (auto simp: image_iff)

lemma ct_find_iff:
  assumes "ct_ok key tbl"
  shows "ct_find key tbl k = Some e \<longleftrightarrow> e \<in> set (concat tbl) \<and> key e = k"
proof -
  let ?b = "ct_bucket k (length tbl)"
  have b: "?b < length tbl" using assms by (simp add: ct_ok_def)
  have "distinct (map key (tbl ! ?b))" using assms b by (simp add: ct_ok_def distinct_keys_nth)
  then have "ct_find key tbl k = Some e \<longleftrightarrow> e \<in> set (tbl ! ?b) \<and> key e = k"
    unfolding ct_find_def by (rule find_key_iff)
  also have "\<dots> \<longleftrightarrow> e \<in> set (concat tbl) \<and> key e = k"
    using assms nth_subset_concat [OF b] ct_placedD [of key tbl e] by (auto simp: ct_ok_def simp del: set_concat)
  finally show ?thesis .
qed

lemma ct_find_None: "ct_ok key tbl \<Longrightarrow> ct_find key tbl k = None \<longleftrightarrow> k \<notin> key ` set (concat tbl)"
  using ct_find_iff [of key tbl k] by (metis (no_types, lifting) image_iff not_Some_eq)

lemma ct_ok_push: "ct_ok key tbl \<Longrightarrow> ct_find key tbl (key e) = None \<Longrightarrow> ct_ok key (ct_push key tbl e)"
proof -
  assume ok: "ct_ok key tbl" and new: "ct_find key tbl (key e) = None"
  from ok new have "key e \<notin> key ` set (concat tbl)" by (simp only: ct_find_None simp_thms)
  moreover have "mset (concat (ct_push key tbl e)) = mset (e # concat tbl)"
    using ok by (simp add: mset_ct_push ct_ok_def)
  then have "distinct (map key (concat (ct_push key tbl e))) = distinct (map key (e # concat tbl))"
    by (rule mset_eq_distinct_map)
  ultimately show ?thesis using ok by (simp add: ct_ok_def ct_placed_push del: set_concat)
qed

lemma ct_bucket_in:
  "ct_ok key tbl \<Longrightarrow> ct_find key tbl k = Some e \<Longrightarrow> e \<in> set (tbl ! ct_bucket k (length tbl)) \<and> key e = k"
  using ct_find_iff ct_placedD by (metis ct_ok_def)

lemma mset_ct_drop:
  assumes "ct_ok key tbl" and "ct_find key tbl k = Some e"
  shows "mset (concat (ct_drop key tbl k)) = mset (concat tbl) - {#e#}"
proof -
  have e: "e \<in> set (tbl ! ct_bucket k (length tbl))" "key e = k"
    using ct_bucket_in [OF assms] by auto
  have "mset (concat (ct_unlink key tbl (ct_bucket k (length tbl)) (key e))) = mset (concat tbl) - {#e#}"
    using assms(1) e by (intro mset_ct_unlink) (auto simp: ct_ok_def)
  with e show ?thesis by (simp add: ct_drop_def)
qed

lemma distinct_sub_mset:
  assumes "distinct zs" and "mset ys \<subseteq># mset zs"
  shows "distinct ys"
proof -
  obtain ds where "mset zs = mset (ys @ ds)"
    using assms(2) by (metis ex_mset mset_append mset_subset_eq_exists_conv)
  then have "distinct (ys @ ds)" using assms(1) mset_eq_imp_distinct_iff by blast
  then show ?thesis by simp
qed

lemma ct_ok_unlink:
  assumes "ct_ok key tbl"
  shows "ct_ok key (ct_unlink key tbl b k)"
proof (cases "b < length tbl \<and> k \<in> key ` set (tbl ! b)")
  case True
  then obtain e where e: "e \<in> set (tbl ! b)" "k = key e" and b: "b < length tbl" by auto
  have "mset (concat (ct_unlink key tbl b k)) = mset (concat tbl) - {#e#}"
    unfolding e(2) using assms b e(1) by (intro mset_ct_unlink) (simp_all add: ct_ok_def)
  then have "mset (map key (concat (ct_unlink key tbl b k))) \<subseteq># mset (map key (concat tbl))"
    by (metis diff_subset_eq_self image_mset_subseteq_mono mset_map)
  then have "distinct (map key (concat (ct_unlink key tbl b k)))"
    using assms by (blast intro: distinct_sub_mset dest: ct_ok_def [THEN iffD1])
  with assms show ?thesis by (simp add: ct_ok_def ct_placed_unlink)
next
  case False
  then have "ct_unlink key tbl b k = tbl"
    by (cases "b < length tbl") (auto simp: ct_unlink_def chain_remove_absent list_update_beyond)
  with assms show ?thesis by simp
qed

lemma ct_ok_drop: "ct_ok key tbl \<Longrightarrow> ct_ok key (ct_drop key tbl k)"
  by (simp add: ct_drop_def ct_ok_unlink)

lemma ct_ok_store: "ct_ok key tbl \<Longrightarrow> ct_ok key (ct_write key tbl e)"
  by (simp add: ct_ok_def ct_placed_write)

lemma mset_ct_store:
  assumes "ct_ok key tbl" and "ct_find key tbl (key e) = Some e0"
  shows "mset (concat (ct_write key tbl e)) = add_mset e (mset (concat tbl) - {#e0#})"
proof -
  have e0: "e0 \<in> set (concat tbl)" "key e0 = key e" using assms by (simp_all add: ct_find_iff)
  have "concat (ct_write key tbl e) = map (\<lambda>x. if key x = key e0 then e else x) (concat tbl)"
    using e0(2) by (simp add: concat_ct_write)
  moreover have "mset (map (\<lambda>x. if key x = key e0 then (\<lambda>_. e) x else x) (concat tbl))
      = add_mset ((\<lambda>_. e) e0) (mset (concat tbl) - {#e0#})"
    using assms(1) e0(1) by (intro map_if_distinct_mset) (simp add: ct_ok_def)
  ultimately show ?thesis by simp
qed

lemma ct_ok_rehash: "ct_ok key tbl \<Longrightarrow> ct_ok key (ct_rehash key tbl)"
proof -
  assume ok: "ct_ok key tbl"
  then have ne: "tbl \<noteq> []" by (simp add: ct_ok_def)
  have "distinct (map key (concat (ct_rehash key tbl)))"
    using ok mset_eq_distinct_map [OF ct_rehash_props(1) [OF ne]] by (auto simp: ct_ok_def)
  moreover have "ct_rehash key tbl \<noteq> []" using ct_rehash_props(3) [OF ne, of key] ne by auto
  ultimately show ?thesis by (simp add: ct_ok_def ct_rehash_props(2) [OF ne])
qed

text \<open>The generic table as an instance, for any key function; the components instantiate it.\<close>

lemma ct_keyed_store:
  "keyed_store key concat (ct_ok key) (ct_find key) (ct_push key) (ct_drop key) (ct_write key) (ct_rehash key)"
proof
  show "\<And>t. ct_ok key t \<Longrightarrow> distinct (map key (concat t))" by (simp add: ct_ok_def)
  show "\<And>t k e. ct_ok key t \<Longrightarrow> (ct_find key t k = Some e) = (e \<in> set (concat t) \<and> key e = k)"
    by (rule ct_find_iff)
  show "\<And>t. ct_ok key t \<Longrightarrow> mset (concat (ct_rehash key t)) = mset (concat t)"
    by (simp add: ct_rehash_props ct_ok_def)
qed (simp_all add: ct_ok_push ct_ok_drop mset_ct_drop ct_ok_store mset_ct_store ct_ok_rehash
      mset_ct_push ct_ok_def [THEN iffD1])

end
