(* ===== verification/Model.thy ===== *)
theory Model
  imports Chain
begin

text \<open>
  The data of \<open>ar_internal.h\<close>: values, entries, client connections and the core state
  \<open>struct ArCore\<close>. Pointers and lengths become lists: a chain is a list of entries, a table a
  list of chains (\<open>[]\<close> is the \<open>NULL\<close> cold table of the flat layout), a counted buffer a byte
  list. The tagged union \<open>type/val/obj\<close> of \<open>ArEntry\<close> is the datatype \<open>payload\<close>. Doubles are
  their IEEE-754 bit patterns, with the comparisons of the C code defined on them.
  Four fields of \<open>core\<close> stand for what the process reads from outside while a command runs:
  the wall clock \<open>now_ms\<close> (one reading per command), the stream \<open>rand_src\<close> of \<open>rand()\<close> with the
  position \<open>rand_pos\<close> reached in it, and \<open>alloc_ok\<close>, whether the allocator serves the requests
  of the command.
\<close>


section \<open>Values\<close>

datatype artype = TString | THash | TList | TZset

text \<open>The tag's numeric order, \<open>enum ArType\<close>.\<close>

fun tag :: "artype \<Rightarrow> nat" where
  "tag TString = 0"
| "tag THash = 1"
| "tag TList = 2"
| "tag TZset = 3"

lemma tag_eq [simp]: "tag a = tag b \<longleftrightarrow> a = b"
  by (cases a; cases b) simp_all

instantiation artype :: linorder
begin

definition less_eq_artype :: "artype \<Rightarrow> artype \<Rightarrow> bool" where
  "less_eq_artype a b \<longleftrightarrow> tag a \<le> tag b"

definition less_artype :: "artype \<Rightarrow> artype \<Rightarrow> bool" where
  "less_artype a b \<longleftrightarrow> tag a < tag b"

instance
  by standard (auto simp: less_eq_artype_def less_artype_def antisym_conv)

end

definition ar_type_name :: "artype \<Rightarrow> bytes" where
  "ar_type_name t = (case t of TString \<Rightarrow> ''string'' | THash \<Rightarrow> ''hash'' | TList \<Rightarrow> ''list''
     | TZset \<Rightarrow> ''zset'')"

record hfield =
  hf_field :: bytes
  hf_val :: bytes

record arhash =
  h_buckets :: "hfield list list"
  h_nfields :: nat

type_synonym f64 = nat

record znode =
  z_member :: bytes
  z_score :: f64

record arzset =
  z_arr :: "znode list"
  z_cap :: nat

datatype payload = PStr bytes | PHash arhash | PList "bytes list" | PZset arzset

fun payload_type :: "payload \<Rightarrow> artype" where
  "payload_type (PStr _) = TString"
| "payload_type (PHash _) = THash"
| "payload_type (PList _) = TList"
| "payload_type (PZset _) = TZset"

text \<open>
  A double is its 64-bit pattern: sign in bit 63, and for values that are not NaN the order is
  that of sign and magnitude, with both zeros equal. A comparison with a NaN is false.
\<close>

definition f64_is_nan :: "f64 \<Rightarrow> bool" where
  "f64_is_nan d = (d mod 2 ^ 63 > 9218868437227405312)"

definition f64_key :: "f64 \<Rightarrow> int" where
  "f64_key d = (if d < 2 ^ 63 then int d else - int (d mod 2 ^ 63))"

definition f64_lt :: "f64 \<Rightarrow> f64 \<Rightarrow> bool" where
  "f64_lt a b = (\<not> f64_is_nan a \<and> \<not> f64_is_nan b \<and> f64_key a < f64_key b)"


section \<open>Entries\<close>

record entry =
  ekey :: bytes
  epay :: payload
  last_access :: nat
  lfu_freq :: nat
  pinned :: bool
  expire_at :: nat

abbreviation etype :: "entry \<Rightarrow> artype" where
  "etype e \<equiv> payload_type (epay e)"

text \<open>Sizes of the C structures (LP64), as the accounting adds them.\<close>

definition sizeof_ArEntry :: nat where "sizeof_ArEntry = 80"
definition sizeof_ArHash :: nat where "sizeof_ArHash = 24"
definition sizeof_ArHashField :: nat where "sizeof_ArHashField = 40"
definition sizeof_ptr :: nat where "sizeof_ptr = 8"
definition sizeof_ArList :: nat where "sizeof_ArList = 24"
definition sizeof_ArListNode :: nat where "sizeof_ArListNode = 32"
definition sizeof_ArZSet :: nat where "sizeof_ArZSet = 24"
definition sizeof_ArZNode :: nat where "sizeof_ArZNode = 24"

definition hash_obj_bytes :: "arhash \<Rightarrow> nat" where
  "hash_obj_bytes h = sizeof_ArHash + length (h_buckets h) * sizeof_ptr +
     sum_list (map (\<lambda>f. sizeof_ArHashField + length (hf_field f) + length (hf_val f))
       (concat (h_buckets h)))"

definition list_obj_bytes :: "bytes list \<Rightarrow> nat" where
  "list_obj_bytes l = sizeof_ArList + sum_list (map (\<lambda>x. sizeof_ArListNode + length x) l)"

definition zset_obj_bytes :: "arzset \<Rightarrow> nat" where
  "zset_obj_bytes z = sizeof_ArZSet + z_cap z * sizeof_ArZNode +
     sum_list (map (\<lambda>x. length (z_member x)) (z_arr z))"

fun payload_bytes :: "payload \<Rightarrow> nat" where
  "payload_bytes (PStr v) = length v"
| "payload_bytes (PHash h) = hash_obj_bytes h"
| "payload_bytes (PList l) = list_obj_bytes l"
| "payload_bytes (PZset z) = zset_obj_bytes z"

definition ar_entry_payload_bytes :: "entry \<Rightarrow> nat" where
  "ar_entry_payload_bytes e = payload_bytes (epay e)"

definition etotal :: "entry \<Rightarrow> nat" where
  "etotal e = length (ekey e) + ar_entry_payload_bytes e + sizeof_ArEntry"


section \<open>Connections and the core\<close>

datatype layout = Flat | HotCold
datatype tier = Hot | Cold
datatype evict_ops = EvNoop | EvLru | EvLfu | EvTtl | EvSlru | EvTinylfu | EvRandom | EvRr

record conn =
  in_use :: bool
  rbuf :: bytes
  wbuf :: bytes
  should_close :: bool
  authenticated :: bool
  last_active_ms :: nat
  is_replica :: bool
  is_master_link :: bool
  in_multi :: bool
  multi_q :: "bytes list list"
  watch_dirty :: bool
  watch_keys :: "bytes list"
  pubsub_mode :: bool
  sub_channels :: "bytes list"
  client_id :: nat
  peer_addr :: bytes
  conn_name :: bytes
  ctime_ms :: nat
  last_cmd :: bytes
  is_tls :: bool
  ssl_hs_done :: bool

record slow_entry =
  sl_id :: nat
  sl_unix_ts :: nat
  sl_duration_us :: nat
  sl_args :: "bytes list"

text \<open>The fields of the snapshots.\<close>

record rdb =
  rdb_dir :: bytes
  rdb_filename :: bytes
  rdb_last_save_time :: nat
  rdb_bgsave_pid :: nat
  rdb_loading :: bool
  rdb_last_bgsave_ok :: bool

text \<open>
  Configuration and operational state of \<open>ArCore\<close> that the dictionary code does not read. A descriptor is a
  flag that says whether it is open, the SSL context whether it is set up; \<open>disk\<close> is not a field of \<open>ArCore\<close>
  but the files as the process finds and leaves them.
\<close>

record server =
  shadow_policy :: bytes
  explain_mid :: bytes
  explain_reason :: bytes
  explain_op :: bytes
  explain_evict :: bytes
  explain_layout :: bytes
  explain_join :: bytes
  bind_addr :: bytes
  protected_mode :: bool
  requirepass :: "bytes option"
  maxclients :: int
  timeout_sec :: int
  tcp_backlog :: int
  slowlog_slower_than_us :: int
  slowlog_count :: nat
  cmd_latency_sum_us :: nat
  cmd_latency_samples :: nat
  cmd_lt_1ms :: nat
  cmd_lt_10ms :: nat
  cmd_lt_100ms :: nat
  cmd_ge_100ms :: nat
  slowlog :: "slow_entry list"
  slowlog_len :: nat
  slowlog_head :: nat
  slowlog_next_id :: nat
  slowlog_max_len :: nat
  quit :: bool
  shutting_down :: bool
  policy :: "(bytes \<times> bytes) list"
  next_client_id :: nat
  repl_readonly :: bool
  repl_applying :: bool
  master_host :: bytes
  master_port :: int
  listen_open :: bool
  epoll_open :: bool
  tcp_port :: int
  tls_listen_open :: bool
  tls_port :: int
  tls_cert_file :: bytes
  tls_key_file :: bytes
  tls_ca_file :: bytes
  ssl_ctx :: bool
  config_path :: bytes
  persist :: rdb
  disk :: "bytes \<Rightarrow> bytes option"

record core =
  buckets :: "entry list list"
  cold_buckets :: "entry list list"
  nkeys :: nat
  hot_nkeys :: nat
  cold_nkeys :: nat
  layout :: layout
  layout_gen :: nat
  layout_busy :: bool
  promotions :: nat
  demotions :: nat
  migrates :: nat
  evict :: evict_ops
  evict_plugin :: bool
  evict_samples :: int
  ops :: nat
  gets :: nat
  sets :: nat
  hits :: nat
  misses :: nat
  evicted :: nat
  expired :: nat
  pinned_keys :: nat
  keys_with_ttl :: nat
  expire_at_sum :: nat
  clock :: nat
  maxmemory :: nat
  used_memory :: nat
  type_nkeys :: "artype \<Rightarrow> nat"
  type_bytes :: "artype \<Rightarrow> nat"
  bigkey_bytes :: nat
  bigkey_type :: artype
  hot_soft_cap_pct :: int
  hot_soft_cap_min :: int
  hot_promote_on_get :: bool
  shadow_sample_pct :: int
  shadow_samples :: nat
  shadow_hits :: nat
  shadow_misses :: nat
  shadow_diverges :: nat
  unique_sets :: nat
  plugin_reloads :: nat
  conns :: "conn list"
  srv :: server
  now_ms :: nat
  rand_src :: "nat \<Rightarrow> nat"
  rand_pos :: nat
  alloc_ok :: bool

definition AR_MAX_CONN :: nat where "AR_MAX_CONN = 1024"
definition AR_SLOWLOG_MAX :: nat where "AR_SLOWLOG_MAX = 128"

definition UINT64_MAX :: nat where "UINT64_MAX = 18446744073709551615"

definition conn0 :: conn where
  "conn0 = \<lparr> in_use = False, rbuf = [], wbuf = [], should_close = False, authenticated = False,
     last_active_ms = 0, is_replica = False, is_master_link = False, in_multi = False, multi_q = [],
     watch_dirty = False, watch_keys = [], pubsub_mode = False, sub_channels = [], client_id = 0,
     peer_addr = [], conn_name = [], ctime_ms = 0, last_cmd = [], is_tls = False, ssl_hs_done = False \<rparr>"

definition rdb0 :: rdb where
  "rdb0 = \<lparr> rdb_dir = ''.'', rdb_filename = ''dump.aura-rdb'', rdb_last_save_time = 0, rdb_bgsave_pid = 0,
     rdb_loading = False, rdb_last_bgsave_ok = True \<rparr>"

definition server0 :: server where
  "server0 = \<lparr> shadow_policy = [], explain_mid = [], explain_reason = [], explain_op = [],
     explain_evict = [], explain_layout = [], explain_join = [], bind_addr = ''127.0.0.1'',
     protected_mode = True, requirepass = None, maxclients = 128, timeout_sec = 0,
     tcp_backlog = 512, slowlog_slower_than_us = 10000, slowlog_count = 0,
     cmd_latency_sum_us = 0, cmd_latency_samples = 0, cmd_lt_1ms = 0, cmd_lt_10ms = 0, cmd_lt_100ms = 0, cmd_ge_100ms = 0,
     slowlog = replicate AR_SLOWLOG_MAX \<lparr> sl_id = 0, sl_unix_ts = 0, sl_duration_us = 0, sl_args = [] \<rparr>,
     slowlog_len = 0, slowlog_head = 0, slowlog_next_id = 0, slowlog_max_len = AR_SLOWLOG_MAX,
     quit = False, shutting_down = False, policy = [], next_client_id = 1, repl_readonly = False,
     repl_applying = False, master_host = [], master_port = 0, listen_open = False, epoll_open = False, tcp_port = 0,
     tls_listen_open = False, tls_port = 0, tls_cert_file = [], tls_key_file = [], tls_ca_file = [], ssl_ctx = False,
     config_path = [], persist = rdb0, disk = Map.empty \<rparr>"

text \<open>A core whose tables have \<open>nb\<close> empty chains; \<open>ar_core_create\<close> takes 1024.\<close>

definition core_with :: "nat \<Rightarrow> nat \<Rightarrow> (nat \<Rightarrow> nat) \<Rightarrow> core" where
  "core_with nb now rnd = \<lparr> buckets = replicate nb [], cold_buckets = [], nkeys = 0, hot_nkeys = 0,
     cold_nkeys = 0, layout = Flat, layout_gen = 0, layout_busy = False, promotions = 0,
     demotions = 0, migrates = 0, evict = EvNoop, evict_plugin = False, evict_samples = 16,
     ops = 0, gets = 0, sets = 0, hits = 0, misses = 0, evicted = 0, expired = 0,
     pinned_keys = 0, keys_with_ttl = 0, expire_at_sum = 0, clock = 0, maxmemory = 0,
     used_memory = 0, type_nkeys = (\<lambda>_. 0), type_bytes = (\<lambda>_. 0), bigkey_bytes = 0,
     bigkey_type = TString, hot_soft_cap_pct = 25, hot_soft_cap_min = 256,
     hot_promote_on_get = True, shadow_sample_pct = 0, shadow_samples = 0, shadow_hits = 0,
     shadow_misses = 0, shadow_diverges = 0, unique_sets = 0, plugin_reloads = 0,
     conns = replicate AR_MAX_CONN conn0, srv = server0, now_ms = now, rand_src = rnd,
     rand_pos = 0, alloc_ok = True \<rparr>"

definition ar_core_create :: "nat \<Rightarrow> (nat \<Rightarrow> nat) \<Rightarrow> core" where
  "ar_core_create now rnd = core_with 1024 now rnd"

definition c_rand :: "core \<Rightarrow> core \<times> nat" where
  "c_rand c = (c\<lparr> rand_pos := Suc (rand_pos c) \<rparr>, rand_src c (rand_pos c))"

end
