(* ===== verification/Codec.thy ===== *)
theory Codec
  imports Model
begin

text \<open>
  The byte stream under the snapshot file (\<open>ar_rdb.c\<close>, \<open>wr_*\<close> and \<open>rd_*\<close>). A writer yields the
  bytes it appends, or \<open>None\<close> where the C function returns 0; a reader takes the rest of the file
  and yields the value and what follows it, or \<open>None\<close> on a short or oversized read. The locale
  \<open>codec\<close> is what a writer and its reader owe each other; its lemmas lift the round trip to the
  counted sequences the file is made of.
\<close>


section \<open>The primitives\<close>

definition AURA_RDB_MAX_BLOB :: nat where "AURA_RDB_MAX_BLOB = 16777216"
definition AURA_RDB_MAX_ELEMS :: nat where "AURA_RDB_MAX_ELEMS = 1000000"
definition BLOB_WRITE_MAX :: nat where "BLOB_WRITE_MAX = 2147483647"

text \<open>\<open>(unsigned char)(v >> 8 * i)\<close> for \<open>i < n\<close>, and the sum that reads it back.\<close>

fun le_bytes :: "nat \<Rightarrow> nat \<Rightarrow> bytes" where
  "le_bytes 0 v = []"
| "le_bytes (Suc n) v = char_of v # le_bytes n (drop_bit 8 v)"

fun le_value :: "bytes \<Rightarrow> nat" where
  "le_value [] = 0"
| "le_value (b # bs) = of_char b OR push_bit 8 (le_value bs)"

definition fread :: "nat \<Rightarrow> bytes \<Rightarrow> (bytes \<times> bytes) option" where
  "fread n s = (if length s < n then None else Some (take n s, drop n s))"

definition wr_u8 :: "nat \<Rightarrow> bytes option" where
  "wr_u8 v = Some (le_bytes 1 v)"

definition wr_u32 :: "nat \<Rightarrow> bytes option" where
  "wr_u32 v = Some (le_bytes 4 v)"

definition wr_u64 :: "nat \<Rightarrow> bytes option" where
  "wr_u64 v = Some (le_bytes 8 v)"

text \<open>\<open>memcpy\<close> of a double: its bit pattern, least significant byte first on the hosts supported.\<close>

definition wr_f64 :: "f64 \<Rightarrow> bytes option" where
  "wr_f64 d = Some (le_bytes 8 d)"

definition wr_blob :: "bytes \<Rightarrow> bytes option" where
  "wr_blob p = (if length p > BLOB_WRITE_MAX then None
     else case wr_u32 (length p) of None \<Rightarrow> None | Some h \<Rightarrow> Some (h @ p))"

definition rd_u8 :: "bytes \<Rightarrow> (nat \<times> bytes) option" where
  "rd_u8 s = map_option (\<lambda>(b, r). (le_value b, r)) (fread 1 s)"

definition rd_u32 :: "bytes \<Rightarrow> (nat \<times> bytes) option" where
  "rd_u32 s = map_option (\<lambda>(b, r). (le_value b, r)) (fread 4 s)"

definition rd_u64 :: "bytes \<Rightarrow> (nat \<times> bytes) option" where
  "rd_u64 s = map_option (\<lambda>(b, r). (le_value b, r)) (fread 8 s)"

definition rd_f64 :: "bytes \<Rightarrow> (f64 \<times> bytes) option" where
  "rd_f64 s = map_option (\<lambda>(b, r). (le_value b, r)) (fread 8 s)"

definition rd_blob :: "bytes \<Rightarrow> (bytes \<times> bytes) option" where
  "rd_blob s = (case rd_u32 s of None \<Rightarrow> None
     | Some (n, r) \<Rightarrow> if n > AURA_RDB_MAX_BLOB then None else fread n r)"

lemma length_le_bytes [simp]: "length (le_bytes n v) = n"
  by (induction n arbitrary: v) simp_all

lemma or_shifted:
  fixes a b :: nat
  assumes "a < 256"
  shows "a OR push_bit 8 b = a + 256 * b"
proof -
  have "a AND push_bit 8 b = 0"
  proof (rule bit_eqI)
    fix n
    have "\<not> bit a n" if "8 \<le> n"
    proof -
      have "a < 2 ^ n" using assms power_increasing [OF that, of "2 :: nat"] by simp
      then show ?thesis by (simp add: bit_iff_odd)
    qed
    then show "bit (a AND push_bit 8 b) n \<longleftrightarrow> bit 0 n"
      by (auto simp: bit_simps)
  qed
  then show ?thesis by (simp add: disjunctive_add_eq_or [symmetric] push_bit_eq_mult)
qed

lemma le_value_Cons: "le_value (b # bs) = of_char b + 256 * le_value bs"
  by (simp add: or_shifted)

lemma le_value_bytes: "le_value (le_bytes n v) = v mod 256 ^ n"
proof (induction n arbitrary: v)
  case (Suc n)
  have "le_value (le_bytes (Suc n) v) = v mod 256 + 256 * ((v div 256) mod 256 ^ n)"
    unfolding le_bytes.simps le_value_Cons Suc.IH by (simp add: drop_bit_eq_div)
  also have "\<dots> = v mod (256 * 256 ^ n)" by (simp add: mod_mult2_eq)
  finally show ?case by simp
qed simp

lemma fread_append [simp]: "length p = n \<Longrightarrow> fread n (p @ r) = Some (p, r)"
  by (simp add: fread_def)

lemma fread_Some: "fread n s = Some (p, r) \<longleftrightarrow> s = p @ r \<and> length p = n"
  by (auto simp: fread_def)


section \<open>The contract of a codec\<close>

text \<open>Write a counted run of items, read one back, in the order of the file.\<close>

fun wr_all :: "('a \<Rightarrow> bytes option) \<Rightarrow> 'a list \<Rightarrow> bytes option" where
  "wr_all enc [] = Some []"
| "wr_all enc (x # xs) =
     (case enc x of None \<Rightarrow> None | Some b \<Rightarrow> map_option ((@) b) (wr_all enc xs))"

fun rd_times :: "(bytes \<Rightarrow> ('a \<times> bytes) option) \<Rightarrow> nat \<Rightarrow> bytes \<Rightarrow> ('a list \<times> bytes) option" where
  "rd_times dec 0 s = Some ([], s)"
| "rd_times dec (Suc n) s =
     (case dec s of None \<Rightarrow> None
      | Some (x, s) \<Rightarrow> (case rd_times dec n s of None \<Rightarrow> None | Some (xs, s) \<Rightarrow> Some (x # xs, s)))"

definition wr_pair :: "('a \<Rightarrow> bytes option) \<Rightarrow> ('b \<Rightarrow> bytes option) \<Rightarrow> 'a \<times> 'b \<Rightarrow> bytes option" where
  "wr_pair wa wb x = (case wa (fst x) of None \<Rightarrow> None
     | Some p \<Rightarrow> (case wb (snd x) of None \<Rightarrow> None | Some q \<Rightarrow> Some (p @ q)))"

definition rd_pair :: "(bytes \<Rightarrow> ('a \<times> bytes) option) \<Rightarrow> (bytes \<Rightarrow> ('b \<times> bytes) option) \<Rightarrow>
    bytes \<Rightarrow> (('a \<times> 'b) \<times> bytes) option" where
  "rd_pair ra rb s = (case ra s of None \<Rightarrow> None
     | Some (x, s) \<Rightarrow> (case rb s of None \<Rightarrow> None | Some (y, s) \<Rightarrow> Some ((x, y), s)))"

text \<open>
  \<open>fits\<close> are the values both sides accept. Reading takes back what was written and leaves what
  follows; it uses at least one byte, and what follows the bytes it uses does not change its answer.
\<close>

locale codec =
  fixes enc :: "'a \<Rightarrow> bytes option"
    and dec :: "bytes \<Rightarrow> ('a \<times> bytes) option"
    and fits :: "'a \<Rightarrow> bool"
  assumes written: "fits x \<Longrightarrow> enc x \<noteq> None"
    and reads_back: "fits x \<Longrightarrow> enc x = Some b \<Longrightarrow> dec (b @ r) = Some (x, r)"
    and consumes: "dec s = Some (x, r) \<Longrightarrow> length r < length s"
    and extends: "dec s = Some (x, r) \<Longrightarrow> dec (s @ u) = Some (x, r @ u)"
begin

lemma all_written: "\<forall>x \<in> set xs. fits x \<Longrightarrow> wr_all enc xs \<noteq> None"
  using written by (induction xs) (auto split: option.splits)

lemma all_read_back:
  "\<forall>x \<in> set xs. fits x \<Longrightarrow> wr_all enc xs = Some b \<Longrightarrow> rd_times dec (length xs) (b @ r) = Some (xs, r)"
proof (induction xs arbitrary: b)
  case (Cons x xs)
  obtain p q where pq: "enc x = Some p" "wr_all enc xs = Some q" "b = p @ q"
    using Cons.prems(2) by (auto split: option.splits)
  have "dec (p @ q @ r) = Some (x, q @ r)" using reads_back Cons.prems(1) pq(1) by simp
  then show ?case using Cons.IH [OF _ pq(2)] Cons.prems(1) pq(3) by simp
qed simp

lemma times_consume: "rd_times dec n s = Some (xs, r) \<Longrightarrow> length r + n \<le> length s \<and> length xs = n"
proof (induction n arbitrary: s xs)
  case (Suc n)
  then obtain x s1 ys where 1: "dec s = Some (x, s1)" "rd_times dec n s1 = Some (ys, r)" "xs = x # ys"
    by (auto split: option.splits)
  then show ?case using consumes [OF 1(1)] Suc.IH [OF 1(2)] by simp
qed simp

lemma times_extend: "rd_times dec n s = Some (xs, r) \<Longrightarrow> rd_times dec n (s @ u) = Some (xs, r @ u)"
proof (induction n arbitrary: s xs)
  case (Suc n)
  then obtain x s1 ys where 1: "dec s = Some (x, s1)" "rd_times dec n s1 = Some (ys, r)" "xs = x # ys"
    by (auto split: option.splits)
  then show ?case using extends [OF 1(1)] Suc.IH [OF 1(2)] by simp
qed simp

text \<open>What was written decides what was meant: no two runs of the same length share an image.\<close>

lemma all_injective:
  assumes "\<forall>x \<in> set xs. fits x" and "\<forall>x \<in> set ys. fits x" and "length xs = length ys"
    and "wr_all enc xs = Some b" and "wr_all enc ys = Some b"
  shows "xs = ys"
  using all_read_back [OF assms(1,4), of "[]"] all_read_back [OF assms(2,5), of "[]"] assms(3) by simp

end

lemma fread_extends: "fread n s = Some (p, r) \<Longrightarrow> fread n (s @ u) = Some (p, r @ u)"
  by (auto simp: fread_Some)

lemma fread_consumes: "fread n s = Some (p, r) \<Longrightarrow> 0 < n \<Longrightarrow> length r < length s"
  by (auto simp: fread_Some)

interpretation u8: codec wr_u8 rd_u8 "\<lambda>v. v < 2 ^ 8"
  by unfold_locales (auto simp: wr_u8_def rd_u8_def le_value_bytes simp del: le_bytes.simps
      dest: fread_consumes fread_extends)

interpretation u32: codec wr_u32 rd_u32 "\<lambda>v. v < 2 ^ 32"
  by unfold_locales (auto simp: wr_u32_def rd_u32_def le_value_bytes simp del: le_bytes.simps
      dest: fread_consumes fread_extends)

interpretation u64: codec wr_u64 rd_u64 "\<lambda>v. v < 2 ^ 64"
  by unfold_locales (auto simp: wr_u64_def rd_u64_def le_value_bytes simp del: le_bytes.simps
      dest: fread_consumes fread_extends)

interpretation f64: codec wr_f64 rd_f64 "\<lambda>v. v < 2 ^ 64"
  by unfold_locales (auto simp: wr_f64_def rd_f64_def le_value_bytes simp del: le_bytes.simps
      dest: fread_consumes fread_extends)

lemma rd_blob_consumes: "rd_blob s = Some (p, r) \<Longrightarrow> length r < length s"
  using u32.consumes [of s] by (auto simp: rd_blob_def fread_Some split: option.splits if_splits)

interpretation blob: codec wr_blob rd_blob "\<lambda>p. length p \<le> AURA_RDB_MAX_BLOB"
proof unfold_locales
  fix x b r assume f: "length (x :: bytes) \<le> AURA_RDB_MAX_BLOB" and e: "wr_blob x = Some b"
  obtain h where h: "wr_u32 (length x) = Some h" "b = h @ x"
    using e by (auto simp: wr_blob_def split: option.splits if_splits)
  have "rd_u32 (h @ x @ r) = Some (length x, x @ r)"
    using u32.reads_back [OF _ h(1)] f by (simp add: AURA_RDB_MAX_BLOB_def)
  then show "rd_blob (b @ r) = Some (x, r)" using f h(2) by (simp add: rd_blob_def)
next
  fix s x r u assume "rd_blob s = Some (x, r)"
  then obtain n s1 where 1: "rd_u32 s = Some (n, s1)" "n \<le> AURA_RDB_MAX_BLOB" "fread n s1 = Some (x, r)"
    by (auto simp: rd_blob_def split: option.splits if_splits)
  show "rd_blob (s @ u) = Some (x, r @ u)"
    using u32.extends [OF 1(1)] fread_extends [OF 1(3)] 1(2) by (simp add: rd_blob_def)
qed (auto simp: wr_blob_def wr_u32_def AURA_RDB_MAX_BLOB_def BLOB_WRITE_MAX_def dest: rd_blob_consumes)

lemma codec_pair:
  assumes "codec wa ra fa" and "codec wb rb fb"
  shows "codec (wr_pair wa wb) (rd_pair ra rb) (\<lambda>x. fa (fst x) \<and> fb (snd x))"
proof
  fix x b r assume f: "fa (fst x) \<and> fb (snd x)" and e: "wr_pair wa wb x = Some b"
  obtain p q where pq: "wa (fst x) = Some p" "wb (snd x) = Some q" "b = p @ q"
    using e by (auto simp: wr_pair_def split: option.splits)
  have "ra (p @ q @ r) = Some (fst x, q @ r)" "rb (q @ r) = Some (snd x, r)"
    using codec.reads_back [OF assms(1) _ pq(1)] codec.reads_back [OF assms(2) _ pq(2)] f by auto
  then show "rd_pair ra rb (b @ r) = Some (x, r)" by (simp add: rd_pair_def pq(3))
next
  fix s x r assume "rd_pair ra rb s = Some (x, r)"
  then obtain a b s1 where 1: "ra s = Some (a, s1)" "rb s1 = Some (b, r)"
    by (auto simp: rd_pair_def split: option.splits)
  show "length r < length s" using codec.consumes [OF assms(1) 1(1)] codec.consumes [OF assms(2) 1(2)] by simp
  show "rd_pair ra rb (s @ u) = Some (x, r @ u)" for u
    using codec.extends [OF assms(1) 1(1)] codec.extends [OF assms(2) 1(2)] \<open>rd_pair ra rb s = Some (x, r)\<close> 1
    by (simp add: rd_pair_def)
next
  fix x assume "fa (fst x) \<and> fb (snd x)"
  then have "wa (fst x) \<noteq> None" "wb (snd x) \<noteq> None"
    using codec.written [OF assms(1)] codec.written [OF assms(2)] by auto
  then show "wr_pair wa wb x \<noteq> None" by (auto simp: wr_pair_def)
qed

interpretation field: codec "wr_pair wr_blob wr_blob" "rd_pair rd_blob rd_blob"
    "\<lambda>x. length (fst x) \<le> AURA_RDB_MAX_BLOB \<and> length (snd x) \<le> AURA_RDB_MAX_BLOB"
  by (rule codec_pair) (unfold_locales)

interpretation member: codec "wr_pair wr_f64 wr_blob" "rd_pair rd_f64 rd_blob"
    "\<lambda>x. fst x < 2 ^ 64 \<and> length (snd x) \<le> AURA_RDB_MAX_BLOB"
  by (rule codec_pair) (unfold_locales)

end
