(* ===== verification/Resp.thy ===== *)
theory Resp
  imports Codec
begin

text \<open>
  The wire protocol of \<open>ar_server.c\<close>: the command parser (\<open>parse_bulk\<close>, \<open>parse_command\<close>), the reply
  writers and the comparison of command names. A parser works on the bytes from its position on;
  it yields what it read and the bytes that follow, or that more bytes are needed (the C result 0),
  or a protocol error (-1). The commands a client writes are read back exactly; a parser's answer
  does not change when more bytes arrive, with one exception that is stated as such: input that
  stops exactly where the next argument should start is a protocol error, not incomplete.
\<close>


section \<open>Replies\<close>

definition CRLF :: bytes where "CRLF = [CHR 0x0D, CHR 0x0A]"

definition reply_err :: "bytes \<Rightarrow> bytes" where
  "reply_err s = CHR ''-'' # s @ CRLF"

definition reply_int :: "int \<Rightarrow> bytes" where
  "reply_int v = CHR '':'' # show_int v @ CRLF"

definition reply_null_bulk :: bytes where
  "reply_null_bulk = ''$-1'' @ CRLF"

definition reply_null_array :: bytes where
  "reply_null_array = ''*-1'' @ CRLF"

definition reply_bulk :: "bytes \<Rightarrow> bytes" where
  "reply_bulk p = CHR ''$'' # show_nat (length p) @ CRLF @ p @ CRLF"

definition reply_ok :: bytes where "reply_ok = ''+OK'' @ CRLF"
definition reply_pong :: bytes where "reply_pong = ''+PONG'' @ CRLF"

definition resp_append_bulk :: "bytes \<Rightarrow> bytes" where
  "resp_append_bulk p = (CHR ''$'' # show_nat (length p) @ CRLF) @ p @ CRLF"

definition resp_append_array_hdr :: "int \<Rightarrow> bytes" where
  "resp_append_array_hdr argc = CHR ''*'' # show_int argc @ CRLF"

text \<open>A command as \<open>repl_propagate\<close> writes it, which is how a client writes it.\<close>

definition resp_array :: "bytes list \<Rightarrow> bytes" where
  "resp_array argv = resp_append_array_hdr (int (length argv)) @ concat (map resp_append_bulk argv)"


section \<open>Command names\<close>

definition lower :: "char \<Rightarrow> char" where
  "lower ch = (if 65 \<le> (of_char ch :: nat) \<and> (of_char ch :: nat) \<le> 90 then char_of ((of_char ch :: nat) - 65 + 97)
     else ch)"

fun same_letters :: "bytes \<Rightarrow> bytes \<Rightarrow> bool" where
  "same_letters [] [] = True"
| "same_letters (a # as) (b # bs) = (if lower a \<noteq> lower b then False else same_letters as bs)"
| "same_letters _ _ = False"

definition cmd_eq :: "bytes \<Rightarrow> bytes \<Rightarrow> bool" where
  "cmd_eq a lit = (if length a \<noteq> length lit then False else same_letters a lit)"

lemma same_letters_iff: "same_letters a b \<longleftrightarrow> map lower a = map lower b"
  by (induction a b rule: same_letters.induct) auto

lemma cmd_eq_iff: "cmd_eq a lit \<longleftrightarrow> map lower a = map lower lit"
  by (auto simp: cmd_eq_def same_letters_iff dest: arg_cong [of _ _ length])


section \<open>The parser\<close>

definition AR_MAX_ARGV :: nat where "AR_MAX_ARGV = 64"
definition BULK_MAX :: nat where "BULK_MAX = 16777216"

datatype 'a parsed = Parsed 'a bytes | Incomplete | Malformed

text \<open>The length digits of a bulk string: the run and the magnitude are bounded (\<open>None\<close> is -1).\<close>

fun bulk_digits :: "nat \<Rightarrow> nat \<Rightarrow> bytes \<Rightarrow> (nat \<times> nat \<times> bytes) option" where
  "bulk_digits d n [] = Some (d, n, [])"
| "bulk_digits d n (ch # cs) =
     (if is_digit ch then
        if d > 9 \<or> n > BULK_MAX then None else bulk_digits (d + 1) (n * 10 + digit_val ch) cs
      else Some (d, n, ch # cs))"

text \<open>The count of an array has no such bound: a C \<open>long\<close>, which wraps (undefined behaviour in C).\<close>

fun array_digits :: "nat \<Rightarrow> int \<Rightarrow> bytes \<Rightarrow> nat \<times> int \<times> bytes" where
  "array_digits d n [] = (d, n, [])"
| "array_digits d n (ch # cs) =
     (if is_digit ch then array_digits (d + 1) (s64 (n * 10 + int (digit_val ch))) cs else (d, n, ch # cs))"

text \<open>What follows the digits: nothing yet, or carriage return and line feed.\<close>

definition line_end :: "nat \<Rightarrow> bytes \<Rightarrow> unit parsed" where
  "line_end digits s =
     (if digits = 0 then (if s = [] then Incomplete else Malformed)
      else case s of
             [] \<Rightarrow> Incomplete
           | ch # s \<Rightarrow>
               if ch \<noteq> CHR 0x0D then Malformed
               else (case s of
                       [] \<Rightarrow> Incomplete
                     | ch # s \<Rightarrow> if ch \<noteq> CHR 0x0A then Malformed else Parsed () s))"

text \<open>\<open>Parsed None\<close> is the null bulk string.\<close>

definition parse_bulk :: "bytes \<Rightarrow> bytes option parsed" where
  "parse_bulk s =
     (case s of
        [] \<Rightarrow> Malformed
      | ch # s \<Rightarrow>
          if ch \<noteq> CHR ''$'' then Malformed
          else let neg = (s \<noteq> [] \<and> hd s = CHR ''-'');
                   s = (if neg then tl s else s)
               in case bulk_digits 0 0 s of
                    None \<Rightarrow> Malformed
                  | Some (d, n, s) \<Rightarrow>
                      (case line_end d s of
                         Incomplete \<Rightarrow> Incomplete
                       | Malformed \<Rightarrow> Malformed
                       | Parsed _ s \<Rightarrow>
                           if neg then Parsed None s
                           else if n > BULK_MAX then Malformed
                           else if length s < n + 2 then Incomplete
                           else if s ! n \<noteq> CHR 0x0D \<or> s ! (n + 1) \<noteq> CHR 0x0A then Malformed
                           else Parsed (Some (take n s)) (drop (n + 2) s)))"

fun parse_args :: "nat \<Rightarrow> bytes \<Rightarrow> bytes list parsed" where
  "parse_args 0 s = Parsed [] s"
| "parse_args (Suc n) s =
     (case parse_bulk s of
        Incomplete \<Rightarrow> Incomplete
      | Malformed \<Rightarrow> Malformed
      | Parsed None s \<Rightarrow> Malformed
      | Parsed (Some p) s \<Rightarrow>
          (case parse_args n s of
             Incomplete \<Rightarrow> Incomplete
           | Malformed \<Rightarrow> Malformed
           | Parsed ps s \<Rightarrow> Parsed (p # ps) s))"

definition parse_command :: "bytes \<Rightarrow> bytes list parsed" where
  "parse_command s =
     (case s of
        [] \<Rightarrow> Incomplete
      | ch # s \<Rightarrow>
          if ch \<noteq> CHR ''*'' then Malformed
          else (case array_digits 0 0 s of
                  (d, n, s) \<Rightarrow>
                    (case line_end d s of
                       Incomplete \<Rightarrow> Incomplete
                     | Malformed \<Rightarrow> Malformed
                     | Parsed _ s \<Rightarrow>
                         if n < 0 \<or> n > int AR_MAX_ARGV then Malformed else parse_args (nat n) s)))"


section \<open>Commands are read back\<close>

lemma CRLF_not_digit [simp]: "\<not> is_digit (CHR 0x0D)"
  by (simp add: is_digit_def)

lemma line_end_CRLF [simp]: "0 < d \<Longrightarrow> line_end d (CRLF @ s) = Parsed () s"
  by (simp add: line_end_def CRLF_def)

lemma bulk_digits_show:
  "n \<le> BULK_MAX \<Longrightarrow> bulk_digits 0 0 (show_nat n @ s) = bulk_digits (length (show_nat n)) n s"
proof (induction n arbitrary: s rule: show_nat.induct)
  case (1 n)
  show ?case
  proof (cases "n < 10")
    case True
    then show ?thesis by (simp add: show_nat.simps [of n])
  next
    case False
    have len: "length (show_nat (n div 10)) \<le> 8"
      using 1(2) by (intro length_show_nat) (simp_all add: BULK_MAX_def)
    have "bulk_digits 0 0 (show_nat n @ s) = bulk_digits 0 0 (show_nat (n div 10) @ digit_char (n mod 10) # s)"
      using False by (simp add: show_nat.simps [of n])
    also have "\<dots> = bulk_digits (length (show_nat (n div 10))) (n div 10) (digit_char (n mod 10) # s)"
      by (rule 1(1)) (use False 1(2) in simp_all)
    also have "\<dots> = bulk_digits (length (show_nat n)) n s"
      using len False le_trans [OF div_le_dividend 1(2), of 10] by (simp add: show_nat.simps [of n] not_less)
    finally show ?thesis .
  qed
qed

lemma array_digits_show:
  "n < 2 ^ 60 \<Longrightarrow> array_digits 0 0 (show_nat n @ s) = array_digits (length (show_nat n)) (int n) s"
proof (induction n arbitrary: s rule: show_nat.induct)
  case (1 n)
  show ?case
  proof (cases "n < 10")
    case True
    then show ?thesis by (simp add: show_nat.simps [of n] s64_def)
  next
    case False
    have "array_digits 0 0 (show_nat n @ s) = array_digits 0 0 (show_nat (n div 10) @ digit_char (n mod 10) # s)"
      using False by (simp add: show_nat.simps [of n])
    also have "\<dots> = array_digits (length (show_nat (n div 10))) (int (n div 10)) (digit_char (n mod 10) # s)"
      by (rule 1(1)) (use False 1(2) in simp_all)
    also have "\<dots> = array_digits (length (show_nat n)) (s64 (int (n div 10) * 10 + int (n mod 10))) s"
      using False by (simp add: show_nat.simps [of n])
    also have "int (n div 10) * 10 + int (n mod 10) = int n" by (simp add: zdiv_int zmod_int)
    also have "s64 (int n) = int n" using 1(2) by (intro s64_id) (simp_all add: LLONG_MIN_def LLONG_MAX_def)
    finally show ?thesis .
  qed
qed

lemma show_nat_no_minus: "hd (show_nat n @ s) \<noteq> CHR ''-''"
  using hd_show_nat [of n] is_digit_not_sign by simp

lemma digits_CRLF: "bulk_digits d n (CRLF @ s) = Some (d, n, CRLF @ s)" "array_digits d m (CRLF @ s) = (d, m, CRLF @ s)"
  by (simp_all add: CRLF_def)

lemma parse_bulk_print:
  assumes "length p \<le> BULK_MAX"
  shows "parse_bulk (resp_append_bulk p @ s) = Parsed (Some p) s"
proof -
  have "bulk_digits 0 0 (show_nat (length p) @ CRLF @ p @ CRLF @ s) =
      Some (length (show_nat (length p)), length p, CRLF @ p @ CRLF @ s)"
    unfolding bulk_digits_show [OF assms] by (rule digits_CRLF)
  moreover have "(p @ CRLF @ s) ! length p = CHR 0x0D" "(p @ CRLF @ s) ! Suc (length p) = CHR 0x0A"
    by (simp_all add: CRLF_def nth_append)
  ultimately show ?thesis
    using assms show_nat_no_minus [of "length p"]
    by (simp add: resp_append_bulk_def parse_bulk_def Let_def) (simp add: CRLF_def)
qed

lemma parse_args_print:
  "\<forall>p \<in> set ps. length p \<le> BULK_MAX \<Longrightarrow>
   parse_args (length ps) (concat (map resp_append_bulk ps) @ s) = Parsed ps s"
  by (induction ps) (simp_all add: parse_bulk_print)

lemma show_int_nat [simp]: "show_int (int n) = show_nat n"
  by (simp add: show_int_def)

lemma parse_array_hdr:
  assumes "n < 2 ^ 60"
  shows "parse_command (resp_append_array_hdr (int n) @ s) = (if n > AR_MAX_ARGV then Malformed else parse_args n s)"
proof -
  have "array_digits 0 0 (show_nat n @ CRLF @ s) = (length (show_nat n), int n, CRLF @ s)"
    unfolding array_digits_show [OF assms] by (rule digits_CRLF)
  then show ?thesis by (simp add: resp_append_array_hdr_def parse_command_def)
qed

text \<open>What a client writes, the server reads: the same arguments, and the input that follows.\<close>

lemma parse_command_print:
  assumes "length argv \<le> AR_MAX_ARGV" and "\<forall>p \<in> set argv. length p \<le> BULK_MAX"
  shows "parse_command (resp_array argv @ s) = Parsed argv s"
  using assms parse_args_print [OF assms(2)]
  by (simp add: resp_array_def parse_array_hdr AR_MAX_ARGV_def)


section \<open>More input\<close>

lemma bulk_digits_sound:
  "bulk_digits d n s = Some (d', n', r) \<Longrightarrow> \<exists>ds. s = ds @ r \<and> d' = d + length ds \<and> set ds \<subseteq> Collect is_digit \<and>
     (r = [] \<or> \<not> is_digit (hd r))"
proof (induction d n s rule: bulk_digits.induct)
  case (2 d n ch cs)
  show ?case
  proof (cases "is_digit ch")
    case True
    then obtain ds where "cs = ds @ r" "d' = d + 1 + length ds" "set ds \<subseteq> Collect is_digit" "r = [] \<or> \<not> is_digit (hd r)"
      using 2 by (auto split: if_splits)
    then show ?thesis using True by (intro exI [of _ "ch # ds"]) simp
  qed (use 2(2) in auto)
qed auto

lemma bulk_digits_extend:
  "bulk_digits d n s = Some (d', n', r) \<Longrightarrow> r \<noteq> [] \<Longrightarrow> bulk_digits d n (s @ u) = Some (d', n', r @ u)"
  by (induction d n s rule: bulk_digits.induct) (auto split: if_splits)

lemma array_digits_extend:
  "array_digits d n s = (d', n', r) \<Longrightarrow> r \<noteq> [] \<Longrightarrow> array_digits d n (s @ u) = (d', n', r @ u)"
  by (induction d n s rule: array_digits.induct) (auto split: if_splits)

lemma array_digits_length: "array_digits d n s = (d', n', r) \<Longrightarrow> length r \<le> length s"
  by (induction d n s rule: array_digits.induct) (auto split: if_splits)

lemma line_end_Parsed:
  "line_end d s = Parsed x r \<Longrightarrow> s = CRLF @ r \<and> line_end d (s @ u) = Parsed x (r @ u)"
  by (auto simp: line_end_def CRLF_def split: if_splits list.splits)

lemma parse_bulk_Parsed:
  assumes "parse_bulk s = Parsed a r"
  shows "parse_bulk (s @ u) = Parsed a (r @ u) \<and> length r < length s \<and>
    (\<forall>p. a = Some p \<longrightarrow> length p \<le> BULK_MAX)"
proof -
  obtain cs where s: "s = CHR ''$'' # cs" using assms by (auto simp: parse_bulk_def split: list.splits if_splits)
  define neg where "neg \<longleftrightarrow> (cs \<noteq> [] \<and> hd cs = CHR ''-'')"
  define t where "t = (if neg then tl cs else cs)"
  obtain d n r1 r2 where 1: "bulk_digits 0 0 t = Some (d, n, r1)" "line_end d r1 = Parsed () r2"
    "(if neg then a = None \<and> r = r2 else n \<le> BULK_MAX \<and> n + 2 \<le> length r2 \<and> r2 ! n = CHR 0x0D \<and>
       r2 ! (n + 1) = CHR 0x0A \<and> a = Some (take n r2) \<and> r = drop (n + 2) r2)"
    using assms unfolding s
    by (auto simp: parse_bulk_def Let_def neg_def t_def split: option.splits parsed.splits if_splits unit.splits)
  have le: "r1 = CRLF @ r2" "line_end d (r1 @ u) = Parsed () (r2 @ u)" using line_end_Parsed [OF 1(2)] by blast+
  have bd: "bulk_digits 0 0 (t @ u) = Some (d, n, r1 @ u)"
    by (rule bulk_digits_extend [OF 1(1)]) (simp add: le(1) CRLF_def)
  obtain ds where ds: "t = ds @ r1" using bulk_digits_sound [OF 1(1)] by blast
  have ne: "cs \<noteq> []" using ds le(1) by (auto simp: t_def CRLF_def split: if_splits)
  have neg': "cs @ u \<noteq> [] \<and> hd (cs @ u) = CHR ''-'' \<longleftrightarrow> neg" using ne by (simp add: neg_def)
  have t': "(if neg then tl (cs @ u) else cs @ u) = t @ u" using ne by (simp add: t_def)
  have "parse_bulk (s @ u) = Parsed a (r @ u)"
    unfolding s using 1(3) bd le(2) t' neg'
    by (simp add: parse_bulk_def Let_def nth_append split: if_splits)
  moreover have "length r < length s"
    using 1(3) ds le(1) by (auto simp: s t_def CRLF_def split: if_splits dest: arg_cong [of _ _ length])
  moreover have "\<forall>p. a = Some p \<longrightarrow> length p \<le> BULK_MAX" using 1(3) by (auto split: if_splits)
  ultimately show ?thesis by blast
qed

lemma parse_args_Parsed:
  "parse_args n s = Parsed ps r \<Longrightarrow> parse_args n (s @ u) = Parsed ps (r @ u) \<and> length r \<le> length s \<and>
     length ps = n \<and> (\<forall>p \<in> set ps. length p \<le> BULK_MAX)"
proof (induction n arbitrary: s ps)
  case (Suc n)
  then obtain p s1 qs where 1: "parse_bulk s = Parsed (Some p) s1" "parse_args n s1 = Parsed qs r" "ps = p # qs"
    by (auto split: parsed.splits option.splits)
  then show ?case using parse_bulk_Parsed [OF 1(1), of u] Suc.IH [OF 1(2)] by simp
qed simp

lemma parse_command_Parsed:
  assumes "parse_command s = Parsed argv r"
  shows "parse_command (s @ u) = Parsed argv (r @ u)" "length r < length s" "length argv \<le> AR_MAX_ARGV"
    "\<forall>p \<in> set argv. length p \<le> BULK_MAX"
proof -
  obtain cs d n r1 r2 where 1: "s = CHR ''*'' # cs" "array_digits 0 0 cs = (d, n, r1)" "line_end d r1 = Parsed () r2"
    "0 \<le> n" "n \<le> int AR_MAX_ARGV" "parse_args (nat n) r2 = Parsed argv r"
    using assms by (auto simp: parse_command_def split: list.splits prod.splits parsed.splits if_splits unit.splits)
  have le: "r1 = CRLF @ r2" "line_end d (r1 @ u) = Parsed () (r2 @ u)" using line_end_Parsed [OF 1(3)] by blast+
  have ad: "array_digits 0 0 (cs @ u) = (d, n, r1 @ u)"
    by (rule array_digits_extend [OF 1(2)]) (simp add: le(1) CRLF_def)
  note pa = parse_args_Parsed [OF 1(6), of u]
  show "parse_command (s @ u) = Parsed argv (r @ u)" using pa ad le(2) 1(4,5) by (simp add: 1(1) parse_command_def)
  show "length r < length s" using pa array_digits_length [OF 1(2)] le(1) by (simp add: 1(1))
  show "length argv \<le> AR_MAX_ARGV" "\<forall>p \<in> set argv. length p \<le> BULK_MAX" using pa 1(4,5) by auto
qed

text \<open>The command stream as a codec: commands written one after the other are read one after the other.\<close>

definition dec_command :: "bytes \<Rightarrow> (bytes list \<times> bytes) option" where
  "dec_command s = (case parse_command s of Parsed argv r \<Rightarrow> Some (argv, r) | _ \<Rightarrow> None)"

definition sendable :: "bytes list \<Rightarrow> bool" where
  "sendable argv \<longleftrightarrow> length argv \<le> AR_MAX_ARGV \<and> (\<forall>p \<in> set argv. length p \<le> BULK_MAX)"

interpretation wire: codec "\<lambda>argv. Some (resp_array argv)" dec_command sendable
proof unfold_locales
  fix x b r assume "sendable x" "Some (resp_array x) = Some b"
  then show "dec_command (b @ r) = Some (x, r)"
    using parse_command_print [of x r] by (auto simp: dec_command_def sendable_def)
next
  fix s x r u assume "dec_command s = Some (x, r)"
  then have "parse_command s = Parsed x r" by (simp add: dec_command_def split: parsed.splits)
  then show "length r < length s" "dec_command (s @ u) = Some (x, r @ u)"
    using parse_command_Parsed by (auto simp: dec_command_def)
qed simp


section \<open>Input cut short\<close>

lemma bulk_digits_cut:
  "bulk_digits d n (ds @ s) \<noteq> None \<Longrightarrow> set ds \<subseteq> Collect is_digit \<Longrightarrow>
   \<exists>m. bulk_digits d n ds = Some (d + length ds, m, [])"
proof (induction ds arbitrary: d n)
  case (Cons ch ds)
  then show ?case using Cons.IH [of "d + 1" "n * 10 + digit_val ch"] by (auto split: if_splits)
qed simp

lemma array_digits_cut:
  "set ds \<subseteq> Collect is_digit \<Longrightarrow> \<exists>m. array_digits d n ds = (d + length ds, m, [])"
proof (induction ds arbitrary: d n)
  case (Cons ch ds)
  then show ?case using Cons.IH [of "d + 1" "s64 (n * 10 + int (digit_val ch))"] by auto
qed simp

lemma prefix_cases:
  assumes "q @ u = a @ b"
  obtains (past) w where "q = a @ w" "w @ u = b" | (inside) v where "a = q @ v" "v \<noteq> []"
  using assms by (auto simp: append_eq_append_conv2) (metis append_Nil append_Nil2)

lemma bulk_cut:
  assumes cut: "p @ u = resp_append_bulk x" and u: "u \<noteq> []" and x: "length x \<le> BULK_MAX"
  shows "parse_bulk p = (if p = [] then Malformed else Incomplete)"
proof (cases p)
  case Nil
  then show ?thesis by (simp add: parse_bulk_def)
next
  case (Cons ch q)
  let ?ds = "show_nat (length x)"
  have q: "ch = CHR ''$''" "q @ u = ?ds @ CRLF @ x @ CRLF" using cut by (simp_all add: Cons resp_append_bulk_def)
  have neg: "\<not> (q \<noteq> [] \<and> hd q = CHR ''-'')"
    using arg_cong [OF q(2), of hd] show_nat_no_minus [of "length x" "CRLF @ x @ CRLF"] by (cases q) auto
  have full: "bulk_digits 0 0 (?ds @ s) = bulk_digits (length ?ds) (length x) s" for s
    by (rule bulk_digits_show [OF x])
  from q(2) have "parse_bulk (CHR ''$'' # q) = Incomplete"
  proof (cases rule: prefix_cases)
    case w: (past w)
    show ?thesis
    proof (cases "length w < 2")
      case True
      then have "w = [] \<or> w = [CHR 0x0D]" using w by (cases w; cases "tl w") (auto simp: CRLF_def)
      then show ?thesis using w neg full by (auto simp: parse_bulk_def Let_def line_end_def)
    next
      case False
      then obtain y where y: "w = CRLF @ y" "y @ u = x @ CRLF"
        using w by (cases w; cases "tl w") (auto simp: CRLF_def)
      have "length y < length x + 2" using arg_cong [OF y(2), of length] u by (cases u) (simp_all add: CRLF_def)
      moreover have "bulk_digits 0 0 q = Some (length ?ds, length x, CRLF @ y)"
        using w full [of "CRLF @ y"] digits_CRLF(1) by (simp add: y(1))
      ultimately show ?thesis using neg x by (auto simp: parse_bulk_def Let_def)
    qed
  next
    case (inside v)
    note v = inside(1)
    have "set q \<subseteq> Collect is_digit" using show_nat_digits [of "length x"] by (simp add: v)
    moreover have "bulk_digits 0 0 (q @ v @ CRLF) \<noteq> None"
      using full [of CRLF] digits_CRLF(1) [of _ _ "[]"] by (simp add: v)
    ultimately obtain m where "bulk_digits 0 0 q = Some (length q, m, [])" using bulk_digits_cut [of 0 0 q "v @ CRLF"] by auto
    then show ?thesis using neg by (auto simp: parse_bulk_def Let_def line_end_def)
  qed
  then show ?thesis using q(1) Cons by simp
qed

text \<open>
  A command that arrives in pieces. Incomplete input is waited for, as it should be, unless the
  piece ends exactly where an argument starts: then \<open>parse_bulk\<close> sees no byte and answers with
  the protocol error that closes the connection.
\<close>

definition at_boundary :: "bytes list \<Rightarrow> bytes \<Rightarrow> bool" where
  "at_boundary argv p \<longleftrightarrow> (\<exists>i < length argv. p = resp_append_array_hdr (int (length argv)) @
     concat (map resp_append_bulk (take i argv)))"

lemma args_cut:
  assumes "\<forall>x \<in> set xs. length x \<le> BULK_MAX" and "p @ u = concat (map resp_append_bulk xs)" and "u \<noteq> []"
  shows "parse_args (length xs) p =
    (if \<exists>i < length xs. p = concat (map resp_append_bulk (take i xs)) then Malformed else Incomplete)"
  using assms
proof (induction xs arbitrary: p)
  case (Cons x xs)
  let ?b = "resp_append_bulk x" and ?rest = "concat (map resp_append_bulk xs)"
  have x: "length x \<le> BULK_MAX" using Cons.prems(1) by simp
  have bn: "?b \<noteq> []" by (simp add: resp_append_bulk_def)
  have split: "(\<exists>i < length (x # xs). ?b @ q = concat (map resp_append_bulk (take i (x # xs)))) \<longleftrightarrow>
      (\<exists>i < length xs. q = concat (map resp_append_bulk (take i xs)))" for q
  proof
    assume "\<exists>i < length (x # xs). ?b @ q = concat (map resp_append_bulk (take i (x # xs)))"
    then obtain i where i: "i < length (x # xs)" "?b @ q = concat (map resp_append_bulk (take i (x # xs)))" by blast
    then obtain j where "i = Suc j" using bn by (cases i) auto
    then show "\<exists>i < length xs. q = concat (map resp_append_bulk (take i xs))" using i by auto
  next
    assume "\<exists>i < length xs. q = concat (map resp_append_bulk (take i xs))"
    then obtain i where "i < length xs" "q = concat (map resp_append_bulk (take i xs))" by blast
    then show "\<exists>i < length (x # xs). ?b @ q = concat (map resp_append_bulk (take i (x # xs)))"
      by (intro exI [of _ "Suc i"]) simp
  qed
  have "p @ u = ?b @ ?rest" using Cons.prems(2) by simp
  then show ?case
  proof (cases rule: prefix_cases)
    case later: (past q)
    have "parse_args (length (x # xs)) p = (case parse_args (length xs) q of Incomplete \<Rightarrow> Incomplete
       | Malformed \<Rightarrow> Malformed | Parsed ps s \<Rightarrow> Parsed (x # ps) s)"
      by (simp add: later(1) parse_bulk_print [OF x])
    also have "\<dots> = (if \<exists>i < length xs. q = concat (map resp_append_bulk (take i xs)) then Malformed else Incomplete)"
      using Cons.IH [OF _ later(2) Cons.prems(3)] Cons.prems(1) by simp
    finally show ?thesis using split [of q] later(1) by simp
  next
    case here: (inside v)
    have pb: "parse_bulk p = (if p = [] then Malformed else Incomplete)"
      by (rule bulk_cut [OF here(1) [symmetric] here(2) x])
    have "(\<exists>i < length (x # xs). p = concat (map resp_append_bulk (take i (x # xs)))) \<longleftrightarrow> p = []"
    proof
      assume "\<exists>i < length (x # xs). p = concat (map resp_append_bulk (take i (x # xs)))"
      then obtain i where i: "p = concat (map resp_append_bulk (take i (x # xs)))" by blast
      then show "p = []" using here by (cases i) auto
    qed auto
    then show ?thesis using pb by simp
  qed
qed simp

lemma command_cut:
  assumes s: "sendable argv" and cut: "p @ u = resp_array argv" and u: "u \<noteq> []"
  shows "parse_command p = (if at_boundary argv p then Malformed else Incomplete)"
proof -
  let ?n = "length argv" and ?h = "resp_append_array_hdr (int (length argv))"
  let ?ds = "show_nat ?n"
  have n: "?n < 2 ^ 60" "?n \<le> AR_MAX_ARGV" using s by (simp_all add: sendable_def AR_MAX_ARGV_def)
  have "p @ u = ?h @ concat (map resp_append_bulk argv)" using cut by (simp add: resp_array_def)
  then show ?thesis
  proof (cases rule: prefix_cases)
    case later: (past q)
    have "parse_command p = parse_args ?n q" using parse_array_hdr [OF n(1)] n(2) by (simp add: later(1))
    then show ?thesis using args_cut [OF _ later(2) u] s by (simp add: at_boundary_def sendable_def later(1))
  next
    case here: (inside v)
    have nb: "\<not> at_boundary argv p" using here by (auto simp: at_boundary_def)
    have "parse_command p = Incomplete"
    proof (cases p)
      case (Cons ch q)
      have q: "ch = CHR ''*''" "q @ v = ?ds @ CRLF" using here(1) by (simp_all add: Cons resp_append_array_hdr_def)
      from q(2) show ?thesis
      proof (cases rule: prefix_cases)
        case w: (past w)
        then have "w = [] \<or> w = [CHR 0x0D]" using here(2) by (cases w; cases "tl w") (auto simp: CRLF_def)
        then have "array_digits 0 0 q = (length ?ds, int ?n, w)" using w array_digits_show [OF n(1)] by auto
        then show ?thesis using q(1) \<open>w = [] \<or> w = [CHR 0x0D]\<close> by (auto simp: Cons parse_command_def line_end_def)
      next
        case (inside z)
        then have "set q \<subseteq> Collect is_digit" using show_nat_digits [of ?n] by simp
        then obtain m where "array_digits 0 0 q = (length q, m, [])" using array_digits_cut [of q 0 0] by auto
        then show ?thesis using q(1) by (simp add: Cons parse_command_def line_end_def)
      qed
    qed (simp add: parse_command_def)
    then show ?thesis using nb by simp
  qed
qed

end
