(* ===== verification/Dict.thy ===== *)
theory Dict
  imports Model
begin

text \<open>
  The dictionary of \<open>ar_core.c\<close>: accounting (\<open>ar_types.c\<close>), deadlines, lookup with lazy expiry,
  the WATCH notification, unlinking and freeing, the hot/cold tiers and rehashing. An entry
  pointer is modelled by the entry it points at, and a store through it by \<open>entry_put\<close>; a
  function that stores through its argument returns the entry as it now is. The lemmas on these
  operations are in \<open>Frame\<close>.
\<close>


section \<open>Accounting\<close>

definition ar_mem_add :: "core \<Rightarrow> nat \<Rightarrow> core" where
  "ar_mem_add c n = c\<lparr> used_memory := used_memory c + n \<rparr>"

definition ar_mem_sub :: "core \<Rightarrow> nat \<Rightarrow> core" where
  "ar_mem_sub c n = c\<lparr> used_memory := sat_sub (used_memory c) n \<rparr>"

definition ar_type_stats_reset :: "core \<Rightarrow> core" where
  "ar_type_stats_reset c = c\<lparr> type_nkeys := (\<lambda>_. 0), type_bytes := (\<lambda>_. 0), bigkey_bytes := 0,
     bigkey_type := TString \<rparr>"

definition ar_type_stats_note_bigkey :: "core \<Rightarrow> artype \<Rightarrow> nat \<Rightarrow> core" where
  "ar_type_stats_note_bigkey c t p =
     (if p > bigkey_bytes c then c\<lparr> bigkey_bytes := p, bigkey_type := t \<rparr> else c)"

definition ar_type_stats_bytes_delta :: "core \<Rightarrow> artype \<Rightarrow> int \<Rightarrow> core" where
  "ar_type_stats_bytes_delta c t d = c\<lparr> type_bytes := (type_bytes c)(t :=
     (if d \<ge> 0 then type_bytes c t + nat d else sat_sub (type_bytes c t) (nat (- d)))) \<rparr>"

definition ar_type_stats_add_key :: "core \<Rightarrow> artype \<Rightarrow> nat \<Rightarrow> core" where
  "ar_type_stats_add_key c t n =
     (let c = c\<lparr> type_nkeys := (type_nkeys c)(t := type_nkeys c t + 1),
                 type_bytes := (type_bytes c)(t := type_bytes c t + n) \<rparr>
      in if n > sizeof_ArEntry then ar_type_stats_note_bigkey c t (n - sizeof_ArEntry) else c)"

definition ar_type_stats_sub_key :: "core \<Rightarrow> artype \<Rightarrow> nat \<Rightarrow> core" where
  "ar_type_stats_sub_key c t n =
     c\<lparr> type_nkeys := (type_nkeys c)(t := sat_sub (type_nkeys c t) 1),
        type_bytes := (type_bytes c)(t := sat_sub (type_bytes c t) n) \<rparr>"


section \<open>Stores through an entry pointer, deadlines\<close>

definition entry_put :: "core \<Rightarrow> entry \<Rightarrow> core" where
  "entry_put c e = c\<lparr> buckets := ct_write ekey (buckets c) e,
                     cold_buckets := ct_write ekey (cold_buckets c) e \<rparr>"

definition entry_clear_expire :: "core \<Rightarrow> entry \<Rightarrow> core \<times> entry" where
  "entry_clear_expire c e =
     (if expire_at e = 0 then (c, e)
      else let c = c\<lparr> keys_with_ttl := sat_sub (keys_with_ttl c) 1,
                      expire_at_sum := sat_sub (expire_at_sum c) (expire_at e) \<rparr>;
               e = e\<lparr> expire_at := 0 \<rparr>
           in (entry_put c e, e))"

definition entry_set_expire_at :: "core \<Rightarrow> entry \<Rightarrow> nat \<Rightarrow> core \<times> entry" where
  "entry_set_expire_at c e x =
     (case entry_clear_expire c e of (c, e) \<Rightarrow>
        if x = 0 then (c, e)
        else let e = e\<lparr> expire_at := x \<rparr>;
                 c = c\<lparr> keys_with_ttl := keys_with_ttl c + 1,
                        expire_at_sum := u64 (expire_at_sum c + x) \<rparr>
             in (entry_put c e, e))"


section \<open>WATCH notification\<close>

definition conn_touch :: "bytes \<Rightarrow> conn \<Rightarrow> conn" where
  "conn_touch k cn =
     (if \<not> in_use cn \<or> watch_keys cn = [] \<or> watch_dirty cn then cn
      else if k \<in> set (watch_keys cn) then cn\<lparr> watch_dirty := True \<rparr> else cn)"

definition ar_watch_touch :: "core \<Rightarrow> bytes \<Rightarrow> core" where
  "ar_watch_touch c k = c\<lparr> conns := map (conn_touch k) (conns c) \<rparr>"

definition ar_watch_touch_all :: "core \<Rightarrow> core" where
  "ar_watch_touch_all c = c\<lparr> conns := map (\<lambda>cn.
     if in_use cn \<and> watch_keys cn \<noteq> [] then cn\<lparr> watch_dirty := True \<rparr> else cn) (conns c) \<rparr>"


section \<open>Freeing and finding\<close>

definition unlink_entry :: "entry list list \<Rightarrow> nat \<Rightarrow> entry \<Rightarrow> entry list list" where
  "unlink_entry tbl b e = ct_unlink ekey tbl b (ekey e)"

definition unlink_tier :: "core \<Rightarrow> nat \<Rightarrow> tier \<Rightarrow> entry \<Rightarrow> core" where
  "unlink_tier c b tr e =
     (if tr = Cold \<and> cold_buckets c \<noteq> [] then c\<lparr> cold_buckets := unlink_entry (cold_buckets c) b e \<rparr>
      else c\<lparr> buckets := unlink_entry (buckets c) b e \<rparr>)"

definition tier_count_dec :: "core \<Rightarrow> tier \<Rightarrow> core" where
  "tier_count_dec c tr =
     (if layout c = HotCold then
        (case tr of Cold \<Rightarrow> c\<lparr> cold_nkeys := sat_sub (cold_nkeys c) 1 \<rparr>
                  | Hot \<Rightarrow> c\<lparr> hot_nkeys := sat_sub (hot_nkeys c) 1 \<rparr>)
      else c)"

definition entry_release :: "core \<Rightarrow> nat \<Rightarrow> tier \<Rightarrow> entry \<Rightarrow> core" where
  "entry_release c b tr e =
     (let c = unlink_tier c b tr e;
          total = length (ekey e) + ar_entry_payload_bytes e + sizeof_ArEntry;
          c = ar_type_stats_sub_key c (etype e) total;
          c = c\<lparr> used_memory := sat_sub (used_memory c) total \<rparr>;
          c = (if pinned e \<and> pinned_keys c \<noteq> 0 then c\<lparr> pinned_keys := pinned_keys c - 1 \<rparr> else c);
          c = tier_count_dec c tr
      in c\<lparr> nkeys := sat_sub (nkeys c) 1 \<rparr>)"

definition ar_entry_free_ex :: "core \<Rightarrow> nat \<Rightarrow> tier \<Rightarrow> entry \<Rightarrow> core" where
  "ar_entry_free_ex c b tr e =
     (let c = ar_watch_touch c (ekey e)
      in case entry_clear_expire c e of (c, e) \<Rightarrow> entry_release c b tr e)"

definition find_in_table :: "entry list list \<Rightarrow> bytes \<Rightarrow> entry option" where
  "find_in_table tbl k = (if tbl = [] then None else ct_find ekey tbl k)"

definition entry_due :: "core \<Rightarrow> entry \<Rightarrow> bool" where
  "entry_due c e = (expire_at e \<noteq> 0 \<and> expire_at e \<le> now_ms c)"

definition entry_expired_now :: "core \<Rightarrow> entry \<Rightarrow> nat \<Rightarrow> tier \<Rightarrow> core \<times> bool" where
  "entry_expired_now c e b tr =
     (if \<not> entry_due c e then (c, False)
      else let c = ar_entry_free_ex c b tr e in (c\<lparr> expired := expired c + 1 \<rparr>, True))"

text \<open>A pointer into the tables: the entry with the bucket and tier it is linked in.\<close>

type_synonym slot = "entry \<times> nat \<times> tier"

definition find_cold :: "core \<Rightarrow> bytes \<Rightarrow> core \<times> slot option" where
  "find_cold c k =
     (if layout c = HotCold \<and> cold_buckets c \<noteq> [] then
        (case find_in_table (cold_buckets c) k of
           None \<Rightarrow> (c, None)
         | Some e \<Rightarrow>
             let b = ct_bucket k (length (cold_buckets c))
             in case entry_expired_now c e b Cold of
                  (c, True) \<Rightarrow> (c, None)
                | (c, False) \<Rightarrow> (c, Some (e, b, Cold)))
      else (c, None))"

definition ar_find_entry_ex :: "core \<Rightarrow> bytes \<Rightarrow> core \<times> slot option" where
  "ar_find_entry_ex c k =
     (case find_in_table (buckets c) k of
        None \<Rightarrow> find_cold c k
      | Some e \<Rightarrow>
          let b = ct_bucket k (length (buckets c))
          in case entry_expired_now c e b Hot of
               (c, True) \<Rightarrow> find_cold c k
             | (c, False) \<Rightarrow> (c, Some (e, b, Hot)))"


section \<open>Tiers and rehashing\<close>

text \<open>Link an entry at the head of its hot (or flat) chain.\<close>

definition link_hot :: "core \<Rightarrow> entry \<Rightarrow> core" where
  "link_hot c e = c\<lparr> buckets := ct_push ekey (buckets c) e \<rparr>"

definition link_cold :: "core \<Rightarrow> entry \<Rightarrow> core" where
  "link_cold c e = c\<lparr> cold_buckets := ct_push ekey (cold_buckets c) e \<rparr>"

definition hot_soft_cap :: "core \<Rightarrow> nat" where
  "hot_soft_cap c =
     (let pct = (if hot_soft_cap_pct c > 0 then hot_soft_cap_pct c else 25);
          pct = (if pct > 100 then 100 else pct);
          cap = nkeys c * nat pct div 100;
          floor = (if hot_soft_cap_min c > 0 then nat (hot_soft_cap_min c) else 0)
      in if cap < floor then floor else cap)"

record demote_pick =
  dp_best :: "(entry \<times> nat) option"
  dp_t :: nat
  dp_samples :: nat

fun demote_scan :: "nat \<Rightarrow> demote_pick \<Rightarrow> entry list \<Rightarrow> demote_pick" where
  "demote_scan i p [] = p"
| "demote_scan i p (e # es) =
     (if dp_samples p < 16 then
        let p = p\<lparr> dp_samples := dp_samples p + 1 \<rparr>;
            p = (if last_access e < dp_t p then p\<lparr> dp_t := last_access e, dp_best := Some (e, i) \<rparr> else p)
        in demote_scan i p es
      else p)"

fun demote_sample :: "nat \<Rightarrow> core \<Rightarrow> demote_pick \<Rightarrow> core \<times> demote_pick" where
  "demote_sample 0 c p = (c, p)"
| "demote_sample (Suc attempts) c p =
     (if dp_samples p < 16 then
        (case c_rand c of (c, r) \<Rightarrow>
           let i = r mod length (buckets c)
           in demote_sample attempts c (demote_scan i p (buckets c ! i)))
      else (c, p))"

definition demote_one_hot_to_cold :: "core \<Rightarrow> core \<times> bool" where
  "demote_one_hot_to_cold c =
     (if layout c \<noteq> HotCold \<or> cold_buckets c = [] \<or> hot_nkeys c = 0 then (c, False)
      else case demote_sample 64 c \<lparr> dp_best = None, dp_t = UINT64_MAX, dp_samples = 0 \<rparr> of
        (c, p) \<Rightarrow>
          (case dp_best p of
             None \<Rightarrow> (c, False)
           | Some (e, b) \<Rightarrow>
               let c = c\<lparr> buckets := unlink_entry (buckets c) b e, hot_nkeys := hot_nkeys c - 1 \<rparr>;
                   c = link_cold c e
               in (c\<lparr> cold_nkeys := cold_nkeys c + 1, demotions := demotions c + 1 \<rparr>, True)))"

fun demote_rounds :: "nat \<Rightarrow> core \<Rightarrow> core" where
  "demote_rounds 0 c = c"
| "demote_rounds (Suc n) c =
     (if hot_nkeys c > hot_soft_cap c then
        (case demote_one_hot_to_cold c of (c, True) \<Rightarrow> demote_rounds n c | (c, False) \<Rightarrow> c)
      else c)"

definition maybe_demote_hot :: "core \<Rightarrow> core" where
  "maybe_demote_hot c = (if layout c \<noteq> HotCold then c else demote_rounds 64 c)"

definition ar_touch_get :: "core \<Rightarrow> entry \<Rightarrow> nat \<Rightarrow> tier \<Rightarrow> core \<times> entry" where
  "ar_touch_get c e b tr =
     (let c = c\<lparr> clock := clock c + 1 \<rparr>;
          e = e\<lparr> last_access := clock c \<rparr>;
          c = entry_put c e
      in if layout c = HotCold \<and> tr = Cold \<and> cold_buckets c \<noteq> [] \<and> hot_promote_on_get c then
           let c = c\<lparr> cold_buckets := unlink_entry (cold_buckets c) b e,
                      cold_nkeys := sat_sub (cold_nkeys c) 1 \<rparr>;
               c = link_hot c e;
               c = c\<lparr> hot_nkeys := hot_nkeys c + 1, promotions := promotions c + 1 \<rparr>
           in (maybe_demote_hot c, e)
         else (c, e))"

definition rehash_table :: "core \<Rightarrow> entry list list \<Rightarrow> entry list list" where
  "rehash_table c tbl = (if alloc_ok c then ct_rehash ekey tbl else tbl)"

definition ar_rehash_if_needed :: "core \<Rightarrow> core" where
  "ar_rehash_if_needed c =
     (case layout c of
        Flat \<Rightarrow> if nkeys c \<le> length (buckets c) then c
                else c\<lparr> buckets := rehash_table c (buckets c) \<rparr>
      | HotCold \<Rightarrow>
          let c = (if hot_nkeys c > length (buckets c)
                   then c\<lparr> buckets := rehash_table c (buckets c) \<rparr> else c)
          in if cold_buckets c \<noteq> [] \<and> cold_nkeys c > length (cold_buckets c)
             then c\<lparr> cold_buckets := rehash_table c (cold_buckets c) \<rparr> else c)"

end
