(* ===== verification/Frame.thy ===== *)
theory Frame
  imports Dict
begin

text \<open>
  The frame calculus of the dictionary. \<open>view\<close> is the abstract contents: for every key its value,
  deadline and pin, and \<open>live\<close> the part of it that is not past its deadline. \<open>wf\<close> is the
  invariant: chains, tiers and every counter agree with the entries, up to a \<open>slack\<close> by which
  the memory and pin counters may exceed them. \<open>evo P K W\<close> relates a state to a later one: keys
  outside \<open>K\<close> keep their contents or disappear for a reason (past the deadline, or \<open>P\<close>), and
  whoever watches a changed key outside \<open>W\<close> is marked dirty.
\<close>


section \<open>The abstract contents\<close>

record obs =
  o_pay :: payload
  o_exp :: nat
  o_pin :: bool

definition obs_of :: "entry \<Rightarrow> obs" where
  "obs_of e = \<lparr> o_pay = epay e, o_exp = expire_at e, o_pin = pinned e \<rparr>"

definition ents :: "core \<Rightarrow> entry list" where
  "ents c = concat (buckets c) @ concat (cold_buckets c)"

definition vw :: "entry list \<Rightarrow> bytes \<Rightarrow> obs option" where
  "vw es = map_of (map (\<lambda>e. (ekey e, obs_of e)) es)"

definition view :: "core \<Rightarrow> bytes \<Rightarrow> obs option" where
  "view c = vw (ents c)"

definition gone :: "nat \<Rightarrow> obs \<Rightarrow> bool" where
  "gone now v = (o_exp v \<noteq> 0 \<and> o_exp v \<le> now)"

definition unexpired :: "nat \<Rightarrow> obs option \<Rightarrow> obs option" where
  "unexpired now r = (case r of None \<Rightarrow> None | Some v \<Rightarrow> if gone now v then None else Some v)"

definition live :: "core \<Rightarrow> bytes \<Rightarrow> obs option" where
  "live c k = unexpired (now_ms c) (view c k)"

lemma obs_of_simps [simp]:
  "o_pay (obs_of e) = epay e"
  "o_exp (obs_of e) = expire_at e"
  "o_pin (obs_of e) = pinned e"
  by (simp_all add: obs_of_def)

lemma gone_obs_of: "gone (now_ms c) (obs_of e) \<longleftrightarrow> entry_due c e"
  by (simp add: gone_def entry_due_def)

lemma unexpired_simps [simp]:
  "unexpired now None = None"
  "unexpired now (Some v) = (if gone now v then None else Some v)"
  by (simp_all add: unexpired_def)

lemma unexpired_Some_iff: "unexpired now r = Some v \<longleftrightarrow> r = Some v \<and> \<not> gone now v"
  by (cases r) auto

lemma vw_simps [simp]:
  "vw [] = Map.empty"
  "vw (e # es) = (vw es)(ekey e \<mapsto> obs_of e)"
  by (simp_all add: vw_def)

lemma vw_None_iff: "vw es k = None \<longleftrightarrow> k \<notin> ekey ` set es"
  by (simp add: vw_def map_of_eq_None_iff image_image)

lemma vw_Some_iff:
  "distinct (map ekey es) \<Longrightarrow> vw es k = Some v \<longleftrightarrow> (\<exists>e \<in> set es. ekey e = k \<and> obs_of e = v)"
  unfolding vw_def by (subst map_of_eq_Some_iff) (auto simp: comp_def)

lemma vw_cong_mset:
  assumes "mset es = mset es'" and "distinct (map ekey es')"
  shows "vw es = vw es'"
proof
  fix k
  have d: "distinct (map ekey es)"
    using mset_eq_distinct_map [OF assms(1)] assms(2) by blast
  have "vw es k = Some v \<longleftrightarrow> vw es' k = Some v" for v
    using mset_eq_setD [OF assms(1)] vw_Some_iff [OF d] vw_Some_iff [OF assms(2)] by simp
  then show "vw es k = vw es' k" by (metis not_Some_eq)
qed

lemma vw_add:
  "mset es = add_mset e (mset ns) \<Longrightarrow> distinct (map ekey es) \<Longrightarrow> vw es = (vw ns)(ekey e \<mapsto> obs_of e)"
  using vw_cong_mset [of es "e # ns"] mset_eq_distinct_map [of es "e # ns" ekey] by simp

lemma distinct_add:
  "mset es = add_mset e (mset ns) \<Longrightarrow> distinct (map ekey es) \<longleftrightarrow> ekey e \<notin> ekey ` set ns \<and> distinct (map ekey ns)"
  using mset_eq_distinct_map [of es "e # ns" ekey] by simp


section \<open>The invariant\<close>

fun payload_ok :: "payload \<Rightarrow> bool" where
  "payload_ok (PStr v) = True"
| "payload_ok (PHash h) = (ct_ok hf_field (h_buckets h) \<and> h_nfields h = length (concat (h_buckets h)))"
| "payload_ok (PList l) = True"
| "payload_ok (PZset z) = (distinct (map z_member (z_arr z)) \<and> length (z_arr z) \<le> z_cap z)"

definition shape :: "core \<Rightarrow> bool" where
  "shape c \<longleftrightarrow> buckets c \<noteq> [] \<and> ct_placed ekey (buckets c) \<and> ct_placed ekey (cold_buckets c) \<and>
     distinct (map ekey (ents c)) \<and>
     (case layout c of Flat \<Rightarrow> cold_buckets c = []
      | HotCold \<Rightarrow> cold_buckets c \<noteq> [] \<and> hot_nkeys c = length (concat (buckets c)) \<and>
          cold_nkeys c = length (concat (cold_buckets c)))"

record slack =
  x_mem :: nat
  x_type :: "artype \<Rightarrow> nat"
  x_pin :: nat

definition exact :: slack where
  "exact = \<lparr> x_mem = 0, x_type = (\<lambda>_. 0), x_pin = 0 \<rparr>"

definition esum :: "(entry \<Rightarrow> nat) \<Rightarrow> entry multiset \<Rightarrow> nat" where
  "esum f M = sum_mset (image_mset f M)"

lemma esum_simps [simp]:
  "esum f {#} = 0"
  "esum f (add_mset e M) = f e + esum f M"
  "esum f (A + B) = esum f A + esum f B"
  by (simp_all add: esum_def)

definition balanced :: "slack \<Rightarrow> core \<Rightarrow> entry multiset \<Rightarrow> bool" where
  "balanced s c M \<longleftrightarrow>
     nkeys c = size M \<and>
     keys_with_ttl c = esum (\<lambda>e. of_bool (expire_at e \<noteq> 0)) M \<and>
     pinned_keys c = esum (\<lambda>e. of_bool (pinned e)) M + x_pin s \<and>
     used_memory c = esum etotal M + x_mem s \<and>
     (\<forall>t. type_nkeys c t = esum (\<lambda>e. of_bool (etype e = t)) M) \<and>
     (\<forall>t. type_bytes c t = esum (\<lambda>e. if etype e = t then etotal e else 0) M + x_type s t)"

definition wf :: "slack \<Rightarrow> core \<Rightarrow> bool" where
  "wf s c \<longleftrightarrow> shape c \<and> (\<forall>e \<in> set (ents c). payload_ok (epay e)) \<and> balanced s c (mset (ents c))"

text \<open>The fields \<open>wf\<close>, \<open>view\<close> and \<open>live\<close> depend on.\<close>

definition dict_of :: "core \<Rightarrow> _" where
  "dict_of c = (buckets c, cold_buckets c, layout c, hot_nkeys c, cold_nkeys c, nkeys c,
     keys_with_ttl c, pinned_keys c, used_memory c, type_nkeys c, type_bytes c)"

definition env_of :: "core \<Rightarrow> _" where
  "env_of c = (now_ms c, alloc_ok c, rand_src c, evict c, maxmemory c, srv c)"

lemma ents_cong: "buckets c' = buckets c \<Longrightarrow> cold_buckets c' = cold_buckets c \<Longrightarrow> ents c' = ents c"
  by (simp add: ents_def)

lemma shape_cong:
  "buckets c' = buckets c \<Longrightarrow> cold_buckets c' = cold_buckets c \<Longrightarrow> layout c' = layout c \<Longrightarrow>
   hot_nkeys c' = hot_nkeys c \<Longrightarrow> cold_nkeys c' = cold_nkeys c \<Longrightarrow> shape c' = shape c"
  by (cases "layout c") (simp_all add: shape_def ents_def)

lemma balanced_cong:
  "nkeys c' = nkeys c \<Longrightarrow> keys_with_ttl c' = keys_with_ttl c \<Longrightarrow> pinned_keys c' = pinned_keys c \<Longrightarrow>
   used_memory c' = used_memory c \<Longrightarrow> type_nkeys c' = type_nkeys c \<Longrightarrow> type_bytes c' = type_bytes c \<Longrightarrow>
   balanced s c' M = balanced s c M"
  by (simp add: balanced_def)

lemma wf_cong:
  assumes "dict_of c' = dict_of c"
  shows "wf s c' = wf s c"
proof -
  have "shape c' = shape c" by (rule shape_cong) (use assms in \<open>simp_all add: dict_of_def\<close>)
  moreover have "ents c' = ents c" by (rule ents_cong) (use assms in \<open>simp_all add: dict_of_def\<close>)
  moreover have "balanced s c' M = balanced s c M" for M
    by (rule balanced_cong) (use assms in \<open>simp_all add: dict_of_def\<close>)
  ultimately show ?thesis by (simp add: wf_def)
qed

lemma view_cong: "dict_of c' = dict_of c \<Longrightarrow> view c' = view c"
  by (simp add: view_def ents_def dict_of_def)

lemma wf_shape: "wf s c \<Longrightarrow> shape c"
  by (simp add: wf_def)

lemma view_Some_iff: "shape c \<Longrightarrow> view c k = Some v \<longleftrightarrow> (\<exists>e \<in> set (ents c). ekey e = k \<and> obs_of e = v)"
  by (simp add: view_def vw_Some_iff shape_def)

lemma view_None_iff: "view c k = None \<longleftrightarrow> k \<notin> ekey ` set (ents c)"
  by (simp add: view_def vw_None_iff)


section \<open>Evolution\<close>

definition conn_mono :: "conn \<Rightarrow> conn \<Rightarrow> bool" where
  "conn_mono a b \<longleftrightarrow> b = a\<lparr> watch_dirty := watch_dirty b \<rparr> \<and> (watch_dirty a \<longrightarrow> watch_dirty b)"

definition conns_mono :: "core \<Rightarrow> core \<Rightarrow> bool" where
  "conns_mono c c' \<longleftrightarrow> list_all2 conn_mono (conns c) (conns c')"

definition touched :: "core \<Rightarrow> bytes \<Rightarrow> bool" where
  "touched c k \<longleftrightarrow> (\<forall>cn \<in> set (conns c). in_use cn \<and> k \<in> set (watch_keys cn) \<longrightarrow> watch_dirty cn)"

definition evo :: "(obs \<Rightarrow> bool) \<Rightarrow> bytes set \<Rightarrow> bytes set \<Rightarrow> core \<Rightarrow> core \<Rightarrow> bool" where
  "evo P K W c c' \<longleftrightarrow>
     env_of c' = env_of c \<and> conns_mono c c' \<and>
     (\<forall>k. k \<notin> K \<longrightarrow> view c' k = view c k \<or>
        (\<exists>v. view c k = Some v \<and> (gone (now_ms c) v \<or> P v) \<and> view c' k = None)) \<and>
     (\<forall>k. k \<notin> W \<longrightarrow> view c' k = view c k \<or> touched c' k)"

definition steps :: "slack \<Rightarrow> (obs \<Rightarrow> bool) \<Rightarrow> bytes set \<Rightarrow> bytes set \<Rightarrow> core \<Rightarrow> core \<Rightarrow> bool" where
  "steps s P K W c c' \<longleftrightarrow> wf s c' \<and> evo P K W c c'"

lemma conn_mono_refl [simp]: "conn_mono a a"
  by (simp add: conn_mono_def)

lemma conn_mono_trans: "conn_mono a b \<Longrightarrow> conn_mono b d \<Longrightarrow> conn_mono a d"
  unfolding conn_mono_def by (cases a; cases b; cases d) auto

lemma conns_mono_refl [simp]: "conns_mono c c"
  by (simp add: conns_mono_def list_all2_refl)

lemma conns_mono_cong: "conns c' = conns c \<Longrightarrow> conns_mono c c'"
  by (simp add: conns_mono_def list_all2_refl)

lemma conns_mono_trans: "conns_mono a b \<Longrightarrow> conns_mono b d \<Longrightarrow> conns_mono a d"
  unfolding conns_mono_def by (rule list_all2_trans [OF conn_mono_trans])

lemma touched_mono:
  assumes "conns_mono c c'" and "touched c k"
  shows "touched c' k"
  unfolding touched_def
proof
  fix b assume "b \<in> set (conns c')"
  with assms(1) obtain a where a: "a \<in> set (conns c)" "conn_mono a b"
    unfolding conns_mono_def by (metis in_set_conv_nth list_all2_conv_all_nth)
  then have ab: "in_use b = in_use a" "watch_keys b = watch_keys a"
    by (cases a; cases b; simp add: conn_mono_def)+
  with a assms(2) show "in_use b \<and> k \<in> set (watch_keys b) \<longrightarrow> watch_dirty b"
    unfolding touched_def conn_mono_def by auto
qed

lemma evo_refl [simp]: "evo P K W c c"
  by (simp add: evo_def)

lemma evo_trans:
  assumes "evo P K W c c'" and "evo P K W c' c''"
  shows "evo P K W c c''"
  unfolding evo_def
proof (intro conjI allI impI)
  from assms show "env_of c'' = env_of c" "conns_mono c c''"
    unfolding evo_def by (auto intro: conns_mono_trans)
  fix k
  have now: "now_ms c' = now_ms c" using assms(1) by (simp add: evo_def env_of_def)
  show "view c'' k = view c k \<or> (\<exists>v. view c k = Some v \<and> (gone (now_ms c) v \<or> P v) \<and> view c'' k = None)"
    if "k \<notin> K"
  proof -
    have 1: "view c' k = view c k \<or> (\<exists>v. view c k = Some v \<and> (gone (now_ms c) v \<or> P v) \<and> view c' k = None)"
      using assms(1) that by (simp add: evo_def)
    have 2: "view c'' k = view c' k \<or> (\<exists>v. view c' k = Some v \<and> (gone (now_ms c) v \<or> P v) \<and> view c'' k = None)"
      using assms(2) that by (simp add: evo_def now)
    from 1 2 show ?thesis by auto
  qed
  show "view c'' k = view c k \<or> touched c'' k" if "k \<notin> W"
  proof -
    have 1: "view c' k = view c k \<or> touched c' k" using assms(1) that by (simp add: evo_def)
    have 2: "view c'' k = view c' k \<or> touched c'' k" using assms(2) that by (simp add: evo_def)
    have "touched c' k \<Longrightarrow> touched c'' k" using assms(2) by (auto simp: evo_def intro: touched_mono)
    with 1 2 show ?thesis by auto
  qed
qed

lemma evo_mono:
  "evo P K W c c' \<Longrightarrow> (\<And>v. P v \<Longrightarrow> Q v) \<Longrightarrow> K \<subseteq> L \<Longrightarrow> W \<subseteq> V \<Longrightarrow> evo Q L V c c'"
  unfolding evo_def by (auto; blast)

lemma stepsD: "steps s P K W c c' \<Longrightarrow> wf s c'" "steps s P K W c c' \<Longrightarrow> evo P K W c c'"
  by (simp_all add: steps_def)

lemma steps_refl: "wf s c \<Longrightarrow> steps s P K W c c"
  by (simp add: steps_def)

lemma steps_trans: "steps s P K W c c' \<Longrightarrow> steps s P K W c' c'' \<Longrightarrow> steps s P K W c c''"
  unfolding steps_def by (blast intro: evo_trans)

lemma steps_mono:
  "steps s P K W c c' \<Longrightarrow> (\<And>v. P v \<Longrightarrow> Q v) \<Longrightarrow> K \<subseteq> L \<Longrightarrow> W \<subseteq> V \<Longrightarrow> steps s Q L V c c'"
  unfolding steps_def by (blast intro: evo_mono)

text \<open>Steps that leave the dictionary alone (counters, clock, random stream, configuration).\<close>

lemma evo_same:
  assumes "dict_of c' = dict_of c" and "conns c' = conns c" and "env_of c' = env_of c"
  shows "evo P K W c c'"
  unfolding evo_def using view_cong [OF assms(1)] conns_mono_cong [OF assms(2)] assms(3) by simp

lemma steps_same:
  "wf s c \<Longrightarrow> dict_of c' = dict_of c \<Longrightarrow> conns c' = conns c \<Longrightarrow> env_of c' = env_of c \<Longrightarrow>
   steps s P K W c c'"
  unfolding steps_def using wf_cong [of c' c s] evo_same [of c' c P K W] by simp

lemma steps_then_same:
  "steps s P K W c c' \<Longrightarrow> dict_of c'' = dict_of c' \<Longrightarrow> conns c'' = conns c' \<Longrightarrow>
   env_of c'' = env_of c' \<Longrightarrow> steps s P K W c c''"
  using steps_trans steps_same stepsD(1) by blast

lemma steps_same_then:
  "steps s P K W c' c'' \<Longrightarrow> dict_of c' = dict_of c \<Longrightarrow> conns c' = conns c \<Longrightarrow> env_of c' = env_of c \<Longrightarrow>
   steps s P K W c c''"
  unfolding steps_def using evo_trans [OF evo_same] by blast


section \<open>Cursors: the invariant seen from one entry\<close>

definition tabs :: "core \<Rightarrow> entry \<Rightarrow> entry multiset \<Rightarrow> bool" where
  "tabs c e N \<longleftrightarrow> shape c \<and> mset (ents c) = add_mset e N \<and> (\<forall>x \<in># N. payload_ok (epay x))"

definition cursor :: "slack \<Rightarrow> core \<Rightarrow> entry \<Rightarrow> entry multiset \<Rightarrow> bool" where
  "cursor s c e N \<longleftrightarrow> tabs c e N \<and> balanced s c (add_mset e N) \<and> payload_ok (epay e)"

definition located :: "core \<Rightarrow> entry \<Rightarrow> nat \<Rightarrow> tier \<Rightarrow> bool" where
  "located c e b tr \<longleftrightarrow>
     (case tr of Hot \<Rightarrow> b < length (buckets c) \<and> e \<in> set (buckets c ! b)
      | Cold \<Rightarrow> b < length (cold_buckets c) \<and> e \<in> set (cold_buckets c ! b))"

lemma cursor_tabs: "cursor s c e N \<Longrightarrow> tabs c e N"
  by (simp add: cursor_def)

lemma located_ents: "located c e b tr \<Longrightarrow> e \<in> set (ents c)"
  unfolding located_def ents_def
  by (cases tr) (auto simp: in_concat_nth simp del: set_concat)

lemma cursor_of_wf:
  assumes "wf s c" and "e \<in> set (ents c)"
  obtains N where "cursor s c e N"
proof
  let ?N = "mset (ents c) - {#e#}"
  have m: "mset (ents c) = add_mset e ?N" using assms(2) by simp
  have "x \<in> set (ents c)" if "x \<in># ?N" for x using that by (metis in_diffD set_mset_mset)
  then show "cursor s c e ?N"
    using assms m unfolding cursor_def tabs_def wf_def by auto
qed

lemma wf_of_cursor: "cursor s c e N \<Longrightarrow> wf s c"
  unfolding cursor_def tabs_def wf_def by (metis insert_iff set_mset_add_mset_insert set_mset_mset)

lemma cursor_ent: "cursor s c e N \<Longrightarrow> e \<in> set (ents c)"
  unfolding cursor_def tabs_def by (metis set_mset_mset union_single_eq_member)

lemma tabs_vw:
  assumes "tabs c e N"
  obtains ns where "mset ns = N" "view c = (vw ns)(ekey e \<mapsto> obs_of e)" "ekey e \<notin> ekey ` set ns"
proof -
  obtain ns where ns: "mset ns = N" by (metis ex_mset)
  then have m: "mset (ents c) = add_mset e (mset ns)" and d: "distinct (map ekey (ents c))"
    using assms by (simp_all add: tabs_def shape_def)
  show ?thesis
    using ns vw_add [OF m d] distinct_add [OF m] d by (intro that [of ns]) (simp_all add: view_def)
qed

lemma cursor_view: "cursor s c e N \<Longrightarrow> view c (ekey e) = Some (obs_of e)"
  by (auto simp: cursor_def elim: tabs_vw)

lemma tabs_view_put:
  assumes "tabs c e N" and "tabs c' e' N" and "ekey e' = ekey e"
  shows "view c' = (view c)(ekey e \<mapsto> obs_of e')"
proof -
  obtain ns where 1: "mset ns = N" "view c = (vw ns)(ekey e \<mapsto> obs_of e)"
    using assms(1) by (rule tabs_vw)
  obtain ms where 2: "mset ms = N" "view c' = (vw ms)(ekey e' \<mapsto> obs_of e')" "ekey e' \<notin> ekey ` set ms"
    using assms(2) by (rule tabs_vw)
  have "distinct (map ekey (ents c'))" using assms(2) by (simp add: tabs_def shape_def)
  then have "distinct (map ekey ms)"
    using distinct_add [of "ents c'" e' ms] assms(2) 2(1) by (simp add: tabs_def)
  then have "vw ns = vw ms" using 1(1) 2(1) by (intro vw_cong_mset) simp_all
  with 1 2 assms(3) show ?thesis by simp
qed

lemma tabs_cong:
  "tabs c e N \<Longrightarrow> buckets c' = buckets c \<Longrightarrow> cold_buckets c' = cold_buckets c \<Longrightarrow> layout c' = layout c \<Longrightarrow>
   hot_nkeys c' = hot_nkeys c \<Longrightarrow> cold_nkeys c' = cold_nkeys c \<Longrightarrow> tabs c' e N"
  unfolding tabs_def using shape_cong [of c' c] ents_cong [of c' c] by simp

text \<open>What a change of one entry amounts to, for \<open>wf\<close> and for \<open>evo\<close>.\<close>

lemma evo_put:
  assumes "tabs c e N" and "tabs c' e' N" and "ekey e' = ekey e"
    and "conns c' = conns c" and "env_of c' = env_of c"
    and "obs_of e' = obs_of e \<or> (ekey e \<in> K \<and> ekey e \<in> W)"
  shows "evo P K W c c'"
proof -
  have v: "view c' = (view c)(ekey e \<mapsto> obs_of e')" using assms(1-3) by (rule tabs_view_put)
  moreover have "view c (ekey e) = Some (obs_of e)" using assms(1) by (auto elim: tabs_vw)
  ultimately have "view c' k = view c k \<or> (k \<in> K \<and> k \<in> W)" for k
    using assms(6) by (cases "k = ekey e") auto
  then show ?thesis
    using assms(4,5) conns_mono_cong [OF assms(4)] unfolding evo_def by auto
qed


subsection \<open>Stores through the pointer\<close>

lemma entry_put_fields [simp]:
  "nkeys (entry_put c e) = nkeys c"
  "hot_nkeys (entry_put c e) = hot_nkeys c"
  "cold_nkeys (entry_put c e) = cold_nkeys c"
  "layout (entry_put c e) = layout c"
  "layout_gen (entry_put c e) = layout_gen c"
  "layout_busy (entry_put c e) = layout_busy c"
  "promotions (entry_put c e) = promotions c"
  "demotions (entry_put c e) = demotions c"
  "migrates (entry_put c e) = migrates c"
  "evict (entry_put c e) = evict c"
  "evict_plugin (entry_put c e) = evict_plugin c"
  "evict_samples (entry_put c e) = evict_samples c"
  "ops (entry_put c e) = ops c"
  "gets (entry_put c e) = gets c"
  "sets (entry_put c e) = sets c"
  "hits (entry_put c e) = hits c"
  "misses (entry_put c e) = misses c"
  "evicted (entry_put c e) = evicted c"
  "expired (entry_put c e) = expired c"
  "pinned_keys (entry_put c e) = pinned_keys c"
  "keys_with_ttl (entry_put c e) = keys_with_ttl c"
  "expire_at_sum (entry_put c e) = expire_at_sum c"
  "clock (entry_put c e) = clock c"
  "maxmemory (entry_put c e) = maxmemory c"
  "used_memory (entry_put c e) = used_memory c"
  "type_nkeys (entry_put c e) = type_nkeys c"
  "type_bytes (entry_put c e) = type_bytes c"
  "bigkey_bytes (entry_put c e) = bigkey_bytes c"
  "bigkey_type (entry_put c e) = bigkey_type c"
  "hot_soft_cap_pct (entry_put c e) = hot_soft_cap_pct c"
  "hot_soft_cap_min (entry_put c e) = hot_soft_cap_min c"
  "hot_promote_on_get (entry_put c e) = hot_promote_on_get c"
  "unique_sets (entry_put c e) = unique_sets c"
  "conns (entry_put c e) = conns c"
  "srv (entry_put c e) = srv c"
  "now_ms (entry_put c e) = now_ms c"
  "rand_src (entry_put c e) = rand_src c"
  "rand_pos (entry_put c e) = rand_pos c"
  "alloc_ok (entry_put c e) = alloc_ok c"
  by (simp_all add: entry_put_def)

lemma env_of_entry_put [simp]: "env_of (entry_put c e) = env_of c"
  by (simp add: env_of_def)

lemma ents_entry_put: "ents (entry_put c e) = map (\<lambda>x. if ekey x = ekey e then e else x) (ents c)"
  by (simp add: ents_def entry_put_def concat_ct_write)

lemma keys_entry_put: "map ekey (ents (entry_put c e)) = map ekey (ents c)"
  by (simp add: ents_entry_put)

lemma length_concat_write [simp]: "length (concat (ct_write key tbl e)) = length (concat tbl)"
  by (metis length_map map_key_ct_write)

lemma shape_entry_put: "shape c \<Longrightarrow> shape (entry_put c e)"
  unfolding shape_def keys_entry_put
  by (cases "layout c") (simp_all add: entry_put_def ct_placed_write)

lemma tabs_put:
  assumes "tabs c e N" and "ekey e' = ekey e"
  shows "tabs (entry_put c e') e' N"
proof -
  have d: "distinct (map ekey (ents c))" and m: "mset (ents c) = add_mset e N"
    using assms(1) by (simp_all add: tabs_def shape_def)
  have "e \<in> set (ents c)" using m by (metis set_mset_mset union_single_eq_member)
  then have "mset (ents (entry_put c e')) = add_mset e' (mset (ents c) - {#e#})"
    unfolding ents_entry_put assms(2) using map_if_distinct_mset [OF d, of e "\<lambda>_. e'"] by simp
  with m show ?thesis using assms(1) by (simp add: tabs_def shape_entry_put)
qed

lemma cursor_put:
  assumes "cursor s c e N" and "ekey e' = ekey e" and "payload_ok (epay e')"
    and "buckets c' = buckets (entry_put c e')" "cold_buckets c' = cold_buckets (entry_put c e')"
    and "layout c' = layout c" "hot_nkeys c' = hot_nkeys c" "cold_nkeys c' = cold_nkeys c"
    and "balanced s' c' (add_mset e' N)"
  shows "cursor s' c' e' N"
  unfolding cursor_def
proof (intro conjI)
  have "tabs (entry_put c e') e' N" using cursor_tabs [OF assms(1)] assms(2) by (rule tabs_put)
  then show "tabs c' e' N" by (rule tabs_cong) (simp_all add: assms)
qed (use assms in simp_all)

lemma cursor_evo:
  assumes "cursor s c e N" and "cursor s' c' e' N" and "ekey e' = ekey e"
    and "conns c' = conns c" and "env_of c' = env_of c"
    and "obs_of e' = obs_of e \<or> (ekey e \<in> K \<and> ekey e \<in> W)"
  shows "evo P K W c c'"
  using cursor_tabs [OF assms(1)] cursor_tabs [OF assms(2)] assms(3-6) by (rule evo_put)

text \<open>Access metadata is invisible.\<close>

lemma cursor_put_meta:
  assumes "cursor s c e N" and "ekey e' = ekey e" and "obs_of e' = obs_of e"
  shows "cursor s (entry_put c e') e' N"
proof (rule cursor_put [OF assms(1,2)])
  have o: "epay e' = epay e" "expire_at e' = expire_at e" "pinned e' = pinned e"
    using assms(3) by (simp_all add: obs_of_def)
  show "payload_ok (epay e')" using assms(1) o by (simp add: cursor_def)
  have "etotal e' = etotal e" using o assms(2) by (simp add: etotal_def ar_entry_payload_bytes_def)
  with o show "balanced s (entry_put c e') (add_mset e' N)"
    using assms(1) by (simp add: cursor_def balanced_def)
qed simp_all


subsection \<open>Deadlines\<close>

lemma clear_expire_cursor:
  assumes "cursor s c e N" and "entry_clear_expire c e = (c', e')"
  shows "cursor s c' e' N" "e' = e\<lparr> expire_at := 0 \<rparr>" "conns c' = conns c" "env_of c' = env_of c"
proof -
  have "(cursor s c' e' N \<and> e' = e\<lparr> expire_at := 0 \<rparr>) \<and> conns c' = conns c \<and> env_of c' = env_of c"
  proof (cases "expire_at e = 0")
    case True
    then have "e\<lparr> expire_at := 0 \<rparr> = e" by (cases e) simp
    with True assms show ?thesis by (simp add: entry_clear_expire_def)
  next
    case False
    let ?e = "e\<lparr> expire_at := 0 \<rparr>"
    let ?c = "c\<lparr> keys_with_ttl := keys_with_ttl c - 1, expire_at_sum := expire_at_sum c - expire_at e \<rparr>"
    have e: "e' = ?e" "c' = entry_put ?c ?e"
      using assms(2) False by (auto simp: entry_clear_expire_def Let_def)
    have "etotal ?e = etotal e" by (simp add: etotal_def ar_entry_payload_bytes_def)
    then have "balanced s (entry_put ?c ?e) (add_mset ?e N)"
      using assms(1) False by (simp add: cursor_def balanced_def)
    moreover have "payload_ok (epay ?e)" using assms(1) by (simp add: cursor_def)
    ultimately have "cursor s (entry_put ?c ?e) ?e N"
      by (intro cursor_put [OF assms(1)]) (simp_all add: entry_put_def)
    with e show ?thesis by (simp add: env_of_def)
  qed
  then show "cursor s c' e' N" "e' = e\<lparr> expire_at := 0 \<rparr>" "conns c' = conns c" "env_of c' = env_of c"
    by blast+
qed

lemma set_expire_cursor:
  assumes "cursor s c e N" and "entry_set_expire_at c e x = (c', e')"
  shows "cursor s c' e' N" "e' = e\<lparr> expire_at := x \<rparr>" "conns c' = conns c" "env_of c' = env_of c"
proof -
  obtain c1 e1 where 1: "entry_clear_expire c e = (c1, e1)" by fastforce
  note ce = clear_expire_cursor [OF assms(1) 1]
  have "(cursor s c' e' N \<and> e' = e\<lparr> expire_at := x \<rparr>) \<and> conns c' = conns c \<and> env_of c' = env_of c"
  proof (cases "x = 0")
    case True
    with ce assms(2) 1 show ?thesis by (simp add: entry_set_expire_at_def)
  next
    case False
    let ?e = "e1\<lparr> expire_at := x \<rparr>"
    let ?c = "c1\<lparr> keys_with_ttl := keys_with_ttl c1 + 1, expire_at_sum := u64 (expire_at_sum c1 + x) \<rparr>"
    have e: "e' = ?e" "c' = entry_put ?c ?e"
      using assms(2) 1 False by (auto simp: entry_set_expire_at_def Let_def)
    have "etotal ?e = etotal e1" by (simp add: etotal_def ar_entry_payload_bytes_def)
    then have "balanced s (entry_put ?c ?e) (add_mset ?e N)"
      using ce(1,2) False by (simp add: cursor_def balanced_def)
    moreover have "payload_ok (epay ?e)" using ce(1) by (simp add: cursor_def)
    ultimately have "cursor s (entry_put ?c ?e) ?e N"
      by (intro cursor_put [OF ce(1)]) (simp_all add: entry_put_def)
    with e ce show ?thesis by (simp add: env_of_def)
  qed
  then show "cursor s c' e' N" "e' = e\<lparr> expire_at := x \<rparr>" "conns c' = conns c" "env_of c' = env_of c"
    by blast+
qed


section \<open>Watching\<close>

lemma conn_touch_mono: "conn_mono cn (conn_touch k cn)"
  by (simp add: conn_mono_def conn_touch_def)

lemma touch_fields [simp]:
  "buckets (ar_watch_touch c k) = buckets c"
  "cold_buckets (ar_watch_touch c k) = cold_buckets c"
  "nkeys (ar_watch_touch c k) = nkeys c"
  "hot_nkeys (ar_watch_touch c k) = hot_nkeys c"
  "cold_nkeys (ar_watch_touch c k) = cold_nkeys c"
  "layout (ar_watch_touch c k) = layout c"
  "evict (ar_watch_touch c k) = evict c"
  "expired (ar_watch_touch c k) = expired c"
  "pinned_keys (ar_watch_touch c k) = pinned_keys c"
  "keys_with_ttl (ar_watch_touch c k) = keys_with_ttl c"
  "clock (ar_watch_touch c k) = clock c"
  "maxmemory (ar_watch_touch c k) = maxmemory c"
  "used_memory (ar_watch_touch c k) = used_memory c"
  "type_nkeys (ar_watch_touch c k) = type_nkeys c"
  "type_bytes (ar_watch_touch c k) = type_bytes c"
  "now_ms (ar_watch_touch c k) = now_ms c"
  "rand_src (ar_watch_touch c k) = rand_src c"
  "rand_pos (ar_watch_touch c k) = rand_pos c"
  "alloc_ok (ar_watch_touch c k) = alloc_ok c"
  "srv (ar_watch_touch c k) = srv c"
  by (simp_all add: ar_watch_touch_def)

lemma dict_of_touch [simp]: "dict_of (ar_watch_touch c k) = dict_of c"
  by (simp add: dict_of_def ar_watch_touch_def)

lemma env_of_touch [simp]: "env_of (ar_watch_touch c k) = env_of c"
  by (simp add: env_of_def ar_watch_touch_def)

lemma touch_mono: "conns_mono c (ar_watch_touch c k)"
  by (simp add: conns_mono_def ar_watch_touch_def list_all2_conv_all_nth conn_touch_mono)

lemma touch_touched: "touched (ar_watch_touch c k) k"
  by (auto simp: touched_def ar_watch_touch_def conn_touch_def)

lemma view_touch [simp]: "view (ar_watch_touch c k) = view c"
  by (rule view_cong) simp

lemma wf_touch [simp]: "wf s (ar_watch_touch c k) = wf s c"
  by (rule wf_cong) simp

lemma evo_touch:
  assumes "evo P K (insert k W) c c'"
  shows "evo P K W c (ar_watch_touch c' k)"
proof -
  have "view c' k' = view c k' \<or> touched (ar_watch_touch c' k) k'" if "k' \<notin> W" for k'
    using assms that touched_mono [OF touch_mono, of c' k' k] touch_touched [of c' k]
    by (cases "k' = k") (auto simp: evo_def)
  moreover have "conns_mono c (ar_watch_touch c' k)"
    using assms touch_mono conns_mono_trans by (auto simp: evo_def)
  ultimately show ?thesis using assms by (simp add: evo_def)
qed

lemma steps_touch: "steps s P K (insert k W) c c' \<Longrightarrow> steps s P K W c (ar_watch_touch c' k)"
  by (simp add: steps_def evo_touch)

lemma steps_touch_only: "wf s c \<Longrightarrow> steps s P K W c (ar_watch_touch c k)"
  by (rule steps_touch) (rule steps_refl)


section \<open>Unlinking and freeing\<close>

lemma mset_unlink_table:
  assumes "ct_placed ekey tbl" and "distinct (map ekey (concat tbl))"
    and "b < length tbl" and "e \<in> set (tbl ! b)"
  shows "mset (concat (unlink_entry tbl b e)) = mset (concat tbl) - {#e#}"
    and "ct_placed ekey (unlink_entry tbl b e)"
    and "length (concat (unlink_entry tbl b e)) = length (concat tbl) - 1"
    and "mset (concat tbl) = add_mset e (mset (concat (unlink_entry tbl b e)))"
proof -
  show m: "mset (concat (unlink_entry tbl b e)) = mset (concat tbl) - {#e#}"
    unfolding unlink_entry_def using assms(2-4) by (rule mset_ct_unlink)
  show "ct_placed ekey (unlink_entry tbl b e)"
    unfolding unlink_entry_def using assms(1) by (rule ct_placed_unlink)
  have e: "e \<in># mset (concat tbl)" using assms(3,4) nth_subset_concat by fastforce
  with m show "mset (concat tbl) = add_mset e (mset (concat (unlink_entry tbl b e)))" by simp
  show "length (concat (unlink_entry tbl b e)) = length (concat tbl) - 1"
    using arg_cong [OF m, of size] e by (simp add: size_Diff_singleton del: mset_concat)
qed

lemma unlink_entry_Nil [simp]: "unlink_entry tbl b e = [] \<longleftrightarrow> tbl = []"
  by (simp add: unlink_entry_def)

lemma shape_unlink:
  assumes "shape c" and "located c e b tr"
  shows "shape (tier_count_dec (unlink_tier c b tr e) tr)"
    and "mset (ents c) = add_mset e (mset (ents (tier_count_dec (unlink_tier c b tr e) tr)))"
proof -
  let ?c = "tier_count_dec (unlink_tier c b tr e) tr"
  have h: "ct_placed ekey (buckets c)" "distinct (map ekey (concat (buckets c)))"
    and k: "ct_placed ekey (cold_buckets c)" "distinct (map ekey (concat (cold_buckets c)))"
    using assms(1) by (simp_all add: shape_def ents_def)
  show m: "mset (ents c) = add_mset e (mset (ents ?c))"
  proof (cases tr)
    case Hot
    then have l: "b < length (buckets c)" "e \<in> set (buckets c ! b)" using assms(2) by (simp_all add: located_def)
    show ?thesis using mset_unlink_table(4) [OF h l] Hot
      by (simp add: ents_def unlink_tier_def tier_count_dec_def del: mset_concat)
  next
    case Cold
    then have l: "b < length (cold_buckets c)" "e \<in> set (cold_buckets c ! b)" using assms(2) by (simp_all add: located_def)
    then have "cold_buckets c \<noteq> []" by auto
    then show ?thesis using mset_unlink_table(4) [OF k l] Cold
      by (simp add: ents_def unlink_tier_def tier_count_dec_def del: mset_concat)
  qed
  have d: "distinct (map ekey (ents ?c))"
    using distinct_add [OF m] assms(1) by (simp add: shape_def)
  show "shape ?c"
  proof (cases tr)
    case Hot
    then have l: "b < length (buckets c)" "e \<in> set (buckets c ! b)" using assms(2) by (simp_all add: located_def)
    show ?thesis using d assms(1) mset_unlink_table(2,3) [OF h l] Hot
      by (cases "layout c") (simp_all add: shape_def unlink_tier_def tier_count_dec_def)
  next
    case Cold
    then have l: "b < length (cold_buckets c)" "e \<in> set (cold_buckets c ! b)" using assms(2) by (simp_all add: located_def)
    then have "cold_buckets c \<noteq> []" by auto
    then show ?thesis using d assms(1) mset_unlink_table(2,3) [OF k l] Cold
      by (cases "layout c") (simp_all add: shape_def unlink_tier_def tier_count_dec_def)
  qed
qed


lemma located_put:
  "located c e b tr \<Longrightarrow> ekey e' = ekey e \<Longrightarrow> located (entry_put c e') e' b tr"
  unfolding located_def entry_put_def ct_write_def
  by (cases tr) (force simp: image_iff)+

lemma located_cong:
  "located c e b tr \<Longrightarrow> buckets c' = buckets c \<Longrightarrow> cold_buckets c' = cold_buckets c \<Longrightarrow> located c' e b tr"
  unfolding located_def by (cases tr) simp_all

lemma located_clear_expire:
  assumes "located c e b tr" and "entry_clear_expire c e = (c', e')"
  shows "located c' e' b tr"
proof (cases "expire_at e = 0")
  case True
  with assms show ?thesis by (simp add: entry_clear_expire_def)
next
  case False
  let ?c = "c\<lparr> keys_with_ttl := keys_with_ttl c - 1, expire_at_sum := expire_at_sum c - expire_at e \<rparr>"
  have "located ?c e b tr" using assms(1) by (rule located_cong) simp_all
  then have "located (entry_put ?c (e\<lparr> expire_at := 0 \<rparr>)) (e\<lparr> expire_at := 0 \<rparr>) b tr"
    by (rule located_put) simp
  with False assms(2) show ?thesis by (auto simp: entry_clear_expire_def Let_def)
qed

lemma located_touch [simp]: "located (ar_watch_touch c k) e b tr = located c e b tr"
  by (cases tr) (simp_all add: located_def ar_watch_touch_def)

lemma unlink_tier_fields [simp]:
  "nkeys (unlink_tier c b tr e) = nkeys c"
  "keys_with_ttl (unlink_tier c b tr e) = keys_with_ttl c"
  "pinned_keys (unlink_tier c b tr e) = pinned_keys c"
  "used_memory (unlink_tier c b tr e) = used_memory c"
  "type_nkeys (unlink_tier c b tr e) = type_nkeys c"
  "type_bytes (unlink_tier c b tr e) = type_bytes c"
  "layout (unlink_tier c b tr e) = layout c"
  "conns (unlink_tier c b tr e) = conns c"
  "now_ms (unlink_tier c b tr e) = now_ms c"
  "alloc_ok (unlink_tier c b tr e) = alloc_ok c"
  "rand_src (unlink_tier c b tr e) = rand_src c"
  "evict (unlink_tier c b tr e) = evict c"
  "maxmemory (unlink_tier c b tr e) = maxmemory c"
  "srv (unlink_tier c b tr e) = srv c"
  "env_of (unlink_tier c b tr e) = env_of c"
  by (simp_all add: unlink_tier_def env_of_def)

lemma tier_count_dec_fields [simp]:
  "nkeys (tier_count_dec c tr) = nkeys c"
  "keys_with_ttl (tier_count_dec c tr) = keys_with_ttl c"
  "pinned_keys (tier_count_dec c tr) = pinned_keys c"
  "used_memory (tier_count_dec c tr) = used_memory c"
  "type_nkeys (tier_count_dec c tr) = type_nkeys c"
  "type_bytes (tier_count_dec c tr) = type_bytes c"
  "buckets (tier_count_dec c tr) = buckets c"
  "cold_buckets (tier_count_dec c tr) = cold_buckets c"
  "layout (tier_count_dec c tr) = layout c"
  "conns (tier_count_dec c tr) = conns c"
  "now_ms (tier_count_dec c tr) = now_ms c"
  "alloc_ok (tier_count_dec c tr) = alloc_ok c"
  "rand_src (tier_count_dec c tr) = rand_src c"
  "evict (tier_count_dec c tr) = evict c"
  "maxmemory (tier_count_dec c tr) = maxmemory c"
  "srv (tier_count_dec c tr) = srv c"
  "env_of (tier_count_dec c tr) = env_of c"
  by (simp_all add: tier_count_dec_def env_of_def split: tier.splits)

lemma tier_count_dec_counts:
  "hot_nkeys (tier_count_dec c tr) = (if layout c = HotCold \<and> tr = Hot then hot_nkeys c - 1 else hot_nkeys c)"
  "cold_nkeys (tier_count_dec c tr) = (if layout c = HotCold \<and> tr = Cold then cold_nkeys c - 1 else cold_nkeys c)"
  by (simp_all add: tier_count_dec_def split: tier.splits)

text \<open>The state \<open>entry_release\<close> leaves, in terms of the unlinked tables.\<close>

lemma entry_release_fields:
  "buckets (entry_release c b tr e) = buckets (tier_count_dec (unlink_tier c b tr e) tr)"
  "cold_buckets (entry_release c b tr e) = cold_buckets (tier_count_dec (unlink_tier c b tr e) tr)"
  "layout (entry_release c b tr e) = layout c"
  "hot_nkeys (entry_release c b tr e) = hot_nkeys (tier_count_dec (unlink_tier c b tr e) tr)"
  "cold_nkeys (entry_release c b tr e) = cold_nkeys (tier_count_dec (unlink_tier c b tr e) tr)"
  "nkeys (entry_release c b tr e) = nkeys c - 1"
  "keys_with_ttl (entry_release c b tr e) = keys_with_ttl c"
  "pinned_keys (entry_release c b tr e) = pinned_keys c - of_bool (pinned e)"
  "used_memory (entry_release c b tr e) = used_memory c - etotal e"
  "type_nkeys (entry_release c b tr e) = (type_nkeys c)(etype e := type_nkeys c (etype e) - 1)"
  "type_bytes (entry_release c b tr e) = (type_bytes c)(etype e := type_bytes c (etype e) - etotal e)"
  "conns (entry_release c b tr e) = conns c"
  "env_of (entry_release c b tr e) = env_of c"
  by (simp_all add: entry_release_def Let_def tier_count_dec_counts ar_type_stats_sub_key_def
      etotal_def env_of_def unlink_tier_def split: tier.splits)

lemma free_cursor:
  assumes cu: "cursor s c e N" and lo: "located c e b tr"
  defines "c' \<equiv> ar_entry_free_ex c b tr e"
  shows "wf s c'" "mset (ents c') = N" "conns_mono c c'" "touched c' (ekey e)" "env_of c' = env_of c"
    "layout c' = layout c"
proof -
  let ?c0 = "ar_watch_touch c (ekey e)"
  obtain c1 e1 where 1: "entry_clear_expire ?c0 e = (c1, e1)" by fastforce
  have c': "c' = entry_release c1 b tr e1" by (simp add: c'_def ar_entry_free_ex_def 1)
  have "cursor s ?c0 e N"
    using cu by (auto simp: cursor_def balanced_def ar_watch_touch_def intro: tabs_cong)
  note ce = clear_expire_cursor [OF this 1]
  have lo1: "located c1 e1 b tr" by (rule located_clear_expire [OF _ 1]) (simp add: lo)
  let ?t = "tier_count_dec (unlink_tier c1 b tr e1) tr"
  have sh: "shape c1" "mset (ents c1) = add_mset e1 N" "\<forall>x \<in># N. payload_ok (epay x)"
    using ce(1) by (simp_all add: cursor_def tabs_def)
  note un = shape_unlink [OF sh(1) lo1]
  have tb: "buckets c' = buckets ?t" "cold_buckets c' = cold_buckets ?t" "layout c' = layout ?t"
    "hot_nkeys c' = hot_nkeys ?t" "cold_nkeys c' = cold_nkeys ?t"
    unfolding c' by (simp_all only: entry_release_fields) simp
  have ents: "ents c' = ents ?t" using tb(1,2) by (rule ents_cong)
  with un(2) sh(2) show m: "mset (ents c') = N" by simp
  have "shape c'" using shape_cong [OF tb] un(1) by simp
  moreover have "balanced s c' N"
    using ce(1,2) unfolding c' cursor_def balanced_def by (simp add: entry_release_fields)
  ultimately show "wf s c'" using sh(3) unfolding wf_def by (simp add: m flip: set_mset_mset)
  have cn: "conns c' = conns ?c0" by (simp add: c' entry_release_fields ce(3))
  then show "conns_mono c c'" "touched c' (ekey e)"
    using touch_mono [of c "ekey e"] touch_touched [of c "ekey e"] by (simp_all add: conns_mono_def touched_def)
  show "env_of c' = env_of c" by (simp add: c' entry_release_fields ce(4))
  show "layout c' = layout c"
    using 1 by (auto simp: c' entry_release_fields entry_clear_expire_def ar_watch_touch_def Let_def split: if_splits)
qed

lemma free_view:
  assumes cu: "cursor s c e N" and lo: "located c e b tr"
  shows "view (ar_entry_free_ex c b tr e) = (view c)(ekey e := None)"
proof -
  note f = free_cursor [OF assms]
  obtain ns where n: "mset ns = N" "view c = (vw ns)(ekey e \<mapsto> obs_of e)" "ekey e \<notin> ekey ` set ns"
    using cursor_tabs [OF cu] by (rule tabs_vw)
  have "distinct (map ekey (ents (ar_entry_free_ex c b tr e)))" using wf_shape [OF f(1)] by (simp add: shape_def)
  then have "view (ar_entry_free_ex c b tr e) = vw ns"
    unfolding view_def using n(1) f(2) by (intro vw_cong_mset [symmetric]) simp_all
  moreover have "vw ns (ekey e) = None" using n(3) by (simp add: vw_None_iff)
  ultimately show ?thesis using n(2) by auto
qed

lemma free_steps:
  assumes cu: "cursor s c e N" and lo: "located c e b tr"
    and why: "entry_due c e \<or> P (obs_of e) \<or> ekey e \<in> K"
  shows "steps s P K W c (ar_entry_free_ex c b tr e)"
proof -
  note f = free_cursor [OF cu lo]
  have ve: "view c (ekey e) = Some (obs_of e)" using cu by (rule cursor_view)
  show ?thesis
    unfolding steps_def evo_def
    using f why ve by (auto simp: free_view [OF cu lo] gone_obs_of)
qed


subsection \<open>Other entries stay where they are\<close>

lemma chain_remove_other: "x \<in> set es \<Longrightarrow> key x \<noteq> k \<Longrightarrow> x \<in> set (chain_remove key k es)"
  by (induction es) auto

lemma located_put_other:
  "located c x i t \<Longrightarrow> ekey x \<noteq> ekey e \<Longrightarrow> located (entry_put c e) x i t"
  unfolding located_def entry_put_def ct_write_def
  by (cases t) (auto simp: image_iff)

lemma located_unlink_other:
  "located c x i t \<Longrightarrow> ekey x \<noteq> ekey e \<Longrightarrow> located (unlink_tier c b tr e) x i t"
  unfolding located_def unlink_tier_def unlink_entry_def ct_unlink_def
  by (cases t; cases "i = b") (auto simp: chain_remove_other)

lemma located_free:
  assumes "located c x i t" and "ekey x \<noteq> ekey e"
  shows "located (ar_entry_free_ex c b tr e) x i t"
proof -
  obtain c1 e1 where 1: "entry_clear_expire (ar_watch_touch c (ekey e)) e = (c1, e1)" by fastforce
  have "located c1 x i t \<and> ekey e1 = ekey e"
  proof (cases "expire_at e = 0")
    case True
    with 1 assms show ?thesis by (auto simp: entry_clear_expire_def)
  next
    case False
    let ?c = "(ar_watch_touch c (ekey e))\<lparr> keys_with_ttl := keys_with_ttl (ar_watch_touch c (ekey e)) - 1,
       expire_at_sum := expire_at_sum (ar_watch_touch c (ekey e)) - expire_at e \<rparr>"
    have "located ?c x i t" using assms(1) by (rule located_cong) (simp_all add: ar_watch_touch_def)
    then have "located (entry_put ?c (e\<lparr> expire_at := 0 \<rparr>)) x i t"
      by (rule located_put_other) (simp add: assms(2))
    with 1 False show ?thesis by (auto simp: entry_clear_expire_def Let_def)
  qed
  then have "located (unlink_tier c1 b tr e1) x i t" using assms(2) by (intro located_unlink_other) simp_all
  then have "located (entry_release c1 b tr e1) x i t"
    by (rule located_cong) (simp_all add: entry_release_fields)
  then show ?thesis by (simp add: ar_entry_free_ex_def 1)
qed

lemma located_expired [simp]: "located (c\<lparr> expired := n \<rparr>) e b tr = located c e b tr"
  by (cases tr) (simp_all add: located_def)


section \<open>Finding\<close>

lemma live_evo:
  assumes "evo (\<lambda>_. False) K W c c'" and "k \<notin> K"
  shows "live c' k = live c k"
proof -
  have n: "now_ms c' = now_ms c" using assms(1) by (simp add: evo_def env_of_def)
  have "view c' k = view c k \<or> (\<exists>v. view c k = Some v \<and> gone (now_ms c) v \<and> view c' k = None)"
    using assms by (simp add: evo_def)
  then show ?thesis using n by (auto simp: live_def)
qed

lemma shape_ct_ok:
  "shape c \<Longrightarrow> ct_ok ekey (buckets c)"
  "shape c \<Longrightarrow> cold_buckets c \<noteq> [] \<Longrightarrow> ct_ok ekey (cold_buckets c)"
  by (simp_all add: shape_def ct_ok_def ents_def)

lemma find_in_table_Some:
  assumes "shape c"
  shows "find_in_table (buckets c) k = Some e \<Longrightarrow>
      located c e (ct_bucket k (length (buckets c))) Hot \<and> ekey e = k"
    and "find_in_table (cold_buckets c) k = Some e \<Longrightarrow>
      located c e (ct_bucket k (length (cold_buckets c))) Cold \<and> ekey e = k"
  using ct_bucket_in [OF shape_ct_ok(1) [OF assms], of k e]
    ct_bucket_in [OF shape_ct_ok(2) [OF assms], of k e] shape_ct_ok(1) [OF assms]
  by (auto simp: find_in_table_def located_def ct_ok_def split: if_splits)

lemma find_in_table_None:
  assumes "shape c"
  shows "find_in_table (buckets c) k = None \<Longrightarrow> k \<notin> ekey ` set (concat (buckets c))"
    and "find_in_table (cold_buckets c) k = None \<Longrightarrow> k \<notin> ekey ` set (concat (cold_buckets c))"
proof -
  show "find_in_table (buckets c) k = None \<Longrightarrow> k \<notin> ekey ` set (concat (buckets c))"
    using ct_find_None [OF shape_ct_ok(1) [OF assms], of k] shape_ct_ok(1) [OF assms]
    by (simp add: find_in_table_def ct_ok_def del: set_concat)
  show "find_in_table (cold_buckets c) k = None \<Longrightarrow> k \<notin> ekey ` set (concat (cold_buckets c))"
    using ct_find_None [OF shape_ct_ok(2) [OF assms], of k]
    by (cases "cold_buckets c = []") (simp_all add: find_in_table_def del: set_concat)
qed

lemma dict_of_expired [simp]: "dict_of (c\<lparr> expired := n \<rparr>) = dict_of c"
  by (simp add: dict_of_def)

lemma expired_now_steps:
  assumes "cursor s c e N" and "located c e b tr" and "entry_due c e"
  shows "steps s P K W c ((ar_entry_free_ex c b tr e)\<lparr> expired := n \<rparr>)"
    and "view ((ar_entry_free_ex c b tr e)\<lparr> expired := n \<rparr>) = (view c)(ekey e := None)"
    and "layout ((ar_entry_free_ex c b tr e)\<lparr> expired := n \<rparr>) = layout c"
proof -
  have "steps s P K W c (ar_entry_free_ex c b tr e)"
    using assms by (intro free_steps) simp_all
  then show "steps s P K W c ((ar_entry_free_ex c b tr e)\<lparr> expired := n \<rparr>)"
    by (rule steps_then_same) (simp_all add: env_of_def)
  have "view ((ar_entry_free_ex c b tr e)\<lparr> expired := n \<rparr>) = view (ar_entry_free_ex c b tr e)"
    by (rule view_cong) simp
  then show "view ((ar_entry_free_ex c b tr e)\<lparr> expired := n \<rparr>) = (view c)(ekey e := None)"
    using free_view [OF assms(1,2)] by simp
  show "layout ((ar_entry_free_ex c b tr e)\<lparr> expired := n \<rparr>) = layout c"
    using free_cursor(6) [OF assms(1,2)] by simp
qed

lemma find_cold_absent:
  assumes "shape c" and "view c k = None"
  shows "find_cold c k = (c, None)"
proof -
  have "k \<notin> ekey ` set (concat (cold_buckets c))"
    using assms(2) by (auto simp: view_None_iff ents_def)
  then have "find_in_table (cold_buckets c) k = None"
    using ct_find_None [OF shape_ct_ok(2) [OF assms(1)], of k]
    by (cases "cold_buckets c = []") (simp_all add: find_in_table_def del: set_concat)
  then show ?thesis by (simp add: find_cold_def)
qed

lemma live_cursor:
  assumes "cursor s c e N"
  shows "live c (ekey e) = (if entry_due c e then None else Some (obs_of e))"
  using cursor_view [OF assms] by (simp add: live_def gone_obs_of)

text \<open>The two outcomes of a lookup.\<close>

lemma find_cases:
  assumes w: "wf s c"
  obtains (found) e b tr N where "ar_find_entry_ex c k = (c, Some (e, b, tr))" "ekey e = k"
      "located c e b tr" "cursor s c e N" "\<not> entry_due c e" "live c k = Some (obs_of e)"
    | (missing) c' where "ar_find_entry_ex c k = (c', None)" "\<And>P K W. steps s P K W c c'"
      "view c' k = None" "live c k = None" "layout c' = layout c"
      "\<And>e b tr. located c e b tr \<Longrightarrow> ekey e \<noteq> k \<Longrightarrow> located c' e b tr"
proof -
  have sh: "shape c" using w by (rule wf_shape)
  have hit: ?thesis if lo: "located c e b tr" and k: "ekey e = k"
    and F: "ar_find_entry_ex c k = (case entry_expired_now c e b tr of
        (c', True) \<Rightarrow> if tr = Hot then find_cold c' k else (c', None) | (c', False) \<Rightarrow> (c', Some (e, b, tr)))" for e b tr
  proof -
    obtain N where cu: "cursor s c e N" using cursor_of_wf [OF w located_ents [OF lo]] .
    show ?thesis
    proof (cases "entry_due c e")
      case False
      then show ?thesis using F lo k cu live_cursor [OF cu]
        by (intro found [of e b tr N]) (simp_all add: entry_expired_now_def)
    next
      case True
      let ?c = "(ar_entry_free_ex c b tr e)\<lparr> expired := expired (ar_entry_free_ex c b tr e) + 1 \<rparr>"
      note ex = expired_now_steps [OF cu lo True]
      have "view ?c k = None" using ex(2) k by simp
      moreover have "shape ?c" using stepsD(1) [OF ex(1)] by (rule wf_shape)
      ultimately have fc: "find_cold ?c k = (?c, None)" by (intro find_cold_absent)
      have "entry_expired_now c e b tr = (?c, True)"
        using True by (simp add: entry_expired_now_def Let_def)
      then have "ar_find_entry_ex c k = (?c, None)"
        unfolding F by (simp only: prod.case bool.case fc if_cancel)
      then show ?thesis
        using ex \<open>view ?c k = None\<close> live_cursor [OF cu] k True
        by (intro missing [of ?c]) (simp_all add: located_free)
    qed
  qed
  show ?thesis
  proof (cases "find_in_table (buckets c) k")
    case (Some e)
    then show ?thesis
      using find_in_table_Some(1) [OF sh Some]
      by (intro hit [of e "ct_bucket k (length (buckets c))" Hot])
        (simp_all add: ar_find_entry_ex_def Let_def split: prod.splits bool.splits)
  next
    case None
    show ?thesis
    proof (cases "layout c = HotCold \<and> (\<exists>e. find_in_table (cold_buckets c) k = Some e)")
      case True
      then obtain e where e: "find_in_table (cold_buckets c) k = Some e" by auto
      then have "cold_buckets c \<noteq> []" by (auto simp: find_in_table_def)
      with True None e show ?thesis
        using find_in_table_Some(2) [OF sh e]
        by (intro hit [of e "ct_bucket k (length (cold_buckets c))" Cold])
          (simp_all add: ar_find_entry_ex_def find_cold_def Let_def split: prod.splits bool.splits)
    next
      case False
      then have "k \<notin> ekey ` set (concat (cold_buckets c))"
        using sh find_in_table_None(2) [OF sh, of k]
        by (cases "layout c") (auto simp: shape_def)
      then have v: "view c k = None"
        using find_in_table_None(1) [OF sh None] by (auto simp: view_None_iff ents_def)
      have "ar_find_entry_ex c k = (c, None)"
        by (simp add: ar_find_entry_ex_def None find_cold_absent [OF sh v])
      then show ?thesis using v w by (intro missing [of c]) (simp_all add: steps_refl live_def)
    qed
  qed
qed


lemma find_steps:
  assumes w: "wf s c" and r: "ar_find_entry_ex c k = (c', x)"
  shows "steps s P K W c c'" "(x = None) = (live c k = None)"
proof -
  have "steps s P K W c c' \<and> (x = None) = (live c k = None)"
    using w by (cases rule: find_cases [of s c k]) (use r w in \<open>simp_all add: steps_refl\<close>)
  then show "steps s P K W c c'" "(x = None) = (live c k = None)" by blast+
qed


section \<open>Moving entries between chains\<close>

definition acct_of :: "core \<Rightarrow> _" where
  "acct_of c = (nkeys c, keys_with_ttl c, pinned_keys c, used_memory c, type_nkeys c, type_bytes c)"

text \<open>The same entries and accounts, linked differently.\<close>

definition moves :: "core \<Rightarrow> core \<Rightarrow> bool" where
  "moves c c' \<longleftrightarrow> shape c' \<and> mset (ents c') = mset (ents c) \<and> acct_of c' = acct_of c \<and>
     conns c' = conns c \<and> env_of c' = env_of c \<and> layout c' = layout c"

lemma moves_refl: "shape c \<Longrightarrow> moves c c"
  by (simp add: moves_def)

lemma moves_trans: "moves c c' \<Longrightarrow> moves c' c'' \<Longrightarrow> moves c c''"
  by (simp add: moves_def)

lemma moves_shape: "moves c c' \<Longrightarrow> shape c'"
  by (simp add: moves_def)

lemma balanced_acct: "acct_of c' = acct_of c \<Longrightarrow> balanced s c' M = balanced s c M"
  by (rule balanced_cong) (simp_all add: acct_of_def)

lemma moves_cursor: "moves c c' \<Longrightarrow> cursor s c e N \<Longrightarrow> cursor s c' e N"
  unfolding cursor_def tabs_def moves_def using balanced_acct [of c' c] by simp

lemma moves_view:
  assumes "moves c c'"
  shows "view c' = view c"
proof -
  have "distinct (map ekey (ents c))"
    using assms mset_eq_distinct_map [of "ents c'" "ents c" ekey] by (simp add: moves_def shape_def)
  then show ?thesis unfolding view_def using assms by (intro vw_cong_mset) (simp_all add: moves_def)
qed

lemma moves_steps:
  assumes "moves c c'" and "wf s c"
  shows "steps s P K W c c'"
proof -
  have "wf s c'"
    using assms balanced_acct [of c' c] mset_eq_setD [of "ents c'" "ents c"]
    by (simp add: wf_def moves_def)
  then show ?thesis
    using assms(1) conns_mono_cong [of c' c]
    by (simp add: steps_def evo_def moves_view [OF assms(1)] moves_def)
qed

lemma moves_same: "shape c \<Longrightarrow> dict_of c' = dict_of c \<Longrightarrow> conns c' = conns c \<Longrightarrow>
   env_of c' = env_of c \<Longrightarrow> moves c c'"
  using shape_cong [of c' c] ents_cong [of c' c]
  by (simp add: moves_def dict_of_def acct_of_def)

lemma shape_mset_distinct:
  "shape c \<Longrightarrow> mset (ents c') = mset (ents c) \<Longrightarrow> distinct (map ekey (ents c'))"
  using mset_eq_distinct_map [of "ents c'" "ents c" ekey] by (simp add: shape_def)

lemma moves_then_same: "moves c c' \<Longrightarrow> dict_of c'' = dict_of c' \<Longrightarrow> conns c'' = conns c' \<Longrightarrow>
   env_of c'' = env_of c' \<Longrightarrow> moves c c''"
  using moves_trans moves_same moves_shape by blast

text \<open>Unlinking an entry from one tier and linking it at the head of a chain of the other.\<close>

lemma mset_push: "tbl \<noteq> [] \<Longrightarrow> mset (concat (ct_push key tbl e)) = add_mset e (mset (concat tbl))"
  by (rule mset_ct_push)

lemma length_push: "tbl \<noteq> [] \<Longrightarrow> length (concat (ct_push key tbl e)) = Suc (length (concat tbl))"
  using arg_cong [OF mset_ct_push, of tbl size key e] by (simp del: mset_concat)

lemma moves_demote:
  assumes sh: "shape c" and h: "layout c = HotCold" and lo: "located c e b Hot"
    and tb: "buckets c' = unlink_entry (buckets c) b e" "cold_buckets c' = ct_push ekey (cold_buckets c) e"
      "hot_nkeys c' = hot_nkeys c - 1" "cold_nkeys c' = cold_nkeys c + 1" "layout c' = layout c"
    and eq: "acct_of c' = acct_of c" "conns c' = conns c" "env_of c' = env_of c"
  shows "moves c c'"
proof -
  have l: "b < length (buckets c)" "e \<in> set (buckets c ! b)" using lo by (simp_all add: located_def)
  have p: "ct_placed ekey (buckets c)" "distinct (map ekey (concat (buckets c)))" "cold_buckets c \<noteq> []"
    "buckets c \<noteq> []" "ct_placed ekey (cold_buckets c)" "hot_nkeys c = length (concat (buckets c))"
    "cold_nkeys c = length (concat (cold_buckets c))"
    using sh h by (simp_all add: shape_def ents_def)
  note u = mset_unlink_table [OF p(1,2) l]
  have m: "mset (ents c') = mset (ents c)"
    unfolding ents_def tb mset_append mset_push [OF p(3)] u(4) by simp
  moreover have "distinct (map ekey (ents c'))" using sh m by (rule shape_mset_distinct)
  moreover have "shape c'" if "distinct (map ekey (ents c'))"
    using that p u(2,3) h unfolding shape_def tb
    by (simp add: ct_placed_push length_push)
  ultimately show ?thesis using eq tb(5) by (simp add: moves_def)
qed

lemma moves_promote:
  assumes sh: "shape c" and h: "layout c = HotCold" and lo: "located c e b Cold"
    and tb: "cold_buckets c' = unlink_entry (cold_buckets c) b e" "buckets c' = ct_push ekey (buckets c) e"
      "cold_nkeys c' = cold_nkeys c - 1" "hot_nkeys c' = hot_nkeys c + 1" "layout c' = layout c"
    and eq: "acct_of c' = acct_of c" "conns c' = conns c" "env_of c' = env_of c"
  shows "moves c c'"
proof -
  have l: "b < length (cold_buckets c)" "e \<in> set (cold_buckets c ! b)" using lo by (simp_all add: located_def)
  have p: "ct_placed ekey (cold_buckets c)" "distinct (map ekey (concat (cold_buckets c)))" "buckets c \<noteq> []"
    "cold_buckets c \<noteq> []" "ct_placed ekey (buckets c)" "hot_nkeys c = length (concat (buckets c))"
    "cold_nkeys c = length (concat (cold_buckets c))"
    using sh h by (simp_all add: shape_def ents_def)
  note u = mset_unlink_table [OF p(1,2) l]
  have m: "mset (ents c') = mset (ents c)"
    unfolding ents_def tb mset_append mset_push [OF p(3)] u(4) by simp
  moreover have "distinct (map ekey (ents c'))" using sh m by (rule shape_mset_distinct)
  moreover have "shape c'" if "distinct (map ekey (ents c'))"
    using that p u(2,3) h unfolding shape_def tb
    by (simp add: ct_placed_push length_push)
  ultimately show ?thesis using eq tb(5) by (simp add: moves_def)
qed

lemma moves_rehash:
  assumes sh: "shape c"
    and tb: "buckets c' = buckets c \<or> buckets c' = ct_rehash ekey (buckets c)"
      "cold_buckets c' = cold_buckets c \<or> (cold_buckets c \<noteq> [] \<and> cold_buckets c' = ct_rehash ekey (cold_buckets c))"
    and eq: "hot_nkeys c' = hot_nkeys c" "cold_nkeys c' = cold_nkeys c" "layout c' = layout c"
      "acct_of c' = acct_of c" "conns c' = conns c" "env_of c' = env_of c"
  shows "moves c c'"
proof -
  have h: "mset (concat (buckets c')) = mset (concat (buckets c)) \<and> ct_placed ekey (buckets c') \<and> buckets c' \<noteq> []"
    using tb(1) sh ct_rehash_props(1,2) [of "buckets c" ekey] ct_rehash_Nil [of ekey "buckets c"]
    by (elim disjE) (simp_all add: shape_def del: mset_concat)
  have k: "mset (concat (cold_buckets c')) = mset (concat (cold_buckets c)) \<and> ct_placed ekey (cold_buckets c') \<and>
      (cold_buckets c' = [] \<longleftrightarrow> cold_buckets c = [])"
    using tb(2) sh ct_rehash_props(1,2) [of "cold_buckets c" ekey] ct_rehash_Nil [of ekey "cold_buckets c"]
    by (elim disjE conjE) (simp_all add: shape_def del: mset_concat)
  have m: "mset (ents c') = mset (ents c)" using h k by (simp add: ents_def del: mset_concat)
  with sh have d: "distinct (map ekey (ents c'))" by (rule shape_mset_distinct)
  have "length (concat (buckets c')) = length (concat (buckets c))"
    "length (concat (cold_buckets c')) = length (concat (cold_buckets c))"
    using h k by (metis size_mset)+
  then have "shape c'" using sh d h k eq unfolding shape_def by (cases "layout c") simp_all
  then show ?thesis using m eq by (simp add: moves_def)
qed

lemma rehash_fields [simp]:
  "hot_nkeys (ar_rehash_if_needed c) = hot_nkeys c"
  "cold_nkeys (ar_rehash_if_needed c) = cold_nkeys c"
  "layout (ar_rehash_if_needed c) = layout c"
  "nkeys (ar_rehash_if_needed c) = nkeys c"
  "keys_with_ttl (ar_rehash_if_needed c) = keys_with_ttl c"
  "pinned_keys (ar_rehash_if_needed c) = pinned_keys c"
  "used_memory (ar_rehash_if_needed c) = used_memory c"
  "type_nkeys (ar_rehash_if_needed c) = type_nkeys c"
  "type_bytes (ar_rehash_if_needed c) = type_bytes c"
  "conns (ar_rehash_if_needed c) = conns c"
  "now_ms (ar_rehash_if_needed c) = now_ms c"
  "alloc_ok (ar_rehash_if_needed c) = alloc_ok c"
  "rand_src (ar_rehash_if_needed c) = rand_src c"
  "evict (ar_rehash_if_needed c) = evict c"
  "maxmemory (ar_rehash_if_needed c) = maxmemory c"
  "srv (ar_rehash_if_needed c) = srv c"
  by (simp_all add: ar_rehash_if_needed_def Let_def split: layout.split)

lemma rehash_tables:
  "buckets (ar_rehash_if_needed c) = buckets c \<or>
   buckets (ar_rehash_if_needed c) = ct_rehash ekey (buckets c)"
  "cold_buckets (ar_rehash_if_needed c) = cold_buckets c \<or>
   (cold_buckets c \<noteq> [] \<and> cold_buckets (ar_rehash_if_needed c) = ct_rehash ekey (cold_buckets c))"
  by (simp_all add: ar_rehash_if_needed_def rehash_table_def Let_def split: layout.split)

lemma rehash_moves: "shape c \<Longrightarrow> moves c (ar_rehash_if_needed c)"
  by (rule moves_rehash [OF _ rehash_tables]) (simp_all add: acct_of_def env_of_def)


subsection \<open>Demotion and promotion\<close>

lemma c_rand_same: "c_rand c = (c', r) \<Longrightarrow> c' = c\<lparr> rand_pos := Suc (rand_pos c) \<rparr>"
  by (simp add: c_rand_def)

lemma located_rand [simp]: "located (c\<lparr> rand_pos := n \<rparr>) e b tr = located c e b tr"
  by (cases tr) (simp_all add: located_def)

definition demote_good :: "core \<Rightarrow> demote_pick \<Rightarrow> bool" where
  "demote_good c p \<longleftrightarrow> (case dp_best p of None \<Rightarrow> True | Some (e, b) \<Rightarrow> located c e b Hot)"

lemma demote_good_rand [simp]: "demote_good (c\<lparr> rand_pos := n \<rparr>) p = demote_good c p"
  by (auto simp: demote_good_def split: option.split)

lemma demote_scan_good:
  "demote_good c p \<Longrightarrow> i < length (buckets c) \<Longrightarrow> set es \<subseteq> set (buckets c ! i) \<Longrightarrow>
   demote_good c (demote_scan i p es)"
  by (induction i p es rule: demote_scan.induct) (auto simp: demote_good_def located_def Let_def)

lemma demote_sample_same:
  "demote_sample n c p = (c', p') \<Longrightarrow> demote_good c p \<Longrightarrow> buckets c \<noteq> [] \<Longrightarrow>
   (\<exists>r. c' = c\<lparr> rand_pos := r \<rparr>) \<and> demote_good c p'"
proof (induction n arbitrary: c p)
  case 0
  then have "c' = c\<lparr> rand_pos := rand_pos c \<rparr> \<and> p' = p" by simp
  with 0(2) show ?case by blast
next
  case (Suc n)
  show ?case
  proof (cases "dp_samples p < 16")
    case False
    then have "c' = c\<lparr> rand_pos := rand_pos c \<rparr> \<and> p' = p" using Suc.prems(1) by simp
    with Suc.prems(2) show ?thesis by blast
  next
    case True
    let ?c = "c\<lparr> rand_pos := Suc (rand_pos c) \<rparr>"
    let ?i = "rand_src c (rand_pos c) mod length (buckets c)"
    have "demote_good c (demote_scan ?i p (buckets c ! ?i))"
      using Suc.prems(2,3) by (intro demote_scan_good) simp_all
    then have g: "demote_good ?c (demote_scan ?i p (buckets c ! ?i))" by simp
    have "demote_sample n ?c (demote_scan ?i p (buckets c ! ?i)) = (c', p')"
      using Suc.prems(1) True by (simp add: c_rand_def Let_def)
    from Suc.IH [OF this g] Suc.prems(3) have "\<exists>r. c' = c\<lparr> rand_pos := r \<rparr>" and "demote_good ?c p'" by auto
    then show ?thesis by simp
  qed
qed

lemma demote_one_moves:
  assumes sh: "shape c" and d: "demote_one_hot_to_cold c = (c', r)"
  shows "moves c c'"
proof (cases "layout c \<noteq> HotCold \<or> cold_buckets c = [] \<or> hot_nkeys c = 0")
  case True
  with d sh show ?thesis by (simp add: demote_one_hot_to_cold_def moves_refl)
next
  case False
  obtain c1 p where 1: "demote_sample 64 c \<lparr> dp_best = None, dp_t = UINT64_MAX, dp_samples = 0 \<rparr> = (c1, p)"
    by fastforce
  have "(\<exists>x. c1 = c\<lparr> rand_pos := x \<rparr>) \<and> demote_good c p"
    using sh by (intro demote_sample_same [OF 1]) (simp_all add: demote_good_def shape_def)
  then obtain x where c1: "c1 = c\<lparr> rand_pos := x \<rparr>" and g: "demote_good c p" by auto
  show ?thesis
  proof (cases "dp_best p")
    case None
    with d False 1 c1 have "c' = c1" by (simp add: demote_one_hot_to_cold_def)
    with sh c1 show ?thesis by (intro moves_same) (simp_all add: dict_of_def env_of_def)
  next
    case (Some q)
    obtain e b where q: "q = (e, b)" by fastforce
    then have lo: "located c e b Hot" using g Some by (simp add: demote_good_def)
    have "c' = c1\<lparr> buckets := unlink_entry (buckets c1) b e, hot_nkeys := hot_nkeys c1 - 1,
        cold_buckets := ct_push ekey (cold_buckets c1) e,
        cold_nkeys := cold_nkeys c1 + 1, demotions := demotions c1 + 1 \<rparr>"
      using d False 1 Some q by (auto simp: demote_one_hot_to_cold_def Let_def link_cold_def)
    with c1 False lo show ?thesis
      by (intro moves_demote [OF sh _ lo]) (simp_all add: acct_of_def env_of_def)
  qed
qed

lemma demote_rounds_moves: "shape c \<Longrightarrow> moves c (demote_rounds n c)"
proof (induction n arbitrary: c)
  case 0
  then show ?case by (simp add: moves_refl)
next
  case (Suc n)
  obtain c1 r where 1: "demote_one_hot_to_cold c = (c1, r)" by fastforce
  have m: "moves c c1" using Suc.prems 1 by (rule demote_one_moves)
  show ?case
    using Suc.prems m Suc.IH [OF moves_shape [OF m]] moves_trans [OF m]
    by (cases r) (auto simp: 1 moves_refl)
qed

lemma maybe_demote_moves: "shape c \<Longrightarrow> moves c (maybe_demote_hot c)"
  by (simp add: maybe_demote_hot_def demote_rounds_moves moves_refl)

text \<open>\<open>ar_touch_get\<close> changes recency and tier, nothing a client can see.\<close>

lemma touch_get_cursor:
  assumes cu: "cursor s c e N" and lo: "located c e b tr" and t: "ar_touch_get c e b tr = (c', e')"
  shows "cursor s c' e' N" "ekey e' = ekey e" "obs_of e' = obs_of e" "conns c' = conns c" "env_of c' = env_of c"
proof -
  define e1 where "e1 = e\<lparr> last_access := clock c + 1 \<rparr>"
  define c0 where "c0 = c\<lparr> clock := clock c + 1 \<rparr>"
  define c1 where "c1 = entry_put c0 e1"
  have k1: "ekey e1 = ekey e" "obs_of e1 = obs_of e" by (simp_all add: e1_def obs_of_def)
  have "cursor s c0 e N"
    using cu unfolding c0_def cursor_def by (auto simp: balanced_def intro: tabs_cong)
  then have cu1: "cursor s c1 e1 N" unfolding c1_def using k1 by (rule cursor_put_meta)
  have sh1: "shape c1" using wf_of_cursor [OF cu1] by (rule wf_shape)
  have "located c0 e b tr" using lo by (rule located_cong) (simp_all add: c0_def)
  then have lo1: "located c1 e1 b tr" unfolding c1_def using k1(1) by (rule located_put)
  have ce: "conns c1 = conns c" "env_of c1 = env_of c" by (simp_all add: c1_def c0_def env_of_def)
  have all: "cursor s c' e' N \<and> e' = e1 \<and> conns c' = conns c \<and> env_of c' = env_of c"
  proof (cases "layout c = HotCold \<and> tr = Cold \<and> cold_buckets c1 \<noteq> [] \<and> hot_promote_on_get c")
    case False
    then have "c' = c1 \<and> e' = e1"
      using t by (auto simp: ar_touch_get_def Let_def c1_def c0_def e1_def)
    with cu1 ce show ?thesis by simp
  next
    case True
    define c2 where "c2 = c1\<lparr> cold_buckets := unlink_entry (cold_buckets c1) b e1,
      cold_nkeys := cold_nkeys c1 - 1, buckets := ct_push ekey (buckets c1) e1,
      hot_nkeys := hot_nkeys c1 + 1, promotions := promotions c1 + 1 \<rparr>"
    have c': "c' = maybe_demote_hot c2 \<and> e' = e1"
      using t True by (auto simp: ar_touch_get_def Let_def c2_def c1_def c0_def e1_def link_hot_def)
    have "moves c1 c2"
      using True lo1 by (intro moves_promote [OF sh1, of e1 b])
        (simp_all add: c2_def acct_of_def env_of_def c1_def c0_def)
    then have "moves c1 c'" using maybe_demote_moves [OF moves_shape] c' moves_trans by blast
    then show ?thesis using moves_cursor [OF _ cu1] c' ce by (simp add: moves_def)
  qed
  then show "cursor s c' e' N" "ekey e' = ekey e" "obs_of e' = obs_of e" "conns c' = conns c" "env_of c' = env_of c"
    using k1 by auto
qed


section \<open>The initial state\<close>

lemma ents_core_with [simp]: "ents (core_with nb now rnd) = []"
  by (simp add: ents_def core_with_def)

lemma wf_core_with: "0 < nb \<Longrightarrow> wf exact (core_with nb now rnd)"
proof -
  assume "0 < nb"
  then have "shape (core_with nb now rnd)"
    by (simp add: shape_def) (simp add: core_with_def)
  moreover have "balanced exact (core_with nb now rnd) {#}"
    by (simp add: balanced_def exact_def core_with_def)
  ultimately show ?thesis by (simp add: wf_def)
qed

lemma live_core_with [simp]: "live (core_with nb now rnd) = Map.empty"
  by (rule ext) (simp add: live_def view_def)

lemma core_with_fields [simp]:
  "now_ms (core_with nb now rnd) = now" "alloc_ok (core_with nb now rnd)"
  "maxmemory (core_with nb now rnd) = 0" "evict (core_with nb now rnd) = EvNoop"
  by (simp_all add: core_with_def)

end
