(* ===== verification/Evict.thy ===== *)
theory Evict
  imports Frame
begin

text \<open>
  Eviction: the six built-in kernels of \<open>ar_core.c\<close> (noop, lru, lfu, ttl_aware, slru, tinylfu) and
  the two sample plugins built on \<open>ar_core_evict_random_one\<close>, their \<open>on_get\<close> / \<open>on_set\<close> hooks, and
  the loops that call them. The four samplers of the C file are the same walk with another
  comparison, so the walk is written once over the comparison \<open>consider\<close>. The locale
  \<open>evict_kernel\<close> is the contract of \<open>ArEvictOps\<close>; every kernel, and the dispatch through
  \<open>core->evict\<close>, interpret it.
\<close>


section \<open>Hooks\<close>

definition access_tick :: "core \<Rightarrow> entry \<Rightarrow> core \<times> entry" where
  "access_tick c e = (c\<lparr> clock := clock c + 1 \<rparr>, e\<lparr> last_access := clock c + 1 \<rparr>)"

definition lfu_incr :: "entry \<Rightarrow> entry" where
  "lfu_incr e = (if lfu_freq e < 255 then e\<lparr> lfu_freq := lfu_freq e + 1 \<rparr> else e)"

definition evict_lru_on_get :: "core \<Rightarrow> entry \<Rightarrow> core \<times> entry" where
  "evict_lru_on_get c e = access_tick c e"

definition evict_lru_on_set :: "core \<Rightarrow> entry \<Rightarrow> core \<times> entry" where
  "evict_lru_on_set c e = access_tick c e"

definition evict_lfu_on_get :: "core \<Rightarrow> entry \<Rightarrow> core \<times> entry" where
  "evict_lfu_on_get c e = (c, lfu_incr e)"

definition evict_lfu_on_set :: "core \<Rightarrow> entry \<Rightarrow> core \<times> entry" where
  "evict_lfu_on_set c e =
     (case access_tick c e of (c, e) \<Rightarrow> (c, if lfu_freq e = 0 then e\<lparr> lfu_freq := 5 \<rparr> else e))"

definition evict_ttl_on_get :: "core \<Rightarrow> entry \<Rightarrow> core \<times> entry" where
  "evict_ttl_on_get c e = access_tick c e"

definition evict_ttl_on_set :: "core \<Rightarrow> entry \<Rightarrow> core \<times> entry" where
  "evict_ttl_on_set c e = access_tick c e"

definition evict_slru_on_get :: "core \<Rightarrow> entry \<Rightarrow> core \<times> entry" where
  "evict_slru_on_get c e =
     (case access_tick c e of (c, e) \<Rightarrow>
        (c, if lfu_freq e = 0 then e\<lparr> lfu_freq := 1 \<rparr>
            else if lfu_freq e < 255 then e\<lparr> lfu_freq := lfu_freq e + 1 \<rparr> else e))"

definition evict_slru_on_set :: "core \<Rightarrow> entry \<Rightarrow> core \<times> entry" where
  "evict_slru_on_set c e = (case access_tick c e of (c, e) \<Rightarrow> (c, e\<lparr> lfu_freq := 0 \<rparr>))"

text \<open>The call through \<open>core->evict\<close>, with the hook's stores to the entry written back.\<close>

definition hook_put :: "core \<times> entry \<Rightarrow> core \<times> entry" where
  "hook_put r = (case r of (c, e) \<Rightarrow> (entry_put c e, e))"

definition ops_on_get :: "core \<Rightarrow> entry \<Rightarrow> core \<times> entry" where
  "ops_on_get c e = (case evict c of
     EvNoop \<Rightarrow> (c, e) | EvRandom \<Rightarrow> (c, e) | EvRr \<Rightarrow> (c, e)
   | EvLru \<Rightarrow> evict_lru_on_get c e | EvLfu \<Rightarrow> evict_lfu_on_get c e
   | EvTtl \<Rightarrow> evict_ttl_on_get c e
   | EvSlru \<Rightarrow> evict_slru_on_get c e | EvTinylfu \<Rightarrow> evict_slru_on_get c e)"

definition evict_on_get :: "core \<Rightarrow> entry \<Rightarrow> core \<times> entry" where
  "evict_on_get c e = hook_put (ops_on_get c e)"

definition ops_on_set :: "core \<Rightarrow> entry \<Rightarrow> core \<times> entry" where
  "ops_on_set c e = (case evict c of
     EvNoop \<Rightarrow> (c, e) | EvRandom \<Rightarrow> (c, e) | EvRr \<Rightarrow> (c, e)
   | EvLru \<Rightarrow> evict_lru_on_set c e | EvLfu \<Rightarrow> evict_lfu_on_set c e
   | EvTtl \<Rightarrow> evict_ttl_on_set c e
   | EvSlru \<Rightarrow> evict_slru_on_set c e | EvTinylfu \<Rightarrow> evict_slru_on_set c e)"

definition evict_on_set :: "core \<Rightarrow> entry \<Rightarrow> core \<times> entry" where
  "evict_on_set c e = hook_put (ops_on_set c e)"


section \<open>Sampling\<close>

record pick =
  pk_best :: "slot option"
  pk_t :: nat
  pk_f :: nat
  pk_exp :: nat
  pk_ttl :: bool
  pk_prot :: nat
  pk_samples :: nat

definition pick0 :: pick where
  "pick0 = \<lparr> pk_best = None, pk_t = UINT64_MAX, pk_f = 255, pk_exp = UINT64_MAX, pk_ttl = False,
     pk_prot = 2, pk_samples = 0 \<rparr>"

definition consider_lru :: "nat \<Rightarrow> tier \<Rightarrow> entry \<Rightarrow> pick \<Rightarrow> pick" where
  "consider_lru i tr e p =
     (if last_access e < pk_t p then p\<lparr> pk_t := last_access e, pk_best := Some (e, i, tr) \<rparr> else p)"

definition consider_lfu :: "nat \<Rightarrow> tier \<Rightarrow> entry \<Rightarrow> pick \<Rightarrow> pick" where
  "consider_lfu i tr e p =
     (if lfu_freq e < pk_f p \<or> (lfu_freq e = pk_f p \<and> last_access e < pk_t p)
      then p\<lparr> pk_f := lfu_freq e, pk_t := last_access e, pk_best := Some (e, i, tr) \<rparr> else p)"

definition consider_ttl :: "nat \<Rightarrow> tier \<Rightarrow> entry \<Rightarrow> pick \<Rightarrow> pick" where
  "consider_ttl i tr e p =
     (if expire_at e \<noteq> 0 then
        (if \<not> pk_ttl p \<or> expire_at e < pk_exp p \<or> (expire_at e = pk_exp p \<and> last_access e < pk_t p)
         then p\<lparr> pk_ttl := True, pk_exp := expire_at e, pk_t := last_access e,
                 pk_best := Some (e, i, tr) \<rparr>
         else p)
      else if \<not> pk_ttl p then
        (if last_access e < pk_t p
         then p\<lparr> pk_t := last_access e, pk_exp := UINT64_MAX, pk_best := Some (e, i, tr) \<rparr> else p)
      else p)"

definition consider_slru :: "nat \<Rightarrow> tier \<Rightarrow> entry \<Rightarrow> pick \<Rightarrow> pick" where
  "consider_slru i tr e p =
     (let prot = (if lfu_freq e \<ge> 1 then 1 else 0)
      in if prot < pk_prot p \<or> (prot = pk_prot p \<and> last_access e < pk_t p)
         then p\<lparr> pk_prot := prot, pk_t := last_access e, pk_best := Some (e, i, tr) \<rparr> else p)"

type_synonym ranker = "nat \<Rightarrow> tier \<Rightarrow> entry \<Rightarrow> pick \<Rightarrow> pick"

fun sample_chain :: "ranker \<Rightarrow> nat \<Rightarrow> nat \<Rightarrow> tier \<Rightarrow> entry list \<Rightarrow> core \<Rightarrow> pick \<Rightarrow> core \<times> pick" where
  "sample_chain consider max_samples i tr [] c p = (c, p)"
| "sample_chain consider max_samples i tr (e # es) c p =
     (if pk_samples p < max_samples then
        if entry_due c e then
          let c = ar_entry_free_ex c i tr e
          in sample_chain consider max_samples i tr es (c\<lparr> expired := expired c + 1 \<rparr>) p
        else if pinned e then sample_chain consider max_samples i tr es c p
        else let p = p\<lparr> pk_samples := pk_samples p + 1 \<rparr>
             in sample_chain consider max_samples i tr es c (consider i tr e p)
      else (c, p))"

fun sample_attempts :: "ranker \<Rightarrow> nat \<Rightarrow> nat \<Rightarrow> nat \<Rightarrow> core \<Rightarrow> pick \<Rightarrow> core \<times> pick" where
  "sample_attempts consider max_samples 0 attempt c p = (c, p)"
| "sample_attempts consider max_samples (Suc n) attempt c p =
     (if pk_samples p < max_samples then
        let use_cold = (layout c = HotCold \<and> cold_buckets c \<noteq> [] \<and> cold_nkeys c > 0 \<and> odd attempt);
            table = (if use_cold then cold_buckets c else buckets c)
        in if table = [] then sample_attempts consider max_samples n (Suc attempt) c p
           else case c_rand c of (c, r) \<Rightarrow>
             let i = r mod length table
             in case sample_chain consider max_samples i (if use_cold then Cold else Hot) (table ! i) c p of
                  (c, p) \<Rightarrow> sample_attempts consider max_samples n (Suc attempt) c p
      else (c, p))"

definition max_samples :: "core \<Rightarrow> nat" where
  "max_samples c = (if evict_samples c > 0 then nat (evict_samples c) else 16)"

definition sample_pick_lru :: "core \<Rightarrow> pick \<Rightarrow> core \<times> pick" where
  "sample_pick_lru c p = sample_attempts consider_lru (max_samples c) 128 0 c p"

definition sample_pick_lfu :: "core \<Rightarrow> pick \<Rightarrow> core \<times> pick" where
  "sample_pick_lfu c p = sample_attempts consider_lfu (max_samples c) 128 0 c p"

definition sample_pick_ttl_aware :: "core \<Rightarrow> pick \<Rightarrow> core \<times> pick" where
  "sample_pick_ttl_aware c p = sample_attempts consider_ttl (max_samples c) 128 0 c p"

definition sample_pick_slru :: "core \<Rightarrow> pick \<Rightarrow> core \<times> pick" where
  "sample_pick_slru c p = sample_attempts consider_slru (max_samples c) 128 0 c p"


section \<open>Kernels\<close>

definition evict_best :: "core \<times> pick \<Rightarrow> core \<times> bool" where
  "evict_best r =
     (case r of (c, p) \<Rightarrow>
        case pk_best p of
          None \<Rightarrow> (c, False)
        | Some (e, b, tr) \<Rightarrow>
            let c = ar_entry_free_ex c b tr e in (c\<lparr> evicted := evicted c + 1 \<rparr>, True))"

definition evict_lru_one :: "core \<Rightarrow> core \<times> bool" where
  "evict_lru_one c = (if nkeys c = 0 then (c, False) else evict_best (sample_pick_lru c pick0))"

definition evict_lfu_one :: "core \<Rightarrow> core \<times> bool" where
  "evict_lfu_one c = (if nkeys c = 0 then (c, False) else evict_best (sample_pick_lfu c pick0))"

definition evict_ttl_one :: "core \<Rightarrow> core \<times> bool" where
  "evict_ttl_one c = (if nkeys c = 0 then (c, False) else evict_best (sample_pick_ttl_aware c pick0))"

definition evict_slru_one :: "core \<Rightarrow> core \<times> bool" where
  "evict_slru_one c = (if nkeys c = 0 then (c, False) else evict_best (sample_pick_slru c pick0))"

definition evict_noop_one :: "core \<Rightarrow> core \<times> bool" where
  "evict_noop_one c = (c, False)"

text \<open>The first non-empty chain among at most 64 from \<open>start\<close>, wrapping around.\<close>

definition probe_chain :: "entry list list \<Rightarrow> nat \<Rightarrow> nat option" where
  "probe_chain tbl start =
     find (\<lambda>b. tbl ! b \<noteq> []) (map (\<lambda>n. (start + n) mod length tbl) [0..<min (length tbl) 64])"

definition evict_head :: "core \<Rightarrow> tier \<Rightarrow> entry list list \<Rightarrow> nat \<Rightarrow> core" where
  "evict_head c tr tbl b =
     (let c = ar_entry_free_ex c b tr (hd (tbl ! b)) in c\<lparr> evicted := evicted c + 1 \<rparr>)"

definition random_hot :: "core \<Rightarrow> core \<times> bool" where
  "random_hot c =
     (let start = clock c mod length (buckets c); c = c\<lparr> clock := clock c + 1 \<rparr>
      in case probe_chain (buckets c) start of
           Some b \<Rightarrow> (evict_head c Hot (buckets c) b, True)
         | None \<Rightarrow> (c, False))"

definition ar_core_evict_random_one :: "core \<Rightarrow> core \<times> bool" where
  "ar_core_evict_random_one c =
     (if nkeys c = 0 then (c, False)
      else if layout c = HotCold \<and> cold_buckets c \<noteq> [] \<and> cold_nkeys c > 0 then
        let start = clock c mod length (cold_buckets c); c = c\<lparr> clock := clock c + 1 \<rparr>
        in case probe_chain (cold_buckets c) start of
             Some b \<Rightarrow> (evict_head c Cold (cold_buckets c) b, True)
           | None \<Rightarrow> random_hot c
      else random_hot c)"

definition evict_rr_one :: "core \<Rightarrow> core \<times> bool" where
  "evict_rr_one c =
     (case ar_core_evict_random_one c of (c, True) \<Rightarrow> (c, True) | (c, False) \<Rightarrow> ar_core_evict_random_one c)"

definition ar_core_over_maxmemory :: "core \<Rightarrow> bool" where
  "ar_core_over_maxmemory c = (maxmemory c > 0 \<and> used_memory c > maxmemory c)"

definition should_evict :: "core \<Rightarrow> bool" where
  "should_evict c = (evict c \<noteq> EvNoop \<and> maxmemory c > 0 \<and> used_memory c > maxmemory c)"

definition evict_one :: "core \<Rightarrow> core \<times> bool" where
  "evict_one c = (case evict c of
     EvNoop \<Rightarrow> evict_noop_one c | EvLru \<Rightarrow> evict_lru_one c | EvLfu \<Rightarrow> evict_lfu_one c
   | EvTtl \<Rightarrow> evict_ttl_one c | EvSlru \<Rightarrow> evict_slru_one c | EvTinylfu \<Rightarrow> evict_slru_one c
   | EvRandom \<Rightarrow> ar_core_evict_random_one c | EvRr \<Rightarrow> evict_rr_one c)"

fun evict_rounds :: "(core \<Rightarrow> bool) \<Rightarrow> (core \<Rightarrow> core \<times> bool) \<Rightarrow> nat \<Rightarrow> core \<Rightarrow> core" where
  "evict_rounds should one 0 c = c"
| "evict_rounds should one (Suc n) c =
     (if should c then (case one c of (c, True) \<Rightarrow> evict_rounds should one n c | (c, False) \<Rightarrow> c) else c)"

definition clamp_rounds :: "nat \<Rightarrow> nat \<Rightarrow> nat" where
  "clamp_rounds hi n = (let n = (if n < 64 then 64 else n) in if n > hi then hi else n)"

definition maybe_evict :: "core \<Rightarrow> core" where
  "maybe_evict c = evict_rounds should_evict evict_one (clamp_rounds 1000000 (nkeys c + 8)) c"

definition ar_maybe_evict_pub :: "core \<Rightarrow> core" where
  "ar_maybe_evict_pub c = evict_rounds should_evict evict_one (clamp_rounds 4096 (nkeys c + 16)) c"


section \<open>Hooks change recency only\<close>

lemma access_tick_same:
  assumes "access_tick c e = (c', e')"
  shows "c' = c\<lparr> clock := clock c + 1 \<rparr>" "e' = e\<lparr> last_access := clock c + 1 \<rparr>"
  using assms by (simp_all add: access_tick_def)

definition meta_eq :: "core \<times> entry \<Rightarrow> core \<times> entry \<Rightarrow> bool" where
  "meta_eq r r' \<longleftrightarrow> (\<exists>n. fst r' = (fst r)\<lparr> clock := n \<rparr>) \<and> ekey (snd r') = ekey (snd r) \<and>
     obs_of (snd r') = obs_of (snd r)"

lemma meta_eq_refl [simp]: "meta_eq (c, e) (c, e)"
proof -
  have "c = c\<lparr> clock := clock c \<rparr>" by simp
  then show ?thesis unfolding meta_eq_def fst_conv by blast
qed

lemma meta_eq_tick [simp]: "meta_eq (c, e) (c\<lparr> clock := n \<rparr>, e\<lparr> last_access := m \<rparr>)"
  by (auto simp: meta_eq_def obs_of_def)

lemma meta_eq_freq: "meta_eq (c, e) (c', e') \<Longrightarrow> meta_eq (c, e) (c', e'\<lparr> lfu_freq := n \<rparr>)"
  by (auto simp: meta_eq_def obs_of_def)

lemmas hook_defs = evict_lru_on_get_def evict_lru_on_set_def evict_lfu_on_get_def evict_lfu_on_set_def
  evict_ttl_on_get_def evict_ttl_on_set_def evict_slru_on_get_def evict_slru_on_set_def
  access_tick_def lfu_incr_def

lemma hooks_meta:
  "meta_eq (c, e) (evict_lru_on_get c e)" "meta_eq (c, e) (evict_lru_on_set c e)"
  "meta_eq (c, e) (evict_lfu_on_get c e)" "meta_eq (c, e) (evict_lfu_on_set c e)"
  "meta_eq (c, e) (evict_ttl_on_get c e)" "meta_eq (c, e) (evict_ttl_on_set c e)"
  "meta_eq (c, e) (evict_slru_on_get c e)" "meta_eq (c, e) (evict_slru_on_set c e)"
  by (simp_all add: hook_defs meta_eq_freq)

lemma hook_put_cursor:
  assumes cu: "cursor s c e N" and m: "meta_eq (c, e) r" and h: "hook_put r = (c', e')"
  shows "cursor s c' e' N" "ekey e' = ekey e" "obs_of e' = obs_of e" "conns c' = conns c" "env_of c' = env_of c"
proof -
  obtain c1 e1 where r: "r = (c1, e1)" by fastforce
  from m obtain n where n: "c1 = c\<lparr> clock := n \<rparr>" "ekey e1 = ekey e" "obs_of e1 = obs_of e"
    by (auto simp: meta_eq_def r)
  have c': "c' = entry_put c1 e1" "e' = e1" using h by (auto simp: hook_put_def r)
  have "cursor s c1 e N"
    using cu unfolding n(1) cursor_def by (auto simp: balanced_def intro: tabs_cong)
  then show "cursor s c' e' N" unfolding c' using n(2,3) by (rule cursor_put_meta)
  show "ekey e' = ekey e" "obs_of e' = obs_of e" "conns c' = conns c" "env_of c' = env_of c"
    using n by (simp_all add: c' env_of_def)
qed

lemma on_get_meta: "meta_eq (c, e) (ops_on_get c e)"
  by (cases "evict c") (simp_all add: ops_on_get_def hooks_meta)

lemma on_set_meta: "meta_eq (c, e) (ops_on_set c e)"
  by (cases "evict c") (simp_all add: ops_on_set_def hooks_meta)

lemma on_get_cursor:
  assumes "cursor s c e N" and "evict_on_get c e = (c', e')"
  shows "cursor s c' e' N" "ekey e' = ekey e" "obs_of e' = obs_of e" "conns c' = conns c" "env_of c' = env_of c"
  using hook_put_cursor [OF assms(1) on_get_meta assms(2) [unfolded evict_on_get_def]] by blast+

lemma on_set_cursor:
  assumes "cursor s c e N" and "evict_on_set c e = (c', e')"
  shows "cursor s c' e' N" "ekey e' = ekey e" "obs_of e' = obs_of e" "conns c' = conns c" "env_of c' = env_of c"
  using hook_put_cursor [OF assms(1) on_set_meta assms(2) [unfolded evict_on_set_def]] by blast+


section \<open>What sampling leaves\<close>

lemma free_nkeys:
  assumes "cursor s c e N" and "located c e b tr"
  shows "nkeys c = Suc (nkeys (ar_entry_free_ex c b tr e))"
  using free_cursor(1,2) [OF assms] assms(1) by (simp add: wf_def cursor_def balanced_def)

lemma env_entry_due: "env_of c' = env_of c \<Longrightarrow> entry_due c' e = entry_due c e"
  by (simp add: env_of_def entry_due_def)

definition pick_good :: "core \<Rightarrow> pick \<Rightarrow> bool" where
  "pick_good c p \<longleftrightarrow> (\<forall>e b tr. pk_best p = Some (e, b, tr) \<longrightarrow>
     located c e b tr \<and> \<not> pinned e \<and> \<not> entry_due c e)"

definition picks :: "ranker \<Rightarrow> bool" where
  "picks f \<longleftrightarrow> (\<forall>i tr e p. pk_best (f i tr e p) = pk_best p \<or> pk_best (f i tr e p) = Some (e, i, tr))"

lemma picks_considers: "picks consider_lru" "picks consider_lfu" "picks consider_ttl" "picks consider_slru"
  by (auto simp: picks_def consider_lru_def consider_lfu_def consider_ttl_def consider_slru_def Let_def)

text \<open>A walk over a chain frees due entries only and picks an entry that stays linked.\<close>

lemma sample_chain_ok:
  assumes "picks f"
  shows "sample_chain f m i tr es c p = (c', p') \<Longrightarrow> wf s c \<Longrightarrow> pick_good c p \<Longrightarrow>
     distinct (map ekey es) \<Longrightarrow> (\<forall>e \<in> set es. located c e i tr) \<Longrightarrow>
     steps s P K W c c' \<and> pick_good c' p' \<and> nkeys c' \<le> nkeys c"
proof (induction es arbitrary: c p)
  case Nil
  then show ?case by (simp add: steps_refl)
next
  case (Cons e es)
  have lo: "located c e i tr" using Cons.prems(5) by simp
  obtain N where cu: "cursor s c e N" using cursor_of_wf [OF Cons.prems(2) located_ents [OF lo]] .
  have other: "ekey x \<noteq> ekey e" if "x \<in> set es" for x
    using Cons.prems(4) that by (auto simp: image_iff)
  consider (full) "\<not> pk_samples p < m" | (due) "pk_samples p < m" "entry_due c e"
    | (pin) "pk_samples p < m" "\<not> entry_due c e" "pinned e"
    | (take) "pk_samples p < m" "\<not> entry_due c e" "\<not> pinned e" by blast
  then show ?case
  proof cases
    case full
    with Cons.prems show ?thesis by (simp add: steps_refl)
  next
    case due
    let ?c = "(ar_entry_free_ex c i tr e)\<lparr> expired := expired (ar_entry_free_ex c i tr e) + 1 \<rparr>"
    have st: "steps s P K W c ?c" using cu lo due(2) by (rule expired_now_steps(1))
    have env: "env_of ?c = env_of c" using st by (simp add: steps_def evo_def)
    have "pick_good ?c p"
      unfolding pick_good_def
    proof (intro allI impI)
      fix e' b' t' assume b: "pk_best p = Some (e', b', t')"
      then have g: "located c e' b' t'" "\<not> pinned e'" "\<not> entry_due c e'"
        using Cons.prems(3) by (simp_all add: pick_good_def)
      have "ekey e' \<noteq> ekey e"
      proof
        assume k: "ekey e' = ekey e"
        have "e' = e" using wf_shape [OF Cons.prems(2)] located_ents [OF g(1)] located_ents [OF lo] k
          by (metis distinct_map inj_onD shape_def)
        with g(3) due(2) show False by simp
      qed
      with g env_entry_due [OF env] show "located ?c e' b' t' \<and> \<not> pinned e' \<and> \<not> entry_due ?c e'"
        by (simp add: located_free)
    qed
    moreover have "\<forall>x \<in> set es. located ?c x i tr"
      using Cons.prems(5) other by (simp add: located_free)
    moreover have "sample_chain f m i tr es ?c p = (c', p')"
      using Cons.prems(1) due by (simp add: Let_def)
    ultimately have "steps s P K W ?c c' \<and> pick_good c' p' \<and> nkeys c' \<le> nkeys ?c"
      using Cons.prems(4) stepsD(1) [OF st] by (intro Cons.IH) simp_all
    then show ?thesis using steps_trans [OF st] free_nkeys [OF cu lo] by auto
  next
    case pin
    then show ?thesis using Cons.IH [of c p] Cons.prems by simp
  next
    case take
    let ?p = "f i tr e (p\<lparr> pk_samples := pk_samples p + 1 \<rparr>)"
    have "pk_best ?p = pk_best p \<or> pk_best ?p = Some (e, i, tr)"
      using assms unfolding picks_def by (metis pick.select_convs(1) pick.surjective pick.update_convs(7))
    then have "pick_good c ?p"
      using Cons.prems(3) take(2,3) lo by (auto simp: pick_good_def)
    then show ?thesis using Cons.IH [of c ?p] Cons.prems take by (simp add: Let_def)
  qed
qed


lemma table_located:
  assumes "shape c" and "i < length (if cold then cold_buckets c else buckets c)"
  shows "\<forall>e \<in> set ((if cold then cold_buckets c else buckets c) ! i). located c e i (if cold then Cold else Hot)"
    and "distinct (map ekey ((if cold then cold_buckets c else buckets c) ! i))"
proof -
  show "\<forall>e \<in> set ((if cold then cold_buckets c else buckets c) ! i). located c e i (if cold then Cold else Hot)"
    using assms(2) by (cases cold) (simp_all add: located_def)
  have "distinct (map ekey (concat (if cold then cold_buckets c else buckets c)))"
    using assms(1) by (simp add: shape_def ents_def)
  then show "distinct (map ekey ((if cold then cold_buckets c else buckets c) ! i))"
    using assms(2) by (rule distinct_keys_nth)
qed

lemma pick_good_rand [simp]: "pick_good (c\<lparr> rand_pos := n \<rparr>) p = pick_good c p"
  by (simp add: pick_good_def entry_due_def)

lemma steps_rand: "wf s c \<Longrightarrow> steps s P K W c (c\<lparr> rand_pos := n \<rparr>)"
  by (rule steps_same) (simp_all add: dict_of_def env_of_def)

lemma sample_attempts_ok:
  assumes "picks f"
  shows "sample_attempts f m n a c p = (c', p') \<Longrightarrow> wf s c \<Longrightarrow> pick_good c p \<Longrightarrow>
     steps s P K W c c' \<and> pick_good c' p' \<and> nkeys c' \<le> nkeys c"
proof (induction n arbitrary: a c p)
  case 0
  then show ?case by (simp add: steps_refl)
next
  case (Suc n)
  define cold where "cold = (layout c = HotCold \<and> cold_buckets c \<noteq> [] \<and> cold_nkeys c > 0 \<and> odd a)"
  define table where "table = (if cold then cold_buckets c else buckets c)"
  have sh: "shape c" using Suc.prems(2) by (rule wf_shape)
  have ne: "table \<noteq> []" using sh by (simp add: table_def cold_def shape_def)
  show ?case
  proof (cases "pk_samples p < m")
    case False
    with Suc.prems show ?thesis by (simp add: steps_refl)
  next
    case True
    let ?c = "c\<lparr> rand_pos := Suc (rand_pos c) \<rparr>"
    let ?i = "rand_src c (rand_pos c) mod length table"
    obtain c1 p1 where 1: "sample_chain f m ?i (if cold then Cold else Hot) (table ! ?i) ?c p = (c1, p1)"
      by fastforce
    have r: "steps s P K W c ?c" using Suc.prems(2) by (rule steps_rand)
    have i: "?i < length (if cold then cold_buckets ?c else buckets ?c)"
      using ne by (cases cold) (simp_all add: table_def)
    have tc: "(if cold then cold_buckets ?c else buckets ?c) = table" by (simp add: table_def)
    note tl = table_located [OF wf_shape [OF stepsD(1) [OF r]] i, unfolded tc]
    have st: "steps s P K W ?c c1 \<and> pick_good c1 p1 \<and> nkeys c1 \<le> nkeys ?c"
      using sample_chain_ok [OF assms 1 stepsD(1) [OF r] _ tl(2,1)] Suc.prems(3) by simp
    have "sample_attempts f m n (Suc a) c1 p1 = (c', p')"
      using Suc.prems(1) True ne 1
      by (simp add: c_rand_def Let_def flip: cold_def) (simp add: table_def c_rand_def Let_def split: if_splits)
    then have "steps s P K W c1 c' \<and> pick_good c' p' \<and> nkeys c' \<le> nkeys c1"
      using st stepsD(1) by (intro Suc.IH [of "Suc a" c1 p1]) blast+
    with st show ?thesis using steps_trans [OF steps_trans [OF r]] by auto
  qed
qed


section \<open>The contract of a kernel\<close>

definition kernel_takes :: "core \<Rightarrow> obs \<Rightarrow> bool" where
  "kernel_takes c v \<longleftrightarrow> evict c \<noteq> EvNoop \<and> (\<not> o_pin v \<or> evict c = EvRandom \<or> evict c = EvRr)"

text \<open>
  \<open>one\<close> is \<open>evict_one\<close> of an \<open>ArEvictOps\<close>, \<open>takes\<close> the entries it may pick. A successful call
  frees at least one key, and no call does more than free entries that are due or may be taken.
\<close>

locale evict_kernel =
  fixes one :: "core \<Rightarrow> core \<times> bool"
    and takes :: "core \<Rightarrow> obs \<Rightarrow> bool"
  assumes takes_env: "env_of c' = env_of c \<Longrightarrow> takes c' = takes c"
    and one_steps: "wf s c \<Longrightarrow> one c = (c', r) \<Longrightarrow> steps s (takes c) {} {} c c'"
    and one_less: "wf s c \<Longrightarrow> one c = (c', True) \<Longrightarrow> nkeys c' < nkeys c"
begin

lemma rounds_steps:
  assumes "wf s c"
  shows "steps s (takes c) {} {} c (evict_rounds should one n c)"
  using assms
proof (induction n arbitrary: c)
  case 0
  then show ?case by (simp add: steps_refl)
next
  case (Suc n)
  obtain c1 r where 1: "one c = (c1, r)" by fastforce
  have st: "steps s (takes c) {} {} c c1" using Suc.prems 1 by (rule one_steps)
  then have t: "takes c1 = takes c" by (intro takes_env) (simp add: steps_def evo_def)
  have "steps s (takes c) {} {} c (evict_rounds should one n c1)"
    using steps_trans [OF st] Suc.IH [OF stepsD(1) [OF st]] t by simp
  with Suc.prems st show ?case by (cases r) (simp_all add: 1 steps_refl)
qed

text \<open>With as many rounds as there are keys, the loop ends because the limit is met or because the
  kernel found no victim, never because the rounds ran out.\<close>

lemma rounds_stop:
  assumes "wf s c" and "nkeys c < n"
  shows "\<not> should (evict_rounds should one n c) \<or>
    (\<exists>c1. wf s c1 \<and> should c1 \<and> one c1 = (evict_rounds should one n c, False))"
  using assms
proof (induction n arbitrary: c)
  case 0
  then show ?case by simp
next
  case (Suc n)
  obtain c1 r where 1: "one c = (c1, r)" by fastforce
  show ?case
  proof (cases "should c \<and> r")
    case True
    then have "nkeys c1 < n" using one_less [OF Suc.prems(1)] 1 Suc.prems(2) by fastforce
    then show ?thesis
      using Suc.IH [of c1] stepsD(1) [OF one_steps [OF Suc.prems(1) 1]] True by (simp add: 1)
  next
    case False
    with Suc.prems(1) 1 show ?thesis by (cases "should c") auto
  qed
qed

end


section \<open>Every kernel meets the contract\<close>

lemma wf_evicted: "dict_of (c\<lparr> evicted := n \<rparr>) = dict_of c" "env_of (c\<lparr> evicted := n \<rparr>) = env_of c"
  by (simp_all add: dict_of_def env_of_def)

lemma evict_best_ok:
  assumes "wf s c" and "pick_good c p" and "evict_best (c, p) = (c', r)"
  shows "steps s (\<lambda>v. \<not> o_pin v) {} {} c c' \<and> (r \<longrightarrow> nkeys c' < nkeys c)"
proof (cases "pk_best p")
  case None
  with assms show ?thesis by (simp add: evict_best_def steps_refl)
next
  case (Some q)
  obtain e b tr where q: "q = (e, b, tr)" by (cases q)
  have g: "located c e b tr" "\<not> pinned e"
    using assms(2) Some q by (simp_all add: pick_good_def)
  obtain N where cu: "cursor s c e N" using cursor_of_wf [OF assms(1) located_ents [OF g(1)]] .
  let ?c = "ar_entry_free_ex c b tr e"
  have c': "c' = ?c\<lparr> evicted := evicted ?c + 1 \<rparr>" using assms(3) Some q by (simp add: evict_best_def Let_def)
  have "steps s (\<lambda>v. \<not> o_pin v) {} {} c ?c" using cu g by (intro free_steps) simp_all
  then have "steps s (\<lambda>v. \<not> o_pin v) {} {} c c'"
    unfolding c' by (rule steps_then_same) (simp_all add: wf_evicted)
  then show ?thesis using free_nkeys [OF cu g(1)] by (simp add: c')
qed

lemma sampled_kernel:
  assumes f: "picks f" and one: "\<And>c. one c = (if nkeys c = 0 then (c, False)
      else evict_best (sample_attempts f (max_samples c) 128 0 c pick0))"
  shows "evict_kernel one (\<lambda>_ v. \<not> o_pin v)"
proof
  fix s c c' r assume w: "wf s c" and o: "one c = (c', r)"
  obtain c1 p1 where 1: "sample_attempts f (max_samples c) 128 0 c pick0 = (c1, p1)" by fastforce
  have "pick_good c pick0" by (simp add: pick_good_def pick0_def)
  note s1 = sample_attempts_ok [OF f 1 w this]
  have both: "steps s (\<lambda>v. \<not> o_pin v) {} {} c c' \<and> (r \<longrightarrow> nkeys c' < nkeys c)"
  proof (cases "nkeys c = 0")
    case True
    with o w show ?thesis by (simp add: one steps_refl)
  next
    case False
    then have "evict_best (c1, p1) = (c', r)" using o by (simp add: one 1)
    then have "steps s (\<lambda>v. \<not> o_pin v) {} {} c1 c' \<and> (r \<longrightarrow> nkeys c' < nkeys c1)"
      using s1 stepsD(1) by (intro evict_best_ok [of s c1 p1]) blast+
    with s1 show ?thesis using steps_trans by (metis (no_types, lifting) dual_order.strict_trans1)
  qed
  then show "steps s (\<lambda>v. \<not> o_pin v) {} {} c c'" by simp
  show "nkeys c' < nkeys c" if "one c = (c', True)"
    using both that o by simp
qed simp

interpretation lru: evict_kernel evict_lru_one "\<lambda>_ v. \<not> o_pin v"
  by (rule sampled_kernel [OF picks_considers(1)]) (simp add: evict_lru_one_def sample_pick_lru_def)

interpretation lfu: evict_kernel evict_lfu_one "\<lambda>_ v. \<not> o_pin v"
  by (rule sampled_kernel [OF picks_considers(2)]) (simp add: evict_lfu_one_def sample_pick_lfu_def)

interpretation ttl: evict_kernel evict_ttl_one "\<lambda>_ v. \<not> o_pin v"
  by (rule sampled_kernel [OF picks_considers(3)]) (simp add: evict_ttl_one_def sample_pick_ttl_aware_def)

interpretation slru: evict_kernel evict_slru_one "\<lambda>_ v. \<not> o_pin v"
  by (rule sampled_kernel [OF picks_considers(4)]) (simp add: evict_slru_one_def sample_pick_slru_def)

interpretation noop: evict_kernel evict_noop_one "\<lambda>_ _. False"
  by unfold_locales (simp_all add: evict_noop_one_def steps_refl)


subsection \<open>The plugins\<close>

lemma probe_chain_Some: "probe_chain tbl start = Some b \<Longrightarrow> b < length tbl \<and> tbl ! b \<noteq> []"
  unfolding probe_chain_def find_Some_iff
  by (cases "tbl = []") (auto intro: mod_less_divisor)

lemma evict_head_ok:
  assumes w: "wf s c" and lo: "located c (hd (tbl ! b)) b tr"
  shows "steps s P UNIV {} c (evict_head c tr tbl b)"
    and "steps s (\<lambda>_. True) {} {} c (evict_head c tr tbl b)"
    and "nkeys (evict_head c tr tbl b) < nkeys c"
proof -
  let ?e = "hd (tbl ! b)"
  obtain N where cu: "cursor s c ?e N" using cursor_of_wf [OF w located_ents [OF lo]] .
  have 1: "steps s P UNIV {} c (ar_entry_free_ex c b tr ?e)"
    and 2: "steps s (\<lambda>_. True) {} {} c (ar_entry_free_ex c b tr ?e)"
    by (rule free_steps [OF cu lo], simp)+
  show "steps s P UNIV {} c (evict_head c tr tbl b)" "steps s (\<lambda>_. True) {} {} c (evict_head c tr tbl b)"
    unfolding evict_head_def Let_def
    by (rule steps_then_same [OF 1] steps_then_same [OF 2]; simp add: wf_evicted)+
  show "nkeys (evict_head c tr tbl b) < nkeys c"
    using free_nkeys [OF cu lo] by (simp add: evict_head_def Let_def)
qed

lemma located_head:
  "b < length (buckets c) \<Longrightarrow> buckets c ! b \<noteq> [] \<Longrightarrow> located c (hd (buckets c ! b)) b Hot"
  "b < length (cold_buckets c) \<Longrightarrow> cold_buckets c ! b \<noteq> [] \<Longrightarrow> located c (hd (cold_buckets c ! b)) b Cold"
  by (simp_all add: located_def)

lemma steps_clock: "wf s c \<Longrightarrow> steps s P K W c (c\<lparr> clock := n \<rparr>)"
  by (rule steps_same) (simp_all add: dict_of_def env_of_def)

lemma evict_at_ok:
  assumes w: "wf s c" and p: "probe_chain (if cold then cold_buckets c else buckets c) start = Some b"
  shows "steps s (\<lambda>_. True) {} {} c
      (evict_head (c\<lparr> clock := n \<rparr>) (if cold then Cold else Hot) (if cold then cold_buckets c else buckets c) b)"
    and "nkeys (evict_head (c\<lparr> clock := n \<rparr>) (if cold then Cold else Hot)
      (if cold then cold_buckets c else buckets c) b) < nkeys c"
proof -
  let ?c = "c\<lparr> clock := n \<rparr>"
  let ?t = "if cold then cold_buckets c else buckets c"
  have lo: "located ?c (hd (?t ! b)) b (if cold then Cold else Hot)"
    using probe_chain_Some [OF p] by (cases cold) (simp_all add: located_def)
  note st = steps_clock [OF w, of _ _ _ n]
  show "steps s (\<lambda>_. True) {} {} c (evict_head ?c (if cold then Cold else Hot) ?t b)"
    by (rule steps_trans [OF st evict_head_ok(2) [OF stepsD(1) [OF st] lo]])
  show "nkeys (evict_head ?c (if cold then Cold else Hot) ?t b) < nkeys c"
    using evict_head_ok(3) [OF stepsD(1) [OF st] lo] by simp
qed

lemma random_hot_ok:
  assumes w: "wf s c" and o: "random_hot c = (c', r)"
  shows "steps s (\<lambda>_. True) {} {} c c' \<and> (r \<longrightarrow> nkeys c' < nkeys c) \<and> nkeys c' \<le> nkeys c"
proof (cases "probe_chain (buckets c) (clock c mod length (buckets c))")
  case None
  with o have "c' = c\<lparr> clock := clock c + 1 \<rparr> \<and> \<not> r" by (auto simp: random_hot_def Let_def)
  with w show ?thesis by (simp add: steps_clock)
next
  case (Some b)
  with o have "c' = evict_head (c\<lparr> clock := clock c + 1 \<rparr>) Hot (buckets c) b" by (auto simp: random_hot_def Let_def)
  then show ?thesis
    using evict_at_ok [OF w, of False "clock c mod length (buckets c)" b "clock c + 1"] Some by simp
qed

lemma evict_random_ok:
  assumes w: "wf s c" and o: "ar_core_evict_random_one c = (c', r)"
  shows "steps s (\<lambda>_. True) {} {} c c' \<and> (r \<longrightarrow> nkeys c' < nkeys c) \<and> nkeys c' \<le> nkeys c"
proof -
  let ?cold = "layout c = HotCold \<and> cold_buckets c \<noteq> [] \<and> cold_nkeys c > 0"
  let ?p = "probe_chain (cold_buckets c) (clock c mod length (cold_buckets c))"
  consider (empty) "nkeys c = 0" | (hot) "nkeys c \<noteq> 0" "\<not> ?cold"
    | (miss) "nkeys c \<noteq> 0" ?cold "?p = None" | (hit) b where "nkeys c \<noteq> 0" ?cold "?p = Some b" by blast
  then show ?thesis
  proof cases
    case empty
    with o w show ?thesis by (simp add: ar_core_evict_random_one_def steps_refl)
  next
    case hot
    with o have "random_hot c = (c', r)" by (auto simp: ar_core_evict_random_one_def)
    with w show ?thesis by (rule random_hot_ok)
  next
    case miss
    let ?c = "c\<lparr> clock := clock c + 1 \<rparr>"
    have "random_hot ?c = (c', r)" using miss o by (simp add: ar_core_evict_random_one_def Let_def)
    moreover note st = steps_clock [OF w, of "\<lambda>_. True" "{}" "{}" "clock c + 1"]
    ultimately have "steps s (\<lambda>_. True) {} {} ?c c' \<and> (r \<longrightarrow> nkeys c' < nkeys ?c) \<and> nkeys c' \<le> nkeys ?c"
      by (intro random_hot_ok stepsD(1) [OF st])
    then show ?thesis using steps_trans [OF st] by simp
  next
    case (hit b)
    with o have "c' = evict_head (c\<lparr> clock := clock c + 1 \<rparr>) Cold (cold_buckets c) b"
      by (simp add: ar_core_evict_random_one_def Let_def)
    then show ?thesis
      using evict_at_ok [OF w, of True "clock c mod length (cold_buckets c)" b "clock c + 1"] hit by simp
  qed
qed

lemma evict_rr_ok:
  assumes w: "wf s c" and o: "evict_rr_one c = (c', r)"
  shows "steps s (\<lambda>_. True) {} {} c c' \<and> (r \<longrightarrow> nkeys c' < nkeys c)"
proof -
  obtain c1 r1 where 1: "ar_core_evict_random_one c = (c1, r1)" by fastforce
  note s1 = evict_random_ok [OF w 1]
  show ?thesis
  proof (cases r1)
    case True
    with o 1 s1 show ?thesis by (simp add: evict_rr_one_def)
  next
    case False
    then have "ar_core_evict_random_one c1 = (c', r)" using o 1 by (simp add: evict_rr_one_def)
    with s1 have "steps s (\<lambda>_. True) {} {} c1 c' \<and> (r \<longrightarrow> nkeys c' < nkeys c1) \<and> nkeys c' \<le> nkeys c1"
      using stepsD(1) by (intro evict_random_ok) blast+
    with s1 show ?thesis using steps_trans by (metis (no_types, lifting) dual_order.strict_trans1)
  qed
qed

interpretation random: evict_kernel ar_core_evict_random_one "\<lambda>_ _. True"
  by unfold_locales (use evict_random_ok in blast)+

interpretation rr: evict_kernel evict_rr_one "\<lambda>_ _. True"
  by unfold_locales (use evict_rr_ok in blast)+


subsection \<open>The dispatch through the core's vtable\<close>

lemma kernel_takes_env: "env_of c' = env_of c \<Longrightarrow> kernel_takes c' = kernel_takes c"
  by (simp add: kernel_takes_def env_of_def fun_eq_iff)

lemma steps_weaken: "steps s P K W c c' \<Longrightarrow> (\<And>v. P v \<Longrightarrow> Q v) \<Longrightarrow> steps s Q K W c c'"
  by (erule steps_mono) auto

lemma evict_one_steps:
  assumes "wf s c" and "evict_one c = (c', r)"
  shows "steps s (kernel_takes c) {} {} c c'"
proof (cases "evict c")
  case EvNoop
  with assms show ?thesis by (simp add: evict_one_def evict_noop_one_def steps_refl)
next
  case EvLru
  with assms have "steps s (\<lambda>v. \<not> o_pin v) {} {} c c'" by (simp add: evict_one_def lru.one_steps)
  then show ?thesis by (rule steps_weaken) (simp add: kernel_takes_def EvLru)
next
  case EvLfu
  with assms have "steps s (\<lambda>v. \<not> o_pin v) {} {} c c'" by (simp add: evict_one_def lfu.one_steps)
  then show ?thesis by (rule steps_weaken) (simp add: kernel_takes_def EvLfu)
next
  case EvTtl
  with assms have "steps s (\<lambda>v. \<not> o_pin v) {} {} c c'" by (simp add: evict_one_def ttl.one_steps)
  then show ?thesis by (rule steps_weaken) (simp add: kernel_takes_def EvTtl)
next
  case EvSlru
  with assms have "steps s (\<lambda>v. \<not> o_pin v) {} {} c c'" by (simp add: evict_one_def slru.one_steps)
  then show ?thesis by (rule steps_weaken) (simp add: kernel_takes_def EvSlru)
next
  case EvTinylfu
  with assms have "steps s (\<lambda>v. \<not> o_pin v) {} {} c c'" by (simp add: evict_one_def slru.one_steps)
  then show ?thesis by (rule steps_weaken) (simp add: kernel_takes_def EvTinylfu)
next
  case EvRandom
  with assms have "steps s (\<lambda>_. True) {} {} c c'" by (simp add: evict_one_def random.one_steps)
  then show ?thesis by (rule steps_weaken) (simp add: kernel_takes_def EvRandom)
next
  case EvRr
  with assms have "steps s (\<lambda>_. True) {} {} c c'" by (simp add: evict_one_def rr.one_steps)
  then show ?thesis by (rule steps_weaken) (simp add: kernel_takes_def EvRr)
qed

lemma evict_one_less: "wf s c \<Longrightarrow> evict_one c = (c', True) \<Longrightarrow> nkeys c' < nkeys c"
  by (cases "evict c")
    (auto simp: evict_one_def evict_noop_one_def dest: lru.one_less lfu.one_less ttl.one_less
      slru.one_less random.one_less rr.one_less)

interpretation dispatch: evict_kernel evict_one kernel_takes
  by unfold_locales (use kernel_takes_env evict_one_steps evict_one_less in blast)+

text \<open>What eviction may drop in a given configuration.\<close>

definition droppable :: "core \<Rightarrow> obs \<Rightarrow> bool" where
  "droppable c v \<longleftrightarrow> 0 < maxmemory c \<and> kernel_takes c v"

lemma droppable_env: "env_of c' = env_of c \<Longrightarrow> droppable c' = droppable c"
  by (simp add: droppable_def kernel_takes_def env_of_def fun_eq_iff)

lemma rounds_idle: "maxmemory c = 0 \<Longrightarrow> evict_rounds should_evict one n c = c"
  by (cases n) (simp_all add: should_evict_def)

lemma rounds_droppable:
  assumes "wf s c"
  shows "steps s (droppable c) {} {} c (evict_rounds should_evict evict_one n c)"
proof (cases "maxmemory c = 0")
  case True
  with assms show ?thesis by (simp add: rounds_idle steps_refl)
next
  case False
  have "steps s (kernel_takes c) {} {} c (evict_rounds should_evict evict_one n c)"
    using assms by (rule dispatch.rounds_steps)
  then show ?thesis by (rule steps_weaken) (use False in \<open>simp add: droppable_def\<close>)
qed

lemma maybe_evict_steps: "wf s c \<Longrightarrow> steps s (droppable c) {} {} c (maybe_evict c)"
  unfolding maybe_evict_def by (rule rounds_droppable)

lemma maybe_evict_pub_steps: "wf s c \<Longrightarrow> steps s (droppable c) {} {} c (ar_maybe_evict_pub c)"
  unfolding ar_maybe_evict_pub_def by (rule rounds_droppable)

text \<open>The contents a command is meant to produce, less what eviction may take.\<close>

definition yields :: "core \<Rightarrow> (bytes \<Rightarrow> obs option) \<Rightarrow> bool" where
  "yields c L \<longleftrightarrow> (\<forall>k. live c k = L k \<or> (\<exists>v. L k = Some v \<and> droppable c v \<and> live c k = None))"

lemma yields_refl: "live c = L \<Longrightarrow> yields c L"
  by (simp add: yields_def)

lemma yields_unlimited: "yields c L \<Longrightarrow> maxmemory c = 0 \<or> evict c = EvNoop \<Longrightarrow> live c = L"
  unfolding yields_def droppable_def kernel_takes_def fun_eq_iff by auto

lemma yields_evo:
  assumes "yields c L" and "evo (droppable c) {} W c c'"
  shows "yields c' L"
  unfolding yields_def
proof
  fix k
  have env: "env_of c' = env_of c" using assms(2) by (simp add: evo_def)
  have d: "droppable c' = droppable c" using env by (rule droppable_env)
  have n: "now_ms c' = now_ms c" using env by (simp add: env_of_def)
  have "view c' k = view c k \<or> (\<exists>v. view c k = Some v \<and> (gone (now_ms c) v \<or> droppable c v) \<and> view c' k = None)"
    using assms(2) by (simp add: evo_def)
  then have 1: "live c' k = live c k \<or> (\<exists>v. live c k = Some v \<and> droppable c v \<and> live c' k = None)"
    by (cases "view c k") (auto simp: live_def n split: if_splits)
  have 2: "live c k = L k \<or> (\<exists>v. L k = Some v \<and> droppable c v \<and> live c k = None)"
    using assms(1) by (simp add: yields_def)
  show "live c' k = L k \<or> (\<exists>v. L k = Some v \<and> droppable c' v \<and> live c' k = None)"
    unfolding d using 1 2 by (cases "live c k = L k") auto
qed

end
