(* ===== verification/Strings.thy ===== *)
theory Strings
  imports Evict
begin

text \<open>
  The basic key operations of \<open>ar_core.c\<close>: SET and its variants, deadlines and TTL, GET, EXISTS,
  DEL and STRLEN, with what each does to the contents, the invariant and the watchers. An operation takes the core and its arguments and returns the core with the C
  return value; an out-parameter (\<open>wrongtype\<close>, \<open>ok\<close>) is a further component. \<open>NULL\<close> arguments,
  which the C functions reject, are not representable here.
\<close>


section \<open>SET\<close>

fun str_val :: "payload \<Rightarrow> bytes" where
  "str_val (PStr v) = v"
| "str_val _ = []"

text \<open>SET over a typed value: the object is released and the key shell re-attributed.\<close>

definition entry_retype_string :: "core \<Rightarrow> entry \<Rightarrow> core \<times> entry" where
  "entry_retype_string c e =
     (if etype e = TString then (c, e)
      else let old_pay = ar_entry_payload_bytes e;
               old_tot = length (ekey e) + old_pay + sizeof_ArEntry;
               c = ar_type_stats_sub_key c (etype e) old_tot;
               c = ar_mem_sub c old_pay;
               e = e\<lparr> epay := PStr [] \<rparr>;
               c = entry_put c e
           in (ar_type_stats_add_key c TString (length (ekey e) + sizeof_ArEntry), e))"

definition entry_store_string :: "core \<Rightarrow> entry \<Rightarrow> bytes \<Rightarrow> core \<times> entry" where
  "entry_store_string c e val =
     (let vlen = length (str_val (epay e));
          c = c\<lparr> used_memory := u64_sub (used_memory c) vlen \<rparr>;
          c = ar_type_stats_bytes_delta c TString (- int vlen);
          e = e\<lparr> epay := PStr val \<rparr>;
          c = c\<lparr> used_memory := used_memory c + length val \<rparr>;
          c = ar_type_stats_bytes_delta c TString (int (length val));
          c = ar_type_stats_note_bigkey c TString (length val);
          c = c\<lparr> clock := clock c + 1 \<rparr>;
          e = e\<lparr> last_access := clock c \<rparr>
      in (entry_put c e, e))"

definition entry_new_string :: "core \<Rightarrow> bytes \<Rightarrow> bytes \<Rightarrow> core \<times> entry" where
  "entry_new_string c key val =
     (let c = c\<lparr> clock := clock c + 1 \<rparr>;
          ne = \<lparr> ekey = key, epay = PStr val, last_access = clock c, lfu_freq = 5, pinned = False,
                 expire_at = 0 \<rparr>;
          c = link_hot c ne;
          c = c\<lparr> unique_sets := unique_sets c + 1, nkeys := nkeys c + 1 \<rparr>;
          c = (if layout c = HotCold then c\<lparr> hot_nkeys := hot_nkeys c + 1 \<rparr> else c);
          tot = length key + length val + sizeof_ArEntry;
          c = c\<lparr> used_memory := used_memory c + tot \<rparr>;
          c = ar_type_stats_add_key c TString tot
      in (ar_type_stats_note_bigkey c TString (length val), ne))"

definition ar_entry_set_ex :: "core \<Rightarrow> bytes \<Rightarrow> bytes \<Rightarrow> nat \<Rightarrow> core \<times> bool" where
  "ar_entry_set_ex c key val expire =
     (case ar_find_entry_ex c key of
        (c, Some (e, b, tr)) \<Rightarrow>
          if \<not> alloc_ok c then (c, False)
          else (case entry_retype_string c e of (c, e) \<Rightarrow>
                case entry_store_string c e val of (c, e) \<Rightarrow>
                case entry_set_expire_at c e expire of (c, e) \<Rightarrow>
                case (if layout c = HotCold \<and> tr = Cold then ar_touch_get c e b tr else (c, e)) of (c, e) \<Rightarrow>
                case evict_on_set c e of (c, e) \<Rightarrow>
                  (ar_watch_touch (maybe_evict c) key, True))
      | (c, None) \<Rightarrow>
          if \<not> alloc_ok c then (c, False)
          else (case entry_new_string c key val of (c, e) \<Rightarrow>
                case entry_set_expire_at c e expire of (c, e) \<Rightarrow>
                case evict_on_set c e of (c, e) \<Rightarrow>
                  let c = maybe_demote_hot c;
                      c = ar_rehash_if_needed c;
                      c = maybe_evict c
                  in (ar_watch_touch c key, True)))"

definition ar_entry_set :: "core \<Rightarrow> bytes \<Rightarrow> bytes \<Rightarrow> core \<times> bool" where
  "ar_entry_set c key val = ar_entry_set_ex c key val 0"

definition ar_set_bin :: "core \<Rightarrow> bytes \<Rightarrow> bytes \<Rightarrow> core \<times> bool" where
  "ar_set_bin c key val = ar_entry_set (c\<lparr> ops := ops c + 1, sets := sets c + 1 \<rparr>) key val"

definition ar_set_bin_ex :: "core \<Rightarrow> bytes \<Rightarrow> bytes \<Rightarrow> int \<Rightarrow> core \<times> bool" where
  "ar_set_bin_ex c key val expire_sec =
     (let c = c\<lparr> ops := ops c + 1, sets := sets c + 1 \<rparr>;
          exp = (if expire_sec > 0 then u64 (now_ms c + u64 (nat expire_sec * 1000)) else 0)
      in ar_entry_set_ex c key val exp)"

definition ar_set_bin_px :: "core \<Rightarrow> bytes \<Rightarrow> bytes \<Rightarrow> int \<Rightarrow> core \<times> bool" where
  "ar_set_bin_px c key val expire_ms =
     (let c = c\<lparr> ops := ops c + 1, sets := sets c + 1 \<rparr>;
          exp = (if expire_ms > 0 then u64 (now_ms c + nat expire_ms) else 0)
      in ar_entry_set_ex c key val exp)"


section \<open>Deadlines and TTL\<close>

definition expire_with :: "core \<Rightarrow> bytes \<Rightarrow> int \<Rightarrow> nat \<Rightarrow> core \<times> bool" where
  "expire_with c key n deadline =
     (case ar_find_entry_ex c key of
        (c, None) \<Rightarrow> (c, False)
      | (c, Some (e, b, tr)) \<Rightarrow>
          if n \<le> 0 then (case entry_clear_expire c e of (c, e) \<Rightarrow> (ar_watch_touch c key, True))
          else (case entry_set_expire_at c e deadline of (c, e) \<Rightarrow> (ar_watch_touch c key, True)))"

definition ar_expire :: "core \<Rightarrow> bytes \<Rightarrow> int \<Rightarrow> core \<times> bool" where
  "ar_expire c key seconds = expire_with c key seconds (u64 (now_ms c + u64 (nat seconds * 1000)))"

definition ar_pexpire :: "core \<Rightarrow> bytes \<Rightarrow> int \<Rightarrow> core \<times> bool" where
  "ar_pexpire c key ms = expire_with c key ms (u64 (now_ms c + nat ms))"

definition ar_expireat :: "core \<Rightarrow> bytes \<Rightarrow> int \<Rightarrow> core \<times> bool" where
  "ar_expireat c key unix_sec = expire_with c key unix_sec (u64 (nat unix_sec * 1000))"

definition ar_pexpireat :: "core \<Rightarrow> bytes \<Rightarrow> int \<Rightarrow> core \<times> bool" where
  "ar_pexpireat c key unix_ms = expire_with c key unix_ms (nat unix_ms)"

definition ar_ttl :: "core \<Rightarrow> bytes \<Rightarrow> core \<times> int" where
  "ar_ttl c key =
     (case ar_find_entry_ex c key of
        (c, None) \<Rightarrow> (c, - 2)
      | (c, Some (e, b, tr)) \<Rightarrow>
          if expire_at e = 0 then (c, - 1)
          else if expire_at e \<le> now_ms c then (c, - 2)
          else (c, int (u64 (expire_at e - now_ms c + 999) div 1000)))"

definition ar_pttl :: "core \<Rightarrow> bytes \<Rightarrow> core \<times> int" where
  "ar_pttl c key =
     (case ar_find_entry_ex c key of
        (c, None) \<Rightarrow> (c, - 2)
      | (c, Some (e, b, tr)) \<Rightarrow>
          if expire_at e = 0 then (c, - 1)
          else if expire_at e \<le> now_ms c then (c, - 2)
          else (c, s64 (int (expire_at e - now_ms c))))"


section \<open>GET, EXISTS, DEL\<close>

definition shadow_miss :: "core \<Rightarrow> core" where
  "shadow_miss c =
     (if shadow_sample_pct c > 0 then
        (case c_rand c of (c, r) \<Rightarrow>
           if int (r mod 100) < shadow_sample_pct c
           then c\<lparr> shadow_samples := shadow_samples c + 1, shadow_misses := shadow_misses c + 1 \<rparr> else c)
      else c)"

definition shadow_hit :: "core \<Rightarrow> core" where
  "shadow_hit c =
     (if shadow_sample_pct c > 0 then
        (case c_rand c of (c, r) \<Rightarrow>
           if int (r mod 100) < shadow_sample_pct c
           then c\<lparr> shadow_samples := shadow_samples c + 1, shadow_hits := shadow_hits c + 1 \<rparr> else c)
      else c)"

text \<open>The reply is \<open>None\<close> also where the final copy cannot be allocated.\<close>

definition ar_get_bin :: "core \<Rightarrow> bytes \<Rightarrow> core \<times> bytes option" where
  "ar_get_bin c key =
     (let c = c\<lparr> ops := ops c + 1, gets := gets c + 1 \<rparr>
      in case ar_find_entry_ex c key of
           (c, None) \<Rightarrow> (shadow_miss (c\<lparr> misses := misses c + 1 \<rparr>), None)
         | (c, Some (e, b, tr)) \<Rightarrow>
             if etype e \<noteq> TString then (shadow_miss (c\<lparr> misses := misses c + 1 \<rparr>), None)
             else let c = shadow_hit (c\<lparr> hits := hits c + 1 \<rparr>)
                  in case ar_touch_get c e b tr of (c, e) \<Rightarrow>
                     case evict_on_get c e of (c, e) \<Rightarrow>
                       (c, if alloc_ok c then Some (str_val (epay e)) else None))"

definition ar_exists_bin :: "core \<Rightarrow> bytes \<Rightarrow> core \<times> bool" where
  "ar_exists_bin c key = (case ar_find_entry_ex c key of (c, r) \<Rightarrow> (c, r \<noteq> None))"

definition ar_get_eq :: "core \<Rightarrow> bytes \<Rightarrow> bytes \<Rightarrow> core \<times> bool" where
  "ar_get_eq c key expect =
     (case ar_find_entry_ex c key of
        (c, None) \<Rightarrow> (c, False)
      | (c, Some (e, b, tr)) \<Rightarrow>
          if etype e \<noteq> TString then (c, False)
          else let c = c\<lparr> ops := ops c + 1, gets := gets c + 1, hits := hits c + 1 \<rparr>
               in case ar_touch_get c e b tr of (c, e) \<Rightarrow>
                  case evict_on_get c e of (c, e) \<Rightarrow> (c, str_val (epay e) = expect))"

definition ar_del_bin :: "core \<Rightarrow> bytes \<Rightarrow> core \<times> bool" where
  "ar_del_bin c key =
     (case ar_find_entry_ex c key of
        (c, None) \<Rightarrow> (c, False)
      | (c, Some (e, b, tr)) \<Rightarrow>
          let c = ar_entry_free_ex c b tr e in (c\<lparr> ops := ops c + 1 \<rparr>, True))"

definition ar_strlen :: "core \<Rightarrow> bytes \<Rightarrow> core \<times> int \<times> bool" where
  "ar_strlen c key =
     (let c = c\<lparr> ops := ops c + 1 \<rparr>
      in case ar_find_entry_ex c key of
           (c, None) \<Rightarrow> (c, 0, False)
         | (c, Some (e, b, tr)) \<Rightarrow>
             if etype e \<noteq> TString then (c, - 1, True)
             else (c, int (length (str_val (epay e))), False))"


section \<open>Writing through one entry\<close>

text \<open>\<open>upd\<close>: a step that rewrites the entry under the cursor and keeps the invariant.\<close>

definition upd :: "slack \<Rightarrow> entry multiset \<Rightarrow> core \<Rightarrow> entry \<Rightarrow> core \<Rightarrow> entry \<Rightarrow> bool" where
  "upd s N c e c' e' \<longleftrightarrow> cursor s c' e' N \<and> ekey e' = ekey e \<and> conns c' = conns c \<and> env_of c' = env_of c"

lemma upd_refl: "cursor s c e N \<Longrightarrow> upd s N c e c e"
  by (simp add: upd_def)

lemma upd_trans: "upd s N c e c1 e1 \<Longrightarrow> upd s N c1 e1 c2 e2 \<Longrightarrow> upd s N c e c2 e2"
  by (simp add: upd_def)

lemma upd_cursor: "upd s N c e c' e' \<Longrightarrow> cursor s c' e' N"
  by (simp add: upd_def)

lemma upd_evo: "cursor s c e N \<Longrightarrow> upd s N c e c' e' \<Longrightarrow> evo P {ekey e} {ekey e} c c'"
  unfolding upd_def by (auto intro: cursor_evo)

lemma set_expire_upd:
  assumes "cursor s c e N" and "entry_set_expire_at c e x = (c', e')"
  shows "upd s N c e c' e'" "e' = e\<lparr> expire_at := x \<rparr>"
  using set_expire_cursor [OF assms] by (simp_all add: upd_def)

lemma clear_expire_upd:
  assumes "cursor s c e N" and "entry_clear_expire c e = (c', e')"
  shows "upd s N c e c' e'" "e' = e\<lparr> expire_at := 0 \<rparr>"
  using clear_expire_cursor [OF assms] by (simp_all add: upd_def)

lemma touch_get_upd:
  assumes "cursor s c e N" and "located c e b tr" and "ar_touch_get c e b tr = (c', e')"
  shows "upd s N c e c' e'" "obs_of e' = obs_of e"
  using touch_get_cursor [OF assms] by (simp_all add: upd_def)

lemma on_set_upd:
  assumes "cursor s c e N" and "evict_on_set c e = (c', e')"
  shows "upd s N c e c' e'" "obs_of e' = obs_of e"
  using on_set_cursor [OF assms] by (simp_all add: upd_def)

lemma on_get_upd:
  assumes "cursor s c e N" and "evict_on_get c e = (c', e')"
  shows "upd s N c e c' e'" "obs_of e' = obs_of e"
  using on_get_cursor [OF assms] by (simp_all add: upd_def)

lemma live_touch [simp]: "live (ar_watch_touch c k) = live c"
  by (rule ext) (simp add: live_def)

lemma yields_touch [simp]: "yields (ar_watch_touch c k) L = yields c L"
  by (simp add: yields_def droppable_env [OF env_of_touch])

text \<open>What every write ends with: eviction, then the notification of the key's watchers.\<close>

lemma finish_write:
  assumes e: "evo (\<lambda>_. False) {k} {k} c c1" and cu: "cursor s c1 e1 N" and k: "ekey e1 = k"
    and ev: "steps s (droppable c1) {} {} c1 c2"
  shows "steps s (droppable c) {k} {} c (ar_watch_touch c2 k)"
    and "yields (ar_watch_touch c2 k) ((live c)(k := unexpired (now_ms c) (Some (obs_of e1))))"
proof -
  have env: "env_of c1 = env_of c" using e by (simp add: evo_def)
  have d: "droppable c1 = droppable c" using env by (rule droppable_env)
  have "evo (droppable c) {k} {k} c c1" using e by (rule evo_mono) auto
  moreover have "evo (droppable c) {k} {k} c1 c2"
    using ev unfolding steps_def d by (auto intro: evo_mono)
  ultimately have "steps s (droppable c) {k} {k} c c2"
    using ev unfolding steps_def by (blast intro: evo_trans)
  then show "steps s (droppable c) {k} {} c (ar_watch_touch c2 k)" by (rule steps_touch)
  have "live c1 k' = ((live c)(k := unexpired (now_ms c) (Some (obs_of e1)))) k'" for k'
  proof (cases "k' = k")
    case True
    have "now_ms c1 = now_ms c" using env by (simp add: env_of_def)
    then show ?thesis using cursor_view [OF cu] True k by (simp add: live_def)
  next
    case False
    then show ?thesis using live_evo [OF e, of k'] by simp
  qed
  then have "yields c1 ((live c)(k := unexpired (now_ms c) (Some (obs_of e1))))"
    by (intro yields_refl) (rule ext)
  then show "yields (ar_watch_touch c2 k) ((live c)(k := unexpired (now_ms c) (Some (obs_of e1))))"
    using ev by (auto simp: steps_def intro: yields_evo)
qed


section \<open>SET, proved\<close>

lemma rewrite_cursor:
  assumes cu: "cursor s c e N" and k: "ekey e' = ekey e"
    and tb: "buckets c' = buckets (entry_put c e')" "cold_buckets c' = cold_buckets (entry_put c e')"
      "layout c' = layout c" "hot_nkeys c' = hot_nkeys c" "cold_nkeys c' = cold_nkeys c"
    and ce: "conns c' = conns c" "env_of c' = env_of c"
    and ok: "payload_ok (epay e')" "balanced s c' (add_mset e' N)"
  shows "upd s N c e c' e'" and "located c e b tr \<Longrightarrow> located c' e' b tr"
proof -
  show "upd s N c e c' e'"
    using cursor_put [OF cu k ok(1) tb ok(2)] k ce by (simp add: upd_def)
  show "located c' e' b tr" if "located c e b tr"
    using located_put [OF that k] by (rule located_cong) (simp_all add: tb)
qed

lemma buckets_put_cong:
  "buckets (entry_put c e) = ct_write ekey (buckets c) e"
  "cold_buckets (entry_put c e) = ct_write ekey (cold_buckets c) e"
  by (simp_all add: entry_put_def)

lemmas acct_defs = ar_mem_add_def ar_mem_sub_def ar_type_stats_note_bigkey_def
  ar_type_stats_bytes_delta_def ar_type_stats_add_key_def ar_type_stats_sub_key_def

lemma etotal_payload: "etotal e = length (ekey e) + payload_bytes (epay e) + sizeof_ArEntry"
  by (simp add: etotal_def ar_entry_payload_bytes_def)

lemma retype_upd:
  assumes cu: "cursor s c e N" and r: "entry_retype_string c e = (c', e')"
  shows "upd s N c e c' e'" "located c e b tr \<Longrightarrow> located c' e' b tr" "etype e' = TString"
    "expire_at e' = expire_at e" "pinned e' = pinned e"
proof -
  have "(upd s N c e c' e' \<and> (located c e b tr \<longrightarrow> located c' e' b tr)) \<and> etype e' = TString \<and>
      expire_at e' = expire_at e \<and> pinned e' = pinned e"
  proof (cases "etype e = TString")
    case True
    with r cu show ?thesis by (auto simp: entry_retype_string_def upd_refl)
  next
    case False
    let ?e = "e\<lparr> epay := PStr [] \<rparr>"
    have c1: "c' = fst (entry_retype_string c e)" by (simp add: r)
    have e': "e' = ?e" using r False by (auto simp: entry_retype_string_def Let_def)
    have bal: "balanced s c (add_mset e N)" using cu by (simp add: cursor_def)
    have c': "buckets c' = buckets (entry_put c ?e)" "cold_buckets c' = cold_buckets (entry_put c ?e)"
      "layout c' = layout c" "hot_nkeys c' = hot_nkeys c" "cold_nkeys c' = cold_nkeys c"
      "conns c' = conns c" "env_of c' = env_of c" "nkeys c' = nkeys c" "keys_with_ttl c' = keys_with_ttl c"
      "pinned_keys c' = pinned_keys c" "used_memory c' = used_memory c - ar_entry_payload_bytes e"
      "type_nkeys c' = (type_nkeys c)(etype e := type_nkeys c (etype e) - 1, TString := type_nkeys c TString + 1)"
      "type_bytes c' = (type_bytes c)(etype e := type_bytes c (etype e) - etotal e,
         TString := type_bytes c TString + etotal ?e)"
      unfolding c1
      by (simp_all add: False False [symmetric] entry_retype_string_def Let_def acct_defs buckets_put_cong etotal_payload
          ar_entry_payload_bytes_def env_of_def)
    have "balanced s c' (add_mset ?e N)"
      using bal False unfolding balanced_def c'
      by (auto simp: etotal_payload ar_entry_payload_bytes_def)
    then show ?thesis
      using rewrite_cursor(1) [OF cu _ c'(1-7)] rewrite_cursor(2) [OF cu _ c'(1-7), of b tr] unfolding e' by simp
  qed
  then show "upd s N c e c' e'" "located c e b tr \<Longrightarrow> located c' e' b tr" "etype e' = TString"
    "expire_at e' = expire_at e" "pinned e' = pinned e" by blast+
qed


lemma used_covers:
  assumes "balanced s c (add_mset e N)"
  shows "payload_bytes (epay e) \<le> used_memory c" "payload_bytes (epay e) \<le> type_bytes c (etype e)"
  using assms by (auto simp: balanced_def etotal_payload)

lemma str_val_bytes: "etype e = TString \<Longrightarrow> payload_bytes (epay e) = length (str_val (epay e))"
  by (cases "epay e") simp_all

lemma store_upd:
  assumes cu: "cursor s c e N" and t: "etype e = TString" and r: "entry_store_string c e val = (c', e')"
  shows "upd s N c e c' e'" "located c e b tr \<Longrightarrow> located c' e' b tr" "epay e' = PStr val"
    "expire_at e' = expire_at e" "pinned e' = pinned e"
proof -
  let ?e = "e\<lparr> epay := PStr val, last_access := clock c + 1 \<rparr>"
  have e': "e' = ?e" using r by (auto simp: entry_store_string_def Let_def acct_defs split: if_splits)
  have c1: "c' = fst (entry_store_string c e val)" by (simp add: r)
  have bal: "balanced s c (add_mset e N)" using cu by (simp add: cursor_def)
  note cov = used_covers [OF bal, unfolded str_val_bytes [OF t] t]
  have c': "buckets c' = buckets (entry_put c ?e)" "cold_buckets c' = cold_buckets (entry_put c ?e)"
    "layout c' = layout c" "hot_nkeys c' = hot_nkeys c" "cold_nkeys c' = cold_nkeys c"
    "conns c' = conns c" "env_of c' = env_of c" "nkeys c' = nkeys c" "keys_with_ttl c' = keys_with_ttl c"
    "pinned_keys c' = pinned_keys c" "type_nkeys c' = type_nkeys c"
    "used_memory c' = used_memory c - length (str_val (epay e)) + length val"
    "type_bytes c' = (type_bytes c)(TString := type_bytes c TString - length (str_val (epay e)) + length val)"
    unfolding c1 using cov
    by (simp_all add: entry_store_string_def Let_def acct_defs buckets_put_cong env_of_def)
  have "balanced s c' (add_mset ?e N)"
    using bal t cov unfolding balanced_def c'
    by (auto simp: etotal_payload str_val_bytes)
  then have "upd s N c e c' ?e \<and> (located c e b tr \<longrightarrow> located c' ?e b tr)"
    using rewrite_cursor(1) [OF cu _ c'(1-7)] rewrite_cursor(2) [OF cu _ c'(1-7), of b tr] by simp
  then show "upd s N c e c' e'" "located c e b tr \<Longrightarrow> located c' e' b tr" "epay e' = PStr val"
    "expire_at e' = expire_at e" "pinned e' = pinned e" unfolding e' by simp_all
qed

lemma located_set_expire:
  assumes "located c e b tr" and "entry_set_expire_at c e x = (c', e')"
  shows "located c' e' b tr"
proof -
  obtain c1 e1 where 1: "entry_clear_expire c e = (c1, e1)" by fastforce
  have lo: "located c1 e1 b tr" using assms(1) 1 by (rule located_clear_expire)
  show ?thesis
  proof (cases "x = 0")
    case True
    with assms(2) 1 lo show ?thesis by (simp add: entry_set_expire_at_def)
  next
    case False
    let ?c = "c1\<lparr> keys_with_ttl := keys_with_ttl c1 + 1, expire_at_sum := u64 (expire_at_sum c1 + x) \<rparr>"
    have "located ?c e1 b tr" using lo by (rule located_cong) simp_all
    then have "located (entry_put ?c (e1\<lparr> expire_at := x \<rparr>)) (e1\<lparr> expire_at := x \<rparr>) b tr"
      by (rule located_put) simp
    with assms(2) 1 False show ?thesis by (auto simp: entry_set_expire_at_def Let_def)
  qed
qed


subsection \<open>A new entry\<close>

lemma insert_cursor:
  assumes w: "wf s c" and new: "view c (ekey e) = None" and ok: "payload_ok (epay e)"
    and tb: "buckets c' = ct_push ekey (buckets c) e" "cold_buckets c' = cold_buckets c" "layout c' = layout c"
      "cold_nkeys c' = cold_nkeys c"
      "hot_nkeys c' = (if layout c = HotCold then hot_nkeys c + 1 else hot_nkeys c)"
    and ce: "conns c' = conns c" "env_of c' = env_of c"
    and bal: "balanced s c' (add_mset e (mset (ents c)))"
  shows "cursor s c' e (mset (ents c))" and "view c' = (view c)(ekey e \<mapsto> obs_of e)"
    and "evo P {ekey e} {ekey e} c c'"
proof -
  have sh: "shape c" using w by (rule wf_shape)
  then have ne: "buckets c \<noteq> []" by (simp add: shape_def)
  have m: "mset (ents c') = add_mset e (mset (ents c))"
    unfolding ents_def tb(1,2) mset_append mset_push [OF ne] by simp
  have d: "distinct (map ekey (ents c'))"
    using distinct_add [OF m] sh new by (simp add: shape_def view_None_iff)
  have "shape c'"
    using sh d unfolding shape_def tb by (cases "layout c") (simp_all add: ct_placed_push length_push)
  then have tabs: "tabs c' e (mset (ents c))"
    using m w by (auto simp: tabs_def wf_def)
  then show cu: "cursor s c' e (mset (ents c))" using ok bal by (simp add: cursor_def)
  show v: "view c' = (view c)(ekey e \<mapsto> obs_of e)"
    unfolding view_def using m d by (rule vw_add)
  show "evo P {ekey e} {ekey e} c c'"
    using ce conns_mono_cong [OF ce(1)] by (auto simp: evo_def v)
qed

lemma note_bigkey_fields [simp]:
  "buckets (ar_type_stats_note_bigkey c t n) = buckets c" "cold_buckets (ar_type_stats_note_bigkey c t n) = cold_buckets c"
  "layout (ar_type_stats_note_bigkey c t n) = layout c" "hot_nkeys (ar_type_stats_note_bigkey c t n) = hot_nkeys c"
  "cold_nkeys (ar_type_stats_note_bigkey c t n) = cold_nkeys c" "nkeys (ar_type_stats_note_bigkey c t n) = nkeys c"
  "keys_with_ttl (ar_type_stats_note_bigkey c t n) = keys_with_ttl c" "pinned_keys (ar_type_stats_note_bigkey c t n) = pinned_keys c"
  "used_memory (ar_type_stats_note_bigkey c t n) = used_memory c" "type_nkeys (ar_type_stats_note_bigkey c t n) = type_nkeys c"
  "type_bytes (ar_type_stats_note_bigkey c t n) = type_bytes c" "conns (ar_type_stats_note_bigkey c t n) = conns c"
  "env_of (ar_type_stats_note_bigkey c t n) = env_of c"
  by (simp_all add: ar_type_stats_note_bigkey_def env_of_def)

lemma add_key_fields [simp]:
  "buckets (ar_type_stats_add_key c t n) = buckets c" "cold_buckets (ar_type_stats_add_key c t n) = cold_buckets c"
  "layout (ar_type_stats_add_key c t n) = layout c" "hot_nkeys (ar_type_stats_add_key c t n) = hot_nkeys c"
  "cold_nkeys (ar_type_stats_add_key c t n) = cold_nkeys c" "nkeys (ar_type_stats_add_key c t n) = nkeys c"
  "keys_with_ttl (ar_type_stats_add_key c t n) = keys_with_ttl c" "pinned_keys (ar_type_stats_add_key c t n) = pinned_keys c"
  "used_memory (ar_type_stats_add_key c t n) = used_memory c" "conns (ar_type_stats_add_key c t n) = conns c"
  "type_nkeys (ar_type_stats_add_key c t n) = (type_nkeys c)(t := type_nkeys c t + 1)"
  "type_bytes (ar_type_stats_add_key c t n) = (type_bytes c)(t := type_bytes c t + n)"
  "env_of (ar_type_stats_add_key c t n) = env_of c"
  by (simp_all add: ar_type_stats_add_key_def Let_def) (simp add: env_of_def)

text \<open>A core with a new entry linked and counted, before the memory is.\<close>

definition linked_new :: "core \<Rightarrow> entry \<Rightarrow> nat \<Rightarrow> core" where
  "linked_new c e u =
     (let c = c\<lparr> clock := clock c + 1, buckets := ct_push ekey (buckets c) e, unique_sets := unique_sets c + u, nkeys := nkeys c + 1 \<rparr>
      in if layout c = HotCold then c\<lparr> hot_nkeys := hot_nkeys c + 1 \<rparr> else c)"

lemma linked_new_fields [simp]:
  "buckets (linked_new c e u) = ct_push ekey (buckets c) e" "cold_buckets (linked_new c e u) = cold_buckets c"
  "layout (linked_new c e u) = layout c" "cold_nkeys (linked_new c e u) = cold_nkeys c"
  "hot_nkeys (linked_new c e u) = (if layout c = HotCold then hot_nkeys c + 1 else hot_nkeys c)"
  "nkeys (linked_new c e u) = nkeys c + 1" "keys_with_ttl (linked_new c e u) = keys_with_ttl c"
  "pinned_keys (linked_new c e u) = pinned_keys c" "used_memory (linked_new c e u) = used_memory c"
  "type_nkeys (linked_new c e u) = type_nkeys c" "type_bytes (linked_new c e u) = type_bytes c"
  "conns (linked_new c e u) = conns c" "env_of (linked_new c e u) = env_of c"
  by (simp_all add: linked_new_def Let_def) (simp add: env_of_def)

lemma used_memory_fields [simp]: "env_of (c\<lparr> used_memory := n \<rparr>) = env_of c"
  by (simp add: env_of_def)

lemma new_string_cursor:
  assumes w: "wf s c" and new: "view c key = None" and r: "entry_new_string c key val = (c', e')"
  shows "cursor s c' e' (mset (ents c))" "ekey e' = key" "epay e' = PStr val" "expire_at e' = 0"
    "pinned e' = False" "evo P {key} {key} c c'"
proof -
  let ?e = "\<lparr> ekey = key, epay = PStr val, last_access = clock c + 1, lfu_freq = 5, pinned = False,
                 expire_at = 0 \<rparr>"
  have e': "e' = ?e" using r by (auto simp: entry_new_string_def Let_def)
  have c1: "c' = (let c = linked_new c ?e 1; n = length key + length val + sizeof_ArEntry
      in ar_type_stats_note_bigkey (ar_type_stats_add_key (c\<lparr> used_memory := used_memory c + n \<rparr>) TString n) TString (length val))"
    using r by (cases "layout c") (auto simp: entry_new_string_def Let_def link_hot_def linked_new_def)
  have bal: "balanced s c (mset (ents c))" using w by (simp add: wf_def)
  have tot: "etotal ?e = length key + length val + sizeof_ArEntry" by (simp add: etotal_payload)
  have tb: "buckets c' = ct_push ekey (buckets c) ?e" "cold_buckets c' = cold_buckets c" "layout c' = layout c"
      "cold_nkeys c' = cold_nkeys c"
      "hot_nkeys c' = (if layout c = HotCold then hot_nkeys c + 1 else hot_nkeys c)"
    and ce: "conns c' = conns c" "env_of c' = env_of c"
    and ac: "nkeys c' = nkeys c + 1" "keys_with_ttl c' = keys_with_ttl c" "pinned_keys c' = pinned_keys c"
      "used_memory c' = used_memory c + etotal ?e"
      "type_nkeys c' = (type_nkeys c)(TString := type_nkeys c TString + 1)"
      "type_bytes c' = (type_bytes c)(TString := type_bytes c TString + etotal ?e)"
    unfolding c1 tot by (simp_all add: Let_def)
  have "balanced s c' (add_mset ?e (mset (ents c)))"
    using bal unfolding balanced_def ac by (auto simp del: mset_append)
  note ic = insert_cursor [OF w _ _ tb ce this]
  show "cursor s c' e' (mset (ents c))" "ekey e' = key" "epay e' = PStr val" "expire_at e' = 0"
    "pinned e' = False" "evo P {key} {key} c c'"
    using ic new unfolding e' by simp_all
qed

text \<open>Demotion and rehashing between a write and its eviction.\<close>

lemma settle_moves: "shape c \<Longrightarrow> moves c (ar_rehash_if_needed (maybe_demote_hot c))"
  using maybe_demote_moves [of c] moves_trans rehash_moves moves_shape by blast

lemma moves_evo: "moves c c' \<Longrightarrow> evo P K W c c'"
  using conns_mono_cong [of c' c] by (simp add: evo_def moves_view moves_def)


definition pin_of :: "obs option \<Rightarrow> bool" where
  "pin_of r = (case r of None \<Rightarrow> False | Some v \<Rightarrow> o_pin v)"

lemma pin_of_simps [simp]: "pin_of None = False" "pin_of (Some v) = o_pin v"
  by (simp_all add: pin_of_def)

definition string_obs :: "bytes \<Rightarrow> nat \<Rightarrow> bool \<Rightarrow> obs" where
  "string_obs val x pin = \<lparr> o_pay = PStr val, o_exp = x, o_pin = pin \<rparr>"

lemma obs_of_string: "epay e = PStr val \<Longrightarrow> obs_of e = string_obs val (expire_at e) (pinned e)"
  by (simp add: obs_of_def string_obs_def)

lemma env_alloc: "env_of c' = env_of c \<Longrightarrow> alloc_ok c' = alloc_ok c"
  and env_now: "env_of c' = env_of c \<Longrightarrow> now_ms c' = now_ms c"
  by (simp_all add: env_of_def)

lemma steps_env: "steps s P K W c c' \<Longrightarrow> env_of c' = env_of c"
  by (simp add: steps_def evo_def)

lemma steps_live: "steps s (\<lambda>_. False) {} W c c' \<Longrightarrow> live c' = live c"
  unfolding steps_def by (rule ext) (auto intro: live_evo)

lemma set_found:
  assumes cu: "cursor s c e N" and lo: "located c e b tr"
    and r: "(case entry_retype_string c e of (c, e) \<Rightarrow>
                case entry_store_string c e val of (c, e) \<Rightarrow>
                case entry_set_expire_at c e x of (c, e) \<Rightarrow>
                case (if layout c = HotCold \<and> tr = Cold then ar_touch_get c e b tr else (c, e)) of (c, e) \<Rightarrow>
                evict_on_set c e) = (c', e')"
  shows "upd s N c e c' e'" "obs_of e' = string_obs val x (pinned e)"
proof -
  obtain c1 e1 where 1: "entry_retype_string c e = (c1, e1)" by fastforce
  obtain c2 e2 where 2: "entry_store_string c1 e1 val = (c2, e2)" by fastforce
  obtain c3 e3 where 3: "entry_set_expire_at c2 e2 x = (c3, e3)" by fastforce
  obtain c4 e4 where 4: "(if layout c3 = HotCold \<and> tr = Cold then ar_touch_get c3 e3 b tr else (c3, e3)) = (c4, e4)"
    by fastforce
  have 5: "evict_on_set c4 e4 = (c', e')" using r by (simp add: 1 2 3 4)
  note u1 = retype_upd [OF cu 1]
  note u2 = store_upd [OF upd_cursor [OF u1(1)] u1(3) 2]
  note u3 = set_expire_upd [OF upd_cursor [OF u2(1)] 3]
  have lo3: "located c3 e3 b tr"
    by (rule located_set_expire [OF _ 3]) (rule u2(2) [OF u1(2) [OF lo]])
  have u4: "upd s N c3 e3 c4 e4 \<and> obs_of e4 = obs_of e3"
    using 4 touch_get_upd [OF upd_cursor [OF u3(1)] lo3, of c4 e4] upd_refl [OF upd_cursor [OF u3(1)]]
    by (auto split: if_splits)
  note u5 = on_set_upd [OF upd_cursor [OF conjunct1 [OF u4]] 5]
  show "upd s N c e c' e'"
    using u1(1) u2(1) u3(1) u4 u5(1) upd_trans by blast
  have "epay e3 = PStr val" "expire_at e3 = x" "pinned e3 = pinned e" using u1 u2 u3(2) by simp_all
  then show "obs_of e' = string_obs val x (pinned e)"
    using u4 u5(2) obs_of_string [of e3 val] by simp
qed

lemma set_new:
  assumes w: "wf s c" and new: "view c k = None"
    and r: "(case entry_new_string c k val of (c, e) \<Rightarrow>
                case entry_set_expire_at c e x of (c, e) \<Rightarrow> evict_on_set c e) = (c', e')"
  shows "cursor s c' e' (mset (ents c))" "ekey e' = k" "evo P {k} {k} c c'" "obs_of e' = string_obs val x False"
proof -
  obtain c1 e1 where 1: "entry_new_string c k val = (c1, e1)" by fastforce
  obtain c2 e2 where 2: "entry_set_expire_at c1 e1 x = (c2, e2)" by fastforce
  have 3: "evict_on_set c2 e2 = (c', e')" using r by (simp add: 1 2)
  note n = new_string_cursor [OF w new 1]
  note u2 = set_expire_upd [OF n(1) 2]
  note u3 = on_set_upd [OF upd_cursor [OF u2(1)] 3]
  have u: "upd s (mset (ents c)) c1 e1 c' e'" using u2(1) u3(1) by (rule upd_trans)
  then show "cursor s c' e' (mset (ents c))" "ekey e' = k" using n(2) by (simp_all add: upd_def)
  show "evo P {k} {k} c c'" using evo_trans [OF n(6)] upd_evo [OF n(1) u] n(2) by blast
  show "obs_of e' = string_obs val x False"
    using u2(2) u3(2) n obs_of_string [of e2 val] by simp
qed

lemma set_ex_ok:
  assumes w: "wf s c" and r: "ar_entry_set_ex c k val x = (c', ok)"
  shows "ok = alloc_ok c" "steps s (droppable c) {k} {} c c'"
    "ok \<Longrightarrow> yields c' ((live c)(k := unexpired (now_ms c) (Some (string_obs val x (pin_of (live c k))))))"
    "\<not> ok \<Longrightarrow> live c' = live c"
proof -
  have "ok = alloc_ok c \<and> steps s (droppable c) {k} {} c c' \<and>
    (ok \<longrightarrow> yields c' ((live c)(k := unexpired (now_ms c) (Some (string_obs val x (pin_of (live c k))))))) \<and>
    (\<not> ok \<longrightarrow> live c' = live c)"
    using w
  proof (cases rule: find_cases [of s c k])
    case (found e b tr N)
    show ?thesis
    proof (cases "alloc_ok c")
      case False
      with r found w show ?thesis by (simp add: ar_entry_set_ex_def steps_refl)
    next
      case True
      obtain c1 e1 where 1: "(case entry_retype_string c e of (c, e) \<Rightarrow>
                case entry_store_string c e val of (c, e) \<Rightarrow>
                case entry_set_expire_at c e x of (c, e) \<Rightarrow>
                case (if layout c = HotCold \<and> tr = Cold then ar_touch_get c e b tr else (c, e)) of (c, e) \<Rightarrow>
                evict_on_set c e) = (c1, e1)" by fastforce
      note f = set_found [OF found(4,3) 1]
      have cu1: "cursor s c1 e1 N" using f(1) by (rule upd_cursor)
      have k1: "ekey e1 = k" using f(1) found(2) by (simp add: upd_def)
      have c': "c' = ar_watch_touch (maybe_evict c1) k" "ok"
        using r found True 1 by (auto simp: ar_entry_set_ex_def split: prod.splits)
      have "evo (\<lambda>_. False) {k} {k} c c1" using upd_evo [OF found(4) f(1)] found(2) by simp
      note fin = finish_write [OF this cu1 k1 maybe_evict_steps [OF wf_of_cursor [OF cu1]]]
      show ?thesis using fin c' True found(6) f(2) by simp
    qed
  next
    case (missing c0)
    have w0: "wf s c0" using missing(2) by (rule stepsD)
    have a0: "alloc_ok c0 = alloc_ok c" using missing(2) by (intro env_alloc steps_env)
    have l0: "live c0 = live c" using missing(2) by (rule steps_live)
    show ?thesis
    proof (cases "alloc_ok c")
      case False
      with r missing a0 l0 show ?thesis by (simp add: ar_entry_set_ex_def)
    next
      case True
      obtain c1 e1 where 1: "(case entry_new_string c0 k val of (c, e) \<Rightarrow>
                case entry_set_expire_at c e x of (c, e) \<Rightarrow> evict_on_set c e) = (c1, e1)" by fastforce
      note n = set_new [OF w0 missing(3) 1]
      let ?c2 = "ar_rehash_if_needed (maybe_demote_hot c1)"
      have m: "moves c1 ?c2" using wf_of_cursor [OF n(1)] by (intro settle_moves wf_shape)
      have cu2: "cursor s ?c2 e1 (mset (ents c0))" using m n(1) by (rule moves_cursor)
      have c': "c' = ar_watch_touch (maybe_evict ?c2) k" "ok"
        using r missing True 1 a0 by (auto simp: ar_entry_set_ex_def Let_def split: prod.splits)
      have "evo (\<lambda>_. False) {k} {k} c c0" using missing(2) by (rule stepsD)
      then have "evo (\<lambda>_. False) {k} {k} c ?c2"
        using n(3) moves_evo [OF m] evo_trans by blast
      note fin = finish_write [OF this cu2 n(2) maybe_evict_steps [OF wf_of_cursor [OF cu2]]]
      show ?thesis using fin c' True missing(4) n(4) by simp
    qed
  qed
  then show "ok = alloc_ok c" "steps s (droppable c) {k} {} c c'"
    "ok \<Longrightarrow> yields c' ((live c)(k := unexpired (now_ms c) (Some (string_obs val x (pin_of (live c k))))))"
    "\<not> ok \<Longrightarrow> live c' = live c" by blast+
qed


lemma counters_same [simp]:
  "dict_of (c\<lparr> ops := n \<rparr>) = dict_of c" "env_of (c\<lparr> ops := n \<rparr>) = env_of c"
  "dict_of (c\<lparr> sets := n \<rparr>) = dict_of c" "env_of (c\<lparr> sets := n \<rparr>) = env_of c"
  "dict_of (c\<lparr> gets := n \<rparr>) = dict_of c" "env_of (c\<lparr> gets := n \<rparr>) = env_of c"
  "dict_of (c\<lparr> hits := n \<rparr>) = dict_of c" "env_of (c\<lparr> hits := n \<rparr>) = env_of c"
  "dict_of (c\<lparr> misses := n \<rparr>) = dict_of c" "env_of (c\<lparr> misses := n \<rparr>) = env_of c"
  by (simp_all add: dict_of_def env_of_def)

lemma live_same: "dict_of c' = dict_of c \<Longrightarrow> env_of c' = env_of c \<Longrightarrow> live c' = live c"
  by (rule ext) (simp add: live_def view_cong [of c' c] env_now [of c' c])

lemma wf_same: "wf s c \<Longrightarrow> dict_of c' = dict_of c \<Longrightarrow> wf s c'"
  using wf_cong [of c' c s] by simp

text \<open>A prologue that only counts does not change what the rest of the command does.\<close>

lemma counted_set:
  assumes w: "wf s c" and r: "ar_entry_set_ex c0 k val x = (c', ok)"
    and c0: "dict_of c0 = dict_of c" "env_of c0 = env_of c" "conns c0 = conns c"
  shows "ok = alloc_ok c" "steps s (droppable c) {k} {} c c'"
    "ok \<Longrightarrow> yields c' ((live c)(k := unexpired (now_ms c) (Some (string_obs val x (pin_of (live c k))))))"
    "\<not> ok \<Longrightarrow> live c' = live c"
  using set_ex_ok [OF wf_same [OF w c0(1)] r] live_same [OF c0(1,2)] env_now [OF c0(2)] env_alloc [OF c0(2)]
    droppable_env [OF c0(2)] steps_same_then [OF _ c0(1) c0(3) c0(2)]
  by simp_all


section \<open>Deadlines, proved\<close>

text \<open>\<open>obs\<close> with another deadline or pin.\<close>

lemma obs_of_expire: "obs_of (e\<lparr> expire_at := x \<rparr>) = (obs_of e)\<lparr> o_exp := x \<rparr>"
  by (simp add: obs_of_def)

lemma obs_of_pin: "obs_of (e\<lparr> pinned := b \<rparr>) = (obs_of e)\<lparr> o_pin := b \<rparr>"
  by (simp add: obs_of_def)

lemma live_upd:
  assumes cu: "cursor s c e N" and u: "upd s N c e c' e'" and v: "live c (ekey e) = Some v"
  shows "live c' = (live c)(ekey e := unexpired (now_ms c) (Some (obs_of e')))"
proof
  fix k
  have ev: "evo (\<lambda>_. False) {ekey e} {ekey e} c c'" using cu u by (rule upd_evo)
  have "now_ms c' = now_ms c" using u by (intro env_now) (simp add: upd_def)
  then show "live c' k = ((live c)(ekey e := unexpired (now_ms c) (Some (obs_of e')))) k"
    using live_evo [OF ev, of k] cursor_view [OF upd_cursor [OF u]] u
    by (cases "k = ekey e") (simp_all add: upd_def live_def)
qed

definition deadline_after :: "core \<Rightarrow> int \<Rightarrow> nat \<Rightarrow> obs \<Rightarrow> obs option" where
  "deadline_after c n deadline v =
     unexpired (now_ms c) (Some (v\<lparr> o_exp := (if n \<le> 0 then 0 else deadline) \<rparr>))"

lemma expire_with_ok:
  assumes w: "wf s c" and r: "expire_with c k n deadline = (c', ok)"
  shows "steps s (\<lambda>_. False) {k} {} c c'" "ok = (live c k \<noteq> None)"
    "live c' = (live c)(k := Option.bind (live c k) (deadline_after c n deadline))"
proof -
  have "steps s (\<lambda>_. False) {k} {} c c' \<and> ok = (live c k \<noteq> None) \<and>
      live c' = (live c)(k := Option.bind (live c k) (deadline_after c n deadline))"
    using w
  proof (cases rule: find_cases [of s c k])
    case (found e b tr N)
    obtain c1 e1 where 1: "(if n \<le> 0 then entry_clear_expire c e else entry_set_expire_at c e deadline) = (c1, e1)"
      by fastforce
    have u: "upd s N c e c1 e1 \<and> e1 = e\<lparr> expire_at := (if n \<le> 0 then 0 else deadline) \<rparr>"
      using 1 clear_expire_upd [OF found(4), of c1 e1] set_expire_upd [OF found(4), of deadline c1 e1]
      by (auto split: if_splits)
    have c': "c' = ar_watch_touch c1 k" "ok"
      using r found 1 by (auto simp: expire_with_def split: if_splits prod.splits)
    have "steps s (\<lambda>_. False) {k} {k} c c1"
      using u upd_evo [OF found(4)] found(2) by (auto simp: steps_def dest: upd_cursor wf_of_cursor)
    then have "steps s (\<lambda>_. False) {k} {} c c'" unfolding c' by (rule steps_touch)
    moreover have "live c1 = (live c)(k := unexpired (now_ms c) (Some (obs_of e1)))"
      using live_upd [OF found(4) conjunct1 [OF u]] found(2,6) by simp
    ultimately show ?thesis
      using c' found(6) u by (simp add: deadline_after_def obs_of_expire)
  next
    case (missing c0)
    then have "c' = c0" "\<not> ok" using r by (simp_all add: expire_with_def)
    moreover have "live c0 = live c" using missing(2) by (rule steps_live)
    moreover have "(live c)(k := None) = live c" using missing(4) by auto
    ultimately show ?thesis using missing(2,4) by simp
  qed
  then show "steps s (\<lambda>_. False) {k} {} c c'" "ok = (live c k \<noteq> None)"
    "live c' = (live c)(k := Option.bind (live c k) (deadline_after c n deadline))" by blast+
qed

lemma live_not_due: "live c k = Some v \<Longrightarrow> o_exp v = 0 \<or> now_ms c < o_exp v"
  by (auto simp: live_def unexpired_Some_iff gone_def)

lemma ttl_ok:
  assumes w: "wf s c" and r: "ar_ttl c k = (c', t)"
  shows "steps s P K W c c'"
    "t = (case live c k of None \<Rightarrow> - 2
          | Some v \<Rightarrow> if o_exp v = 0 then - 1 else int (u64 (o_exp v - now_ms c + 999) div 1000))"
proof -
  have "steps s P K W c c' \<and> t = (case live c k of None \<Rightarrow> - 2
          | Some v \<Rightarrow> if o_exp v = 0 then - 1 else int (u64 (o_exp v - now_ms c + 999) div 1000))"
    using w
  proof (cases rule: find_cases [of s c k])
    case (found e b tr N)
    then show ?thesis using r w live_not_due [OF found(6)]
      by (auto simp: ar_ttl_def steps_refl split: if_splits)
  next
    case (missing c0)
    then show ?thesis using r by (auto simp: ar_ttl_def)
  qed
  then show "steps s P K W c c'"
    "t = (case live c k of None \<Rightarrow> - 2
          | Some v \<Rightarrow> if o_exp v = 0 then - 1 else int (u64 (o_exp v - now_ms c + 999) div 1000))" by blast+
qed

lemma pttl_ok:
  assumes w: "wf s c" and r: "ar_pttl c k = (c', t)"
  shows "steps s P K W c c'"
    "t = (case live c k of None \<Rightarrow> - 2
          | Some v \<Rightarrow> if o_exp v = 0 then - 1 else s64 (int (o_exp v - now_ms c)))"
proof -
  have "steps s P K W c c' \<and> t = (case live c k of None \<Rightarrow> - 2
          | Some v \<Rightarrow> if o_exp v = 0 then - 1 else s64 (int (o_exp v - now_ms c)))"
    using w
  proof (cases rule: find_cases [of s c k])
    case (found e b tr N)
    then show ?thesis using r w live_not_due [OF found(6)]
      by (auto simp: ar_pttl_def steps_refl split: if_splits)
  next
    case (missing c0)
    then show ?thesis using r by (auto simp: ar_pttl_def)
  qed
  then show "steps s P K W c c'"
    "t = (case live c k of None \<Rightarrow> - 2
          | Some v \<Rightarrow> if o_exp v = 0 then - 1 else s64 (int (o_exp v - now_ms c)))" by blast+
qed


section \<open>Reading and deleting, proved\<close>

lemma shadow_same:
  "dict_of (shadow_miss c) = dict_of c" "env_of (shadow_miss c) = env_of c" "conns (shadow_miss c) = conns c"
  "dict_of (shadow_hit c) = dict_of c" "env_of (shadow_hit c) = env_of c" "conns (shadow_hit c) = conns c"
  by (simp_all add: shadow_miss_def shadow_hit_def c_rand_def dict_of_def env_of_def)

lemma upd_same_obs:
  assumes cu: "cursor s c e N" and u: "upd s N c e c' e'" and o: "obs_of e' = obs_of e"
  shows "steps s P K W c c'"
  using wf_of_cursor [OF upd_cursor [OF u]] cursor_evo [OF cu upd_cursor [OF u]] u o
  by (simp add: steps_def upd_def)

definition string_of :: "obs option \<Rightarrow> bytes option" where
  "string_of r = (case r of Some v \<Rightarrow> (case o_pay v of PStr s \<Rightarrow> Some s | _ \<Rightarrow> None) | None \<Rightarrow> None)"

lemma string_of_obs: "string_of (Some (obs_of e)) = (if etype e = TString then Some (str_val (epay e)) else None)"
  by (cases "epay e") (simp_all add: string_of_def)

lemma touch_hooks:
  assumes cu: "cursor s c e N" and lo: "located c e b tr"
    and r: "(case ar_touch_get c e b tr of (c, e) \<Rightarrow> evict_on_get c e) = (c', e')"
  shows "upd s N c e c' e'" "obs_of e' = obs_of e"
proof -
  obtain c1 e1 where 1: "ar_touch_get c e b tr = (c1, e1)" by fastforce
  have 2: "evict_on_get c1 e1 = (c', e')" using r by (simp add: 1)
  note t = touch_get_upd [OF cu lo 1]
  note g = on_get_upd [OF upd_cursor [OF t(1)] 2]
  show "upd s N c e c' e'" using t(1) g(1) by (rule upd_trans)
  show "obs_of e' = obs_of e" using t(2) g(2) by simp
qed

lemma cursor_same: "cursor s c e N \<Longrightarrow> dict_of c' = dict_of c \<Longrightarrow> cursor s c' e N"
  unfolding cursor_def using balanced_acct [of c' c] tabs_cong [of c e N c']
  by (simp add: dict_of_def acct_of_def)

lemma located_same: "located c e b tr \<Longrightarrow> dict_of c' = dict_of c \<Longrightarrow> located c' e b tr"
  by (erule located_cong) (simp_all add: dict_of_def)

lemma get_found:
  assumes cu: "cursor s c e N" and lo: "located c e b tr"
    and c0: "dict_of c0 = dict_of c" "env_of c0 = env_of c" "conns c0 = conns c"
    and r: "(case ar_touch_get c0 e b tr of (c, e) \<Rightarrow> evict_on_get c e) = (c', e')"
  shows "steps s P K W c c'" "epay e' = epay e" "env_of c' = env_of c"
proof -
  have cu0: "cursor s c0 e N" using cu c0(1) by (rule cursor_same)
  note t = touch_hooks [OF cu0 located_same [OF lo c0(1)] r]
  show "steps s P K W c c'"
    by (rule steps_same_then [OF upd_same_obs [OF cu0 t] c0(1) c0(3) c0(2)])
  show "epay e' = epay e" using t(2) by (metis obs_of_simps(1))
  show "env_of c' = env_of c" using t(1) c0(2) by (simp add: upd_def)
qed

lemma get_bin_ok:
  assumes w: "wf s c" and r: "ar_get_bin c k = (c', v)"
  shows "steps s P K W c c'" "v = (if alloc_ok c then string_of (live c k) else None)"
proof -
  let ?c = "c\<lparr> ops := ops c + 1, gets := gets c + 1 \<rparr>"
  have w1: "wf s ?c" using w by (rule wf_same) simp
  have l1: "live ?c = live c" by (rule live_same) simp_all
  have p: "steps s P K W c x" if "steps s P K W ?c x" for x using that by (rule steps_same_then) simp_all
  have "steps s P K W ?c c' \<and> v = (if alloc_ok c then string_of (live c k) else None)"
    using w1
  proof (cases rule: find_cases [of s ?c k])
    case (found e b tr N)
    show ?thesis
    proof (cases "etype e = TString")
      case False
      then have "c' = shadow_miss (?c\<lparr> misses := misses ?c + 1 \<rparr>)" "v = None"
        using r found(1) by (simp_all add: ar_get_bin_def Let_def)
      moreover have "string_of (live c k) = None" using found(6) False l1 by (simp add: string_of_obs)
      ultimately show ?thesis
        using w1 by (auto intro!: steps_same simp: shadow_same)
    next
      case True
      let ?c1 = "shadow_hit (?c\<lparr> hits := hits ?c + 1 \<rparr>)"
      obtain c2 e2 where 2: "(case ar_touch_get ?c1 e b tr of (c, e) \<Rightarrow> evict_on_get c e) = (c2, e2)" by fastforce
      have c0: "dict_of ?c1 = dict_of ?c" "env_of ?c1 = env_of ?c" "conns ?c1 = conns ?c" by (simp_all add: shadow_same)
      note g = get_found [OF found(4,3) c0 2]
      have "c' = c2" "v = (if alloc_ok c2 then Some (str_val (epay e2)) else None)"
        using r found(1) True 2 by (auto simp: ar_get_bin_def Let_def split: prod.splits)
      moreover have "alloc_ok c2 = alloc_ok c" using g(3) by (simp add: env_of_def)
      ultimately show ?thesis using g(1,2) True found(6) l1 by (simp add: string_of_obs)
    qed
  next
    case (missing c0)
    then have "c' = shadow_miss (c0\<lparr> misses := misses c0 + 1 \<rparr>)" "v = None"
      using r by (simp_all add: ar_get_bin_def Let_def)
    moreover have "steps s P K W ?c (shadow_miss (c0\<lparr> misses := misses c0 + 1 \<rparr>))"
      by (rule steps_then_same [OF missing(2)]) (simp_all add: shadow_same)
    ultimately show ?thesis using missing(4) l1 by (simp add: string_of_def)
  qed
  with p show "steps s P K W c c'" "v = (if alloc_ok c then string_of (live c k) else None)" by blast+
qed

lemma live_free:
  assumes cu: "cursor s c e N" and lo: "located c e b tr"
  shows "live (ar_entry_free_ex c b tr e) = (live c)(ekey e := None)"
  using env_now [OF free_cursor(5) [OF assms]] by (auto simp: live_def free_view [OF assms])

lemma del_bin_ok:
  assumes w: "wf s c" and r: "ar_del_bin c k = (c', ok)"
  shows "steps s (\<lambda>_. False) {k} {} c c'" "ok = (live c k \<noteq> None)" "live c' = (live c)(k := None)"
proof -
  have "steps s (\<lambda>_. False) {k} {} c c' \<and> ok = (live c k \<noteq> None) \<and> live c' = (live c)(k := None)"
    using w
  proof (cases rule: find_cases [of s c k])
    case (found e b tr N)
    let ?c = "ar_entry_free_ex c b tr e"
    have c': "c' = ?c\<lparr> ops := ops ?c + 1 \<rparr>" "ok" using r found(1) by (simp_all add: ar_del_bin_def Let_def)
    have "steps s (\<lambda>_. False) {k} {} c ?c" using free_steps [OF found(4,3)] found(2) by simp
    then have "steps s (\<lambda>_. False) {k} {} c c'" unfolding c' by (rule steps_then_same) simp_all
    moreover have "live c' = live ?c" unfolding c' by (rule live_same) simp_all
    ultimately show ?thesis using c'(2) found(2,6) live_free [OF found(4,3)] by simp
  next
    case (missing c0)
    then have "c' = c0" "\<not> ok" using r by (simp_all add: ar_del_bin_def)
    moreover have "live c0 = live c" using missing(2) by (rule steps_live)
    ultimately show ?thesis using missing(2,4) by auto
  qed
  then show "steps s (\<lambda>_. False) {k} {} c c'" "ok = (live c k \<noteq> None)" "live c' = (live c)(k := None)" by blast+
qed

end
