(* ===== verification/Ops.thy ===== *)
theory Ops
  imports Strings
begin

text \<open>
  The composite key operations of \<open>ar_core.c\<close>: APPEND, INCRBY, RENAME, FLUSHDB, MSET, pinning and
  the memory limit, each a composition of the operations of \<open>Dict\<close>, \<open>Evict\<close> and \<open>Strings\<close>.
\<close>


section \<open>APPEND and INCRBY\<close>

definition entry_append :: "core \<Rightarrow> entry \<Rightarrow> bytes \<Rightarrow> core \<times> entry" where
  "entry_append c e val =
     (let nv = str_val (epay e) @ val;
          e = e\<lparr> epay := PStr nv \<rparr>;
          c = c\<lparr> used_memory := used_memory c + length val \<rparr>;
          c = ar_type_stats_bytes_delta c TString (int (length val));
          c = ar_type_stats_note_bigkey c TString (length nv);
          c = c\<lparr> clock := clock c + 1 \<rparr>;
          e = e\<lparr> last_access := clock c \<rparr>
      in (entry_put c e, e))"

definition ar_append :: "core \<Rightarrow> bytes \<Rightarrow> bytes \<Rightarrow> core \<times> int \<times> bool" where
  "ar_append c key val =
     (let c = c\<lparr> ops := ops c + 1, sets := sets c + 1 \<rparr>
      in case ar_find_entry_ex c key of
           (c, None) \<Rightarrow>
             (case ar_entry_set c key val of
                (c, False) \<Rightarrow> (c, - 1, False)
              | (c, True) \<Rightarrow>
                  (case ar_find_entry_ex c key of
                     (c, None) \<Rightarrow> (c, - 1, False)
                   | (c, Some (e, b, tr)) \<Rightarrow> (c, int (length (str_val (epay e))), False)))
         | (c, Some (e, b, tr)) \<Rightarrow>
             if etype e \<noteq> TString then (c, - 1, True)
             else if val = [] then (c, int (length (str_val (epay e))), False)
             else if \<not> alloc_ok c then (c, - 1, False)
             else let newlen = length (str_val (epay e)) + length val
                  in case entry_append c e val of (c, e) \<Rightarrow>
                     case (if layout c = HotCold \<and> tr = Cold then ar_touch_get c e b tr else (c, e)) of (c, e) \<Rightarrow>
                     case evict_on_set c e of (c, e) \<Rightarrow>
                       (ar_watch_touch (maybe_evict c) key, int newlen, False))"

text \<open>\<open>v += delta\<close> is signed: C leaves the overflow undefined, the compiled code wraps.\<close>

definition incr_store :: "core \<Rightarrow> bytes \<Rightarrow> int \<Rightarrow> nat \<Rightarrow> core \<times> int \<times> bool" where
  "incr_store c key v keep_exp =
     (case ar_entry_set_ex c key (show_int v) keep_exp of
        (c, False) \<Rightarrow> (c, 0, False)
      | (c, True) \<Rightarrow> (c, v, True))"

definition ar_incr :: "core \<Rightarrow> bytes \<Rightarrow> int \<Rightarrow> core \<times> int \<times> bool" where
  "ar_incr c key delta =
     (let c = c\<lparr> ops := ops c + 1, sets := sets c + 1 \<rparr>
      in case ar_find_entry_ex c key of
           (c, None) \<Rightarrow> incr_store c key (s64 (0 + delta)) 0
         | (c, Some (e, b, tr)) \<Rightarrow>
             if etype e \<noteq> TString then (c, 0, False)
             else if length (str_val (epay e)) \<ge> 64 then (c, 0, False)
             else (case strtoll_all (str_val (epay e)) of
                     None \<Rightarrow> (c, 0, False)
                   | Some v \<Rightarrow> incr_store c key (s64 (v + delta)) (expire_at e)))"


section \<open>RENAME, FLUSHDB, MSET\<close>

text \<open>The entry leaves its chain, changes its key and enters the hot table.\<close>

definition entry_rekey :: "core \<Rightarrow> nat \<Rightarrow> tier \<Rightarrow> entry \<Rightarrow> bytes \<Rightarrow> core \<times> entry" where
  "entry_rekey c sb stier e newkey =
     (let c = unlink_tier c sb stier e;
          c = tier_count_dec c stier;
          nklen = length newkey;
          klen = length (ekey e);
          c = (if nklen > klen then
                 let delta = nklen - klen
                 in ar_type_stats_bytes_delta (ar_mem_add c delta) (etype e) (int delta)
               else if nklen < klen then
                 let delta = klen - nklen
                 in ar_type_stats_bytes_delta (ar_mem_sub c delta) (etype e) (- int delta)
               else c);
          c = c\<lparr> clock := clock c + 1, sets := sets c + 1 \<rparr>;
          e = e\<lparr> ekey := newkey, last_access := clock c \<rparr>;
          c = link_hot c e;
          c = (if layout c = HotCold then c\<lparr> hot_nkeys := hot_nkeys c + 1 \<rparr> else c)
      in (c, e))"

definition ar_rename :: "core \<Rightarrow> bytes \<Rightarrow> bytes \<Rightarrow> bool \<Rightarrow> core \<times> int" where
  "ar_rename c key newkey nx =
     (let c = c\<lparr> ops := ops c + 1 \<rparr>
      in case ar_find_entry_ex c key of
           (c, None) \<Rightarrow> (c, 0)
         | (c, Some (e, sb, stier)) \<Rightarrow>
             if key = newkey then (c, 1)
             else (case ar_find_entry_ex c newkey of (c, dest) \<Rightarrow>
               if dest \<noteq> None \<and> nx then (c, 2)
               else if \<not> alloc_ok c then (c, - 1)
               else let c = (case dest of None \<Rightarrow> c | Some (d, db, dtier) \<Rightarrow> ar_entry_free_ex c db dtier d)
                    in case entry_rekey c sb stier e newkey of (c, e) \<Rightarrow>
                       case evict_on_set c e of (c, e) \<Rightarrow>
                         let c = maybe_demote_hot c;
                             c = ar_rehash_if_needed c;
                             c = maybe_evict c;
                             c = ar_watch_touch c key
                         in (ar_watch_touch c newkey, 1)))"

definition ar_flushdb :: "core \<Rightarrow> core" where
  "ar_flushdb c =
     (let c = c\<lparr> buckets := map (\<lambda>_. []) (buckets c) \<rparr>;
          c = (if cold_buckets c \<noteq> [] then c\<lparr> cold_buckets := map (\<lambda>_. []) (cold_buckets c), cold_nkeys := 0 \<rparr>
               else c);
          c = c\<lparr> nkeys := 0, hot_nkeys := 0, used_memory := 0, keys_with_ttl := 0, expire_at_sum := 0 \<rparr>;
          c = ar_type_stats_reset c;
          c = c\<lparr> ops := ops c + 1 \<rparr>
      in ar_watch_touch_all c)"

fun ar_mset :: "core \<Rightarrow> (bytes \<times> bytes) list \<Rightarrow> core \<times> bool" where
  "ar_mset c [] = (c, True)"
| "ar_mset c ((k, v) # kvs) =
     (let c = c\<lparr> ops := ops c + 1, sets := sets c + 1 \<rparr>
      in case ar_entry_set c k v of
           (c, False) \<Rightarrow> (c, False)
         | (c, True) \<Rightarrow> ar_mset c kvs)"


section \<open>Pins and limits\<close>

definition ar_core_pin :: "core \<Rightarrow> bytes \<Rightarrow> core \<times> bool" where
  "ar_core_pin c key =
     (case ar_find_entry_ex c key of
        (c, None) \<Rightarrow> (c, False)
      | (c, Some (e, b, tr)) \<Rightarrow>
          (if \<not> pinned e
           then (entry_put (c\<lparr> pinned_keys := pinned_keys c + 1 \<rparr>) (e\<lparr> pinned := True \<rparr>), True)
           else (c, True)))"

definition ar_core_unpin :: "core \<Rightarrow> bytes \<Rightarrow> core \<times> bool" where
  "ar_core_unpin c key =
     (case ar_find_entry_ex c key of
        (c, None) \<Rightarrow> (c, False)
      | (c, Some (e, b, tr)) \<Rightarrow>
          if \<not> pinned e then (c, False)
          else (entry_put (c\<lparr> pinned_keys := sat_sub (pinned_keys c) 1 \<rparr>) (e\<lparr> pinned := False \<rparr>), True))"

definition ar_core_list_pinned :: "core \<Rightarrow> nat \<Rightarrow> bytes list" where
  "ar_core_list_pinned c max_out =
     (if \<not> alloc_ok c then []
      else let hot = take max_out (map ekey (filter pinned (concat (buckets c))))
           in if layout c = HotCold \<and> cold_buckets c \<noteq> []
              then hot @ take (max_out - length hot) (map ekey (filter pinned (concat (cold_buckets c))))
              else hot)"

definition ar_core_set_maxmemory :: "core \<Rightarrow> nat \<Rightarrow> core" where
  "ar_core_set_maxmemory c n = maybe_evict (c\<lparr> maxmemory := n \<rparr>)"


section \<open>APPEND, proved\<close>

lemma append_upd:
  assumes cu: "cursor s c e N" and t: "etype e = TString" and r: "entry_append c e val = (c', e')"
  shows "upd s N c e c' e'" "located c e b tr \<Longrightarrow> located c' e' b tr"
    "obs_of e' = (obs_of e)\<lparr> o_pay := PStr (str_val (epay e) @ val) \<rparr>"
proof -
  let ?e = "e\<lparr> epay := PStr (str_val (epay e) @ val), last_access := clock c + 1 \<rparr>"
  have e': "e' = ?e" using r by (auto simp: entry_append_def Let_def acct_defs split: if_splits)
  have c1: "c' = fst (entry_append c e val)" by (simp add: r)
  have bal: "balanced s c (add_mset e N)" using cu by (simp add: cursor_def)
  have c': "buckets c' = buckets (entry_put c ?e)" "cold_buckets c' = cold_buckets (entry_put c ?e)"
    "layout c' = layout c" "hot_nkeys c' = hot_nkeys c" "cold_nkeys c' = cold_nkeys c"
    "conns c' = conns c" "env_of c' = env_of c" "nkeys c' = nkeys c" "keys_with_ttl c' = keys_with_ttl c"
    "pinned_keys c' = pinned_keys c" "type_nkeys c' = type_nkeys c"
    "used_memory c' = used_memory c + length val"
    "type_bytes c' = (type_bytes c)(TString := type_bytes c TString + length val)"
    unfolding c1
    by (simp_all add: entry_append_def Let_def acct_defs buckets_put_cong env_of_def)
  have "balanced s c' (add_mset ?e N)"
    using bal t unfolding balanced_def c' by (auto simp: etotal_payload str_val_bytes)
  then have "upd s N c e c' ?e \<and> (located c e b tr \<longrightarrow> located c' ?e b tr)"
    using rewrite_cursor(1) [OF cu _ c'(1-7)] rewrite_cursor(2) [OF cu _ c'(1-7), of b tr] by simp
  then show "upd s N c e c' e'" "located c e b tr \<Longrightarrow> located c' e' b tr"
    "obs_of e' = (obs_of e)\<lparr> o_pay := PStr (str_val (epay e) @ val) \<rparr>"
    unfolding e' by (simp_all add: obs_of_def)
qed

lemma append_found:
  assumes cu: "cursor s c e N" and lo: "located c e b tr" and t: "etype e = TString"
    and r: "(case entry_append c e val of (c, e) \<Rightarrow>
             case (if layout c = HotCold \<and> tr = Cold then ar_touch_get c e b tr else (c, e)) of (c, e) \<Rightarrow>
             evict_on_set c e) = (c', e')"
  shows "upd s N c e c' e'" "obs_of e' = (obs_of e)\<lparr> o_pay := PStr (str_val (epay e) @ val) \<rparr>"
proof -
  obtain c1 e1 where 1: "entry_append c e val = (c1, e1)" by fastforce
  obtain c2 e2 where 2: "(if layout c1 = HotCold \<and> tr = Cold then ar_touch_get c1 e1 b tr else (c1, e1)) = (c2, e2)"
    by fastforce
  have 3: "evict_on_set c2 e2 = (c', e')" using r by (simp add: 1 2)
  note u1 = append_upd [OF cu t 1]
  have u2: "upd s N c1 e1 c2 e2 \<and> obs_of e2 = obs_of e1"
    using 2 touch_get_upd [OF upd_cursor [OF u1(1)] u1(2) [OF lo], of c2 e2] upd_refl [OF upd_cursor [OF u1(1)]]
    by (auto split: if_splits)
  note u3 = on_set_upd [OF upd_cursor [OF conjunct1 [OF u2]] 3]
  show "upd s N c e c' e'" using u1(1) u2 u3(1) upd_trans by blast
  show "obs_of e' = (obs_of e)\<lparr> o_pay := PStr (str_val (epay e) @ val) \<rparr>" using u1(3) u2 u3(2) by simp
qed

text \<open>A write that replaces the observation of a live key, then evicts and notifies.\<close>

lemma finish_upd:
  assumes cu: "cursor s c e N" and u: "upd s N c e c1 e1" and k: "ekey e = k"
    and ev: "\<And>c. wf s c \<Longrightarrow> steps s (droppable c) {} {} c (ev c)"
  shows "steps s (droppable c) {k} {} c (ar_watch_touch (ev c1) k)"
    and "yields (ar_watch_touch (ev c1) k) ((live c)(k := unexpired (now_ms c) (Some (obs_of e1))))"
proof -
  have cu1: "cursor s c1 e1 N" using u by (rule upd_cursor)
  have "evo (\<lambda>_. False) {k} {k} c c1" using upd_evo [OF cu u] k by simp
  moreover have "ekey e1 = k" using u k by (simp add: upd_def)
  ultimately show "steps s (droppable c) {k} {} c (ar_watch_touch (ev c1) k)"
    "yields (ar_watch_touch (ev c1) k) ((live c)(k := unexpired (now_ms c) (Some (obs_of e1))))"
    using finish_write cu1 ev wf_of_cursor by blast+
qed

lemma unexpired_live: "live c k = Some v \<Longrightarrow> o_exp w = o_exp v \<Longrightarrow> unexpired (now_ms c) (Some w) = Some w"
  using live_not_due [of c k v] by (auto simp: gone_def)

lemma append_ok:
  assumes w: "wf s c" and r: "ar_append c k val = (c', n, wt)" and a: "alloc_ok c"
  shows "steps s (droppable c) {k} {} c c'"
    and "live c k = None \<Longrightarrow> \<not> wt \<and> yields c' ((live c)(k \<mapsto> string_obs val 0 False))"
    and "live c k = Some v \<Longrightarrow> o_pay v = PStr old \<Longrightarrow> \<not> wt \<and> n = int (length (old @ val)) \<and>
           yields c' ((live c)(k \<mapsto> v\<lparr> o_pay := PStr (old @ val) \<rparr>))"
    and "live c k = Some v \<Longrightarrow> payload_type (o_pay v) \<noteq> TString \<Longrightarrow> wt \<and> n = - 1 \<and> live c' = live c"
proof -
  let ?c = "c\<lparr> ops := ops c + 1, sets := sets c + 1 \<rparr>"
  have w1: "wf s ?c" using w by (rule wf_same) simp
  have l1: "live ?c = live c" by (rule live_same) simp_all
  have d1: "droppable ?c = droppable c" by (rule droppable_env) simp
  have p: "steps s P K W c x" if "steps s P K W ?c x" for P K W x
    using that by (rule steps_same_then) simp_all
  have "steps s (droppable c) {k} {} ?c c' \<and>
     (live c k = None \<longrightarrow> \<not> wt \<and> yields c' ((live c)(k \<mapsto> string_obs val 0 False))) \<and>
     (\<forall>v old. live c k = Some v \<longrightarrow> o_pay v = PStr old \<longrightarrow> \<not> wt \<and> n = int (length (old @ val)) \<and>
           yields c' ((live c)(k \<mapsto> v\<lparr> o_pay := PStr (old @ val) \<rparr>))) \<and>
     (\<forall>v. live c k = Some v \<longrightarrow> payload_type (o_pay v) \<noteq> TString \<longrightarrow> wt \<and> n = - 1 \<and> live c' = live c)"
    using w1
  proof (cases rule: find_cases [of s ?c k])
    case (found e b tr N)
    then have lk: "live c k = Some (obs_of e)" using l1 by simp
    consider (wrong) "etype e \<noteq> TString" | (idle) "etype e = TString" "val = []"
      | (more) "etype e = TString" "val \<noteq> []" by blast
    then show ?thesis
    proof cases
      case wrong
      then have "c' = ?c" "n = - 1" "wt" using r found(1) by (simp_all add: ar_append_def Let_def)
      moreover have "\<nexists>old. epay e = PStr old" using wrong by auto
      ultimately show ?thesis using w1 l1 lk by (simp add: steps_refl)
    next
      case idle
      then have "c' = ?c" "n = int (length (str_val (epay e)))" "\<not> wt"
        using r found(1) by (simp_all add: ar_append_def Let_def)
      moreover have "live ?c = (live c)(k \<mapsto> (obs_of e)\<lparr> o_pay := PStr old \<rparr>)" if "epay e = PStr old" for old
      proof -
        have "(obs_of e)\<lparr> o_pay := PStr old \<rparr> = obs_of e" using that by (simp add: obs_of_def)
        then show ?thesis using lk l1 by (metis fun_upd_triv)
      qed
      ultimately show ?thesis using w1 lk idle(1) unfolding idle(2)
        by (auto simp: steps_refl intro!: yields_refl)
    next
      case more
      obtain c1 e1 where 1: "(case entry_append ?c e val of (c, e) \<Rightarrow>
             case (if layout c = HotCold \<and> tr = Cold then ar_touch_get c e b tr else (c, e)) of (c, e) \<Rightarrow>
             evict_on_set c e) = (c1, e1)" by fastforce
      note f = append_found [OF found(4,3) more(1) 1]
      have c': "c' = ar_watch_touch (maybe_evict c1) k" "n = int (length (str_val (epay e)) + length val)" "\<not> wt"
        using r found(1) more a 1 by (auto simp: ar_append_def Let_def split: prod.splits)
      note fin = finish_upd [OF found(4) f(1) found(2) maybe_evict_steps]
      have "unexpired (now_ms ?c) (Some (obs_of e1)) = Some (obs_of e1)"
        using found(6) f(2) by (intro unexpired_live [of _ k "obs_of e"]) simp_all
      then show ?thesis using fin c' f(2) lk l1 d1 more(1) by auto
    qed
  next
    case (missing c0)
    have w0: "wf s c0" using missing(2) by (rule stepsD)
    have env: "env_of c0 = env_of ?c" using missing(2) by (rule steps_env)
    have l0: "live c0 = live c" using missing(2) l1 by (metis steps_live)
    have lk: "live c k = None" using missing(4) l1 by simp
    obtain c1 ok where 1: "ar_entry_set c0 k val = (c1, ok)" by fastforce
    note st = set_ex_ok [OF w0 1 [unfolded ar_entry_set_def]]
    have ok: ok using st(1) env a by (simp add: env_of_def)
    have d: "droppable c0 = droppable c" using droppable_env [OF env] d1 by simp
    have y: "yields c1 ((live c)(k \<mapsto> string_obs val 0 False))"
      using st(3) [OF ok] l0 lk by (simp add: gone_def string_obs_def)
    have s1: "steps s (droppable c) {k} {} ?c c1"
      using steps_trans [OF missing(2)] st(2) unfolding d by blast
    obtain c2 r2 where 2: "ar_find_entry_ex c1 k = (c2, r2)" by fastforce
    have s2: "steps s (\<lambda>_. False) {} {} c1 c2 \<and> steps s (droppable c) {k} {} c1 c2"
      using find_steps(1) [OF stepsD(1) [OF s1] 2] by blast
    have "c' = c2 \<and> \<not> wt"
      using r missing(1) 1 ok 2 by (auto simp: ar_append_def Let_def split: option.splits prod.splits)
    moreover have "yields c2 ((live c)(k \<mapsto> string_obs val 0 False))"
      using y s2 by (auto simp: steps_def intro: yields_evo evo_mono)
    ultimately show ?thesis using steps_trans [OF s1] s2 lk by simp
  qed
  with p show "steps s (droppable c) {k} {} c c'"
    "live c k = None \<Longrightarrow> \<not> wt \<and> yields c' ((live c)(k \<mapsto> string_obs val 0 False))"
    "live c k = Some v \<Longrightarrow> o_pay v = PStr old \<Longrightarrow> \<not> wt \<and> n = int (length (old @ val)) \<and>
           yields c' ((live c)(k \<mapsto> v\<lparr> o_pay := PStr (old @ val) \<rparr>))"
    "live c k = Some v \<Longrightarrow> payload_type (o_pay v) \<noteq> TString \<Longrightarrow> wt \<and> n = - 1 \<and> live c' = live c"
    by blast+
qed


section \<open>INCRBY, proved\<close>

text \<open>What INCRBY reads: a missing key counts as 0, a string must be a whole decimal of at most 63
  bytes. The value it stores is the wrapped sum, and the deadline is kept.\<close>

definition counter_of :: "obs option \<Rightarrow> int option" where
  "counter_of r =
     (case r of None \<Rightarrow> Some 0
      | Some v \<Rightarrow> (case o_pay v of PStr s \<Rightarrow> if length s \<ge> 64 then None else strtoll_all s | _ \<Rightarrow> None))"

definition deadline_of :: "obs option \<Rightarrow> nat" where
  "deadline_of r = (case r of None \<Rightarrow> 0 | Some v \<Rightarrow> o_exp v)"

lemma deadline_of_simps [simp]: "deadline_of None = 0" "deadline_of (Some v) = o_exp v"
  by (simp_all add: deadline_of_def)

lemma counter_of_obs: "counter_of (Some (obs_of e)) =
    (if etype e \<noteq> TString \<or> length (str_val (epay e)) \<ge> 64 then None else strtoll_all (str_val (epay e)))"
  by (cases "epay e") (simp_all add: counter_of_def)

lemma live_deadline_ahead: "deadline_of (live c k) = 0 \<or> now_ms c < deadline_of (live c k)"
  using live_not_due [of c k] by (cases "live c k") auto

lemma incr_ok:
  assumes w: "wf s c" and r: "ar_incr c k delta = (c', v, ok)"
  shows "steps s (droppable c) {k} {} c c'"
    and "counter_of (live c k) = None \<Longrightarrow> \<not> ok \<and> v = 0 \<and> live c' = live c"
    and "counter_of (live c k) = Some n \<Longrightarrow> alloc_ok c \<Longrightarrow> ok \<and> v = s64 (n + delta) \<and>
       yields c' ((live c)(k \<mapsto> string_obs (show_int v) (deadline_of (live c k)) (pin_of (live c k))))"
proof -
  let ?c = "c\<lparr> ops := ops c + 1, sets := sets c + 1 \<rparr>"
  have w1: "wf s ?c" using w by (rule wf_same) simp
  have l1: "live ?c = live c" by (rule live_same) simp_all
  have d1: "droppable ?c = droppable c" by (rule droppable_env) simp
  have p: "steps s P K W c x" if "steps s P K W ?c x" for P K W x
    using that by (rule steps_same_then) simp_all
  obtain c0 x where 0: "ar_find_entry_ex ?c k = (c0, x)" by fastforce
  have s0: "steps s P K W ?c c0" for P K W using w1 0 by (rule find_steps(1))
  have w0: "wf s c0" using s0 by (rule stepsD)
  have env0: "env_of c0 = env_of ?c" using s0 by (rule steps_env)
  have l0: "live c0 = live c" using s0 l1 by (metis steps_live)
  have rest: "steps s (droppable c) {k} {} ?c c' \<and> (alloc_ok c \<longrightarrow> ok \<and> v = s64 (n + delta) \<and>
       yields c' ((live c)(k \<mapsto> string_obs (show_int v) (deadline_of (live c k)) (pin_of (live c k)))))"
    if st: "incr_store c0 k (s64 (n + delta)) (deadline_of (live c k)) = (c', v, ok)" for n
  proof -
    obtain c2 b where 2: "ar_entry_set_ex c0 k (show_int (s64 (n + delta))) (deadline_of (live c k)) = (c2, b)" by fastforce
    note so = set_ex_ok [OF w0 2]
    have d0: "droppable c0 = droppable c" using droppable_env [OF env0] d1 by simp
    have b: "b = alloc_ok c" using so(1) env0 by (simp add: env_of_def)
    have c': "c' = c2" "ok = b" "b \<Longrightarrow> v = s64 (n + delta)"
      using st 2 by (auto simp: incr_store_def split: bool.splits)
    have u: "unexpired (now_ms c0) (Some (string_obs q (deadline_of (live c k)) pn)) =
        Some (string_obs q (deadline_of (live c k)) pn)" for q pn
      using live_deadline_ahead [of c k] env0 by (auto simp: gone_def string_obs_def env_of_def)
    have "steps s (droppable c) {k} {} ?c c2" using steps_trans [OF s0] so(2) unfolding d0 by blast
    then show ?thesis using so(3) b c' unfolding l0 u by simp
  qed
  have "steps s (droppable c) {k} {} ?c c' \<and>
    (counter_of (live c k) = None \<longrightarrow> \<not> ok \<and> v = 0 \<and> live c' = live c) \<and>
    (\<forall>n. counter_of (live c k) = Some n \<longrightarrow> alloc_ok c \<longrightarrow> ok \<and> v = s64 (n + delta) \<and>
       yields c' ((live c)(k \<mapsto> string_obs (show_int v) (deadline_of (live c k)) (pin_of (live c k)))))"
    using w1
  proof (cases rule: find_cases [of s ?c k])
    case (found e b tr N)
    then have lk: "live c k = Some (obs_of e)" and c0: "c0 = ?c" "x = Some (e, b, tr)" using l1 0 by simp_all
    show ?thesis
    proof (cases "counter_of (live c k)")
      case None
      then have "c' = ?c \<and> \<not> ok \<and> v = 0"
        using r found(1) lk by (auto simp: ar_incr_def Let_def counter_of_obs split: if_splits)
      with w1 l1 None show ?thesis by (simp add: steps_refl)
    next
      case (Some n)
      then have "incr_store c0 k (s64 (n + delta)) (deadline_of (live c k)) = (c', v, ok)"
        using r found(1) lk c0 by (auto simp: ar_incr_def Let_def counter_of_obs split: if_splits)
      from rest [OF this] Some show ?thesis by (intro conjI allI impI) auto
    qed
  next
    case (missing c1)
    then have lk: "live c k = None" and c0: "c0 = c1" using l1 0 by simp_all
    have "incr_store c0 k (s64 (0 + delta)) (deadline_of (live c k)) = (c', v, ok)"
      using r missing(1) c0 lk by (simp add: ar_incr_def Let_def)
    from rest [OF this] show ?thesis by (auto simp: lk counter_of_def)
  qed
  with p show "steps s (droppable c) {k} {} c c'"
    "counter_of (live c k) = None \<Longrightarrow> \<not> ok \<and> v = 0 \<and> live c' = live c"
    "counter_of (live c k) = Some n \<Longrightarrow> alloc_ok c \<Longrightarrow> ok \<and> v = s64 (n + delta) \<and>
       yields c' ((live c)(k \<mapsto> string_obs (show_int v) (deadline_of (live c k)) (pin_of (live c k))))"
    by blast+
qed


section \<open>RENAME, proved\<close>

lemma push_tabs:
  assumes sh: "shape c" and ok: "\<forall>x \<in> set (ents c). payload_ok (epay x)" and new: "ekey e \<notin> ekey ` set (ents c)"
    and tb: "buckets c' = ct_push ekey (buckets c) e" "cold_buckets c' = cold_buckets c" "layout c' = layout c"
      "cold_nkeys c' = cold_nkeys c"
      "hot_nkeys c' = (if layout c = HotCold then hot_nkeys c + 1 else hot_nkeys c)"
  shows "tabs c' e (mset (ents c))"
proof -
  have ne: "buckets c \<noteq> []" using sh by (simp add: shape_def)
  have m: "mset (ents c') = add_mset e (mset (ents c))"
    unfolding ents_def tb(1,2) mset_append mset_push [OF ne] by simp
  have d: "distinct (map ekey (ents c'))"
    using distinct_add [OF m] sh new by (simp add: shape_def)
  have "shape c'"
    using sh d unfolding shape_def tb by (cases "layout c") (simp_all add: ct_placed_push length_push)
  then show ?thesis using m ok by (simp add: tabs_def)
qed

lemma rekey_cursor:
  assumes cu: "cursor s c e N" and lo: "located c e b tr" and new: "view c newkey = None"
    and r: "entry_rekey c b tr e newkey = (c', e')"
  shows "cursor s c' e' N" "ekey e' = newkey" "obs_of e' = obs_of e" "conns c' = conns c" "env_of c' = env_of c"
proof -
  let ?u = "tier_count_dec (unlink_tier c b tr e) tr"
  have sh: "shape c" "\<forall>x \<in># N. payload_ok (epay x)" "mset (ents c) = add_mset e N"
    and pe: "payload_ok (epay e)" and bal: "balanced s c (add_mset e N)"
    using cu by (simp_all add: cursor_def tabs_def)
  note un = shape_unlink [OF sh(1) lo]
  have mu: "mset (ents ?u) = N" using un(2) sh(3) by simp
  have e': "ekey e' = newkey" "epay e' = epay e" "expire_at e' = expire_at e" "pinned e' = pinned e"
    using r by (auto simp: entry_rekey_def Let_def)
  have c1: "c' = fst (entry_rekey c b tr e newkey)" and e1: "e' = snd (entry_rekey c b tr e newkey)" by (simp_all add: r)
  have bt: "balanced s c' (add_mset e' N) \<and> conns c' = conns c \<and> env_of c' = env_of c"
  proof -
    have ac: "nkeys c' = nkeys c" "keys_with_ttl c' = keys_with_ttl c" "pinned_keys c' = pinned_keys c"
      "type_nkeys c' = type_nkeys c" "used_memory c' = used_memory c + length newkey - length (ekey e)"
      "type_bytes c' = (type_bytes c)(etype e := type_bytes c (etype e) + length newkey - length (ekey e))"
      "conns c' = conns c" "env_of c' = env_of c"
      unfolding c1
      by (simp_all add: entry_rekey_def Let_def acct_defs link_hot_def env_of_def fun_upd_idem)
    have len: "length (ekey e) \<le> used_memory c" "length (ekey e) \<le> type_bytes c (etype e)"
      using bal by (auto simp: balanced_def etotal_payload)
    show ?thesis
      using bal len e' ac(7,8) unfolding balanced_def ac(1-6)
      by (auto simp: etotal_payload)
  qed
  have "tabs c' e' (mset (ents ?u))"
  proof (rule push_tabs [OF un(1)])
    show "\<forall>x \<in> set (ents ?u). payload_ok (epay x)" using sh(2) unfolding mu [symmetric] by simp
    have "set (ents ?u) \<subseteq> set (ents c)" using un(2) by (metis set_mset_add_mset_insert set_mset_mset subset_insertI)
    then show "ekey e' \<notin> ekey ` set (ents ?u)" using new e'(1) by (auto simp: view_None_iff)
  qed (unfold c1 e1, simp_all add: entry_rekey_def Let_def acct_defs link_hot_def tier_count_dec_counts)
  then show "cursor s c' e' N" using bt pe e'(2) by (simp add: cursor_def mu)
  show "ekey e' = newkey" "obs_of e' = obs_of e" "conns c' = conns c" "env_of c' = env_of c"
    using e' bt by (simp_all add: obs_of_def)
qed

lemma rekey_view:
  assumes cu: "cursor s c e N" and cu': "cursor s c' e' N" and o: "obs_of e' = obs_of e" and ne: "ekey e' \<noteq> ekey e"
  shows "view c' = (view c)(ekey e := None, ekey e' \<mapsto> obs_of e)"
proof -
  obtain ns where 1: "mset ns = N" "view c = (vw ns)(ekey e \<mapsto> obs_of e)" "ekey e \<notin> ekey ` set ns"
    using cursor_tabs [OF cu] by (rule tabs_vw)
  obtain ms where 2: "mset ms = N" "view c' = (vw ms)(ekey e' \<mapsto> obs_of e')" "ekey e' \<notin> ekey ` set ms"
    using cursor_tabs [OF cu'] by (rule tabs_vw)
  have "distinct (map ekey (ents c'))" using cu' by (simp add: cursor_def tabs_def shape_def)
  then have "distinct (map ekey ms)"
    using distinct_add [of "ents c'" e' ms] cu' 2(1) by (simp add: cursor_def tabs_def)
  then have "vw ns = vw ms" using 1(1) 2(1) by (intro vw_cong_mset) simp_all
  moreover have "vw ns (ekey e) = None" using 1(3) by (simp add: vw_None_iff)
  ultimately show ?thesis using 1(2) 2(2) o by auto
qed

lemma rekey_evo:
  assumes cu: "cursor s c e N" and lo: "located c e b tr" and new: "view c newkey = None"
    and r: "entry_rekey c b tr e newkey = (c', e')"
  shows "evo P {ekey e, newkey} {ekey e, newkey} c c'"
    and "view c' = (view c)(ekey e := None, newkey \<mapsto> obs_of e)"
proof -
  note k = rekey_cursor [OF assms]
  have "ekey e' \<noteq> ekey e" using k(2) new cursor_view [OF cu] by auto
  then show v: "view c' = (view c)(ekey e := None, newkey \<mapsto> obs_of e)"
    using rekey_view [OF cu k(1,3)] k(2) by simp
  show "evo P {ekey e, newkey} {ekey e, newkey} c c'"
    using k(5) conns_mono_cong [OF k(4)] by (simp add: evo_def v)
qed


text \<open>The outcome of RENAME, by cases on what the two names hold.\<close>

lemma rename_moves:
  assumes w: "wf s c" and cu: "cursor s c e N" and lo: "located c e b tr" and k: "ekey e = key"
    and new: "view c newkey = None" and lk: "live c key = Some (obs_of e)"
    and r: "(case entry_rekey c b tr e newkey of (c, e) \<Rightarrow> evict_on_set c e) = (c1, e1)"
  defines "c' \<equiv> ar_watch_touch (ar_watch_touch (maybe_evict (ar_rehash_if_needed (maybe_demote_hot c1))) key) newkey"
  shows "steps s (droppable c) {key, newkey} {} c c'"
    and "yields c' ((live c)(key := None, newkey := live c key))"
proof -
  obtain c0 e0 where 0: "entry_rekey c b tr e newkey = (c0, e0)" by fastforce
  have 1: "evict_on_set c0 e0 = (c1, e1)" using r by (simp add: 0)
  note rk = rekey_cursor [OF cu lo new 0] and rv = rekey_evo [OF cu lo new 0]
  note os = on_set_upd [OF rk(1) 1]
  let ?c2 = "ar_rehash_if_needed (maybe_demote_hot c1)"
  have m: "moves c1 ?c2" using wf_of_cursor [OF upd_cursor [OF os(1)]] by (intro settle_moves wf_shape)
  have v1: "view c1 = view c0"
    using tabs_view_put [OF cursor_tabs [OF rk(1)] cursor_tabs [OF upd_cursor [OF os(1)]]] os
      cursor_view [OF rk(1)] by (auto simp: upd_def)
  have v2: "view ?c2 = (view c)(key := None, newkey \<mapsto> obs_of e)"
    using moves_view [OF m] v1 rv(2) k by simp
  have env: "env_of ?c2 = env_of c" using m os(1) rk(5) by (simp add: moves_def upd_def)
  have cn: "conns ?c2 = conns c" using m os(1) rk(4) by (simp add: moves_def upd_def)
  have w2: "wf s ?c2" using wf_of_cursor [OF moves_cursor [OF m upd_cursor [OF os(1)]]] .
  have d: "droppable ?c2 = droppable c" using env by (rule droppable_env)
  have st2: "steps s (droppable c) {key, newkey} {newkey, key} c ?c2"
    using w2 env conns_mono_cong [OF cn] by (auto simp: steps_def evo_def v2)
  have ev: "steps s (droppable c) {} {} ?c2 (maybe_evict ?c2)" using maybe_evict_steps [OF w2] unfolding d .
  then have "steps s (droppable c) {key, newkey} {newkey, key} ?c2 (maybe_evict ?c2)"
    by (rule steps_mono) auto
  with st2 have "steps s (droppable c) {key, newkey} {newkey, key} c (maybe_evict ?c2)" by (rule steps_trans)
  then have "steps s (droppable c) {key, newkey} (insert key {newkey}) c (maybe_evict ?c2)"
    by (simp add: insert_commute)
  then have "steps s (droppable c) {key, newkey} {newkey} c (ar_watch_touch (maybe_evict ?c2) key)"
    by (rule steps_touch)
  then show "steps s (droppable c) {key, newkey} {} c c'"
    unfolding c'_def by (rule steps_touch)
  have "live ?c2 = (live c)(key := None, newkey := live c key)"
    using env_now [OF env] lk cursor_view [OF cu] k by (auto simp: live_def v2)
  then have "yields ?c2 ((live c)(key := None, newkey := live c key))" by (rule yields_refl)
  then show "yields c' ((live c)(key := None, newkey := live c key))"
    using ev d by (auto simp: c'_def steps_def intro: yields_evo)
qed

lemma rename_missing:
  assumes w: "wf s c" and r: "ar_rename c key newkey nx = (c', n)" and m: "live c key = None"
  shows "n = 0 \<and> steps s (\<lambda>_. False) {} {} c c'"
proof -
  let ?c = "c\<lparr> ops := ops c + 1 \<rparr>"
  have w1: "wf s ?c" using w by (rule wf_same) simp
  have l1: "live ?c = live c" by (rule live_same) simp_all
  obtain c0 x where 0: "ar_find_entry_ex ?c key = (c0, x)" by fastforce
  have "x = None" using find_steps(2) [OF w1 0] m l1 by simp
  with r 0 have "c' = c0" "n = 0" by (simp_all add: ar_rename_def Let_def)
  moreover have "steps s (\<lambda>_. False) {} {} c c0"
    by (rule steps_same_then [OF find_steps(1) [OF w1 0]]) simp_all
  ultimately show ?thesis by simp
qed

lemma rename_found:
  assumes w: "wf s c" and r: "ar_rename c key newkey nx = (c', n)" and a: "alloc_ok c"
    and l: "live c key \<noteq> None" and ne: "key \<noteq> newkey"
  shows "if live c newkey \<noteq> None \<and> nx then n = 2 \<and> steps s (\<lambda>_. False) {} {} c c'
    else n = 1 \<and> steps s (droppable c) {key, newkey} {} c c' \<and>
      yields c' ((live c)(key := None, newkey := live c key))"
proof -
  let ?c = "c\<lparr> ops := ops c + 1 \<rparr>"
  have w1: "wf s ?c" using w by (rule wf_same) simp
  have l1: "live ?c = live c" by (rule live_same) simp_all
  have d1: "droppable ?c = droppable c" by (rule droppable_env) simp
  have p: "steps s P K W c x" if "steps s P K W ?c x" for P K W x
    using that by (rule steps_same_then) simp_all
  obtain e b tr N where e: "ar_find_entry_ex ?c key = (?c, Some (e, b, tr))" "ekey e = key"
    "located ?c e b tr" "cursor s ?c e N" "live ?c key = Some (obs_of e)"
    using w1 by (cases rule: find_cases [of s ?c key]) (use l l1 in auto)
  have fin: "n = 1 \<and> steps s (droppable c) {key, newkey} {} c c' \<and>
      yields c' ((live c)(key := None, newkey := live c key))"
    if st: "steps s (droppable c) {key, newkey} {} ?c c2" and lo2: "located c2 e b tr"
      and v2: "view c2 newkey = None" and l2: "live c2 = (live c)(newkey := None)"
      and r2: "(case entry_rekey c2 b tr e newkey of (c, e) \<Rightarrow> case evict_on_set c e of (c, e) \<Rightarrow>
                         let c = maybe_demote_hot c;
                             c = ar_rehash_if_needed c;
                             c = maybe_evict c;
                             c = ar_watch_touch c key
                         in (ar_watch_touch c newkey, 1)) = (c', n)" for c2
  proof -
    have w2: "wf s c2" using st by (rule stepsD)
    obtain N2 where cu2: "cursor s c2 e N2" using cursor_of_wf [OF w2 located_ents [OF lo2]] .
    obtain c3 e3 where 3: "(case entry_rekey c2 b tr e newkey of (c, e) \<Rightarrow> evict_on_set c e) = (c3, e3)" by fastforce
    have c': "c' = ar_watch_touch (ar_watch_touch (maybe_evict (ar_rehash_if_needed (maybe_demote_hot c3))) key) newkey"
      "n = 1"
      using r2 3 by (auto simp: Let_def split: prod.splits)
    have lk: "live c2 key = Some (obs_of e)" using l2 ne e(5) l1 by simp
    note mv = rename_moves [OF w2 cu2 lo2 e(2) v2 lk 3]
    have d2: "droppable c2 = droppable c" using droppable_env [OF steps_env [OF st]] d1 by simp
    have "steps s (droppable c) {key, newkey} {} ?c c'"
      using steps_trans [OF st] mv(1) unfolding c' d2 by blast
    moreover have "(live c2)(key := None, newkey := live c2 key) = (live c)(key := None, newkey := live c key)"
      using l2 ne by (auto simp: fun_eq_iff)
    ultimately show ?thesis using mv(2) p c' by simp
  qed
  show ?thesis
    using w1
  proof (cases rule: find_cases [of s ?c newkey])
    case (found d db dtr M)
    have lnew: "live c newkey \<noteq> None" using found(6) l1 by simp
    show ?thesis
    proof (cases nx)
      case True
      with lnew r e(1) ne found(1) have "n = 2 \<and> c' = ?c"
        by (auto simp: ar_rename_def Let_def)
      with lnew True w1 p show ?thesis by (simp add: steps_refl)
    next
      case False
      let ?c2 = "ar_entry_free_ex ?c db dtr d"
      have "steps s (droppable c) {key, newkey} {} ?c ?c2"
        using found(2) by (intro free_steps [OF found(4,3)]) simp
      moreover have "located ?c2 e b tr" using e(2,3) found(2) ne by (intro located_free) simp_all
      moreover have "view ?c2 newkey = None" using free_view [OF found(4,3)] found(2) by simp
      moreover have "live ?c2 = (live c)(newkey := None)" using live_free [OF found(4,3)] found(2) l1 by simp
      ultimately show ?thesis
        using fin [of ?c2] r e(1) ne found(1) False a by (simp add: ar_rename_def)
    qed
  next
    case (missing c2)
    have "ar_find_entry_ex ?c newkey = (c2, None)" by (rule missing(1))
    moreover have "located c2 e b tr" using missing(6) [OF e(3)] e(2) ne by simp
    moreover have "live c2 = (live c)(newkey := None)"
      using steps_live [OF missing(2)] missing(4) l1 by auto
    moreover have "alloc_ok c2" using env_alloc [OF steps_env [OF missing(2)]] a by simp
    ultimately show ?thesis
      using fin [of c2] r e(1) ne missing(2,3,4) l1 by (simp add: ar_rename_def)
  qed
qed


section \<open>FLUSHDB, MSET, pins and limits, proved\<close>

lemma ct_placed_emptied [simp]: "ct_placed key (map (\<lambda>_. []) tbl)"
  by (simp add: ct_placed_def)

lemma flush_fields:
  "buckets (ar_flushdb c) = map (\<lambda>_. []) (buckets c)"
  "cold_buckets (ar_flushdb c) = map (\<lambda>_. []) (cold_buckets c)"
  "layout (ar_flushdb c) = layout c" "hot_nkeys (ar_flushdb c) = 0"
  "cold_nkeys (ar_flushdb c) = (if cold_buckets c = [] then cold_nkeys c else 0)"
  "nkeys (ar_flushdb c) = 0" "used_memory (ar_flushdb c) = 0" "keys_with_ttl (ar_flushdb c) = 0"
  "pinned_keys (ar_flushdb c) = pinned_keys c" "type_nkeys (ar_flushdb c) = (\<lambda>_. 0)"
  "type_bytes (ar_flushdb c) = (\<lambda>_. 0)" "env_of (ar_flushdb c) = env_of c"
  by (simp_all add: ar_flushdb_def ar_type_stats_reset_def ar_watch_touch_all_def Let_def env_of_def)

lemma flush_conns: "conns (ar_flushdb c) = map (\<lambda>cn.
     if in_use cn \<and> watch_keys cn \<noteq> [] then cn\<lparr> watch_dirty := True \<rparr> else cn) (conns c)"
  by (simp add: ar_flushdb_def ar_type_stats_reset_def ar_watch_touch_all_def Let_def)

lemma flush_ok:
  assumes w: "wf s c"
  shows "wf (exact\<lparr> x_pin := pinned_keys c \<rparr>) (ar_flushdb c)" "live (ar_flushdb c) = Map.empty"
    "touched (ar_flushdb c) k" "conns_mono c (ar_flushdb c)"
proof -
  have e: "ents (ar_flushdb c) = []" by (simp add: ents_def flush_fields)
  have "shape (ar_flushdb c)"
    using wf_shape [OF w] by (cases "layout c") (auto simp: shape_def e flush_fields)
  moreover have "balanced (exact\<lparr> x_pin := pinned_keys c \<rparr>) (ar_flushdb c) {#}"
    by (simp add: balanced_def flush_fields exact_def)
  ultimately show "wf (exact\<lparr> x_pin := pinned_keys c \<rparr>) (ar_flushdb c)" by (simp add: wf_def e)
  show "live (ar_flushdb c) = Map.empty" by (rule ext) (simp add: live_def view_def e)
  show "touched (ar_flushdb c) k" by (auto simp: touched_def flush_conns)
  show "conns_mono c (ar_flushdb c)"
    by (simp add: conns_mono_def flush_conns list_all2_conv_all_nth conn_mono_def)
qed

definition mset_result :: "(bytes \<Rightarrow> obs option) \<Rightarrow> (bytes \<times> bytes) list \<Rightarrow> bytes \<Rightarrow> obs option" where
  "mset_result L kvs = foldl (\<lambda>L (k, v). L(k \<mapsto> string_obs v 0 (pin_of (L k)))) L kvs"

lemma mset_ok:
  assumes "wf s c" and "ar_mset c kvs = (c', ok)" and "alloc_ok c"
  shows "ok \<and> steps s (droppable c) (fst ` set kvs) {} c c' \<and>
    (maxmemory c = 0 \<or> evict c = EvNoop \<longrightarrow> live c' = mset_result (live c) kvs)"
  using assms
proof (induction kvs arbitrary: c)
  case Nil
  then show ?case by (simp add: steps_refl mset_result_def)
next
  case (Cons kv kvs)
  obtain k v where kv: "kv = (k, v)" by fastforce
  let ?c = "c\<lparr> ops := ops c + 1, sets := sets c + 1 \<rparr>"
  obtain c1 b where 1: "ar_entry_set ?c k v = (c1, b)" by fastforce
  have cs: "b = alloc_ok c" "steps s (droppable c) {k} {} c c1"
    "b \<Longrightarrow> yields c1 ((live c)(k := unexpired (now_ms c) (Some (string_obs v 0 (pin_of (live c k))))))"
    using counted_set [OF Cons.prems(1) 1 [unfolded ar_entry_set_def]] by simp_all
  have env: "env_of c1 = env_of c" using cs(2) by (rule steps_env)
  have d: "droppable c1 = droppable c" using env by (rule droppable_env)
  have rest: "ar_mset c1 kvs = (c', ok)"
    using Cons.prems(2,3) 1 cs(1) by (simp add: kv Let_def)
  have IH: "ok \<and> steps s (droppable c1) (fst ` set kvs) {} c1 c' \<and>
    (maxmemory c1 = 0 \<or> evict c1 = EvNoop \<longrightarrow> live c' = mset_result (live c1) kvs)"
    using Cons.IH [OF stepsD(1) [OF cs(2)] rest] Cons.prems(3) env by (simp add: env_of_def)
  have "steps s (droppable c) (fst ` set (kv # kvs)) {} c c1"
    by (rule steps_mono [OF cs(2)]) (auto simp: kv)
  moreover have "steps s (droppable c) (fst ` set (kv # kvs)) {} c1 c'"
    using conjunct1 [OF conjunct2 [OF IH]] unfolding d by (rule steps_mono) auto
  moreover have "live c' = mset_result (live c) (kv # kvs)" if u: "maxmemory c = 0 \<or> evict c = EvNoop"
  proof -
    have u1: "maxmemory c1 = 0 \<or> evict c1 = EvNoop" using u env by (simp add: env_of_def)
    have "live c1 = (live c)(k \<mapsto> string_obs v 0 (pin_of (live c k)))"
      using yields_unlimited [OF cs(3) u1] cs(1) Cons.prems(3) by (simp add: string_obs_def gone_def)
    then show ?thesis using IH u1 by (simp add: mset_result_def kv)
  qed
  ultimately show ?case using IH steps_trans by blast
qed

lemma repin_upd:
  assumes cu: "cursor s c e N" and n: "n + of_bool (pinned e) = pinned_keys c + of_bool b"
  shows "upd s N c e (entry_put (c\<lparr> pinned_keys := n \<rparr>) (e\<lparr> pinned := b \<rparr>)) (e\<lparr> pinned := b \<rparr>)"
proof (rule rewrite_cursor(1) [OF cu])
  have "etotal (e\<lparr> pinned := b \<rparr>) = etotal e" by (simp add: etotal_payload)
  then show "balanced s (entry_put (c\<lparr> pinned_keys := n \<rparr>) (e\<lparr> pinned := b \<rparr>)) (add_mset (e\<lparr> pinned := b \<rparr>) N)"
    using cu n by (auto simp: cursor_def balanced_def)
qed (use cu in \<open>simp_all add: cursor_def buckets_put_cong env_of_def\<close>)

lemma pin_ok:
  assumes w: "wf s c" and r: "ar_core_pin c k = (c', ok)"
  shows "steps s (\<lambda>_. False) {k} {k} c c'" "ok = (live c k \<noteq> None)"
    "live c' = (live c)(k := map_option (\<lambda>v. v\<lparr> o_pin := True \<rparr>) (live c k))"
proof -
  have "steps s (\<lambda>_. False) {k} {k} c c' \<and> ok = (live c k \<noteq> None) \<and>
      live c' = (live c)(k := map_option (\<lambda>v. v\<lparr> o_pin := True \<rparr>) (live c k))"
    using w
  proof (cases rule: find_cases [of s c k])
    case (found e b tr N)
    show ?thesis
    proof (cases "pinned e")
      case True
      then have "c' = c" "ok" using r found(1) by (simp_all add: ar_core_pin_def)
      moreover have "(obs_of e)\<lparr> o_pin := True \<rparr> = obs_of e" using True by (simp add: obs_of_def)
      ultimately show ?thesis using w found(6) by (auto simp: steps_refl)
    next
      case False
      then have c': "c' = entry_put (c\<lparr> pinned_keys := pinned_keys c + 1 \<rparr>) (e\<lparr> pinned := True \<rparr>)" "ok"
        using r found(1) by (simp_all add: ar_core_pin_def)
      have u: "upd s N c e c' (e\<lparr> pinned := True \<rparr>)"
        unfolding c'(1) by (rule repin_upd [OF found(4)]) (simp add: False)
      have "unexpired (now_ms c) (Some (obs_of (e\<lparr> pinned := True \<rparr>))) = Some ((obs_of e)\<lparr> o_pin := True \<rparr>)"
        using live_not_due [OF found(6)] by (auto simp: gone_def obs_of_pin)
      then show ?thesis
        using c' u upd_evo [OF found(4) u] live_upd [OF found(4) u] found(2,6)
        by (auto simp: steps_def dest: upd_cursor wf_of_cursor)
    qed
  next
    case (missing c0)
    then have "c' = c0" "\<not> ok" using r by (simp_all add: ar_core_pin_def)
    moreover have "live c0 = live c" using missing(2) by (rule steps_live)
    ultimately show ?thesis using missing(2,4) by auto
  qed
  then show "steps s (\<lambda>_. False) {k} {k} c c'" "ok = (live c k \<noteq> None)"
    "live c' = (live c)(k := map_option (\<lambda>v. v\<lparr> o_pin := True \<rparr>) (live c k))" by blast+
qed

lemma set_maxmemory_ok:
  assumes w: "wf s c"
  shows "wf s (ar_core_set_maxmemory c n)" "yields (ar_core_set_maxmemory c n) (live c)"
    "conns_mono c (ar_core_set_maxmemory c n)"
proof -
  let ?c = "c\<lparr> maxmemory := n \<rparr>"
  have d: "dict_of ?c = dict_of c" by (simp add: dict_of_def)
  have w1: "wf s ?c" using w d by (rule wf_same)
  have l: "live ?c = live c" using view_cong [OF d] by (simp add: live_def fun_eq_iff)
  have st: "steps s (droppable ?c) {} {} ?c (maybe_evict ?c)" using w1 by (rule maybe_evict_steps)
  show "wf s (ar_core_set_maxmemory c n)" unfolding ar_core_set_maxmemory_def using st by (rule stepsD)
  show "yields (ar_core_set_maxmemory c n) (live c)"
    unfolding ar_core_set_maxmemory_def using yields_evo [OF yields_refl [OF l]] st by (auto simp: steps_def)
  show "conns_mono c (ar_core_set_maxmemory c n)"
    using st by (simp add: ar_core_set_maxmemory_def steps_def evo_def conns_mono_def)
qed

text \<open>The eviction loop of a command stops at the limit or at a kernel without a victim.\<close>

lemma maybe_evict_stops:
  assumes "wf s c" and "nkeys c \<le> 999992"
  shows "\<not> should_evict (maybe_evict c) \<or>
    (\<exists>c1. wf s c1 \<and> should_evict c1 \<and> evict_one c1 = (maybe_evict c, False))"
  unfolding maybe_evict_def
  by (rule dispatch.rounds_stop [OF assms(1)]) (use assms(2) in \<open>simp add: clamp_rounds_def\<close>)


section \<open>Properties\<close>

text \<open>SET with a relative lifetime. If the allocator serves it the command succeeds; every other
  key keeps its contents, the written key holds the new string with the deadline now + seconds
  (no deadline for 0 or less) and the pin it had, and the only keys that may be missing
  afterwards are those the configured eviction kernel may take.\<close>

lemma set_bin_ex_spec:
  assumes "wf s c" and "ar_set_bin_ex c k v sec = (c', ok)" and "alloc_ok c"
    and "0 < sec" and "now_ms c + nat sec * 1000 < 2 ^ 64"
  shows "ok \<and> wf s c' \<and>
    yields c' ((live c)(k \<mapsto> string_obs v (now_ms c + nat sec * 1000) (pin_of (live c k))))"
proof -
  let ?c = "c\<lparr> ops := ops c + 1, sets := sets c + 1 \<rparr>"
  have x: "u64 (now_ms c + u64 (nat sec * 1000)) = now_ms c + nat sec * 1000"
    using assms(5) by (simp add: u64_def)
  have "ar_entry_set_ex ?c k v (now_ms c + nat sec * 1000) = (c', ok)"
    using assms(2,4) x by (simp add: ar_set_bin_ex_def Let_def)
  note cs = counted_set [OF assms(1) this]
  have "unexpired (now_ms c) (Some (string_obs v (now_ms c + nat sec * 1000) p)) =
      Some (string_obs v (now_ms c + nat sec * 1000) p)" for p
    using assms(4) by (simp add: gone_def string_obs_def)
  then show ?thesis using cs(1,3) assms(3) stepsD(1) [OF cs(2)] by simp
qed

end
