(* ===== verification/Typed.thy ===== *)
theory Typed
  imports Ops
begin

text \<open>
  The common part of the typed values of \<open>ar_types.c\<close>: finding or creating a key of a given
  type (\<open>ar_entry_get_or_create\<close>, \<open>ar_entry_get_typed\<close>), and the accounting around an in-place
  change of a value. Each command of \<open>Hashes\<close>, \<open>Lists\<close> and \<open>Zsets\<close> is one of these lookups,
  a function on the value, and one of these two epilogues; the lemmas say what the pieces do to
  the contents and the invariant.
\<close>


section \<open>Operations\<close>

definition hash_create :: arhash where
  "hash_create = \<lparr> h_buckets = replicate 16 [], h_nfields = 0 \<rparr>"

definition new_payload :: "artype \<Rightarrow> payload" where
  "new_payload t = (case t of TString \<Rightarrow> PStr [] | THash \<Rightarrow> PHash hash_create | TList \<Rightarrow> PList []
     | TZset \<Rightarrow> PZset \<lparr> z_arr = [], z_cap = 0 \<rparr>)"

definition entry_new_typed :: "core \<Rightarrow> bytes \<Rightarrow> artype \<Rightarrow> core \<times> entry" where
  "entry_new_typed c key t =
     (let c = c\<lparr> clock := clock c + 1 \<rparr>;
          ne = \<lparr> ekey = key, epay = new_payload t, last_access = clock c, lfu_freq = 5, pinned = False,
                 expire_at = 0 \<rparr>;
          c = link_hot c ne;
          c = c\<lparr> nkeys := nkeys c + 1 \<rparr>;
          c = (if layout c = HotCold then c\<lparr> hot_nkeys := hot_nkeys c + 1 \<rparr> else c);
          tot = length key + sizeof_ArEntry + ar_entry_payload_bytes ne;
          c = ar_mem_add c tot;
          c = ar_type_stats_add_key c t tot
      in (ar_type_stats_note_bigkey c t (ar_entry_payload_bytes ne), ne))"

text \<open>The result is the slot, if any, and \<open>wrongtype\<close>.\<close>

definition ar_entry_get_or_create :: "core \<Rightarrow> bytes \<Rightarrow> artype \<Rightarrow> core \<times> slot option \<times> bool" where
  "ar_entry_get_or_create c key t =
     (case ar_find_entry_ex c key of
        (c, Some (e, b, tr)) \<Rightarrow>
          if etype e \<noteq> t then (c, None, True) else (c, Some (e, b, tr), False)
      | (c, None) \<Rightarrow>
          if \<not> alloc_ok c then (c, None, False)
          else case entry_new_typed c key t of (c, ne) \<Rightarrow>
               case evict_on_set c ne of (c, ne) \<Rightarrow>
                 let c = ar_rehash_if_needed c;
                     c = ar_maybe_evict_pub c
                 in case ar_find_entry_ex c key of (c, r) \<Rightarrow> (c, r, False))"

definition ar_entry_get_typed :: "core \<Rightarrow> bytes \<Rightarrow> artype \<Rightarrow> core \<times> slot option \<times> bool" where
  "ar_entry_get_typed c key want =
     (case ar_find_entry_ex c key of
        (c, None) \<Rightarrow> (c, None, False)
      | (c, Some (e, b, tr)) \<Rightarrow> if etype e \<noteq> want then (c, None, True) else (c, Some (e, b, tr), False))"

text \<open>The value changes in place and its size change is booked: both directions for the growing
  commands, only the decrease for the shrinking ones.\<close>

definition account_payload :: "core \<Rightarrow> artype \<Rightarrow> nat \<Rightarrow> nat \<Rightarrow> core" where
  "account_payload c t old_pay new_pay =
     (if new_pay \<ge> old_pay then
        let c = ar_mem_add c (new_pay - old_pay);
            c = ar_type_stats_bytes_delta c t (int (new_pay - old_pay))
        in ar_type_stats_note_bigkey c t new_pay
      else let c = ar_mem_sub c (old_pay - new_pay)
           in ar_type_stats_bytes_delta c t (- int (old_pay - new_pay)))"

definition refund_payload :: "core \<Rightarrow> artype \<Rightarrow> nat \<Rightarrow> nat \<Rightarrow> core" where
  "refund_payload c t old_pay new_pay =
     (if old_pay \<ge> new_pay then
        let c = ar_mem_sub c (old_pay - new_pay)
        in ar_type_stats_bytes_delta c t (- int (old_pay - new_pay))
      else c)"

definition payload_grow :: "core \<Rightarrow> entry \<Rightarrow> payload \<Rightarrow> core \<times> entry" where
  "payload_grow c e p =
     (let old_pay = ar_entry_payload_bytes e;
          e = e\<lparr> epay := p \<rparr>;
          c = account_payload (entry_put c e) (etype e) old_pay (ar_entry_payload_bytes e);
          c = c\<lparr> clock := clock c + 1 \<rparr>;
          e = e\<lparr> last_access := clock c \<rparr>
      in (entry_put c e, e))"

definition payload_commit :: "core \<Rightarrow> bytes \<Rightarrow> entry \<Rightarrow> payload \<Rightarrow> core" where
  "payload_commit c key e p =
     (case payload_grow c e p of (c, e) \<Rightarrow> ar_watch_touch (ar_maybe_evict_pub c) key)"

definition payload_shrink :: "core \<Rightarrow> entry \<Rightarrow> payload \<Rightarrow> core \<times> entry" where
  "payload_shrink c e p =
     (let old_pay = ar_entry_payload_bytes e;
          e = e\<lparr> epay := p \<rparr>;
          c = entry_put c e
      in (refund_payload c (etype e) old_pay (ar_entry_payload_bytes e), e))"

definition ar_type :: "core \<Rightarrow> bytes \<Rightarrow> core \<times> bytes" where
  "ar_type c key =
     (case ar_find_entry_ex c (cstr key) of
        (c, None) \<Rightarrow> (c, ''none'')
      | (c, Some (e, b, tr)) \<Rightarrow> (c, ar_type_name (etype e)))"


section \<open>In-place changes\<close>

lemma etype_pay [simp]: "payload_type (epay (e\<lparr> last_access := n \<rparr>)) = etype e"
  by simp

lemma account_tables [simp]:
  "buckets (account_payload c t a b) = buckets c" "cold_buckets (account_payload c t a b) = cold_buckets c"
  "layout (account_payload c t a b) = layout c" "hot_nkeys (account_payload c t a b) = hot_nkeys c"
  "cold_nkeys (account_payload c t a b) = cold_nkeys c" "conns (account_payload c t a b) = conns c"
  "env_of (account_payload c t a b) = env_of c" "nkeys (account_payload c t a b) = nkeys c"
  "keys_with_ttl (account_payload c t a b) = keys_with_ttl c" "pinned_keys (account_payload c t a b) = pinned_keys c"
  "type_nkeys (account_payload c t a b) = type_nkeys c" "clock (account_payload c t a b) = clock c"
  "used_memory (account_payload c t a b) = (if b \<ge> a then used_memory c + (b - a) else used_memory c - (a - b))"
  "type_bytes (account_payload c t a b) = (type_bytes c)(t :=
     (if b \<ge> a then type_bytes c t + (b - a) else type_bytes c t - (a - b)))"
  by (simp_all add: account_payload_def Let_def acct_defs env_of_def)

lemma refund_tables [simp]:
  "buckets (refund_payload c t a b) = buckets c" "cold_buckets (refund_payload c t a b) = cold_buckets c"
  "layout (refund_payload c t a b) = layout c" "hot_nkeys (refund_payload c t a b) = hot_nkeys c"
  "cold_nkeys (refund_payload c t a b) = cold_nkeys c" "conns (refund_payload c t a b) = conns c"
  "env_of (refund_payload c t a b) = env_of c" "nkeys (refund_payload c t a b) = nkeys c"
  "keys_with_ttl (refund_payload c t a b) = keys_with_ttl c" "pinned_keys (refund_payload c t a b) = pinned_keys c"
  "type_nkeys (refund_payload c t a b) = type_nkeys c" "clock (refund_payload c t a b) = clock c"
  "used_memory (refund_payload c t a b) = used_memory c - (a - b)"
  "type_bytes (refund_payload c t a b) = (type_bytes c)(t := type_bytes c t - (a - b))"
  by (auto simp: refund_payload_def Let_def acct_defs env_of_def)

lemma ct_write_twice: "key a = key b \<Longrightarrow> ct_write key (ct_write key t a) b = ct_write key t b"
  by (simp add: ct_write_def comp_def if_distrib cong: if_cong)

lemma clock_same [simp]: "env_of (c\<lparr> clock := n \<rparr>) = env_of c" "dict_of (c\<lparr> clock := n \<rparr>) = dict_of c"
  by (simp_all add: env_of_def dict_of_def)

lemma grow_upd:
  assumes cu: "cursor s c e N" and t: "payload_type p = etype e" and ok: "payload_ok p"
    and r: "payload_grow c e p = (c', e')"
  shows "upd s N c e c' e'" "located c e b tr \<Longrightarrow> located c' e' b tr" "obs_of e' = (obs_of e)\<lparr> o_pay := p \<rparr>"
proof -
  let ?e = "e\<lparr> epay := p, last_access := clock c + 1 \<rparr>"
  have e': "e' = ?e" using r by (auto simp: payload_grow_def Let_def)
  have c1: "c' = fst (payload_grow c e p)" by (simp add: r)
  have bal: "balanced s c (add_mset e N)" using cu by (simp add: cursor_def)
  note cov = used_covers [OF bal]
  have c': "buckets c' = buckets (entry_put c ?e)" "cold_buckets c' = cold_buckets (entry_put c ?e)"
    "layout c' = layout c" "hot_nkeys c' = hot_nkeys c" "cold_nkeys c' = cold_nkeys c"
    "conns c' = conns c" "env_of c' = env_of c" "nkeys c' = nkeys c" "keys_with_ttl c' = keys_with_ttl c"
    "pinned_keys c' = pinned_keys c" "type_nkeys c' = type_nkeys c"
    "used_memory c' = used_memory c - payload_bytes (epay e) + payload_bytes p"
    "type_bytes c' = (type_bytes c)(etype e := type_bytes c (etype e) - payload_bytes (epay e) + payload_bytes p)"
    unfolding c1 using cov t
    by (simp_all add: payload_grow_def Let_def ar_entry_payload_bytes_def buckets_put_cong ct_write_twice)
  have "balanced s c' (add_mset ?e N)"
    using bal t cov unfolding balanced_def c' by (auto simp: etotal_payload)
  then have "upd s N c e c' ?e \<and> (located c e b tr \<longrightarrow> located c' ?e b tr)"
    using rewrite_cursor(1) [OF cu _ c'(1-7)] rewrite_cursor(2) [OF cu _ c'(1-7), of b tr] ok by simp
  then show "upd s N c e c' e'" "located c e b tr \<Longrightarrow> located c' e' b tr"
    "obs_of e' = (obs_of e)\<lparr> o_pay := p \<rparr>"
    unfolding e' by (simp_all add: obs_of_def)
qed

lemma shrink_upd:
  assumes cu: "cursor s c e N" and t: "payload_type p = etype e" and ok: "payload_ok p"
    and le: "payload_bytes p \<le> payload_bytes (epay e)" and r: "payload_shrink c e p = (c', e')"
  shows "upd s N c e c' e'" "located c e b tr \<Longrightarrow> located c' e' b tr" "obs_of e' = (obs_of e)\<lparr> o_pay := p \<rparr>"
proof -
  let ?e = "e\<lparr> epay := p \<rparr>"
  have e': "e' = ?e" using r by (auto simp: payload_shrink_def Let_def)
  have c1: "c' = fst (payload_shrink c e p)" by (simp add: r)
  have bal: "balanced s c (add_mset e N)" using cu by (simp add: cursor_def)
  note cov = used_covers [OF bal]
  have c': "buckets c' = buckets (entry_put c ?e)" "cold_buckets c' = cold_buckets (entry_put c ?e)"
    "layout c' = layout c" "hot_nkeys c' = hot_nkeys c" "cold_nkeys c' = cold_nkeys c"
    "conns c' = conns c" "env_of c' = env_of c" "nkeys c' = nkeys c" "keys_with_ttl c' = keys_with_ttl c"
    "pinned_keys c' = pinned_keys c" "type_nkeys c' = type_nkeys c"
    "used_memory c' = used_memory c - payload_bytes (epay e) + payload_bytes p"
    "type_bytes c' = (type_bytes c)(etype e := type_bytes c (etype e) - payload_bytes (epay e) + payload_bytes p)"
    unfolding c1 using cov t le
    by (simp_all add: payload_shrink_def Let_def ar_entry_payload_bytes_def buckets_put_cong)
  have "balanced s c' (add_mset ?e N)"
    using bal t cov unfolding balanced_def c' by (auto simp: etotal_payload)
  then have "upd s N c e c' ?e \<and> (located c e b tr \<longrightarrow> located c' ?e b tr)"
    using rewrite_cursor(1) [OF cu _ c'(1-7)] rewrite_cursor(2) [OF cu _ c'(1-7), of b tr] ok by simp
  then show "upd s N c e c' e'" "located c e b tr \<Longrightarrow> located c' e' b tr"
    "obs_of e' = (obs_of e)\<lparr> o_pay := p \<rparr>"
    unfolding e' by (simp_all add: obs_of_def)
qed


section \<open>Lookups by type\<close>

text \<open>WRONGTYPE: the key holds a live value of another type.\<close>

definition wrong :: "artype \<Rightarrow> obs option \<Rightarrow> bool" where
  "wrong t r = (case r of None \<Rightarrow> False | Some v \<Rightarrow> payload_type (o_pay v) \<noteq> t)"

lemma wrong_simps [simp]: "wrong t None = False" "wrong t (Some v) = (payload_type (o_pay v) \<noteq> t)"
  by (simp_all add: wrong_def)

lemma typed_cases:
  assumes w: "wf s c"
  obtains (found) e b tr N where "ar_entry_get_typed c k t = (c, Some (e, b, tr), False)" "ekey e = k"
      "located c e b tr" "cursor s c e N" "etype e = t" "live c k = Some (obs_of e)"
    | (wrong) v where "ar_entry_get_typed c k t = (c, None, True)" "live c k = Some v" "payload_type (o_pay v) \<noteq> t"
    | (missing) c' where "ar_entry_get_typed c k t = (c', None, False)" "\<And>P K W. steps s P K W c c'"
      "live c k = None" "live c' = live c"
  using w
proof (cases rule: find_cases [of s c k])
  case (found e b tr N)
  then show ?thesis
    by (cases "etype e = t") (auto intro: that(1,2) simp: ar_entry_get_typed_def)
next
  case (missing c')
  then show ?thesis using steps_live [OF missing(2)] by (intro that(3) [of c']) (simp_all add: ar_entry_get_typed_def)
qed

text \<open>A read leaves the contents as they are.\<close>

lemma typed_read:
  assumes "wf s c" and "ar_entry_get_typed c k t = (c', r, wt)"
  shows "steps s P K W c c'" "wt = wrong t (live c k)"
    "r = None \<longleftrightarrow> wt \<or> live c k = None"
    "r = Some (e, b, tr) \<Longrightarrow> live c k = Some (obs_of e) \<and> etype e = t"
proof -
  have all: "steps s P K W c c' \<and> wt = wrong t (live c k) \<and>
      (r = None \<longleftrightarrow> wt \<or> live c k = None) \<and> (r = Some (e, b, tr) \<longrightarrow> live c k = Some (obs_of e) \<and> etype e = t)"
    using assms(1)
  proof (cases rule: typed_cases [of s c k t])
    case (found e b tr N)
    with assms show ?thesis by (auto simp: steps_refl)
  next
    case (wrong v)
    with assms show ?thesis by (auto simp: steps_refl)
  next
    case (missing c1)
    have "steps s P K W c c1" by (rule missing(2))
    with missing(1,3) assms(2) show ?thesis by simp
  qed
  show "steps s P K W c c'" "wt = wrong t (live c k)"
    "r = None \<longleftrightarrow> wt \<or> live c k = None"
    by (rule all [THEN conjunct1] all [THEN conjunct2, THEN conjunct1]
        all [THEN conjunct2, THEN conjunct2, THEN conjunct1])+
  show "r = Some (e, b, tr) \<Longrightarrow> live c k = Some (obs_of e) \<and> etype e = t"
    by (rule all [THEN conjunct2, THEN conjunct2, THEN conjunct2, rule_format])
qed

definition fresh_obs :: "artype \<Rightarrow> obs" where
  "fresh_obs t = \<lparr> o_pay = new_payload t, o_exp = 0, o_pin = False \<rparr>"

definition typed_before :: "artype \<Rightarrow> obs option \<Rightarrow> obs" where
  "typed_before t r = (case r of None \<Rightarrow> fresh_obs t | Some v \<Rightarrow> v)"

lemma typed_before_simps [simp]:
  "typed_before t None = fresh_obs t" "typed_before t (Some v) = v"
  by (simp_all add: typed_before_def)

lemma ct_ok_empty: "0 < n \<Longrightarrow> ct_ok key (replicate n [])"
  by (simp add: ct_ok_def)

lemma new_payload_ok: "payload_ok (new_payload t)" "payload_type (new_payload t) = t"
  by (cases t; simp add: new_payload_def hash_create_def ct_ok_empty)+

lemma new_typed_cursor:
  assumes w: "wf s c" and new: "view c key = None" and r: "entry_new_typed c key t = (c', e')"
  shows "cursor s c' e' (mset (ents c))" "ekey e' = key" "obs_of e' = fresh_obs t" "evo P {key} {key} c c'"
proof -
  let ?e = "\<lparr> ekey = key, epay = new_payload t, last_access = clock c + 1, lfu_freq = 5, pinned = False,
                 expire_at = 0 \<rparr>"
  have e': "e' = ?e" using r by (cases "layout c") (auto simp: entry_new_typed_def Let_def)
  have c1: "c' = (let c = linked_new c ?e 0; n = length key + sizeof_ArEntry + payload_bytes (new_payload t)
      in ar_type_stats_note_bigkey (ar_type_stats_add_key (c\<lparr> used_memory := used_memory c + n \<rparr>) t n) t (payload_bytes (new_payload t)))"
    using r by (cases "layout c") (auto simp: entry_new_typed_def Let_def link_hot_def linked_new_def ar_mem_add_def ar_entry_payload_bytes_def)
  have bal: "balanced s c (mset (ents c))" using w by (simp add: wf_def)
  have tot: "etotal ?e = length key + sizeof_ArEntry + payload_bytes (new_payload t)" by (simp add: etotal_payload)
  have tb: "buckets c' = ct_push ekey (buckets c) ?e" "cold_buckets c' = cold_buckets c" "layout c' = layout c"
      "cold_nkeys c' = cold_nkeys c"
      "hot_nkeys c' = (if layout c = HotCold then hot_nkeys c + 1 else hot_nkeys c)"
    and ce: "conns c' = conns c" "env_of c' = env_of c"
    and ac: "nkeys c' = nkeys c + 1" "keys_with_ttl c' = keys_with_ttl c" "pinned_keys c' = pinned_keys c"
      "used_memory c' = used_memory c + etotal ?e"
      "type_nkeys c' = (type_nkeys c)(t := type_nkeys c t + 1)"
      "type_bytes c' = (type_bytes c)(t := type_bytes c t + etotal ?e)"
    unfolding c1 tot by (simp_all add: Let_def)
  have "balanced s c' (add_mset ?e (mset (ents c)))"
    using bal unfolding balanced_def ac by (auto simp: new_payload_ok simp del: mset_append)
  note ic = insert_cursor [OF w _ _ tb ce this]
  show "cursor s c' e' (mset (ents c))" "ekey e' = key" "obs_of e' = fresh_obs t" "evo P {key} {key} c c'"
    using ic new unfolding e' by (simp_all add: new_payload_ok obs_of_def fresh_obs_def)
qed

lemma droppable_pay [simp]: "droppable c (v\<lparr> o_pay := p \<rparr>) = droppable c v"
  by (simp add: droppable_def kernel_takes_def split: evict_ops.split)

lemma yields_upd:
  assumes "yields c L" and "yields c' ((live c)(k := x))" and "env_of c' = env_of c"
  shows "yields c' (L(k := x))"
  unfolding yields_def
proof
  fix k'
  have d: "droppable c' = droppable c" using assms(3) by (rule droppable_env)
  show "live c' k' = (L(k := x)) k' \<or> (\<exists>v. (L(k := x)) k' = Some v \<and> droppable c' v \<and> live c' k' = None)"
    using spec [OF assms(1) [unfolded yields_def], of k'] spec [OF assms(2) [unfolded yields_def], of k']
    unfolding d by (cases "k' = k") auto
qed

lemma settle_evict:
  assumes w: "wf s c"
  shows "steps s (droppable c) {} {} c (ar_maybe_evict_pub (ar_rehash_if_needed c))"
proof -
  have m: "moves c (ar_rehash_if_needed c)" using w by (intro rehash_moves wf_shape)
  have "droppable (ar_rehash_if_needed c) = droppable c"
    using m by (intro droppable_env) (simp add: moves_def)
  then show ?thesis
    using maybe_evict_pub_steps [OF stepsD(1) [OF moves_steps [OF m w]]] steps_trans moves_steps [OF m w]
    by metis
qed

text \<open>Find or create: the slot with the value the command starts from; or another type; or the new
  key was itself evicted. The creation alone does not notify the key's watchers.\<close>

lemma create_cases:
  assumes w: "wf s c" and a: "alloc_ok c"
  obtains (slot) c1 e b tr N where "ar_entry_get_or_create c k t = (c1, Some (e, b, tr), False)" "ekey e = k"
      "located c1 e b tr" "cursor s c1 e N" "etype e = t" "obs_of e = typed_before t (live c k)"
      "live c1 k = Some (obs_of e)" "evo (droppable c) {k} {k} c c1" "live c k = None \<or> c1 = c"
      "yields c1 ((live c)(k \<mapsto> typed_before t (live c k)))"
    | (wrong) v where "ar_entry_get_or_create c k t = (c, None, True)" "live c k = Some v" "payload_type (o_pay v) \<noteq> t"
    | (dropped) c1 where "ar_entry_get_or_create c k t = (c1, None, False)" "live c k = None"
      "steps s (droppable c) {k} {} c c1" "yields c1 ((live c)(k \<mapsto> fresh_obs t))" "live c1 k = None"
      "droppable c (fresh_obs t)"
  using w
proof (cases rule: find_cases [of s c k])
  case (found e b tr N)
  then show ?thesis
  proof (cases "etype e = t")
    case True
    then show ?thesis using found
      by (intro that(1) [of c e b tr N]) (simp_all add: ar_entry_get_or_create_def yields_refl fun_upd_idem)
  next
    case False
    then show ?thesis using found by (intro that(2) [of "obs_of e"]) (simp_all add: ar_entry_get_or_create_def)
  qed
next
  case (missing c0)
  note m0 = missing(2-4)
  have w0: "wf s c0" using missing(2) by (rule stepsD)
  have e0: "env_of c0 = env_of c" using missing(2) by (rule steps_env)
  have l0: "live c0 = live c" using missing(2) by (rule steps_live)
  obtain c1 e1 where 1: "entry_new_typed c0 k t = (c1, e1)" by fastforce
  obtain c2 e2 where 2: "evict_on_set c1 e1 = (c2, e2)" by fastforce
  let ?c3 = "ar_maybe_evict_pub (ar_rehash_if_needed c2)"
  note n = new_typed_cursor [OF w0 missing(3) 1]
  note u = on_set_upd [OF n(1) 2]
  have cu2: "cursor s c2 e2 (mset (ents c0))" using u(1) by (rule upd_cursor)
  have ev2: "evo (\<lambda>_. False) {k} {k} c c2"
    by (rule evo_trans [OF evo_trans [OF stepsD(2) [OF missing(2)] n(4)] upd_evo [OF n(1) u(1), unfolded n(2)]])
  have env2: "env_of c2 = env_of c" using ev2 by (simp add: evo_def)
  have k2: "ekey e2 = k" using u(1) n(2) by (simp add: upd_def)
  have d2: "droppable c2 = droppable c" using env2 by (rule droppable_env)
  have s3: "steps s (droppable c) {} {} c2 ?c3" using settle_evict [OF wf_of_cursor [OF cu2]] by (simp add: d2)
  have "live c2 k' = ((live c)(k \<mapsto> fresh_obs t)) k'" for k'
    using live_evo [OF ev2, of k'] cursor_view [OF cu2] k2 u(2) n(3) env_now [OF env2]
    by (cases "k' = k") (simp_all add: live_def gone_def fresh_obs_def)
  then have "yields c2 ((live c)(k \<mapsto> fresh_obs t))" by (intro yields_refl) (rule ext)
  then have y3: "yields ?c3 ((live c)(k \<mapsto> fresh_obs t))"
    using s3 d2 by (auto simp: steps_def intro: yields_evo)
  have ev3: "evo (droppable c) {k} {k} c ?c3"
    using ev2 s3 by (auto simp: steps_def intro: evo_trans evo_mono)
  have env3: "env_of ?c3 = env_of c" using ev3 by (simp add: evo_def)
  have w3: "wf s ?c3" using s3 by (rule stepsD)
  obtain c4 r where 4: "ar_find_entry_ex ?c3 k = (c4, r)" by fastforce
  have g: "ar_entry_get_or_create c k t = (c4, r, False)"
    using missing(1) a env_alloc [OF e0] 1 2 4 by (simp add: ar_entry_get_or_create_def Let_def)
  show ?thesis
    using w3
  proof (cases rule: find_cases [of s ?c3 k])
    case (found e b tr N)
    have "obs_of e = fresh_obs t"
      using y3 found(6) by (auto simp: yields_def dest: spec [of _ k])
    moreover have "etype e = t"
      using arg_cong [OF calculation, of o_pay] new_payload_ok(2) [of t] by (simp add: fresh_obs_def)
    ultimately show ?thesis
      using found 4 g missing(4) y3 ev3 by (intro that(1) [of ?c3 e b tr N]) simp_all
  next
    case (missing c5)
    have c4: "c4 = c5" "r = None" using missing(1) 4 by simp_all
    have e5: "evo (droppable c) {k} {k} c c5"
      using ev3 stepsD(2) [OF missing(2)] by (rule evo_trans)
    have m5: "conns_mono c0 c5"
    proof -
      have "conns_mono c0 c2"
        using evo_trans [OF n(4) upd_evo [OF n(1) u(1), unfolded n(2)], of "\<lambda>_. False"] by (simp add: evo_def)
      moreover have "conns_mono c2 ?c3" using s3 by (simp add: steps_def evo_def)
      moreover have "conns_mono ?c3 c5" using missing(2) [of "\<lambda>_. False" "{}" "{}"] by (simp add: steps_def evo_def)
      ultimately show ?thesis by (blast intro: conns_mono_trans)
    qed
    have "view c0 k = view c k \<or> touched c0 k"
      using stepsD(2) [OF m0(1), of "\<lambda>_. False" "{}" "{}"] by (simp add: evo_def)
    then have "view c5 k = view c k \<or> touched c5 k"
      using touched_mono [OF m5] missing(3) m0(2) by auto
    then have "view c5 k' = view c k' \<or> touched c5 k'" for k'
      using e5 by (cases "k' = k") (simp_all add: evo_def)
    then have "evo (droppable c) {k} {} c c5" using e5 by (simp add: evo_def)
    then have "steps s (droppable c) {k} {} c c5" using stepsD(1) [OF missing(2)] by (simp add: steps_def)
    moreover have l5: "live c5 = live ?c3" using missing(2) by (rule steps_live)
    moreover have "yields c5 ((live c)(k \<mapsto> fresh_obs t))"
      using y3 stepsD(2) [OF missing(2)] by (rule yields_evo)
    moreover have "droppable c (fresh_obs t)"
      using y3 missing(4) droppable_env [OF env3] by (auto simp: yields_def dest: spec [of _ k])
    ultimately show ?thesis using g c4 m0(3) missing(4) by (intro that(3) [of c5]) simp_all
  qed
qed


section \<open>The two epilogues\<close>

lemma commit_slot:
  assumes ev: "evo (droppable c0) {k} {k} c0 c" and y: "yields c L" and cu: "cursor s c e N" and k: "ekey e = k"
    and l: "live c k = Some (obs_of e)" and t: "payload_type p = etype e" and ok: "payload_ok p"
  shows "steps s (droppable c0) {k} {} c0 (payload_commit c k e p)"
    and "yields (payload_commit c k e p) (L(k \<mapsto> (obs_of e)\<lparr> o_pay := p \<rparr>))"
proof -
  obtain c1 e1 where 1: "payload_grow c e p = (c1, e1)" by fastforce
  let ?c2 = "ar_maybe_evict_pub c1"
  note g = grow_upd [OF cu t ok 1]
  have d: "droppable c = droppable c0" using ev by (intro droppable_env) (simp add: evo_def)
  have e1: "evo (droppable c0) {k} {k} c c1" using upd_evo [OF cu g(1)] k by simp
  have d1: "droppable c1 = droppable c0" using e1 d by (subst droppable_env [of c1 c]) (simp_all add: evo_def)
  have s2: "steps s (droppable c0) {k} {k} c1 ?c2"
    by (rule steps_mono [OF maybe_evict_pub_steps [OF wf_of_cursor [OF upd_cursor [OF g(1)]]]]) (simp_all add: d1)
  have "evo (droppable c0) {k} {k} c0 ?c2"
    using evo_trans [OF ev e1] stepsD(2) [OF s2] by (rule evo_trans)
  then have "steps s (droppable c0) {k} {k} c0 ?c2" using stepsD(1) [OF s2] by (simp add: steps_def)
  then show "steps s (droppable c0) {k} {} c0 (payload_commit c k e p)"
    unfolding payload_commit_def 1 prod.case by (rule steps_touch)
  note f = finish_upd [OF cu g(1) k maybe_evict_pub_steps]
  have "unexpired (now_ms c) (Some (obs_of e1)) = Some (obs_of e1)"
    using l by (rule unexpired_live) (simp add: g(3))
  then have "yields (payload_commit c k e p) ((live c)(k \<mapsto> (obs_of e)\<lparr> o_pay := p \<rparr>))"
    using f(2) by (simp add: payload_commit_def 1 g(3))
  moreover have "env_of (payload_commit c k e p) = env_of c"
    using steps_env [OF f(1)] by (simp add: payload_commit_def 1)
  ultimately show "yields (payload_commit c k e p) (L(k \<mapsto> (obs_of e)\<lparr> o_pay := p \<rparr>))"
    by (rule yields_upd [OF y])
qed

text \<open>A growing command whose value function is \<open>f\<close> yields \<open>f\<close> of the value before; when the new
  key was evicted on creation, that is one of the losses \<open>yields\<close> allows.\<close>

lemma dropped_yields:
  assumes "yields c' (L(k \<mapsto> v))" and "live c' k = None" and "droppable c' v"
  shows "yields c' (L(k \<mapsto> v\<lparr> o_pay := p \<rparr>))"
  unfolding yields_def
proof
  fix k'
  show "live c' k' = (L(k \<mapsto> v\<lparr> o_pay := p \<rparr>)) k' \<or>
      (\<exists>w. (L(k \<mapsto> v\<lparr> o_pay := p \<rparr>)) k' = Some w \<and> droppable c' w \<and> live c' k' = None)"
    using spec [OF assms(1) [unfolded yields_def], of k'] assms(2,3) by (cases "k' = k") auto
qed

text \<open>A shrinking command keeps exactly the other contents: it never evicts.\<close>

lemma shrink_slot:
  assumes cu: "cursor s c e N" and k: "ekey e = k" and l: "live c k = Some (obs_of e)"
    and t: "payload_type p = etype e" and ok: "payload_ok p" and le: "payload_bytes p \<le> payload_bytes (epay e)"
    and r: "payload_shrink c e p = (c1, e1)"
  shows "upd s N c e c1 e1" "live c1 = (live c)(k \<mapsto> (obs_of e)\<lparr> o_pay := p \<rparr>)"
    "steps s (\<lambda>_. False) {k} {} c (ar_watch_touch c1 k)"
    "ekey e1 = k" "epay e1 = p" "located c e b tr \<Longrightarrow> located c1 e1 b tr"
proof -
  note g = shrink_upd [OF cu t ok le r]
  show u: "upd s N c e c1 e1" by (rule g)
  have "unexpired (now_ms c) (Some (obs_of e1)) = Some (obs_of e1)"
    using l by (rule unexpired_live) (simp add: g(3))
  then show "live c1 = (live c)(k \<mapsto> (obs_of e)\<lparr> o_pay := p \<rparr>)"
    using live_upd [OF cu u] l k g(3) by simp
  show "steps s (\<lambda>_. False) {k} {} c (ar_watch_touch c1 k)"
    using upd_evo [OF cu u] k wf_of_cursor [OF upd_cursor [OF u]] by (intro steps_touch) (simp add: steps_def)
  show "ekey e1 = k" using u k by (simp add: upd_def)
  show "epay e1 = p" using arg_cong [OF g(3), of o_pay] by simp
  show "located c e b tr \<Longrightarrow> located c1 e1 b tr" by (rule g)
qed

text \<open>A command that empties the value deletes the key.\<close>

lemma written_free:
  assumes ev: "evo (\<lambda>_. False) {k} {k} c c1" and cu: "cursor s c1 e N" and lo: "located c1 e b tr" and k: "ekey e = k"
  shows "live (ar_entry_free_ex c1 b tr e) = (live c)(k := None)"
    "steps s (\<lambda>_. False) {k} {} c (ar_entry_free_ex c1 b tr e)"
proof -
  let ?c2 = "ar_entry_free_ex c1 b tr e"
  show "live ?c2 = (live c)(k := None)"
    using live_free [OF cu lo] live_evo [OF ev] k by auto
  have st: "steps s (\<lambda>_. False) {k} {k} c1 ?c2" using k by (intro free_steps [OF cu lo]) simp
  have e2: "evo (\<lambda>_. False) {k} {k} c ?c2" using ev stepsD(2) [OF st] by (rule evo_trans)
  have "view ?c2 k' = view c k' \<or> touched ?c2 k'" for k'
    using e2 free_cursor(4) [OF cu lo] k by (cases "k' = k") (simp_all add: evo_def)
  then have "evo (\<lambda>_. False) {k} {} c ?c2" using e2 by (simp add: evo_def)
  then show "steps s (\<lambda>_. False) {k} {} c ?c2" using stepsD(1) [OF st] by (simp add: steps_def)
qed


text \<open>The common shape of the growing commands: \<open>g\<close> computes the new value from the old one.\<close>

lemma grow_command:
  assumes w: "wf s c" and a: "alloc_ok c"
    and g: "\<forall>p. payload_type p = t \<and> payload_ok p \<longrightarrow> payload_ok (g p) \<and> payload_type (g p) = t"
  obtains (wrong) "ar_entry_get_or_create c k t = (c, None, True)" "wrong t (live c k)"
    | (lost) c1 where "ar_entry_get_or_create c k t = (c1, None, False)" "live c k = None"
      "steps s (droppable c) {k} {} c c1" "live c1 k = None"
      "\<And>p. yields c1 ((live c)(k \<mapsto> (typed_before t (live c k))\<lparr> o_pay := p \<rparr>))"
    | (written) c1 e b tr where "ar_entry_get_or_create c k t = (c1, Some (e, b, tr), False)"
      "\<not> wrong t (live c k)" "etype e = t" "obs_of e = typed_before t (live c k)" "payload_ok (epay e)"
      "alloc_ok c1" "steps s (droppable c) {k} {} c (payload_commit c1 k e (g (epay e)))"
      "yields (payload_commit c1 k e (g (epay e)))
         ((live c)(k \<mapsto> (typed_before t (live c k))\<lparr> o_pay := g (epay e) \<rparr>))"
      "live c k = None \<or> c1 = c"
  using w a
proof (cases rule: create_cases [of s c k t])
  case (slot c1 e b tr N)
  have ok: "payload_ok (epay e)" using slot(4) by (simp add: cursor_def)
  have nw: "\<not> wrong t (live c k)" using slot(5,6) new_payload_ok(2) [of t] arg_cong [OF slot(6), of o_pay]
    by (cases "live c k") (auto simp: fresh_obs_def)
  note cs = commit_slot [OF slot(8) slot(10) slot(4,2,7), of "g (epay e)"]
  have g': "payload_type (g (epay e)) = etype e" "payload_ok (g (epay e))" using g slot(5) ok by simp_all
  have "alloc_ok c1" using a slot(8) by (simp add: evo_def env_of_def)
  then show ?thesis
    using slot cs [OF g'] nw ok by (intro written [of c1 e b tr]) simp_all
next
  case (wrong v)
  then show ?thesis by (intro that(1)) simp_all
next
  case (dropped c1)
  have "droppable c1 (fresh_obs t)" using dropped(6) droppable_env [OF steps_env [OF dropped(3)]] by simp
  then have "yields c1 ((live c)(k \<mapsto> (fresh_obs t)\<lparr> o_pay := p \<rparr>))" for p
    using dropped by (intro dropped_yields) simp_all
  with dropped show ?thesis by (intro lost [of c1]) simp_all
qed

text \<open>Recency is bumped, watchers are told.\<close>

lemma bump_upd:
  assumes "cursor s c e N"
  shows "upd s N c e (entry_put (c\<lparr> clock := n \<rparr>) (e\<lparr> last_access := m \<rparr>)) (e\<lparr> last_access := m \<rparr>)"
proof -
  have "cursor s (c\<lparr> clock := n \<rparr>) e N" using assms by (rule cursor_same) simp
  then have "cursor s (entry_put (c\<lparr> clock := n \<rparr>) (e\<lparr> last_access := m \<rparr>)) (e\<lparr> last_access := m \<rparr>) N"
    by (rule cursor_put_meta) (simp_all add: obs_of_def)
  then show ?thesis by (simp add: upd_def)
qed

lemma written_touch:
  assumes cu: "cursor s c e N" and k: "ekey e = k" and l: "live c k = Some (obs_of e)"
    and u: "upd s N c e c1 e1" and o: "obs_of e1 = (obs_of e)\<lparr> o_pay := p \<rparr>"
  shows "live (ar_watch_touch c1 k) = (live c)(k \<mapsto> (obs_of e)\<lparr> o_pay := p \<rparr>)"
    "steps s (\<lambda>_. False) {k} {} c (ar_watch_touch c1 k)"
proof -
  have "unexpired (now_ms c) (Some (obs_of e1)) = Some (obs_of e1)"
    using l by (rule unexpired_live) (simp add: o)
  then show "live (ar_watch_touch c1 k) = (live c)(k \<mapsto> (obs_of e)\<lparr> o_pay := p \<rparr>)"
    using live_upd [OF cu u] l k o by simp
  show "steps s (\<lambda>_. False) {k} {} c (ar_watch_touch c1 k)"
    using upd_evo [OF cu u] k wf_of_cursor [OF upd_cursor [OF u]] by (intro steps_touch) (simp add: steps_def)
qed

lemma steps_touch_more: "steps s P K W c c' \<Longrightarrow> steps s P K W c (ar_watch_touch c' k)"
  using steps_trans steps_touch_only stepsD(1) by blast

text \<open>A value that shrinks without being booked leaves the counters too high by the difference.\<close>

definition leak :: "slack \<Rightarrow> artype \<Rightarrow> nat \<Rightarrow> slack" where
  "leak s t d = s\<lparr> x_mem := x_mem s + d, x_type := (x_type s)(t := x_type s t + d) \<rparr>"

lemma leak_put:
  assumes cu: "cursor s c e N" and t: "payload_type p = etype e" and ok: "payload_ok p"
    and le: "payload_bytes p \<le> payload_bytes (epay e)"
  defines "d \<equiv> payload_bytes (epay e) - payload_bytes p" and "e' \<equiv> e\<lparr> epay := p \<rparr>"
  shows "cursor (leak s (etype e) d) (entry_put c e') e' N" "evo P {ekey e} {ekey e} c (entry_put c e')"
    "located c e b tr \<Longrightarrow> located (entry_put c e') e' b tr"
proof -
  have k: "ekey e' = ekey e" by (simp add: e'_def)
  have "balanced (leak s (etype e) d) (entry_put c e') (add_mset e' N)"
    using cu t le unfolding cursor_def balanced_def d_def e'_def
    by (auto simp: etotal_payload leak_def)
  then show cu': "cursor (leak s (etype e) d) (entry_put c e') e' N"
    using ok by (intro cursor_put [OF cu k]) (simp_all add: e'_def)
  show "evo P {ekey e} {ekey e} c (entry_put c e')"
    using cursor_tabs [OF cu] cursor_tabs [OF cu'] k by (rule evo_put) simp_all
  show "located c e b tr \<Longrightarrow> located (entry_put c e') e' b tr" using k by (rule located_put [rotated])
qed

end
