(* ===== verification/Scan.thy ===== *)
theory Scan
  imports Strings
begin

text \<open>
  Iteration over the key space (\<open>ar_core.c\<close>): the glob matcher, SCAN, KEYS, DBSIZE and the active
  expiry cycle. The matcher's backtracking loop is modelled on the remaining pattern and string
  with the position to return to, and is proved equal to the recursive definition \<open>glob\<close>.
\<close>


section \<open>Glob patterns\<close>

definition star :: char where "star = CHR 0x2A"
definition quest :: char where "quest = CHR 0x3F"

text \<open>The loop of \<open>ar_glob_match\<close>: \<open>bk\<close> is the pattern after the last star with the string from
  the position the star was last tried at.\<close>

function glob_loop :: "(bytes \<times> bytes) option \<Rightarrow> bytes \<Rightarrow> bytes \<Rightarrow> bool" where
  "glob_loop bk pat [] = (dropWhile (\<lambda>ch. ch = star) pat = [])"
| "glob_loop bk pat (ch # str) =
     (if pat \<noteq> [] \<and> hd pat = star then glob_loop (Some (tl pat, ch # str)) (tl pat) (ch # str)
      else if pat \<noteq> [] \<and> (hd pat = quest \<or> hd pat = ch) then glob_loop bk (tl pat) str
      else (case bk of
              Some (bp, _ # bs) \<Rightarrow> glob_loop (Some (bp, bs)) bp bs
            | _ \<Rightarrow> False))"
  by pat_completeness auto

termination
  by (relation "measures
    [\<lambda>(bk, pat, str). max (length pat) (case bk of None \<Rightarrow> 0 | Some (bp, bs) \<Rightarrow> length bp),
     \<lambda>(bk, pat, str). (case bk of None \<Rightarrow> 0 | Some (bp, bs) \<Rightarrow> length bs),
     \<lambda>(bk, pat, str). length str]")
    (auto simp: neq_Nil_conv split: option.splits)

definition ar_glob_match :: "bytes \<Rightarrow> bytes \<Rightarrow> bool" where
  "ar_glob_match pat str =
     (if pat = [] then str = []
      else if pat = [star] then True
      else glob_loop None pat str)"

fun glob :: "bytes \<Rightarrow> bytes \<Rightarrow> bool" where
  "glob [] str = (str = [])"
| "glob (q # pat) [] = (q = star \<and> glob pat [])"
| "glob (q # pat) (ch # str) =
     (if q = star then glob pat (ch # str) \<or> glob (q # pat) str
      else (q = quest \<or> q = ch) \<and> glob pat str)"

lemma glob_Nil: "glob pat [] \<longleftrightarrow> dropWhile (\<lambda>ch. ch = star) pat = []"
  by (induction pat) auto

lemma glob_star: "glob (star # pat) str \<longleftrightarrow> (\<exists>u r. str = u @ r \<and> glob pat r)"
proof (induction str)
  case Nil
  then show ?case by simp
next
  case (Cons ch str)
  show ?case
  proof
    assume "glob (star # pat) (ch # str)"
    then consider "glob pat (ch # str)" | "glob (star # pat) str" by auto
    then show "\<exists>u r. ch # str = u @ r \<and> glob pat r"
    proof cases
      case 1
      then show ?thesis by (metis append_Nil)
    next
      case 2
      with Cons show ?thesis by (metis append_Cons)
    qed
  next
    assume "\<exists>u r. ch # str = u @ r \<and> glob pat r"
    then obtain u r where u: "ch # str = u @ r" "glob pat r" by blast
    show "glob (star # pat) (ch # str)"
    proof (cases u)
      case Nil
      with u have "r = ch # str" by simp
      with u(2) show ?thesis by simp
    next
      case (Cons x xs)
      with u have "\<exists>u r. str = u @ r \<and> glob pat r" by auto
      with \<open>glob (star # pat) str = _\<close> show ?thesis by simp
    qed
  qed
qed

lemma glob_star_suffix: "glob (star # pat) r \<Longrightarrow> glob (star # pat) (u @ r)"
  unfolding glob_star by (metis append_assoc)

text \<open>A star-free prefix consumes exactly its length.\<close>

lemma glob_prefix:
  "star \<notin> set m \<Longrightarrow> glob (m @ pat) str \<Longrightarrow> \<exists>x r. str = x @ r \<and> length x = length m \<and> glob pat r"
proof (induction m arbitrary: str)
  case Nil
  then show ?case by simp
next
  case (Cons q m)
  then obtain ch s where s: "str = ch # s" by (cases str) auto
  with Cons.prems have "glob (m @ pat) s" by (auto split: if_splits)
  moreover have "star \<notin> set m" using Cons.prems(1) by simp
  ultimately obtain x r where "s = x @ r" "length x = length m" "glob pat r" using Cons.IH by blast
  then show ?case unfolding s by (intro exI [of _ "ch # x"] exI [of _ r]) simp
qed

definition back_ok :: "(bytes \<times> bytes) option \<Rightarrow> bytes \<Rightarrow> bytes \<Rightarrow> bool" where
  "back_ok bk pat str \<longleftrightarrow> (case bk of None \<Rightarrow> True
     | Some (bp, bs) \<Rightarrow> \<exists>m u. star \<notin> set m \<and> bp = m @ pat \<and> bs = u @ str \<and> length u = length m)"

definition back_alt :: "(bytes \<times> bytes) option \<Rightarrow> bool" where
  "back_alt bk \<longleftrightarrow> (case bk of Some (bp, _ # bs) \<Rightarrow> glob (star # bp) bs | _ \<Rightarrow> False)"

lemma back_altE:
  assumes "back_alt bk"
  obtains bp c bs where "bk = Some (bp, c # bs)" "glob (star # bp) bs"
proof (cases bk)
  case None
  with assms show ?thesis by (simp add: back_alt_def)
next
  case (Some q)
  obtain bp b where q: "q = (bp, b)" by fastforce
  show ?thesis
  proof (cases b)
    case Nil
    with assms Some q show ?thesis by (simp add: back_alt_def)
  next
    case (Cons c bs)
    with assms Some q show ?thesis by (intro that [of bp c bs]) (simp_all add: back_alt_def)
  qed
qed

lemma back_alt_star:
  assumes b: "back_ok bk (star # pat) str" and a: "back_alt bk"
  shows "glob (star # pat) str"
proof -
  obtain bp c bs where bkd: "bk = Some (bp, c # bs)" and g: "glob (star # bp) bs"
    using a by (rule back_altE)
  obtain m u where mu: "star \<notin> set m" "bp = m @ star # pat" "c # bs = u @ str" "length u = length m"
    using b by (auto simp: back_ok_def bkd)
  obtain t1 t where t: "bs = t1 @ t" "glob (m @ star # pat) t" using g mu(2) by (auto simp: glob_star)
  obtain x r where r: "t = x @ r" "length x = length m" "glob (star # pat) r"
    using glob_prefix [OF mu(1) t(2)] by blast
  have "length r \<le> length str" using arg_cong [OF mu(3), of length] mu(4) t(1) r(1,2) by simp
  moreover have "(u @ str) = (c # t1 @ x) @ r" using mu(3) t(1) r(1) by simp
  ultimately have "\<exists>v. str = v @ r"
    using append_eq_append_conv2 [of u str "c # t1 @ x" r] by fastforce
  then show ?thesis using r(3) glob_star_suffix by blast
qed

lemma back_alt_end:
  assumes b: "back_ok bk pat []" and a: "back_alt bk"
  shows False
proof -
  obtain bp c bs where bkd: "bk = Some (bp, c # bs)" and g: "glob (star # bp) bs"
    using a by (rule back_altE)
  obtain m u where mu: "star \<notin> set m" "bp = m @ pat" "c # bs = u" "length u = length m"
    using b by (auto simp: back_ok_def bkd)
  obtain t1 t where t: "bs = t1 @ t" "glob (m @ pat) t" using g mu(2) by (auto simp: glob_star)
  obtain x r where "t = x @ r" "length x = length m" using glob_prefix [OF mu(1) t(2)] by blast
  with t(1) mu(4) arg_cong [OF mu(3), of length] show False by simp
qed

lemma back_ok_step:
  "back_ok bk (q # pat) (ch # str) \<Longrightarrow> q \<noteq> star \<Longrightarrow> back_ok bk pat str"
  unfolding back_ok_def
  by (auto split: option.splits)

lemma glob_loop_eq: "back_ok bk pat str \<Longrightarrow> glob_loop bk pat str \<longleftrightarrow> glob pat str \<or> back_alt bk"
proof (induction bk pat str rule: glob_loop.induct)
  case (1 bk pat)
  then show ?case using back_alt_end [OF 1] by (auto simp: glob_Nil)
next
  case (2 bk pat ch str)
  consider (st) p where "pat = star # p" | (eq) q p where "pat = q # p" "q \<noteq> star" "q = quest \<or> q = ch"
    | (bt) "\<not> (pat \<noteq> [] \<and> (hd pat = star \<or> hd pat = quest \<or> hd pat = ch))"
    by (cases pat) auto
  then show ?case
  proof cases
    case (st p)
    have "back_ok (Some (p, ch # str)) p (ch # str)" by (simp add: back_ok_def)
    then have "glob_loop (Some (p, ch # str)) p (ch # str) \<longleftrightarrow> glob p (ch # str) \<or> glob (star # p) str"
      using "2.IH"(1) st by (simp add: back_alt_def)
    then show ?thesis using back_alt_star [of bk p "ch # str"] "2.prems" st by auto
  next
    case (eq q p)
    then have "back_ok bk p str" using "2.prems" back_ok_step by blast
    then show ?thesis using "2.IH"(2) eq by auto
  next
    case bt
    then have ng: "\<not> glob pat (ch # str)" by (cases pat) auto
    have n: "(pat \<noteq> [] \<and> hd pat = star) = False" "(pat \<noteq> [] \<and> (hd pat = quest \<or> hd pat = ch)) = False"
      using bt by blast+
    note step = glob_loop.simps(2) [of bk pat ch str, unfolded n if_False]
    show ?thesis
    proof (cases "\<exists>bp c bs. bk = Some (bp, c # bs)")
      case False
      then have none: "(case bk of Some (bp, c # bs) \<Rightarrow> h bp bs | _ \<Rightarrow> False) = False" for h :: "bytes \<Rightarrow> bytes \<Rightarrow> bool"
        by (auto split: option.split list.split)
      have "\<not> glob_loop bk pat (ch # str)" "\<not> back_alt bk"
        unfolding step none back_alt_def by simp_all
      with ng show ?thesis by simp
    next
      case True
      then obtain bp c bs where b: "bk = Some (bp, c # bs)" by blast
      have "back_ok (Some (bp, bs)) bp bs" by (simp add: back_ok_def)
      moreover note n [simplified]
      ultimately have "glob_loop (Some (bp, bs)) bp bs \<longleftrightarrow> glob bp bs \<or> back_alt (Some (bp, bs))"
        using "2.IH"(3) [OF _ _ b refl refl] n by blast
      moreover have "glob bp bs \<or> back_alt (Some (bp, bs)) \<longleftrightarrow> glob (star # bp) bs"
        by (cases bs) (auto simp: back_alt_def)
      moreover have "glob_loop bk pat (ch # str) = glob_loop (Some (bp, bs)) bp bs"
        unfolding step unfolding b option.case prod.case list.case ..
      moreover have "back_alt bk = glob (star # bp) bs" by (simp add: b back_alt_def)
      ultimately show ?thesis using ng by simp
    qed
  qed
qed

lemma ar_glob_match_eq: "ar_glob_match pat str = glob pat str"
proof -
  have "glob [star] str" using glob_star [of "[]" str] by (auto intro: exI [of _ str])
  then show ?thesis
    by (auto simp: ar_glob_match_def glob_loop_eq back_ok_def back_alt_def)
qed


section \<open>SCAN, KEYS, DBSIZE, active expiry\<close>

definition scan_total_buckets :: "core \<Rightarrow> nat" where
  "scan_total_buckets c =
     length (buckets c) + (if layout c = HotCold \<and> cold_buckets c \<noteq> [] then length (cold_buckets c) else 0)"

definition scan_bucket_at :: "core \<Rightarrow> nat \<Rightarrow> (tier \<times> nat) option" where
  "scan_bucket_at c idx =
     (if idx < length (buckets c) then Some (Hot, idx)
      else let cidx = idx - length (buckets c)
           in if layout c = HotCold \<and> cold_buckets c \<noteq> [] \<and> cidx < length (cold_buckets c)
              then Some (Cold, cidx) else None)"

definition table_of :: "core \<Rightarrow> tier \<Rightarrow> entry list list" where
  "table_of c tr = (case tr of Hot \<Rightarrow> buckets c | Cold \<Rightarrow> cold_buckets c)"

text \<open>One chain: due entries are freed, matching keys copied out; a failed copy ends the chain.\<close>

fun scan_walk :: "(bytes \<Rightarrow> bool) \<Rightarrow> nat \<Rightarrow> tier \<Rightarrow> entry list \<Rightarrow> core \<Rightarrow> bytes list \<Rightarrow> core \<times> bytes list" where
  "scan_walk m b tr [] c acc = (c, acc)"
| "scan_walk m b tr (e # es) c acc =
     (if entry_due c e then
        let c = c\<lparr> expired := expired c + 1 \<rparr>
        in scan_walk m b tr es (ar_entry_free_ex c b tr e) acc
      else if m (ekey e) then
        (if alloc_ok c then scan_walk m b tr es c (acc @ [ekey e]) else (c, acc))
      else scan_walk m b tr es c acc)"

fun scan_slots :: "(bytes \<Rightarrow> bool) \<Rightarrow> nat \<Rightarrow> nat \<Rightarrow> nat \<Rightarrow> core \<Rightarrow> bytes list \<Rightarrow> core \<times> bytes list \<times> nat" where
  "scan_slots m tot 0 idx c acc = (c, acc, idx)"
| "scan_slots m tot (Suc n) idx c acc =
     (case scan_bucket_at c idx of
        None \<Rightarrow> (c, acc, idx)
      | Some (tr, b) \<Rightarrow>
          (case scan_walk m b tr (table_of c tr ! b) c acc of (c, acc) \<Rightarrow>
             if idx + 1 \<ge> tot then (c, acc, 0) else scan_slots m tot n (idx + 1) c acc))"

definition scan_matches :: "bytes \<Rightarrow> bytes \<Rightarrow> bool" where
  "scan_matches pat key = (pat = [] \<or> pat = [star] \<or> ar_glob_match pat key)"

definition ar_scan :: "core \<Rightarrow> nat \<Rightarrow> bytes \<Rightarrow> int \<Rightarrow> core \<times> bytes list \<times> nat" where
  "ar_scan c cur pat cnt =
     (if nkeys c = 0 then (c, [], 0)
      else let tot = scan_total_buckets c
           in if tot = 0 \<or> cur \<ge> tot then (c, [], 0)
              else let max_slots = (if cnt \<le> 0 then 10 else cnt);
                       max_slots = (if max_slots > 10000 then 10000 else max_slots)
                   in scan_slots (scan_matches pat) tot (nat max_slots) cur c [])"

text \<open>KEYS: pages of up to 10000 chains until the cur is back at 0.\<close>

fun keys_pages :: "nat \<Rightarrow> core \<Rightarrow> nat \<Rightarrow> bytes \<Rightarrow> bytes list \<Rightarrow> core \<times> bytes list" where
  "keys_pages 0 c cur pat acc = (c, acc)"
| "keys_pages (Suc fuel) c cur pat acc =
     (let tot = scan_total_buckets c;
          cnt = (if tot > 10000 then 10000 else int tot)
      in case ar_scan c cur pat cnt of
           (c, page, next) \<Rightarrow>
             if next = 0 then (c, acc @ page) else keys_pages fuel c next pat (acc @ page))"

definition ar_keys :: "core \<Rightarrow> bytes \<Rightarrow> core \<times> bytes list" where
  "ar_keys c pat =
     (if scan_total_buckets c = 0 then (c, [])
      else keys_pages (scan_total_buckets c) c 0 pat [])"

fun dbsize_walk :: "nat \<Rightarrow> tier \<Rightarrow> entry list \<Rightarrow> core \<Rightarrow> nat \<Rightarrow> core \<times> nat" where
  "dbsize_walk b tr [] c n = (c, n)"
| "dbsize_walk b tr (e # es) c n =
     (if entry_due c e then
        let c = ar_entry_free_ex c b tr e in dbsize_walk b tr es (c\<lparr> expired := expired c + 1 \<rparr>) n
      else dbsize_walk b tr es c (n + 1))"

fun dbsize_loop :: "nat list \<Rightarrow> core \<Rightarrow> nat \<Rightarrow> core \<times> nat" where
  "dbsize_loop [] c n = (c, n)"
| "dbsize_loop (idx # idxs) c n =
     (case scan_bucket_at c idx of
        None \<Rightarrow> dbsize_loop idxs c n
      | Some (tr, b) \<Rightarrow>
          (case dbsize_walk b tr (table_of c tr ! b) c n of (c, n) \<Rightarrow> dbsize_loop idxs c n))"

definition ar_dbsize :: "core \<Rightarrow> core \<times> nat" where
  "ar_dbsize c =
     (let c = c\<lparr> ops := ops c + 1 \<rparr>
      in dbsize_loop [0..<scan_total_buckets c] c 0)"

fun expire_first :: "nat \<Rightarrow> tier \<Rightarrow> entry list \<Rightarrow> core \<Rightarrow> core \<times> nat" where
  "expire_first b tr [] c = (c, 0)"
| "expire_first b tr (e # es) c =
     (if entry_due c e then let c = ar_entry_free_ex c b tr e in (c\<lparr> expired := expired c + 1 \<rparr>, 1)
      else expire_first b tr es c)"

fun active_loop :: "nat \<Rightarrow> nat \<Rightarrow> core \<Rightarrow> nat \<Rightarrow> core \<times> nat" where
  "active_loop 0 s c freed = (c, freed)"
| "active_loop (Suc n) s c freed =
     (let use_cold = (layout c = HotCold \<and> cold_buckets c \<noteq> [] \<and> cold_nkeys c > 0 \<and> odd s);
          table = (if use_cold then cold_buckets c else buckets c)
      in if table = [] then active_loop n (s + 1) c freed
         else case c_rand c of (c, r) \<Rightarrow>
           let b = r mod length table
           in case expire_first b (if use_cold then Cold else Hot) (table ! b) c of
                (c, k) \<Rightarrow> active_loop n (s + 1) c (freed + k))"

definition ar_core_active_expire :: "core \<Rightarrow> int \<Rightarrow> core \<times> nat" where
  "ar_core_active_expire c effort =
     (if effort \<le> 0 \<or> nkeys c = 0 then (c, 0)
      else active_loop (nat (if effort > 64 then 64 else effort)) 0 c 0)"


section \<open>What a walk over one chain does\<close>

lemma chain_remove_write:
  "distinct (map key es) \<Longrightarrow>
   chain_remove key k (map (\<lambda>x. if key x = k then e else x) es) = chain_remove key k es" if "key e = k"
  using that
proof (induction es)
  case Nil
  then show ?case by simp
next
  case (Cons x es)
  have "map (\<lambda>x. if key x = k then e else x) es = es" if "key x = k"
    using Cons.prems that by (intro map_idI) (auto simp: image_iff)
  with Cons show ?case by auto
qed

lemma table_of_put: "table_of (entry_put c e) t = ct_write ekey (table_of c t) e"
  by (cases t) (simp_all add: table_of_def entry_put_def)

lemma table_of_cong:
  "buckets c' = buckets c \<Longrightarrow> cold_buckets c' = cold_buckets c \<Longrightarrow> table_of c' t = table_of c t"
  by (cases t) (simp_all add: table_of_def)

lemma located_table: "located c e b tr \<longleftrightarrow> b < length (table_of c tr) \<and> e \<in> set (table_of c tr ! b)"
  by (cases tr) (simp_all add: located_def table_of_def)

lemma ents_table: "e \<in> set (table_of c t ! i) \<Longrightarrow> i < length (table_of c t) \<Longrightarrow> e \<in> set (ents c)"
  using located_ents located_table by blast

lemma located_unique:
  assumes sh: "shape c" and a: "located c e b tr" and b: "located c e' i t" and k: "ekey e = ekey e'"
  shows "b = i \<and> tr = t"
proof -
  have d: "distinct (map ekey (ents c))" and p: "ct_placed ekey (buckets c)" "ct_placed ekey (cold_buckets c)"
    using sh by (simp_all add: shape_def)
  have disj: "ekey ` set (concat (buckets c)) \<inter> ekey ` set (concat (cold_buckets c)) = {}"
    using d by (simp add: ents_def)
  have mem: "x \<in> set (concat (case u of Hot \<Rightarrow> buckets c | Cold \<Rightarrow> cold_buckets c)) \<and>
      j = ct_bucket (ekey x) (length (case u of Hot \<Rightarrow> buckets c | Cold \<Rightarrow> cold_buckets c))"
    if "located c x j u" for x j u
    using that ct_placed_bucket [OF p(1)] ct_placed_bucket [OF p(2)] nth_subset_concat
    by (cases u) (fastforce simp: located_def)+
  have "tr = t" using mem [OF a] mem [OF b] disj k by (cases tr; cases t) (force simp: image_iff)+
  with mem [OF a] mem [OF b] k show ?thesis by simp
qed

text \<open>Freeing an entry removes it from its chain and leaves every other chain as it was.\<close>

lemma free_tables:
  assumes lo: "located c e b tr"
  obtains f e1 where "ekey e1 = ekey e"
    "\<And>t. f t = table_of c t \<or> f t = ct_write ekey (table_of c t) e1"
    "\<And>t. table_of (ar_entry_free_ex c b tr e) t = (if t = tr then ct_unlink ekey (f t) b (ekey e) else f t)"
proof -
  obtain c1 e1 where 1: "entry_clear_expire (ar_watch_touch c (ekey e)) e = (c1, e1)" by fastforce
  have k1: "ekey e1 = ekey e" using 1 by (auto simp: entry_clear_expire_def Let_def split: if_splits)
  have t1: "table_of c1 u = table_of c u \<or> table_of c1 u = ct_write ekey (table_of c u) e1" for u
    using 1 by (cases u; auto simp: entry_clear_expire_def Let_def table_of_def entry_put_def split: if_splits)
  have l1: "length (table_of c1 u) = length (table_of c u)" for u using t1 [of u] by auto
  have "cold_buckets c1 \<noteq> []" if "tr = Cold"
    using lo that l1 [of Cold] by (auto simp: table_of_def located_def)
  then have "table_of (entry_release c1 b tr e1) t =
      (if t = tr then ct_unlink ekey (table_of c1 t) b (ekey e) else table_of c1 t)" for t
    by (cases t; cases tr)
      (simp_all add: table_of_def entry_release_fields unlink_tier_def unlink_entry_def k1)
  then show ?thesis using k1 t1 by (intro that [of e1 "table_of c1"]) (simp_all add: ar_entry_free_ex_def 1)
qed

lemma free_table_length:
  assumes "located c e b tr"
  shows "length (table_of (ar_entry_free_ex c b tr e) t) = length (table_of c t)"
proof -
  obtain f e1 where f: "\<And>t. f t = table_of c t \<or> f t = ct_write ekey (table_of c t) e1"
    "\<And>t. table_of (ar_entry_free_ex c b tr e) t = (if t = tr then ct_unlink ekey (f t) b (ekey e) else f t)"
    using assms by (rule free_tables) blast
  show ?thesis using f(1) [of t] by (auto simp: f(2))
qed

lemma free_chain:
  assumes sh: "shape c" and lo: "located c e b tr" and i: "i < length (table_of c t)"
  shows "table_of (ar_entry_free_ex c b tr e) t ! i =
      (if t = tr \<and> i = b then chain_remove ekey (ekey e) (table_of c t ! i) else table_of c t ! i)"
proof -
  obtain f e1 where k1: "ekey e1 = ekey e"
    and f: "\<And>t. f t = table_of c t \<or> f t = ct_write ekey (table_of c t) e1"
    "\<And>t. table_of (ar_entry_free_ex c b tr e) t = (if t = tr then ct_unlink ekey (f t) b (ekey e) else f t)"
    using lo by (rule free_tables) blast
  have d: "distinct (map ekey (table_of c t ! i))"
    using sh i by (cases t) (simp_all add: table_of_def shape_def ents_def distinct_keys_nth)
  have lf: "length (f t) = length (table_of c t)" using f(1) [of t] by auto
  have other: "map (\<lambda>x. if ekey x = ekey e1 then e1 else x) (table_of c t ! i) = table_of c t ! i"
    if "\<not> (t = tr \<and> i = b)"
  proof (rule map_idI)
    fix x assume x: "x \<in> set (table_of c t ! i)"
    have "ekey x \<noteq> ekey e"
      using located_unique [OF sh lo, of x i t] x i that by (auto simp: located_table)
    then show "(if ekey x = ekey e1 then e1 else x) = x" by (simp add: k1)
  qed
  have n1: "f t ! i = table_of c t ! i \<or> f t ! i = map (\<lambda>x. if ekey x = ekey e1 then e1 else x) (table_of c t ! i)"
    using f(1) [of t] i by (auto simp: ct_write_def)
  show ?thesis
  proof (cases "t = tr \<and> i = b")
    case True
    then have "table_of (ar_entry_free_ex c b tr e) t ! i = chain_remove ekey (ekey e) (f t ! i)"
      using i lf by (simp add: f(2) ct_unlink_def)
    also have "\<dots> = chain_remove ekey (ekey e) (table_of c t ! i)"
      using n1 chain_remove_write [of ekey e1 "ekey e" "table_of c t ! i"] k1 d by auto
    finally show ?thesis using True by simp
  next
    case False
    then have "table_of (ar_entry_free_ex c b tr e) t ! i = f t ! i"
      by (cases "t = tr") (simp_all add: f(2) ct_unlink_def)
    also have "\<dots> = table_of c t ! i" using n1 other [OF False] by auto
    finally show ?thesis by (simp only: False if_False)
  qed
qed


section \<open>What a scan leaves and returns\<close>

definition chain_at :: "core \<Rightarrow> nat \<Rightarrow> entry list" where
  "chain_at c idx = (case scan_bucket_at c idx of None \<Rightarrow> [] | Some (tr, b) \<Rightarrow> table_of c tr ! b)"

definition kept :: "core \<Rightarrow> entry list \<Rightarrow> entry list" where
  "kept c es = filter (\<lambda>e. \<not> entry_due c e) es"

text \<open>Only due entries have gone, and every chain keeps its other entries in order.\<close>

definition sweeps :: "core \<Rightarrow> core \<Rightarrow> bool" where
  "sweeps c c' \<longleftrightarrow> layout c' = layout c \<and>
     (\<forall>t. length (table_of c' t) = length (table_of c t)) \<and>
     (\<forall>t i. i < length (table_of c t) \<longrightarrow> kept c (table_of c' t ! i) = kept c (table_of c t ! i))"

definition swept :: "slack \<Rightarrow> core \<Rightarrow> core \<Rightarrow> bool" where
  "swept s c c' \<longleftrightarrow> sweeps c c' \<and> steps s (\<lambda>_. False) {} {} c c'"

lemma kept_env: "env_of c' = env_of c \<Longrightarrow> kept c' = kept c"
  by (rule ext) (simp add: kept_def entry_due_def env_of_def)

lemma swept_refl: "wf s c \<Longrightarrow> swept s c c"
  by (simp add: swept_def sweeps_def steps_refl)

lemma swept_trans:
  assumes "swept s c c1" and "swept s c1 c2"
  shows "swept s c c2"
proof -
  have "env_of c1 = env_of c" using assms(1) by (simp add: swept_def steps_def evo_def)
  then have "kept c1 = kept c" by (rule kept_env)
  with assms show ?thesis unfolding swept_def sweeps_def by (auto intro: steps_trans)
qed

lemma swept_wf: "swept s c c' \<Longrightarrow> wf s c'"
  by (simp add: swept_def steps_def)

lemma swept_env: "swept s c c' \<Longrightarrow> env_of c' = env_of c"
  by (simp add: swept_def steps_def evo_def)

lemma sweeps_same: "dict_of c' = dict_of c \<Longrightarrow> sweeps c c'"
  using table_of_cong [of c' c] by (simp add: sweeps_def dict_of_def)

lemma swept_same:
  "wf s c \<Longrightarrow> dict_of c' = dict_of c \<Longrightarrow> conns c' = conns c \<Longrightarrow> env_of c' = env_of c \<Longrightarrow> swept s c c'"
  by (simp add: swept_def sweeps_same steps_same)

lemma kept_remove:
  "e \<in> set es \<Longrightarrow> entry_due c e \<Longrightarrow> distinct (map ekey es) \<Longrightarrow>
   kept c (chain_remove ekey (ekey e) es) = kept c es"
  by (induction es) (auto simp: kept_def image_iff)

lemma swept_free:
  assumes w: "wf s c" and lo: "located c e b tr" and due: "entry_due c e"
  shows "swept s c (ar_entry_free_ex c b tr e)"
proof -
  have sh: "shape c" using w by (rule wf_shape)
  obtain N where cu: "cursor s c e N" using cursor_of_wf [OF w located_ents [OF lo]] .
  have "kept c (table_of (ar_entry_free_ex c b tr e) t ! i) = kept c (table_of c t ! i)"
    if i: "i < length (table_of c t)" for t i
  proof (cases "t = tr \<and> i = b")
    case True
    have "distinct (map ekey (table_of c t ! i))"
      using sh i by (cases t) (simp_all add: table_of_def shape_def ents_def distinct_keys_nth)
    then have "kept c (chain_remove ekey (ekey e) (table_of c t ! i)) = kept c (table_of c t ! i)"
      using lo due True by (intro kept_remove) (simp_all add: located_table)
    then show ?thesis using free_chain [OF sh lo i] True by simp
  next
    case False
    then show ?thesis using free_chain [OF sh lo i] by (simp only: if_False)
  qed
  moreover have "steps s (\<lambda>_. False) {} {} c (ar_entry_free_ex c b tr e)"
    using due by (intro free_steps [OF cu lo]) simp
  moreover have "length (table_of (ar_entry_free_ex c b tr e) t) = length (table_of c t)" for t
    using lo by (rule free_table_length)
  ultimately show ?thesis using free_cursor(6) [OF cu lo] by (simp add: swept_def sweeps_def)
qed

lemma swept_trans_wf: "swept s c c1 \<Longrightarrow> (wf s c1 \<Longrightarrow> swept s c1 c2) \<Longrightarrow> swept s c c2"
  using swept_trans swept_wf by blast

lemma swept_then_same:
  "swept s c c1 \<Longrightarrow> dict_of c2 = dict_of c1 \<Longrightarrow> conns c2 = conns c1 \<Longrightarrow> env_of c2 = env_of c1 \<Longrightarrow>
   swept s c c2"
  using swept_trans swept_same swept_wf by blast

lemma swept_same_then:
  "swept s c1 c2 \<Longrightarrow> wf s c \<Longrightarrow> dict_of c1 = dict_of c \<Longrightarrow> conns c1 = conns c \<Longrightarrow> env_of c1 = env_of c \<Longrightarrow>
   swept s c c2"
  using swept_trans swept_same by blast

lemma swept_kept: "swept s c c1 \<Longrightarrow> kept c1 es = kept c es"
  using kept_env swept_env by metis

lemma swept_live: "swept s c c' \<Longrightarrow> live c' k = live c k"
  by (rule live_evo [of "{}" "{}"]) (simp_all add: swept_def steps_def)

text \<open>One due entry reclaimed by a walk; the counter is bumped before or after.\<close>

lemma swept_reclaim:
  assumes w: "wf s c" and lo: "located c e b tr" and due: "entry_due c e"
  shows "swept s c ((ar_entry_free_ex c b tr e)\<lparr> expired := n \<rparr>)"
    and "swept s c (ar_entry_free_ex (c\<lparr> expired := n \<rparr>) b tr e)"
proof -
  show "swept s c ((ar_entry_free_ex c b tr e)\<lparr> expired := n \<rparr>)"
    by (rule swept_then_same [OF swept_free [OF w lo due]]) (simp_all add: env_of_def)
  let ?c = "c\<lparr> expired := n \<rparr>"
  have "wf s ?c" using w wf_cong [of ?c c s] by simp
  moreover have "entry_due ?c e" using due by (simp add: entry_due_def)
  ultimately have "swept s ?c (ar_entry_free_ex ?c b tr e)" using lo by (intro swept_free) simp_all
  then show "swept s c (ar_entry_free_ex ?c b tr e)"
    by (rule swept_same_then [OF _ w]) (simp_all add: env_of_def)
qed

definition walkable :: "core \<Rightarrow> nat \<Rightarrow> tier \<Rightarrow> entry list \<Rightarrow> bool" where
  "walkable c b tr es \<longleftrightarrow> (\<forall>e \<in> set es. located c e b tr) \<and> distinct (map ekey es)"

lemma walkable_Cons: "walkable c b tr (e # es) \<Longrightarrow> located c e b tr \<and> walkable c b tr es"
  by (simp add: walkable_def)

lemma walkable_free:
  assumes "walkable c b tr (e # es)"
  shows "walkable ((ar_entry_free_ex c b tr e)\<lparr> expired := n \<rparr>) b tr es"
    and "walkable (ar_entry_free_ex (c\<lparr> expired := n \<rparr>) b tr e) b tr es"
proof -
  have ne: "\<And>x. x \<in> set es \<Longrightarrow> ekey x \<noteq> ekey e" and d: "distinct (map ekey es)"
    and lo: "\<And>x. x \<in> set es \<Longrightarrow> located c x b tr"
    using assms by (auto simp: walkable_def image_iff)
  show "walkable ((ar_entry_free_ex c b tr e)\<lparr> expired := n \<rparr>) b tr es"
    using d located_free [OF lo ne] by (simp add: walkable_def)
  show "walkable (ar_entry_free_ex (c\<lparr> expired := n \<rparr>) b tr e) b tr es"
    using d located_free [of "c\<lparr> expired := n \<rparr>", OF _ ne] lo by (simp add: walkable_def)
qed

lemma walkable_table:
  assumes "shape c" and "b < length (table_of c tr)"
  shows "walkable c b tr (table_of c tr ! b)"
  using assms by (cases tr)
    (simp_all add: walkable_def located_def table_of_def shape_def ents_def distinct_keys_nth)

definition page_keys :: "(bytes \<Rightarrow> bool) \<Rightarrow> core \<Rightarrow> entry list \<Rightarrow> bytes list" where
  "page_keys m c es = filter m (map ekey (kept c es))"

lemma page_keys_simps [simp]:
  "page_keys m c [] = []"
  "page_keys m c (e # es) = (if \<not> entry_due c e \<and> m (ekey e) then [ekey e] else []) @ page_keys m c es"
  by (simp_all add: page_keys_def kept_def)

lemma swept_page_keys: "swept s c c1 \<Longrightarrow> page_keys m c1 es = page_keys m c es"
  by (simp add: page_keys_def swept_kept)

lemma swept_alloc: "swept s c c' \<Longrightarrow> alloc_ok c' = alloc_ok c"
  using swept_env [of s c c'] by (simp add: env_of_def)

lemma scan_walk_ok:
  "wf s c \<Longrightarrow> walkable c b tr es \<Longrightarrow> alloc_ok c \<Longrightarrow>
   swept s c (fst (scan_walk m b tr es c acc)) \<and> snd (scan_walk m b tr es c acc) = acc @ page_keys m c es"
proof (induction es arbitrary: c acc)
  case Nil
  then show ?case by (simp add: swept_refl)
next
  case (Cons e es)
  have lo: "located c e b tr" and wa: "walkable c b tr es" using walkable_Cons [OF Cons.prems(2)] by simp_all
  show ?case
  proof (cases "entry_due c e")
    case False
    have "swept s c (fst (scan_walk m b tr es c acc)) \<and> snd (scan_walk m b tr es c acc) = acc @ page_keys m c es"
      for acc using Cons.IH [OF Cons.prems(1) wa Cons.prems(3)] .
    with False Cons.prems(3) show ?thesis by simp
  next
    case True
    let ?c = "ar_entry_free_ex (c\<lparr> expired := expired c + 1 \<rparr>) b tr e"
    have sw: "swept s c ?c" using Cons.prems(1) lo True by (rule swept_reclaim)
    have "alloc_ok ?c" using swept_alloc [OF sw] Cons.prems(3) by simp
    from Cons.IH [OF swept_wf [OF sw] walkable_free(2) [OF Cons.prems(2)] this, of acc]
    show ?thesis using True swept_trans [OF sw] swept_page_keys [OF sw, of m es] by simp
  qed
qed

lemma dbsize_walk_ok:
  "wf s c \<Longrightarrow> walkable c b tr es \<Longrightarrow>
   swept s c (fst (dbsize_walk b tr es c n)) \<and> snd (dbsize_walk b tr es c n) = n + length (kept c es)"
proof (induction es arbitrary: c n)
  case Nil
  then show ?case by (simp add: swept_refl kept_def)
next
  case (Cons e es)
  have lo: "located c e b tr" and wa: "walkable c b tr es" using walkable_Cons [OF Cons.prems(2)] by simp_all
  show ?case
  proof (cases "entry_due c e")
    case False
    with Cons.IH [OF Cons.prems(1) wa, of "n + 1"] show ?thesis by (simp add: kept_def)
  next
    case True
    let ?c = "(ar_entry_free_ex c b tr e)\<lparr> expired := expired (ar_entry_free_ex c b tr e) + 1 \<rparr>"
    have sw: "swept s c ?c" using Cons.prems(1) lo True by (rule swept_reclaim)
    from Cons.IH [OF swept_wf [OF sw] walkable_free(1) [OF Cons.prems(2)], of n]
    have "swept s c (fst (dbsize_walk b tr es ?c n)) \<and> snd (dbsize_walk b tr es ?c n) = n + length (kept c es)"
      using swept_trans [OF sw] swept_kept [OF sw, of es] by simp
    with True show ?thesis by (simp add: Let_def kept_def)
  qed
qed

lemma expire_first_ok:
  "wf s c \<Longrightarrow> walkable c b tr es \<Longrightarrow>
   swept s c (fst (expire_first b tr es c)) \<and> snd (expire_first b tr es c) \<le> 1"
proof (induction es)
  case Nil
  then show ?case by (simp add: swept_refl)
next
  case (Cons e es)
  then show ?case using walkable_Cons [OF Cons.prems(2)] swept_reclaim(1) [of s c e b tr]
    by (simp add: Let_def)
qed


subsection \<open>Slots\<close>

lemma scan_bucket_at_Some:
  "scan_bucket_at c i = Some (tr, b) \<Longrightarrow> b < length (table_of c tr)"
  "i < scan_total_buckets c \<Longrightarrow> \<exists>tr b. scan_bucket_at c i = Some (tr, b)"
  by (auto simp: scan_bucket_at_def scan_total_buckets_def table_of_def Let_def split: if_splits)

lemma sweeps_slots:
  assumes "sweeps c c'"
  shows "scan_total_buckets c' = scan_total_buckets c" "scan_bucket_at c' = scan_bucket_at c"
    "kept c (chain_at c' i) = kept c (chain_at c i)"
proof -
  have l: "length (buckets c') = length (buckets c)" "length (cold_buckets c') = length (cold_buckets c)"
    "layout c' = layout c"
    using assms [unfolded sweeps_def] by (auto simp: table_of_def split: tier.splits dest: spec [of _ Hot] spec [of _ Cold])
  then have e: "cold_buckets c' = [] \<longleftrightarrow> cold_buckets c = []" by (metis length_0_conv)
  show "scan_total_buckets c' = scan_total_buckets c" by (simp add: scan_total_buckets_def l e)
  show b: "scan_bucket_at c' = scan_bucket_at c" by (rule ext) (simp add: scan_bucket_at_def l e Let_def)
  show "kept c (chain_at c' i) = kept c (chain_at c i)"
  proof (cases "scan_bucket_at c i")
    case None
    then show ?thesis by (simp add: chain_at_def b)
  next
    case (Some p)
    then show ?thesis using assms scan_bucket_at_Some(1) [of c i "fst p" "snd p"]
      by (cases p) (simp add: chain_at_def b sweeps_def)
  qed
qed

lemma slot_walkable:
  "wf s c \<Longrightarrow> scan_bucket_at c i = Some (tr, b) \<Longrightarrow> walkable c b tr (table_of c tr ! b)"
  using walkable_table [OF wf_shape] scan_bucket_at_Some(1) by blast

lemma ents_chains:
  assumes "shape c"
  shows "ents c = concat (map (chain_at c) [0..<scan_total_buckets c])"
proof -
  let ?n = "length (buckets c)" and ?m = "length (cold_buckets c)"
  have h: "map (chain_at c) [0..<?n] = buckets c"
    by (rule nth_equalityI) (simp_all add: chain_at_def scan_bucket_at_def table_of_def)
  show ?thesis
  proof (cases "layout c = HotCold")
    case True
    then have cb: "cold_buckets c \<noteq> []" using assms by (simp add: shape_def)
    then have "map (chain_at c) [?n..<?n + ?m] = cold_buckets c"
      using True by (intro nth_equalityI) (simp_all add: chain_at_def scan_bucket_at_def table_of_def)
    moreover have "[0..<?n + ?m] = [0..<?n] @ [?n..<?n + ?m]" by (rule upt_add_eq_append) simp
    ultimately show ?thesis using True cb h by (simp add: scan_total_buckets_def ents_def)
  next
    case False
    then have "cold_buckets c = []" using assms by (cases "layout c") (simp_all add: shape_def)
    with False h show ?thesis by (simp add: scan_total_buckets_def ents_def)
  qed
qed

definition slot_keys :: "(bytes \<Rightarrow> bool) \<Rightarrow> core \<Rightarrow> nat \<Rightarrow> nat \<Rightarrow> bytes list" where
  "slot_keys m c i j = concat (map (\<lambda>i. page_keys m c (chain_at c i)) [i..<j])"

lemma slot_keys_Suc: "i < j \<Longrightarrow> slot_keys m c i j = page_keys m c (chain_at c i) @ slot_keys m c (Suc i) j"
  by (simp add: slot_keys_def upt_conv_Cons)

lemma slot_keys_split: "i \<le> j \<Longrightarrow> j \<le> k \<Longrightarrow> slot_keys m c i k = slot_keys m c i j @ slot_keys m c j k"
  using upt_add_eq_append [of i j "k - j"] by (simp add: slot_keys_def)

lemma swept_slot_keys: "swept s c c' \<Longrightarrow> slot_keys m c' i j = slot_keys m c i j"
  using sweeps_slots(3) [of c c'] swept_page_keys [of s c c']
  by (simp add: slot_keys_def page_keys_def swept_def)

lemma slot_keys_all: "shape c \<Longrightarrow> slot_keys m c 0 (scan_total_buckets c) = page_keys m c (ents c)"
  unfolding slot_keys_def page_keys_def kept_def
  by (simp add: ents_chains map_concat filter_concat comp_def)

lemma scan_slots_ok:
  "wf s c \<Longrightarrow> alloc_ok c \<Longrightarrow> idx < scan_total_buckets c \<Longrightarrow>
   scan_slots m (scan_total_buckets c) (Suc n) idx c acc = (c', r, next) \<Longrightarrow>
   swept s c c' \<and> r = acc @ slot_keys m c idx (min (idx + Suc n) (scan_total_buckets c)) \<and>
   next = (if idx + Suc n \<ge> scan_total_buckets c then 0 else idx + Suc n)"
proof (induction n arbitrary: idx c acc)
  case (0 idx c acc)
  obtain tr b where sb: "scan_bucket_at c idx = Some (tr, b)" using scan_bucket_at_Some(2) [OF "0.prems"(3)] by blast
  note wk = scan_walk_ok [OF "0.prems"(1) slot_walkable [OF "0.prems"(1) sb] "0.prems"(2), of m acc]
  obtain c1 a1 where 1: "scan_walk m b tr (table_of c tr ! b) c acc = (c1, a1)" by fastforce
  have "(if idx + 1 \<ge> scan_total_buckets c then (c1, a1, 0) else (c1, a1, idx + 1)) = (c', r, next)"
    using "0.prems"(4) by (simp add: sb 1 split: if_splits)
  then show ?case using wk 1 "0.prems"(3)
    by (auto simp: slot_keys_Suc chain_at_def sb slot_keys_def split: if_splits)
next
  case (Suc n)
  obtain tr b where sb: "scan_bucket_at c idx = Some (tr, b)" using scan_bucket_at_Some(2) [OF Suc.prems(3)] by blast
  note wk = scan_walk_ok [OF Suc.prems(1) slot_walkable [OF Suc.prems(1) sb] Suc.prems(2), of m acc]
  obtain c1 a1 where 1: "scan_walk m b tr (table_of c tr ! b) c acc = (c1, a1)" by fastforce
  have sw: "swept s c c1" and a1: "a1 = acc @ page_keys m c (chain_at c idx)"
    using wk 1 by (simp_all add: chain_at_def sb)
  have tot: "scan_total_buckets c1 = scan_total_buckets c" using sw sweeps_slots(1) by (simp add: swept_def)
  show ?case
  proof (cases "idx + 1 \<ge> scan_total_buckets c")
    case True
    have "scan_slots m (scan_total_buckets c) (Suc (Suc n)) idx c acc = (c1, a1, 0)"
      by (subst scan_slots.simps(2)) (simp add: sb 1 True [simplified])
    with True sw a1 Suc.prems(3,4) show ?thesis
      by (simp add: min_def slot_keys_Suc) (simp add: slot_keys_def)
  next
    case False
    have "scan_slots m (scan_total_buckets c) (Suc (Suc n)) idx c acc =
        scan_slots m (scan_total_buckets c) (Suc n) (idx + 1) c1 a1"
      by (subst scan_slots.simps(2)) (simp add: sb 1 False [simplified] del: scan_slots.simps)
    then have "scan_slots m (scan_total_buckets c1) (Suc n) (idx + 1) c1 a1 = (c', r, next)"
      using Suc.prems(4) by (simp only: tot)
    from Suc.IH [OF swept_wf [OF sw] _ _ this] False
    have ih: "swept s c1 c' \<and> r = a1 @ slot_keys m c1 (idx + 1) (min (idx + 1 + Suc n) (scan_total_buckets c)) \<and>
        next = (if idx + 1 + Suc n \<ge> scan_total_buckets c then 0 else idx + 1 + Suc n)"
      using swept_alloc [OF sw] Suc.prems(2) by (simp add: tot)
    then show ?thesis
      using swept_trans [OF sw, of c'] a1 False swept_slot_keys [OF sw, of m]
        slot_keys_Suc [of idx "min (idx + Suc (Suc n)) (scan_total_buckets c)" m c]
      by simp
  qed
qed

text \<open>A page: the matching live keys of the next \<open>n\<close> chains, and where to go on.\<close>

definition scan_width :: "int \<Rightarrow> nat" where
  "scan_width cnt = nat (if cnt \<le> 0 then 10 else min cnt 10000)"

lemma nkeys_0:
  assumes "wf s c" and "nkeys c = 0"
  shows "ents c = []"
  using assms by (simp add: wf_def balanced_def)

lemma ar_scan_ok:
  assumes w: "wf s c" and a: "alloc_ok c" and cu: "cur < scan_total_buckets c"
    and r: "ar_scan c cur pat cnt = (c', r, next)"
  shows "swept s c c'"
    and "r = slot_keys (scan_matches pat) c cur (min (cur + scan_width cnt) (scan_total_buckets c))"
    and "nkeys c \<noteq> 0 \<Longrightarrow> next = (if cur + scan_width cnt \<ge> scan_total_buckets c then 0 else cur + scan_width cnt)"
    and "nkeys c = 0 \<Longrightarrow> next = 0"
proof -
  obtain n where n: "scan_width cnt = Suc n"
    by (cases "scan_width cnt") (auto simp: scan_width_def split: if_splits)
  have all: "swept s c c' \<and>
    r = slot_keys (scan_matches pat) c cur (min (cur + scan_width cnt) (scan_total_buckets c)) \<and>
    (nkeys c \<noteq> 0 \<longrightarrow> next = (if cur + scan_width cnt \<ge> scan_total_buckets c then 0 else cur + scan_width cnt)) \<and>
    (nkeys c = 0 \<longrightarrow> next = 0)"
  proof (cases "nkeys c = 0")
    case True
    have "concat (map (chain_at c) [0..<scan_total_buckets c]) = []"
      using ents_chains [OF wf_shape [OF w]] nkeys_0 [OF w True] by simp
    then have "chain_at c i = []" if "i < scan_total_buckets c" for i using that by simp
    then have "slot_keys (scan_matches pat) c cur (min (cur + scan_width cnt) (scan_total_buckets c)) = []"
      by (simp add: slot_keys_def)
    with True r w show ?thesis by (simp add: ar_scan_def swept_refl)
  next
    case False
    then have "ar_scan c cur pat cnt = scan_slots (scan_matches pat) (scan_total_buckets c) (scan_width cnt) cur c []"
      using cu by (simp add: ar_scan_def Let_def scan_width_def min_def)
    with r n have "scan_slots (scan_matches pat) (scan_total_buckets c) (Suc n) cur c [] = (c', r, next)" by simp
    from scan_slots_ok [OF w a cu this] False show ?thesis by (simp add: n)
  qed
  then show "swept s c c'"
    and "r = slot_keys (scan_matches pat) c cur (min (cur + scan_width cnt) (scan_total_buckets c))"
    and "nkeys c \<noteq> 0 \<Longrightarrow> next = (if cur + scan_width cnt \<ge> scan_total_buckets c then 0 else cur + scan_width cnt)"
    and "nkeys c = 0 \<Longrightarrow> next = 0" by blast+
qed


subsection \<open>KEYS, DBSIZE and the expiry cycle\<close>

lemma slot_keys_none:
  assumes w: "wf s c" and n: "nkeys c = 0" and j: "j \<le> scan_total_buckets c"
  shows "slot_keys m c i j = []"
proof -
  have "concat (map (chain_at c) [0..<scan_total_buckets c]) = []"
    using ents_chains [OF wf_shape [OF w]] nkeys_0 [OF w n] by simp
  then have "chain_at c i = []" if "i < scan_total_buckets c" for i using that by simp
  with j show ?thesis by (simp add: slot_keys_def)
qed

lemma swept_slots: "swept s c c' \<Longrightarrow> scan_total_buckets c' = scan_total_buckets c"
  using sweeps_slots(1) by (simp add: swept_def)

lemma keys_pages_ok:
  "wf s c \<Longrightarrow> alloc_ok c \<Longrightarrow> cur < scan_total_buckets c \<Longrightarrow> scan_total_buckets c \<le> cur + fuel \<Longrightarrow>
   swept s c (fst (keys_pages fuel c cur pat acc)) \<and>
   snd (keys_pages fuel c cur pat acc) = acc @ slot_keys (scan_matches pat) c cur (scan_total_buckets c)"
proof (induction fuel arbitrary: c cur acc)
  case 0
  then show ?case by simp
next
  case (Suc fuel)
  let ?t = "scan_total_buckets c"
  define cnt :: int where "cnt = (if ?t > 10000 then 10000 else int ?t)"
  have wd: "0 < scan_width cnt" using Suc.prems(3) by (simp add: cnt_def scan_width_def)
  obtain c1 page nxt where 1: "ar_scan c cur pat cnt = (c1, page, nxt)" by (cases "ar_scan c cur pat cnt") auto
  note sc = ar_scan_ok [OF Suc.prems(1-3) 1]
  note pages = keys_pages.simps(2) [of fuel c cur pat acc, unfolded Let_def, folded cnt_def, unfolded 1 prod.case]
  show ?case
  proof (cases "nxt = 0")
    case True
    have "page = slot_keys (scan_matches pat) c cur ?t"
    proof (cases "nkeys c = 0")
      case True
      then show ?thesis using sc(2) slot_keys_none [OF Suc.prems(1)] by simp
    next
      case False
      with sc(3) True wd have "?t \<le> cur + scan_width cnt" by (auto split: if_splits)
      then show ?thesis using sc(2) by simp
    qed
    with True sc(1) show ?thesis unfolding pages by simp
  next
    case False
    have nz: "nkeys c \<noteq> 0" using sc(4) False by auto
    have nx: "nxt = cur + scan_width cnt" "nxt < ?t" using sc(3) [OF nz] False by (auto split: if_splits)
    have "swept s c1 (fst (keys_pages fuel c1 nxt pat (acc @ page))) \<and>
        snd (keys_pages fuel c1 nxt pat (acc @ page)) =
          (acc @ page) @ slot_keys (scan_matches pat) c1 nxt (scan_total_buckets c1)"
      using Suc.prems(2,4) nx wd swept_alloc [OF sc(1)] swept_slots [OF sc(1)]
      by (intro Suc.IH [OF swept_wf [OF sc(1)]]) simp_all
    then show ?thesis
      using False nx wd sc(2) swept_trans [OF sc(1)] swept_slots [OF sc(1)] swept_slot_keys [OF sc(1)]
        slot_keys_split [of cur nxt ?t "scan_matches pat" c]
      unfolding pages by simp
  qed
qed

lemma scan_total_pos: "wf s c \<Longrightarrow> 0 < scan_total_buckets c"
  by (simp add: wf_def shape_def scan_total_buckets_def)

lemma ar_keys_list:
  assumes w: "wf s c" and a: "alloc_ok c" and r: "ar_keys c pat = (c', ks)"
  shows "swept s c c'" "ks = page_keys (scan_matches pat) c (ents c)"
  using keys_pages_ok [OF w a scan_total_pos [OF w], of "scan_total_buckets c" pat "[]"] r scan_total_pos [OF w]
    slot_keys_all [OF wf_shape [OF w]]
  by (simp_all add: ar_keys_def)

lemma live_iff_kept:
  assumes "shape c"
  shows "live c k \<noteq> None \<longleftrightarrow> k \<in> set (map ekey (kept c (ents c)))"
  using view_Some_iff [OF assms, of k] gone_obs_of [of c]
  by (auto simp: live_def unexpired_Some_iff kept_def image_iff)

lemma scan_matches_glob: "scan_matches pat k \<longleftrightarrow> pat = [] \<or> glob pat k"
proof -
  have "glob [star] k" using glob_star [of "[]" k] by (auto intro: exI [of _ k])
  then show ?thesis by (auto simp: scan_matches_def ar_glob_match_eq)
qed

lemma page_keys_set:
  "shape c \<Longrightarrow> set (page_keys m c (ents c)) = {k. live c k \<noteq> None \<and> m k}"
  "shape c \<Longrightarrow> distinct (page_keys m c (ents c))"
  using live_iff_kept [of c]
  by (auto simp: page_keys_def kept_def shape_def intro: distinct_filter distinct_map_filter)

lemma dbsize_loop_ok:
  "wf s c \<Longrightarrow> \<forall>i \<in> set idxs. i < scan_total_buckets c \<Longrightarrow>
   swept s c (fst (dbsize_loop idxs c n)) \<and>
   snd (dbsize_loop idxs c n) = n + length (concat (map (\<lambda>i. kept c (chain_at c i)) idxs))"
proof (induction idxs arbitrary: c n)
  case Nil
  then show ?case by (simp add: swept_refl)
next
  case (Cons i idxs)
  obtain tr b where sb: "scan_bucket_at c i = Some (tr, b)" using scan_bucket_at_Some(2) Cons.prems(2) by fastforce
  note wk = dbsize_walk_ok [OF Cons.prems(1) slot_walkable [OF Cons.prems(1) sb], of n]
  obtain c1 n1 where 1: "dbsize_walk b tr (table_of c tr ! b) c n = (c1, n1)" by fastforce
  have sw: "swept s c c1" and n1: "n1 = n + length (kept c (chain_at c i))"
    using wk 1 by (simp_all add: chain_at_def sb)
  have "swept s c1 (fst (dbsize_loop idxs c1 n1)) \<and>
      snd (dbsize_loop idxs c1 n1) = n1 + length (concat (map (\<lambda>i. kept c1 (chain_at c1 i)) idxs))"
    using Cons.prems(2) swept_slots [OF sw] by (intro Cons.IH [OF swept_wf [OF sw]]) simp
  moreover have "kept c1 (chain_at c1 i) = kept c (chain_at c i)" for i
    using swept_kept [OF sw] sweeps_slots(3) [of c c1] sw by (simp add: swept_def)
  ultimately show ?case using swept_trans [OF sw] n1 by (simp add: sb 1)
qed

lemma ar_dbsize_list:
  assumes w: "wf s c" and r: "ar_dbsize c = (c', n)"
  shows "swept s c c'" "n = length (kept c (ents c))"
proof -
  let ?c = "c\<lparr> ops := ops c + 1 \<rparr>"
  have sm: "swept s c ?c" using w by (rule swept_same) (simp_all add: dict_of_def env_of_def)
  have "swept s ?c (fst (dbsize_loop [0..<scan_total_buckets ?c] ?c 0)) \<and>
      snd (dbsize_loop [0..<scan_total_buckets ?c] ?c 0) =
        0 + length (concat (map (\<lambda>i. kept ?c (chain_at ?c i)) [0..<scan_total_buckets ?c]))"
    by (rule dbsize_loop_ok [OF swept_wf [OF sm]]) simp
  then have 1: "swept s ?c c'" "n = length (kept ?c (ents ?c))"
    using r ents_chains [OF wf_shape [OF swept_wf [OF sm]]]
    by (simp_all add: ar_dbsize_def Let_def kept_def filter_concat comp_def)
  then show "swept s c c'" "n = length (kept c (ents c))"
    using swept_trans [OF sm] swept_kept [OF sm] by (simp_all add: ents_def)
qed

lemma length_kept:
  assumes "shape c"
  shows "length (kept c (ents c)) = card {k. live c k \<noteq> None}"
proof -
  have "distinct (map ekey (kept c (ents c)))"
    using assms by (auto simp: kept_def shape_def intro: distinct_map_filter)
  then have "card (set (map ekey (kept c (ents c)))) = length (kept c (ents c))"
    using distinct_card by fastforce
  then show ?thesis using live_iff_kept [OF assms] by (simp add: set_eq_iff [symmetric] del: set_map)
qed

lemma active_loop_ok:
  "wf s c \<Longrightarrow> swept s c (fst (active_loop n i c f)) \<and> snd (active_loop n i c f) \<le> f + n"
proof (induction n arbitrary: i c f)
  case 0
  then show ?case by (simp add: swept_refl)
next
  case (Suc n)
  define tr where "tr = (if layout c = HotCold \<and> cold_buckets c \<noteq> [] \<and> cold_nkeys c > 0 \<and> odd i then Cold else Hot)"
  show ?case
  proof (cases "table_of c tr = []")
    case True
    then have "active_loop (Suc n) i c f = active_loop n (i + 1) c f"
      by (auto simp: tr_def table_of_def Let_def split: if_splits)
    with Suc.IH [OF Suc.prems, of "i + 1" f] show ?thesis by simp
  next
    case False
    let ?c = "c\<lparr> rand_pos := Suc (rand_pos c) \<rparr>"
    define b where "b = rand_src c (rand_pos c) mod length (table_of c tr)"
    have sm: "swept s c ?c" using Suc.prems by (rule swept_same) (simp_all add: dict_of_def env_of_def)
    have tb: "table_of ?c tr = table_of c tr" by (rule table_of_cong) simp_all
    have "walkable ?c b tr (table_of ?c tr ! b)"
      using False by (intro walkable_table [OF wf_shape [OF swept_wf [OF sm]]]) (simp add: tb b_def)
    then have ef: "swept s ?c (fst (expire_first b tr (table_of c tr ! b) ?c)) \<and>
        snd (expire_first b tr (table_of c tr ! b) ?c) \<le> 1"
      using expire_first_ok [OF swept_wf [OF sm]] by (simp add: tb)
    obtain c1 k where 1: "expire_first b tr (table_of c tr ! b) ?c = (c1, k)" by fastforce
    have "active_loop (Suc n) i c f = active_loop n (i + 1) c1 (f + k)"
      using False 1 unfolding b_def tr_def table_of_def
      by (auto simp: c_rand_def Let_def split: if_splits)
    moreover have sw: "swept s c c1" using ef 1 swept_trans [OF sm] by simp
    ultimately show ?thesis
      using Suc.IH [OF swept_wf [OF sw], of "i + 1" "f + k"] ef 1 swept_trans [OF sw] by simp
  qed
qed

lemma active_expire_swept:
  assumes w: "wf s c"
  shows "swept s c (fst (ar_core_active_expire c effort))"
    "snd (ar_core_active_expire c effort) \<le> nat (min (max effort 0) 64)"
  using active_loop_ok [OF w, of "nat (if effort > 64 then 64 else effort)" 0 0] w
  by (auto simp: ar_core_active_expire_def swept_refl min_def max_def)

end
