(* ===== verification/Hashes.thy ===== *)
theory Hashes
  imports Typed Scan
begin

text \<open>
  HASH values (\<open>ar_types.c\<close>): a table of fields hashed like the key dictionary, which interprets
  the contract \<open>keyed_store\<close>, and the commands on it. \<open>hmap\<close> is the value a client sees, a map
  from fields to values. The allocator flag \<open>a\<close> of the value functions is \<open>alloc_ok\<close> of the core.
\<close>


section \<open>The table of fields\<close>

definition hash_find :: "arhash \<Rightarrow> bytes \<Rightarrow> hfield option" where
  "hash_find h f = ct_find hf_field (h_buckets h) f"

definition hash_maybe_rehash :: "bool \<Rightarrow> arhash \<Rightarrow> arhash" where
  "hash_maybe_rehash a h =
     (if h_nfields h \<le> length (h_buckets h) then h
      else if \<not> a then h
      else h\<lparr> h_buckets := ct_rehash hf_field (h_buckets h) \<rparr>)"

definition hash_set_val :: "arhash \<Rightarrow> hfield \<Rightarrow> bytes \<Rightarrow> arhash" where
  "hash_set_val h f v = h\<lparr> h_buckets := ct_write hf_field (h_buckets h) (f\<lparr> hf_val := v \<rparr>) \<rparr>"

definition hash_add :: "arhash \<Rightarrow> bytes \<Rightarrow> bytes \<Rightarrow> arhash" where
  "hash_add h f v = h\<lparr> h_buckets := ct_push hf_field (h_buckets h) \<lparr> hf_field = f, hf_val = v \<rparr>,
                       h_nfields := h_nfields h + 1 \<rparr>"

fun hset_fields :: "bool \<Rightarrow> arhash \<Rightarrow> nat \<Rightarrow> (bytes \<times> bytes) list \<Rightarrow> arhash \<times> nat" where
  "hset_fields a h added [] = (h, added)"
| "hset_fields a h added ((f, v) # kvs) =
     (case hash_find h f of
        Some x \<Rightarrow> if a then hset_fields a (hash_set_val h x v) added kvs else hset_fields a h added kvs
      | None \<Rightarrow> if a then hset_fields a (hash_maybe_rehash a (hash_add h f v)) (added + 1) kvs
                else hset_fields a h added kvs)"

fun hdel_fields :: "arhash \<Rightarrow> nat \<Rightarrow> bytes list \<Rightarrow> arhash \<times> nat" where
  "hdel_fields h removed [] = (h, removed)"
| "hdel_fields h removed (f # fs) =
     (case hash_find h f of
        None \<Rightarrow> hdel_fields h removed fs
      | Some x \<Rightarrow> hdel_fields (h\<lparr> h_buckets := ct_drop hf_field (h_buckets h) f, h_nfields := h_nfields h - 1 \<rparr>)
                    (removed + 1) fs)"

fun hash_of :: "payload \<Rightarrow> arhash" where
  "hash_of (PHash h) = h"
| "hash_of _ = hash_create"

interpretation hf: keyed_store hf_field concat "ct_ok hf_field" "ct_find hf_field" "ct_push hf_field"
    "ct_drop hf_field" "ct_write hf_field" "ct_rehash hf_field"
  by (rule ct_keyed_store)


section \<open>Commands\<close>

definition ar_hash_hset :: "core \<Rightarrow> bytes \<Rightarrow> (bytes \<times> bytes) list \<Rightarrow> core \<times> int \<times> bool" where
  "ar_hash_hset c key kvs =
     (if kvs = [] then (c, 0, False)
      else case ar_entry_get_or_create c key THash of
          (c, None, wt) \<Rightarrow> (c, - 1, wt)
        | (c, Some (e, b, tr), _) \<Rightarrow>
            (case hset_fields (alloc_ok c) (hash_of (epay e)) 0 kvs of
               (h, added) \<Rightarrow> (payload_commit c key e (PHash h), int added, False)))"

definition ar_hash_hget :: "core \<Rightarrow> bytes \<Rightarrow> bytes \<Rightarrow> core \<times> bytes option \<times> bool" where
  "ar_hash_hget c key field =
     (case ar_entry_get_typed c key THash of
        (c, None, wt) \<Rightarrow> (c, None, wt)
      | (c, Some (e, b, tr), _) \<Rightarrow>
          (case hash_find (hash_of (epay e)) field of
             None \<Rightarrow> (c, None, False)
           | Some f \<Rightarrow> (c, if alloc_ok c then Some (hf_val f) else None, False)))"

text \<open>An emptied hash is looked up again and its key freed.\<close>

definition ar_hash_hdel :: "core \<Rightarrow> bytes \<Rightarrow> bytes list \<Rightarrow> core \<times> int \<times> bool" where
  "ar_hash_hdel c key fs =
     (case ar_entry_get_typed c key THash of
        (c, None, wt) \<Rightarrow> (c, 0, wt)
      | (c, Some (e, b, tr), _) \<Rightarrow>
          (case hdel_fields (hash_of (epay e)) 0 fs of (h, removed) \<Rightarrow>
           case payload_shrink c e (PHash h) of (c, e) \<Rightarrow>
             if h_nfields h = 0 then
               (case ar_find_entry_ex c key of
                  (c, None) \<Rightarrow> (c, int removed, False)
                | (c, Some (ee, b, tr)) \<Rightarrow> (ar_entry_free_ex c b tr ee, int removed, False))
             else if removed > 0 then (ar_watch_touch c key, int removed, False)
             else (c, int removed, False)))"

definition ar_hash_hexists :: "core \<Rightarrow> bytes \<Rightarrow> bytes \<Rightarrow> core \<times> int \<times> bool" where
  "ar_hash_hexists c key field =
     (case ar_entry_get_typed c key THash of
        (c, None, wt) \<Rightarrow> (c, 0, wt)
      | (c, Some (e, b, tr), _) \<Rightarrow>
          (c, if hash_find (hash_of (epay e)) field \<noteq> None then 1 else 0, False))"

definition ar_hash_hlen :: "core \<Rightarrow> bytes \<Rightarrow> core \<times> int \<times> bool" where
  "ar_hash_hlen c key =
     (case ar_entry_get_typed c key THash of
        (c, None, wt) \<Rightarrow> (c, 0, wt)
      | (c, Some (e, b, tr), _) \<Rightarrow> (c, int (h_nfields (hash_of (epay e))), False))"

text \<open>The value HINCRBY starts from: \<open>None\<close> is \<open>notint\<close>.\<close>

definition hincr_read :: "hfield option \<Rightarrow> int option" where
  "hincr_read r =
     (case r of None \<Rightarrow> Some 0
      | Some f \<Rightarrow> if length (hf_val f) \<ge> 64 then None else strtoll_all (hf_val f))"

definition hincr_store :: "arhash \<Rightarrow> bytes \<Rightarrow> int \<Rightarrow> arhash" where
  "hincr_store h field v =
     (case hash_find h field of
        Some f \<Rightarrow> hash_set_val h f (show_int v)
      | None \<Rightarrow> let h = hash_add h field ''0''
                in hash_set_val h \<lparr> hf_field = field, hf_val = ''0'' \<rparr> (show_int v))"

definition ar_hash_hincrby :: "core \<Rightarrow> bytes \<Rightarrow> bytes \<Rightarrow> int \<Rightarrow> core \<times> int \<times> bool \<times> bool" where
  "ar_hash_hincrby c key field incr =
     (case ar_entry_get_or_create c key THash of
        (c, None, wt) \<Rightarrow> (c, 0, wt, False)
      | (c, Some (e, b, tr), _) \<Rightarrow>
          let h = hash_of (epay e)
          in case hincr_read (hash_find h field) of
               None \<Rightarrow> (c, 0, False, True)
             | Some v \<Rightarrow>
                 if \<not> alloc_ok c then (c, 0, False, False)
                 else let v = s64 (v + incr)
                      in (payload_commit c key e (PHash (hincr_store h field v)), v, False, False))"

fun hscan_chain :: "(bytes \<Rightarrow> bool) \<Rightarrow> bool \<Rightarrow> hfield list \<Rightarrow> bytes list \<Rightarrow> bytes list" where
  "hscan_chain m a [] acc = acc"
| "hscan_chain m a (f # fs) acc =
     (if m (hf_field f) then
        (if a then hscan_chain m a fs (acc @ [hf_field f, hf_val f]) else acc)
      else hscan_chain m a fs acc)"

fun hscan_slots :: "(bytes \<Rightarrow> bool) \<Rightarrow> bool \<Rightarrow> hfield list list \<Rightarrow> nat \<Rightarrow> nat \<Rightarrow> bytes list \<Rightarrow> bytes list \<times> nat" where
  "hscan_slots m a tbl 0 idx acc = (acc, idx)"
| "hscan_slots m a tbl (Suc n) idx acc =
     (let acc = hscan_chain m a (tbl ! idx) acc
      in if idx + 1 \<ge> length tbl then (acc, 0) else hscan_slots m a tbl n (idx + 1) acc)"

definition ar_hscan :: "core \<Rightarrow> bytes \<Rightarrow> nat \<Rightarrow> bytes \<Rightarrow> int \<Rightarrow> core \<times> bytes list \<times> nat \<times> bool" where
  "ar_hscan c key cur pat cnt =
     (case ar_entry_get_typed c key THash of
        (c, None, wt) \<Rightarrow> (c, [], 0, wt)
      | (c, Some (e, b, tr), _) \<Rightarrow>
          let h = hash_of (epay e)
          in if length (h_buckets h) = 0 \<or> h_nfields h = 0 then (c, [], 0, False)
             else if cur \<ge> length (h_buckets h) then (c, [], 0, False)
             else let max_slots = (if cnt \<le> 0 then 10 else cnt);
                      max_slots = (if max_slots > 10000 then 10000 else max_slots)
                  in case hscan_slots (scan_matches pat) (alloc_ok c) (h_buckets h) (nat max_slots) cur [] of
                       (elems, next) \<Rightarrow> (c, elems, next, False))"


section \<open>The value as a map\<close>

definition hmap :: "arhash \<Rightarrow> bytes \<Rightarrow> bytes option" where
  "hmap h f = map_option hf_val (hash_find h f)"

abbreviation hash_ok :: "arhash \<Rightarrow> bool" where
  "hash_ok h \<equiv> payload_ok (PHash h)"

lemma hash_size: "hash_obj_bytes h = sizeof_ArHash + length (h_buckets h) * sizeof_ptr +
    sum_mset (image_mset (\<lambda>f. sizeof_ArHashField + length (hf_field f) + length (hf_val f)) (mset (concat (h_buckets h))))"
  by (simp add: hash_obj_bytes_def flip: mset_map sum_mset_sum_list)

lemma hmap_create [simp]: "hmap hash_create = Map.empty"
proof
  fix f
  have "ct_find hf_field (replicate 16 []) f = None"
    using ct_find_None [OF ct_ok_empty [of 16 hf_field], of f] by simp
  then show "hmap hash_create f = None" by (simp add: hmap_def hash_find_def hash_create_def)
qed

lemma hash_set_val_ok:
  assumes ok: "hash_ok h" and f: "hash_find h f = Some x"
  shows "hash_ok (hash_set_val h x v)" "hmap (hash_set_val h x v) = (hmap h)(f \<mapsto> v)"
    "h_nfields (hash_set_val h x v) = h_nfields h"
proof -
  have k: "ct_ok hf_field (h_buckets h)" using ok by simp
  have x: "hf_field x = f" using f hf.lookup_iff [OF k] by (simp add: hash_find_def)
  have fd: "ct_find hf_field (h_buckets h) (hf_field (x\<lparr> hf_val := v \<rparr>)) = Some x"
    using f x by (simp add: hash_find_def)
  show "hash_ok (hash_set_val h x v)"
    using ok hf.inv_store [OF k fd] by (simp add: hash_set_val_def)
  show "hmap (hash_set_val h x v) = (hmap h)(f \<mapsto> v)"
    using hf.lookup_store [OF k fd] x by (auto simp: hmap_def hash_find_def hash_set_val_def)
  show "h_nfields (hash_set_val h x v) = h_nfields h" by (simp add: hash_set_val_def)
qed

lemma hash_add_ok:
  assumes ok: "hash_ok h" and f: "hash_find h f = None"
  shows "hash_ok (hash_add h f v)" "hmap (hash_add h f v) = (hmap h)(f \<mapsto> v)"
    "h_nfields (hash_add h f v) = h_nfields h + 1"
    "hash_find (hash_add h f v) f = Some \<lparr> hf_field = f, hf_val = v \<rparr>"
proof -
  let ?x = "\<lparr> hf_field = f, hf_val = v \<rparr>"
  have k: "ct_ok hf_field (h_buckets h)" using ok by simp
  have fd: "ct_find hf_field (h_buckets h) (hf_field ?x) = None" using f by (simp add: hash_find_def)
  have "length (concat (ct_push hf_field (h_buckets h) ?x)) = Suc (length (concat (h_buckets h)))"
    using k by (intro length_push) (simp add: ct_ok_def)
  then show "hash_ok (hash_add h f v)"
    using ok hf.inv_push [OF k fd] by (simp add: hash_add_def)
  show "hmap (hash_add h f v) = (hmap h)(f \<mapsto> v)"
    using hf.lookup_push [OF k fd] by (auto simp: hmap_def hash_find_def hash_add_def)
  show "h_nfields (hash_add h f v) = h_nfields h + 1" by (simp add: hash_add_def)
  show "hash_find (hash_add h f v) f = Some ?x"
    using hf.lookup_push [OF k fd] by (simp add: hash_find_def hash_add_def)
qed

lemma hash_maybe_rehash_ok:
  assumes ok: "hash_ok h"
  shows "hash_ok (hash_maybe_rehash a h)" "hmap (hash_maybe_rehash a h) = hmap h"
    "h_nfields (hash_maybe_rehash a h) = h_nfields h"
proof -
  have k: "ct_ok hf_field (h_buckets h)" using ok by simp
  have "length (concat (ct_rehash hf_field (h_buckets h))) = length (concat (h_buckets h))"
    using hf.items_grow [OF k] by (metis size_mset)
  then show "hash_ok (hash_maybe_rehash a h)"
    using ok hf.inv_grow [OF k] by (simp add: hash_maybe_rehash_def)
  show "hmap (hash_maybe_rehash a h) = hmap h"
    using hf.lookup_grow [OF k] by (auto simp: hmap_def hash_find_def hash_maybe_rehash_def)
  show "h_nfields (hash_maybe_rehash a h) = h_nfields h" by (simp add: hash_maybe_rehash_def)
qed

lemma hash_drop_ok:
  assumes ok: "hash_ok h" and f: "hash_find h f = Some x"
  defines "h' \<equiv> h\<lparr> h_buckets := ct_drop hf_field (h_buckets h) f, h_nfields := h_nfields h - 1 \<rparr>"
  shows "hash_ok h'" "hmap h' = (hmap h)(f := None)" "h_nfields h = h_nfields h' + 1"
    "hash_obj_bytes h' \<le> hash_obj_bytes h"
proof -
  have k: "ct_ok hf_field (h_buckets h)" using ok by simp
  have fd: "ct_find hf_field (h_buckets h) f = Some x" using f by (simp add: hash_find_def)
  have x: "x \<in> set (concat (h_buckets h))" using hf.lookup_iff [OF k] fd by blast
  have m: "mset (concat (h_buckets h)) = add_mset x (mset (concat (h_buckets h')))"
    using hf.items_remove [OF k fd] x by (simp add: h'_def del: mset_concat)
  have l: "length (concat (h_buckets h)) = Suc (length (concat (h_buckets h')))"
    using arg_cong [OF m, of size] by (simp del: mset_concat)
  show "hash_ok h'" "h_nfields h = h_nfields h' + 1"
    using ok hf.inv_remove [OF k fd] l by (simp_all add: h'_def)
  show "hmap h' = (hmap h)(f := None)"
    using hf.lookup_remove [OF k fd] by (auto simp: hmap_def hash_find_def h'_def)
  show "hash_obj_bytes h' \<le> hash_obj_bytes h"
    unfolding hash_size m by (simp add: h'_def del: mset_concat)
qed

lemma hset_fields_ok:
  assumes "hash_ok h"
  shows "hash_ok (fst (hset_fields True h n kvs)) \<and>
    hmap (fst (hset_fields True h n kvs)) = foldl (\<lambda>m (f, v). m(f \<mapsto> v)) (hmap h) kvs \<and>
    h_nfields (fst (hset_fields True h n kvs)) + n = h_nfields h + snd (hset_fields True h n kvs)"
  using assms
proof (induction kvs arbitrary: h n)
  case Nil
  then show ?case by simp
next
  case (Cons kv kvs)
  obtain f v where kv: "kv = (f, v)" by fastforce
  show ?case
  proof (cases "hash_find h f")
    case None
    note add = hash_add_ok [OF Cons.prems None, of v]
    note re = hash_maybe_rehash_ok [OF add(1), of True]
    show ?thesis using Cons.IH [OF re(1), of "n + 1"] re add None kv by simp
  next
    case (Some x)
    note sv = hash_set_val_ok [OF Cons.prems Some, of v]
    show ?thesis using Cons.IH [OF sv(1), of n] sv Some kv by simp
  qed
qed

lemma hset_fields_nomem: "hset_fields False h n kvs = (h, n)"
  by (induction kvs arbitrary: n) (auto split: option.split)

lemma hdel_fields_ok:
  assumes "hash_ok h"
  shows "hash_ok (fst (hdel_fields h n fs)) \<and> hmap (fst (hdel_fields h n fs)) = (hmap h) |` (- set fs) \<and>
    h_nfields h + n = h_nfields (fst (hdel_fields h n fs)) + snd (hdel_fields h n fs) \<and>
    hash_obj_bytes (fst (hdel_fields h n fs)) \<le> hash_obj_bytes h"
  using assms
proof (induction fs arbitrary: h n)
  case Nil
  then show ?case by (auto simp: restrict_map_def)
next
  case (Cons f fs)
  show ?case
  proof (cases "hash_find h f")
    case None
    then have "hmap h f = None" by (simp add: hmap_def)
    then have "hmap h |` (- set fs) = hmap h |` (- set (f # fs))" by (auto simp: restrict_map_def)
    with None Cons.IH [OF Cons.prems, of n] show ?thesis by simp
  next
    case (Some x)
    let ?h = "h\<lparr> h_buckets := ct_drop hf_field (h_buckets h) f, h_nfields := h_nfields h - 1 \<rparr>"
    note d = hash_drop_ok [OF Cons.prems Some]
    have "(hmap h)(f := None) |` (- set fs) = hmap h |` (- set (f # fs))" by (auto simp: restrict_map_def)
    with Cons.IH [OF d(1), of "n + 1"] d Some show ?thesis by simp
  qed
qed

lemma hdel_fields_none: "hdel_fields h n fs = (h', n') \<Longrightarrow> n \<le> n' \<and> (n' = n \<longrightarrow> h' = h)"
proof (induction fs arbitrary: h n)
  case Nil
  then show ?case by simp
next
  case (Cons f fs)
  show ?case
  proof (cases "hash_find h f")
    case None
    then have "hdel_fields h n fs = (h', n')" using Cons.prems by simp
    then show ?thesis by (rule Cons.IH)
  next
    case (Some x)
    with Cons.prems Cons.IH [of _ "n + 1"] show ?thesis by fastforce
  qed
qed

lemma hincr_store_ok:
  assumes ok: "hash_ok h"
  shows "hash_ok (hincr_store h f v)" "hmap (hincr_store h f v) = (hmap h)(f \<mapsto> show_int v)"
proof -
  have "hash_ok (hincr_store h f v) \<and> hmap (hincr_store h f v) = (hmap h)(f \<mapsto> show_int v)"
  proof (cases "hash_find h f")
    case None
    note add = hash_add_ok [OF ok None, of "''0''"]
    show ?thesis using hash_set_val_ok [OF add(1,4), of "show_int v"] add(2) None
      by (simp add: hincr_store_def Let_def)
  next
    case (Some x)
    then show ?thesis using hash_set_val_ok [OF ok Some, of "show_int v"] by (simp add: hincr_store_def)
  qed
  then show "hash_ok (hincr_store h f v)" "hmap (hincr_store h f v) = (hmap h)(f \<mapsto> show_int v)" by blast+
qed

text \<open>The counter is the number of fields of the map.\<close>

lemma hash_fields:
  assumes ok: "hash_ok h"
  shows "dom (hmap h) = hf_field ` set (concat (h_buckets h))" "h_nfields h = card (dom (hmap h))"
proof -
  have k: "ct_ok hf_field (h_buckets h)" using ok by simp
  show d: "dom (hmap h) = hf_field ` set (concat (h_buckets h))"
    using hf.lookup_None [OF k] by (auto simp: hmap_def hash_find_def dom_def simp del: set_concat)
  have "distinct (map hf_field (concat (h_buckets h)))" using k by (simp add: ct_ok_def)
  then have "card (set (map hf_field (concat (h_buckets h)))) = length (map hf_field (concat (h_buckets h)))"
    by (rule distinct_card)
  then show "h_nfields h = card (dom (hmap h))" using ok d by (simp del: set_concat)
qed


section \<open>Commands, proved\<close>

definition hview :: "obs option \<Rightarrow> bytes \<Rightarrow> bytes option" where
  "hview r = (case r of None \<Rightarrow> Map.empty
     | Some v \<Rightarrow> (case o_pay v of PHash h \<Rightarrow> hmap h | _ \<Rightarrow> Map.empty))"

lemma hview_simps [simp]:
  "hview None = Map.empty"
  "hview (Some (v\<lparr> o_pay := PHash h \<rparr>)) = hmap h"
  by (simp_all add: hview_def)

lemma payload_hash: "payload_type p = THash \<longleftrightarrow> p = PHash (hash_of p)"
  by (cases p) simp_all

lemma hview_entry: "etype e = THash \<Longrightarrow> hview (Some (obs_of e)) = hmap (hash_of (epay e))"
  by (cases "epay e") (simp_all add: hview_def)

lemma hview_before: "\<not> wrong THash r \<Longrightarrow> hview r = hmap (hash_of (o_pay (typed_before THash r)))"
  by (cases r) (auto simp: fresh_obs_def new_payload_def hview_def split: payload.split)

lemma cursor_hash_ok: "cursor s c e N \<Longrightarrow> etype e = THash \<Longrightarrow> hash_ok (hash_of (epay e))"
  by (cases "epay e") (simp_all add: cursor_def)

lemma lift_hash:
  assumes "\<And>h. hash_ok h \<Longrightarrow> hash_ok (f h)"
  shows "\<forall>p. payload_type p = THash \<and> payload_ok p \<longrightarrow>
    payload_ok (PHash (f (hash_of p))) \<and> payload_type (PHash (f (hash_of p))) = THash"
proof (intro allI impI)
  fix p assume p: "payload_type p = THash \<and> payload_ok p"
  then have "hash_ok (hash_of p)" by (cases p) simp_all
  then have "payload_ok (PHash (f (hash_of p)))" by (rule assms)
  then show "payload_ok (PHash (f (hash_of p))) \<and> payload_type (PHash (f (hash_of p))) = THash" by simp
qed

lemma hset_ok:
  assumes w: "wf s c" and a: "alloc_ok c" and ne: "kvs \<noteq> []" and r: "ar_hash_hset c k kvs = (c', n, wt)"
  shows "steps s (droppable c) {k} {} c c'" "wt = wrong THash (live c k)" "wt \<Longrightarrow> c' = c \<and> n = - 1"
    "\<not> wt \<Longrightarrow> \<exists>h. hash_ok h \<and> hmap h = foldl (\<lambda>m (f, v). m(f \<mapsto> v)) (hview (live c k)) kvs \<and>
       yields c' ((live c)(k \<mapsto> (typed_before THash (live c k))\<lparr> o_pay := PHash h \<rparr>)) \<and>
       (n + int (card (dom (hview (live c k)))) = int (card (dom (hmap h))) \<or> n = - 1 \<and> live c' k = None)"
proof -
  let ?g = "\<lambda>p. PHash (fst (hset_fields True (hash_of p) 0 kvs))"
  have g: "\<forall>p. payload_type p = THash \<and> payload_ok p \<longrightarrow> payload_ok (?g p) \<and> payload_type (?g p) = THash"
    by (rule lift_hash) (use hset_fields_ok in blast)
  define m where "m = foldl (\<lambda>m (f, v). m(f \<mapsto> v)) (hview (live c k)) kvs"
  have "steps s (droppable c) {k} {} c c' \<and> wt = wrong THash (live c k) \<and> (wt \<longrightarrow> c' = c \<and> n = - 1) \<and>
    (\<not> wt \<longrightarrow> (\<exists>h. hash_ok h \<and> hmap h = m \<and>
       yields c' ((live c)(k \<mapsto> (typed_before THash (live c k))\<lparr> o_pay := PHash h \<rparr>)) \<and>
       (n + int (card (dom (hview (live c k)))) = int (card (dom (hmap h))) \<or> n = - 1 \<and> live c' k = None)))"
  proof (cases rule: grow_command [OF w a g, where k = k])
    case 1
    with r ne w show ?thesis by (simp add: ar_hash_hset_def steps_refl)
  next
    case (2 c1)
    let ?h = "fst (hset_fields True hash_create 0 kvs)"
    have "c' = c1 \<and> n = - 1 \<and> \<not> wt" using r ne 2(1) by (simp add: ar_hash_hset_def)
    moreover have "hash_ok hash_create" using new_payload_ok(1) [of THash] by (simp add: new_payload_def)
    then have "hash_ok ?h \<and> hmap ?h = m"
      using hset_fields_ok [of hash_create 0 kvs] 2(2) by (simp add: m_def)
    ultimately show ?thesis using 2 by auto
  next
    case (3 c1 e b tr)
    let ?h = "fst (hset_fields True (hash_of (epay e)) 0 kvs)"
    have ok: "hash_ok (hash_of (epay e))" using 3(3,5) by (cases "epay e") simp_all
    have v: "hview (live c k) = hmap (hash_of (epay e))"
      using hview_before [OF 3(2)] arg_cong [OF 3(4), of o_pay] by simp
    note h = hset_fields_ok [OF ok, of 0 kvs]
    have "c' = payload_commit c1 k e (PHash ?h) \<and> n = int (snd (hset_fields True (hash_of (epay e)) 0 kvs)) \<and> \<not> wt"
      using r ne 3(1,6) by (auto simp: ar_hash_hset_def split: prod.splits)
    moreover have "int (snd (hset_fields True (hash_of (epay e)) 0 kvs)) + int (card (dom (hview (live c k)))) =
        int (card (dom (hmap ?h)))"
      using h hash_fields(2) [OF ok] hash_fields(2) [of ?h] v by simp
    ultimately show ?thesis using 3(2,7,8) h v by (auto simp: m_def)
  qed
  then show "steps s (droppable c) {k} {} c c'" "wt = wrong THash (live c k)" "wt \<Longrightarrow> c' = c \<and> n = - 1"
    "\<not> wt \<Longrightarrow> \<exists>h. hash_ok h \<and> hmap h = foldl (\<lambda>m (f, v). m(f \<mapsto> v)) (hview (live c k)) kvs \<and>
       yields c' ((live c)(k \<mapsto> (typed_before THash (live c k))\<lparr> o_pay := PHash h \<rparr>)) \<and>
       (n + int (card (dom (hview (live c k)))) = int (card (dom (hmap h))) \<or> n = - 1 \<and> live c' k = None)"
    unfolding m_def by blast+
qed

definition counter_text :: "bytes option \<Rightarrow> int option" where
  "counter_text r = (case r of None \<Rightarrow> Some 0 | Some x \<Rightarrow> if length x \<ge> 64 then None else strtoll_all x)"

lemma hincr_read_text: "hincr_read (hash_find h f) = counter_text (hmap h f)"
  by (cases "hash_find h f") (simp_all add: hincr_read_def counter_text_def hmap_def)

lemma hincrby_ok:
  assumes w: "wf s c" and a: "alloc_ok c" and r: "ar_hash_hincrby c k f d = (c', n, wt, ni)"
  shows "steps s (droppable c) {k} {} c c'" "wt = wrong THash (live c k)" "wt \<Longrightarrow> c' = c"
    "\<not> wt \<Longrightarrow> counter_text (hview (live c k) f) = None \<Longrightarrow> ni \<and> c' = c"
    "\<not> wt \<Longrightarrow> counter_text (hview (live c k) f) = Some v \<Longrightarrow> \<not> ni \<and>
       (\<exists>h. hash_ok h \<and> hmap h = (hview (live c k))(f \<mapsto> show_int (s64 (v + d))) \<and>
         yields c' ((live c)(k \<mapsto> (typed_before THash (live c k))\<lparr> o_pay := PHash h \<rparr>))) \<and>
       (n = s64 (v + d) \<or> n = 0 \<and> live c' k = None)"
proof -
  define F where "F h = hincr_store h f (s64 (the (counter_text (hmap h f)) + d))" for h
  have F: "hash_ok (F h)" "hmap (F h) = (hmap h)(f \<mapsto> show_int (s64 (the (counter_text (hmap h f)) + d)))"
    if "hash_ok h" for h using hincr_store_ok [OF that] by (simp_all add: F_def)
  have g: "\<forall>p. payload_type p = THash \<and> payload_ok p \<longrightarrow>
      payload_ok (PHash (F (hash_of p))) \<and> payload_type (PHash (F (hash_of p))) = THash"
    by (rule lift_hash) (rule F)
  let ?ct = "counter_text (hview (live c k) f)"
  have "steps s (droppable c) {k} {} c c' \<and> wt = wrong THash (live c k) \<and> (wt \<longrightarrow> c' = c) \<and>
    (\<not> wt \<longrightarrow> ?ct = None \<longrightarrow> ni \<and> c' = c) \<and>
    (\<not> wt \<longrightarrow> ?ct = Some v \<longrightarrow> \<not> ni \<and>
       (\<exists>h. hash_ok h \<and> hmap h = (hview (live c k))(f \<mapsto> show_int (s64 (v + d))) \<and>
         yields c' ((live c)(k \<mapsto> (typed_before THash (live c k))\<lparr> o_pay := PHash h \<rparr>))) \<and>
       (n = s64 (v + d) \<or> n = 0 \<and> live c' k = None))"
  proof (cases rule: grow_command [OF w a g, where k = k])
    case 1
    with r w show ?thesis by (simp add: ar_hash_hincrby_def steps_refl)
  next
    case (2 c1)
    have "hash_ok hash_create" using new_payload_ok(1) [of THash] by (simp add: new_payload_def)
    note F0 = F [OF this]
    have "c' = c1 \<and> n = 0 \<and> \<not> wt \<and> \<not> ni" using r 2(1) by (simp add: ar_hash_hincrby_def)
    with F0 2 show ?thesis by (auto simp: counter_text_def)
  next
    case (3 c1 e b tr)
    have ok: "hash_ok (hash_of (epay e))" using 3(3,5) by (cases "epay e") simp_all
    have hv: "hview (live c k) = hmap (hash_of (epay e))"
      using hview_before [OF 3(2)] arg_cong [OF 3(4), of o_pay] by simp
    show ?thesis
    proof (cases ?ct)
      case None
      then have "live c k \<noteq> None" by (cases "live c k") (simp_all add: counter_text_def)
      with 3(9) have "c1 = c" by simp
      then have "c' = c \<and> \<not> wt \<and> ni"
        using r 3(1) None by (simp add: ar_hash_hincrby_def hincr_read_text hv Let_def)
      with None 3(2) w show ?thesis by (simp add: steps_refl)
    next
      case (Some x)
      then have "c' = payload_commit c1 k e (PHash (F (hash_of (epay e)))) \<and> n = s64 (x + d) \<and> \<not> wt \<and> \<not> ni"
        using r 3(1,6) by (auto simp: ar_hash_hincrby_def hincr_read_text hv Let_def F_def)
      then show ?thesis using 3(2,7,8) F [OF ok] Some by (auto simp: hv)
    qed
  qed
  then show "steps s (droppable c) {k} {} c c'" "wt = wrong THash (live c k)" "wt \<Longrightarrow> c' = c"
    "\<not> wt \<Longrightarrow> counter_text (hview (live c k) f) = None \<Longrightarrow> ni \<and> c' = c"
    "\<not> wt \<Longrightarrow> counter_text (hview (live c k) f) = Some v \<Longrightarrow> \<not> ni \<and>
       (\<exists>h. hash_ok h \<and> hmap h = (hview (live c k))(f \<mapsto> show_int (s64 (v + d))) \<and>
         yields c' ((live c)(k \<mapsto> (typed_before THash (live c k))\<lparr> o_pay := PHash h \<rparr>))) \<and>
       (n = s64 (v + d) \<or> n = 0 \<and> live c' k = None)" by blast+
qed

lemma hget_ok:
  assumes w: "wf s c" and r: "ar_hash_hget c k f = (c', v, wt)"
  shows "steps s P K W c c'" "wt = wrong THash (live c k)" "v = (if alloc_ok c \<and> \<not> wt then hview (live c k) f else None)"
proof -
  have "steps s P K W c c' \<and> wt = wrong THash (live c k) \<and> v = (if alloc_ok c \<and> \<not> wt then hview (live c k) f else None)"
    using w
  proof (cases rule: typed_cases [of s c k THash])
    case (found e b tr N)
    then show ?thesis using r w hview_entry [OF found(5)]
      by (auto simp: ar_hash_hget_def steps_refl hmap_def split: option.splits)
  next
    case (wrong x)
    with r w show ?thesis by (simp add: ar_hash_hget_def steps_refl)
  next
    case (missing c1)
    then show ?thesis using r by (auto simp: ar_hash_hget_def)
  qed
  then show "steps s P K W c c'" "wt = wrong THash (live c k)"
    "v = (if alloc_ok c \<and> \<not> wt then hview (live c k) f else None)" by blast+
qed

lemma hlen_ok:
  assumes w: "wf s c" and r: "ar_hash_hlen c k = (c', n, wt)"
  shows "steps s P K W c c'" "wt = wrong THash (live c k)" "\<not> wt \<Longrightarrow> n = int (card (dom (hview (live c k))))"
proof -
  have "steps s P K W c c' \<and> wt = wrong THash (live c k) \<and> (\<not> wt \<longrightarrow> n = int (card (dom (hview (live c k)))))"
    using w
  proof (cases rule: typed_cases [of s c k THash])
    case (found e b tr N)
    then show ?thesis using r w hview_entry [OF found(5)] hash_fields(2) [OF cursor_hash_ok [OF found(4,5)]]
      by (auto simp: ar_hash_hlen_def steps_refl)
  next
    case (wrong x)
    with r w show ?thesis by (simp add: ar_hash_hlen_def steps_refl)
  next
    case (missing c1)
    then show ?thesis using r by (auto simp: ar_hash_hlen_def)
  qed
  then show "steps s P K W c c'" "wt = wrong THash (live c k)" "\<not> wt \<Longrightarrow> n = int (card (dom (hview (live c k))))"
    by blast+
qed

lemma hexists_ok:
  assumes w: "wf s c" and r: "ar_hash_hexists c k f = (c', n, wt)"
  shows "steps s P K W c c'" "wt = wrong THash (live c k)" "\<not> wt \<Longrightarrow> n = of_bool (hview (live c k) f \<noteq> None)"
proof -
  have "steps s P K W c c' \<and> wt = wrong THash (live c k) \<and> (\<not> wt \<longrightarrow> n = of_bool (hview (live c k) f \<noteq> None))"
    using w
  proof (cases rule: typed_cases [of s c k THash])
    case (found e b tr N)
    then show ?thesis using r w hview_entry [OF found(5)] by (auto simp: ar_hash_hexists_def steps_refl hmap_def)
  next
    case (wrong x)
    with r w show ?thesis by (simp add: ar_hash_hexists_def steps_refl)
  next
    case (missing c1)
    then show ?thesis using r by (auto simp: ar_hash_hexists_def)
  qed
  then show "steps s P K W c c'" "wt = wrong THash (live c k)" "\<not> wt \<Longrightarrow> n = of_bool (hview (live c k) f \<noteq> None)"
    by blast+
qed

text \<open>HDEL keeps the other fields, and a hash that loses its last field loses its key.\<close>

definition hdel_result :: "obs option \<Rightarrow> bytes list \<Rightarrow> obs option \<Rightarrow> bool" where
  "hdel_result r fs r' \<longleftrightarrow>
     hview r' = hview r |` (- set fs) \<and>
     (case r of None \<Rightarrow> r' = None
      | Some v \<Rightarrow> if hview r |` (- set fs) = Map.empty then r' = None
                  else \<exists>h. hash_ok h \<and> r' = Some (v\<lparr> o_pay := PHash h \<rparr>))"

lemma hmap_empty: "hash_ok h \<Longrightarrow> h_nfields h = 0 \<longleftrightarrow> hmap h = Map.empty"
proof -
  assume ok: "hash_ok h"
  have "finite (dom (hmap h))" by (simp only: hash_fields(1) [OF ok] finite_imageI finite_set)
  then show ?thesis by (simp add: hash_fields(2) [OF ok] card_eq_0_iff dom_eq_empty_conv del: set_concat)
qed

lemma hdel_ok:
  assumes w: "wf s c" and r: "ar_hash_hdel c k fs = (c', n, wt)"
  shows "steps s (\<lambda>_. False) {k} {} c c'" "wt = wrong THash (live c k)" "wt \<Longrightarrow> live c' = live c"
    "\<not> wt \<Longrightarrow> hdel_result (live c k) fs (live c' k) \<and> (\<forall>k'. k' \<noteq> k \<longrightarrow> live c' k' = live c k') \<and>
       n + int (card (dom (hview (live c' k)))) = int (card (dom (hview (live c k))))"
proof -
  define goal where "goal \<longleftrightarrow> steps s (\<lambda>_. False) {k} {} c c' \<and> wt = wrong THash (live c k) \<and>
    (wt \<longrightarrow> live c' = live c) \<and>
    (\<not> wt \<longrightarrow> hdel_result (live c k) fs (live c' k) \<and> (\<forall>k'. k' \<noteq> k \<longrightarrow> live c' k' = live c k') \<and>
       n + int (card (dom (hview (live c' k)))) = int (card (dom (hview (live c k)))))"
  have goal
    using w
  proof (cases rule: typed_cases [of s c k THash])
    case (found e b tr N)
    let ?h0 = "hash_of (epay e)"
    obtain h m where h: "hdel_fields ?h0 0 fs = (h, m)" by fastforce
    have ok0: "hash_ok ?h0" using found(4,5) by (rule cursor_hash_ok)
    note hd = hdel_fields_ok [OF ok0, of 0 fs, unfolded h fst_conv snd_conv]
    have hv: "hview (live c k) = hmap ?h0" using hview_entry [OF found(5)] found(6) by simp
    have le: "payload_bytes (PHash h) \<le> payload_bytes (epay e)"
      using hd found(5) by (cases "epay e") simp_all
    obtain c1 e1 where 1: "payload_shrink c e (PHash h) = (c1, e1)" by fastforce
    have "hash_ok h" "payload_type (PHash h) = etype e" using hd found(5) by simp_all
    note sh = shrink_slot [OF found(4,2,6) this(2,1) le 1]
    have ev: "evo (\<lambda>_. False) {k} {k} c c1" using upd_evo [OF found(4) sh(1)] found(2) by simp
    have n: "int m + int (card (dom (hmap h))) = int (card (dom (hview (live c k))))"
      using hd hash_fields(2) [OF ok0] hash_fields(2) [of h] hv by simp
    have l1: "live c1 k = Some ((obs_of e)\<lparr> o_pay := PHash h \<rparr>)" using sh(2) by simp
    show ?thesis
    proof (cases "h_nfields h = 0")
      case True
      have emp: "hmap h = Map.empty" using True hmap_empty [of h] hd by simp
      have "wf s c1" using upd_cursor [OF sh(1)] by (rule wf_of_cursor)
      then show ?thesis
      proof (cases rule: find_cases [of s c1 k])
        case (found e2 b2 tr2 N2)
        have "c' = ar_entry_free_ex c1 b2 tr2 e2 \<and> n = int m \<and> \<not> wt"
          using r \<open>ar_entry_get_typed c k THash = _\<close> h 1 True found(1) by (simp add: ar_hash_hdel_def)
        then show ?thesis
          using written_free [OF ev found(4,3,2)] n hd hv emp \<open>live c k = _\<close> \<open>etype e = _\<close>
          by (simp add: goal_def hdel_result_def)
      next
        case (missing c2)
        with l1 show ?thesis by simp
      qed
    next
      case False
      have ne: "hmap h \<noteq> Map.empty" using False hmap_empty [of h] hd by simp
      have c': "c' = (if m > 0 then ar_watch_touch c1 k else c1) \<and> n = int m \<and> \<not> wt"
        using r found(1) h 1 False by (auto simp: ar_hash_hdel_def split: if_splits)
      have lv: "live c' = (live c)(k \<mapsto> (obs_of e)\<lparr> o_pay := PHash h \<rparr>)" using c' sh(2) by simp
      have "hview (Some (obs_of e)) |` (- set fs) \<noteq> Map.empty" using ne hd hv found(6) by simp
      then have res: "hdel_result (live c k) fs (live c' k)"
        using found(6) lv hd hv ne by (auto simp: hdel_result_def)
      have "steps s (\<lambda>_. False) {k} {} c c'"
      proof (cases "m > 0")
        case True
        then show ?thesis using c' sh(3) by simp
      next
        case False
        then have "h = ?h0" using hdel_fields_none [OF h] by simp
        then have "PHash h = epay e" using found(5) by (cases "epay e") simp_all
        then have "(obs_of e)\<lparr> o_pay := PHash h \<rparr> = obs_of e" by (simp add: obs_of_def)
        then have "steps s (\<lambda>_. False) {} {} c c1"
          using shrink_upd(3) [OF found(4) _ _ le 1] hd found(5) by (intro upd_same_obs [OF found(4) sh(1)]) simp
        then have "steps s (\<lambda>_. False) {k} {} c c1" by (rule steps_mono) simp_all
        then show ?thesis using c' False by simp
      qed
      then show ?thesis using res lv c' n found by (simp add: goal_def)
    qed
  next
    case (wrong x)
    with r w show ?thesis by (simp add: goal_def ar_hash_hdel_def steps_refl)
  next
    case (missing c1)
    then show ?thesis using r by (auto simp: goal_def ar_hash_hdel_def hdel_result_def)
  qed
  then show "steps s (\<lambda>_. False) {k} {} c c'" "wt = wrong THash (live c k)" "wt \<Longrightarrow> live c' = live c"
    "\<not> wt \<Longrightarrow> hdel_result (live c k) fs (live c' k) \<and> (\<forall>k'. k' \<noteq> k \<longrightarrow> live c' k' = live c k') \<and>
       n + int (card (dom (hview (live c' k)))) = int (card (dom (hview (live c k))))"
    unfolding goal_def by blast+
qed


section \<open>HSCAN, proved\<close>

definition hpage :: "(bytes \<Rightarrow> bool) \<Rightarrow> hfield list \<Rightarrow> bytes list" where
  "hpage m fs = concat (map (\<lambda>f. [hf_field f, hf_val f]) (filter (\<lambda>f. m (hf_field f)) fs))"

lemma hscan_chain_eq: "hscan_chain m True fs acc = acc @ hpage m fs"
  by (induction fs arbitrary: acc) (simp_all add: hpage_def)

lemma hpage_append [simp]: "hpage m (xs @ ys) = hpage m xs @ hpage m ys" "hpage m [] = []"
  by (simp_all add: hpage_def)

lemma hscan_slots_eq:
  "idx < length tbl \<Longrightarrow> hscan_slots m True tbl (Suc n) idx acc =
     (acc @ hpage m (concat (take (Suc n) (drop idx tbl))),
      if idx + Suc n \<ge> length tbl then 0 else idx + Suc n)"
proof (induction n arbitrary: idx acc)
  case 0
  then show ?case by (simp add: hscan_chain_eq Let_def flip: Cons_nth_drop_Suc)
next
  case (Suc n)
  have d: "drop idx tbl = tbl ! idx # drop (Suc idx) tbl" using Suc.prems by (simp add: Cons_nth_drop_Suc)
  show ?case
  proof (cases "idx + 1 \<ge> length tbl")
    case True
    then show ?thesis using d by (subst hscan_slots.simps(2)) (simp add: hscan_chain_eq Let_def)
  next
    case False
    then have "hscan_slots m True tbl (Suc (Suc n)) idx acc =
        hscan_slots m True tbl (Suc n) (Suc idx) (acc @ hpage m (tbl ! idx))"
      by (subst hscan_slots.simps(2)) (simp add: hscan_chain_eq Let_def del: hscan_slots.simps)
    then show ?thesis using Suc.IH [of "Suc idx" "acc @ hpage m (tbl ! idx)"] False d
      by (simp del: hscan_slots.simps)
  qed
qed

lemma hscan_found:
  assumes w: "wf s c" and a: "alloc_ok c" and t: "ar_entry_get_typed c k THash = (c, Some (e, b, tr), False)"
    and ok: "hash_ok (hash_of (epay e))"
  defines "tbl \<equiv> h_buckets (hash_of (epay e))"
  assumes cu: "cur < length tbl" and r: "ar_hscan c k cur pat cnt = (c', els, next, wt)"
  shows "c' = c \<and> \<not> wt \<and> els = hpage (scan_matches pat) (concat (take (scan_width cnt) (drop cur tbl))) \<and>
    (next = 0 \<longrightarrow> concat (drop (cur + scan_width cnt) tbl) = []) \<and>
    (next \<noteq> 0 \<longrightarrow> next = cur + scan_width cnt \<and> next < length tbl)"
proof (cases "h_nfields (hash_of (epay e)) = 0")
  case True
  then have "concat tbl = []" using ok by (simp add: tbl_def)
  then have e: "concat (take n (drop cur tbl)) = []" "concat (drop n tbl) = []" for n
    by (auto dest: in_set_takeD in_set_dropD)
  have "hpage (scan_matches pat) (concat (take (scan_width cnt) (drop cur tbl))) = []"
    by (simp only: e hpage_append(2))
  with e(2) [of "cur + scan_width cnt"] True r t cu show ?thesis by (simp add: ar_hscan_def)
next
  case False
  obtain n where n: "scan_width cnt = Suc n"
    by (cases "scan_width cnt") (auto simp: scan_width_def split: if_splits)
  have "(case hscan_slots (scan_matches pat) True tbl (scan_width cnt) cur [] of (els, nx) \<Rightarrow> (c, els, nx, False)) =
      (c', els, next, wt)"
    using False r t a cu by (simp add: ar_hscan_def tbl_def scan_width_def min_def Let_def split: if_splits)
  then show ?thesis unfolding n hscan_slots_eq [OF cu]
    by (auto simp del: hscan_slots.simps split: if_splits)
qed

text \<open>A client's HSCAN loop, one COUNT per call, until the cursor is back at 0.\<close>

fun hscan_session :: "core \<Rightarrow> bytes \<Rightarrow> nat \<Rightarrow> bytes \<Rightarrow> int list \<Rightarrow> bytes list \<times> nat" where
  "hscan_session c key cur pat [] = ([], cur)"
| "hscan_session c key cur pat (cnt # cnts) =
     (case ar_hscan c key cur pat cnt of
        (c, els, next, wt) \<Rightarrow>
          if next = 0 then (els, 0)
          else (case hscan_session c key next pat cnts of (rest, cur) \<Rightarrow> (els @ rest, cur)))"

lemma hscan_session_ok:
  assumes w: "wf s c" and a: "alloc_ok c" and t: "ar_entry_get_typed c k THash = (c, Some (e, b, tr), False)"
    and ok: "hash_ok (hash_of (epay e))"
  defines "tbl \<equiv> h_buckets (hash_of (epay e))"
  shows "cur < length tbl \<Longrightarrow> cnts \<noteq> [] \<Longrightarrow> hscan_session c k cur pat cnts = (els, 0) \<Longrightarrow>
    els = hpage (scan_matches pat) (concat (drop cur tbl))"
proof (induction cnts arbitrary: cur els)
  case Nil
  then show ?case by simp
next
  case (Cons cnt cnts)
  obtain c1 page nx wt where 1: "ar_hscan c k cur pat cnt = (c1, page, nx, wt)"
    by (cases "ar_hscan c k cur pat cnt") auto
  note h = hscan_found [OF w a t ok Cons.prems(1) [unfolded tbl_def] 1, folded tbl_def]
  have split: "concat (drop cur tbl) = concat (take (scan_width cnt) (drop cur tbl)) @ concat (drop (cur + scan_width cnt) tbl)"
    by (metis add.commute append_take_drop_id concat_append drop_drop)
  show ?case
  proof (cases "nx = 0")
    case True
    then have "els = page" using Cons.prems(3) 1 by simp
    moreover have e: "concat (drop (cur + scan_width cnt) tbl) = []" using h True by simp
    ultimately show ?thesis using h split unfolding e by simp
  next
    case False
    obtain rest fin where 2: "hscan_session c k nx pat cnts = (rest, fin)" by fastforce
    have e: "els = page @ rest" "fin = 0" using Cons.prems(3) 1 2 False h by auto
    have "cnts \<noteq> []" using 2 e(2) False by (cases cnts) auto
    then have "rest = hpage (scan_matches pat) (concat (drop nx tbl))"
      using Cons.IH [of nx rest] 2 e(2) h False by simp
    then show ?thesis using e(1) h False split by simp
  qed
qed

lemma hpage_pairs:
  fixes m :: "bytes \<Rightarrow> bool"
  assumes ok: "hash_ok h"
  defines "fs \<equiv> map (\<lambda>f. (hf_field f, hf_val f)) (filter (\<lambda>f. m (hf_field f)) (concat (h_buckets h)))"
  shows "hpage m (concat (h_buckets h)) = concat (map (\<lambda>(f, v). [f, v]) fs)" "distinct (map fst fs)"
    "set fs = {(f, v). hmap h f = Some v \<and> m f}"
proof -
  have k: "ct_ok hf_field (h_buckets h)" using ok by simp
  show "hpage m (concat (h_buckets h)) = concat (map (\<lambda>(f, v). [f, v]) fs)"
    by (simp add: hpage_def fs_def comp_def)
  have "distinct (map hf_field (concat (h_buckets h)))" using k by (simp add: ct_ok_def)
  then show "distinct (map fst fs)" by (simp add: fs_def comp_def distinct_map_filter del: map_concat filter_concat)
  have "(f, v) \<in> set fs \<longleftrightarrow> hmap h f = Some v \<and> m f" for f v
    using hf.lookup_iff [OF k, of f] by (auto simp: fs_def hmap_def hash_find_def image_iff simp del: set_concat)
  then show "set fs = {(f, v). hmap h f = Some v \<and> m f}" by auto
qed

end
