(* ===== verification/Lists.thy ===== *)
theory Lists
  imports Typed
begin

text \<open>
  LIST values (\<open>ar_types.c\<close>). The doubly linked list with its length is a HOL list; a walk along
  the \<open>next\<close> or \<open>prev\<close> pointers is a recursion on the list or on its reverse. Each command comes
  with its effect on the contents; \<open>lview\<close> is the list a client sees (a missing key is empty).
\<close>


section \<open>Values\<close>

fun list_of :: "payload \<Rightarrow> bytes list" where
  "list_of (PList l) = l"
| "list_of _ = []"

fun list_push_vals :: "bool \<Rightarrow> bool \<Rightarrow> bytes list \<Rightarrow> bytes list \<Rightarrow> bytes list" where
  "list_push_vals a left l [] = l"
| "list_push_vals a left l (v # vs) =
     (if \<not> a then list_push_vals a left l vs
      else if left then list_push_vals a left (v # l) vs
      else list_push_vals a left (l @ [v]) vs)"

text \<open>One pass of LREM; \<open>stop\<close> is the test made after each removal.\<close>

fun lrem_walk :: "(nat \<Rightarrow> bool) \<Rightarrow> nat \<Rightarrow> bytes \<Rightarrow> bytes list \<Rightarrow> bytes list \<times> nat" where
  "lrem_walk stop removed elem [] = ([], removed)"
| "lrem_walk stop removed elem (x # xs) =
     (if x = elem then
        (if stop (removed + 1) then (xs, removed + 1) else lrem_walk stop (removed + 1) elem xs)
      else case lrem_walk stop removed elem xs of (ys, removed) \<Rightarrow> (x # ys, removed))"

definition lrem :: "int \<Rightarrow> bytes \<Rightarrow> bytes list \<Rightarrow> bytes list \<times> nat" where
  "lrem cnt elem l =
     (let limit = (if cnt < 0 then s64 (- cnt) else cnt)
      in if cnt \<ge> 0 then lrem_walk (\<lambda>n. limit \<noteq> 0 \<and> int n \<ge> limit) 0 elem l
         else case lrem_walk (\<lambda>n. int n \<ge> limit) 0 elem (rev l) of (ys, n) \<Rightarrow> (rev ys, n))"

fun drop_head :: "nat \<Rightarrow> bytes list \<Rightarrow> bytes list" where
  "drop_head 0 l = l"
| "drop_head (Suc n) l = (case l of [] \<Rightarrow> [] | x # xs \<Rightarrow> drop_head n xs)"

function drop_tail :: "nat \<Rightarrow> bytes list \<Rightarrow> bytes list" where
  "drop_tail keep l = (if length l > keep then drop_tail keep (butlast l) else l)"
  by pat_completeness auto

termination by (relation "measure (\<lambda>(keep, l). length l)") auto

declare drop_tail.simps [simp del]


section \<open>Commands\<close>

text \<open>The C code returns \<open>l->len\<close> read after the eviction, when the list may be gone already; the
  model returns the length the list had.\<close>

definition ar_list_push :: "core \<Rightarrow> bytes \<Rightarrow> bool \<Rightarrow> bytes list \<Rightarrow> core \<times> int \<times> bool" where
  "ar_list_push c key left vals =
     (if vals = [] then (c, 0, False)
      else case ar_entry_get_or_create c key TList of
          (c, None, wt) \<Rightarrow> (c, - 1, wt)
        | (c, Some (e, b, tr), _) \<Rightarrow>
            let l = list_push_vals (alloc_ok c) left (list_of (epay e)) vals
            in (payload_commit c key e (PList l), int (length l), False))"

definition ar_list_pop :: "core \<Rightarrow> bytes \<Rightarrow> bool \<Rightarrow> core \<times> bytes option \<times> bool" where
  "ar_list_pop c key left =
     (case ar_entry_get_typed c key TList of
        (c, None, wt) \<Rightarrow> (c, None, wt)
      | (c, Some (e, b, tr), _) \<Rightarrow>
          let l = list_of (epay e)
          in if l = [] then (c, None, False)
             else let out = (if left then hd l else last l);
                      l = (if left then tl l else butlast l)
                  in case payload_shrink c e (PList l) of (c, e) \<Rightarrow>
                       if l = [] then (ar_entry_free_ex c b tr e, Some out, False)
                       else (ar_watch_touch c key, Some out, False))"

definition ar_list_llen :: "core \<Rightarrow> bytes \<Rightarrow> core \<times> int \<times> bool" where
  "ar_list_llen c key =
     (case ar_entry_get_typed c key TList of
        (c, None, wt) \<Rightarrow> (c, 0, wt)
      | (c, Some (e, b, tr), _) \<Rightarrow> (c, int (length (list_of (epay e))), False))"

definition ar_list_lindex :: "core \<Rightarrow> bytes \<Rightarrow> int \<Rightarrow> core \<times> bytes option \<times> bool" where
  "ar_list_lindex c key index =
     (case ar_entry_get_typed c key TList of
        (c, None, wt) \<Rightarrow> (c, None, wt)
      | (c, Some (e, b, tr), _) \<Rightarrow>
          let l = list_of (epay e)
          in if l = [] then (c, None, False)
             else let index = (if index < 0 then int (length l) + index else index)
                  in if index < 0 \<or> index \<ge> int (length l) then (c, None, False)
                     else (c, if alloc_ok c then Some (hd (drop_head (nat index) l)) else None, False))"

definition ar_list_get :: "core \<Rightarrow> bytes \<Rightarrow> core \<times> bytes list option \<times> bool" where
  "ar_list_get c key =
     (case ar_entry_get_typed c key TList of
        (c, None, wt) \<Rightarrow> (c, None, wt)
      | (c, Some (e, b, tr), _) \<Rightarrow> (c, Some (list_of (epay e)), False))"

text \<open>The branch that deletes an emptied list frees the entry without booking the removed nodes.\<close>

definition ar_list_lrem :: "core \<Rightarrow> bytes \<Rightarrow> int \<Rightarrow> bytes \<Rightarrow> core \<times> int \<times> bool" where
  "ar_list_lrem c key cnt elem =
     (case ar_entry_get_typed c key TList of
        (c, None, wt) \<Rightarrow> (c, if wt then - 1 else 0, wt)
      | (c, Some (e, b, tr), _) \<Rightarrow>
          (case lrem cnt elem (list_of (epay e)) of (l, removed) \<Rightarrow>
             if l = [] then
               let e = e\<lparr> epay := PList l \<rparr>;
                   c = entry_put c e;
                   c = ar_entry_free_ex c b tr e
               in (ar_watch_touch c key, int removed, False)
             else case payload_shrink c e (PList l) of (c, e) \<Rightarrow>
               let c = c\<lparr> clock := clock c + 1 \<rparr>;
                   c = entry_put c (e\<lparr> last_access := clock c \<rparr>)
               in (ar_watch_touch c key, int removed, False)))"

definition ar_list_ltrim :: "core \<Rightarrow> bytes \<Rightarrow> int \<Rightarrow> int \<Rightarrow> core \<times> int \<times> bool" where
  "ar_list_ltrim c key start stop =
     (case ar_entry_get_typed c key TList of
        (c, None, wt) \<Rightarrow> (c, if wt then - 1 else 1, wt)
      | (c, Some (e, b, tr), _) \<Rightarrow>
          let l = list_of (epay e);
              len = int (length l);
              start = (if start < 0 then len + start else start);
              stop = (if stop < 0 then len + stop else stop);
              start = (if start < 0 then 0 else start);
              stop = (if stop \<ge> len then len - 1 else stop)
          in if start > stop \<or> start \<ge> len \<or> len = 0
             then (ar_watch_touch (ar_entry_free_ex c b tr e) key, 1, False)
             else let l = drop_head (nat start) l;
                      l = drop_tail (nat (stop - start + 1)) l
                  in if l = [] then
                       let e = e\<lparr> epay := PList l \<rparr>;
                           c = entry_put c e
                       in (ar_watch_touch (ar_entry_free_ex c b tr e) key, 1, False)
                     else case payload_shrink c e (PList l) of (c, e) \<Rightarrow>
                       let c = c\<lparr> clock := clock c + 1 \<rparr>;
                           c = entry_put c (e\<lparr> last_access := clock c \<rparr>)
                       in (ar_watch_touch c key, 1, False))"


section \<open>The value functions\<close>

lemma list_push_vals_eq:
  "list_push_vals True True l vs = rev vs @ l" "list_push_vals True False l vs = l @ vs"
  by (induction vs arbitrary: l) simp_all

lemma drop_head_eq: "drop_head n l = drop n l"
  by (induction n arbitrary: l) (auto split: list.split)

lemma drop_tail_eq: "drop_tail keep l = take keep l"
proof (induction keep l rule: drop_tail.induct)
  case (1 keep l)
  then show ?case by (subst drop_tail.simps) (auto simp: butlast_conv_take min_def)
qed

text \<open>What one LREM pass removes: all occurrences in a first part of the list, none after it.\<close>

lemma lrem_walk_spec:
  "\<exists>xs ys. l = xs @ ys \<and> fst (lrem_walk stop n x l) = removeAll x xs @ ys \<and>
     snd (lrem_walk stop n x l) = n + count_list xs x \<and>
     (ys = [] \<or> stop (n + count_list xs x)) \<and> (\<forall>m. n < m \<and> m < n + count_list xs x \<longrightarrow> \<not> stop m)"
proof (induction l arbitrary: n)
  case Nil
  then show ?case by auto
next
  case (Cons y l)
  show ?case
  proof (cases "y = x \<and> stop (n + 1)")
    case True
    then show ?thesis by (intro exI [of _ "[y]"] exI [of _ l]) auto
  next
    case False
    let ?n = "if y = x then n + 1 else n"
    obtain xs ys where s: "l = xs @ ys" "fst (lrem_walk stop ?n x l) = removeAll x xs @ ys"
        "snd (lrem_walk stop ?n x l) = ?n + count_list xs x" "ys = [] \<or> stop (?n + count_list xs x)"
        "\<And>m. ?n < m \<and> m < ?n + count_list xs x \<Longrightarrow> \<not> stop m"
      using Cons.IH [of ?n] by blast
    have st: "\<not> stop m" if "n < m \<and> m < n + count_list (y # xs) x" for m
      using that s(5) [of m] False by (cases "y = x"; cases "m = n + 1") auto
    show ?thesis
      using s(1-4) st False
      by (intro exI [of _ "y # xs"] exI [of _ ys]) (auto split: prod.split)
  qed
qed

lemma lrem_all: "lrem 0 x l = (removeAll x l, count_list l x)"
proof -
  have "lrem_walk (\<lambda>n. False) n x l = (removeAll x l, n + count_list l x)" for n
    by (induction l arbitrary: n) auto
  then show ?thesis by (simp add: lrem_def)
qed

lemma lrem_walk_subseq: "mset (fst (lrem_walk stop n x l)) \<subseteq># mset l"
proof -
  obtain xs ys where "l = xs @ ys" "fst (lrem_walk stop n x l) = removeAll x xs @ ys"
    using lrem_walk_spec [of l stop n x] by blast
  then show ?thesis by (simp add: removeAll_filter_not_eq mset_filter)
qed

lemma lrem_subseq: "mset (fst (lrem cnt x l)) \<subseteq># mset l"
  using lrem_walk_subseq [of _ 0 x l] lrem_walk_subseq [of _ 0 x "rev l"]
  by (simp add: lrem_def Let_def split: prod.split) (metis fst_conv)

lemma list_size: "list_obj_bytes l = sizeof_ArList + sum_mset (image_mset (\<lambda>x. sizeof_ArListNode + length x) (mset l))"
  by (simp add: list_obj_bytes_def flip: mset_map sum_mset_sum_list)

lemma list_size_mono: "mset l' \<subseteq># mset l \<Longrightarrow> list_obj_bytes l' \<le> list_obj_bytes l"
  unfolding list_size by (auto simp: mset_subset_eq_exists_conv)

text \<open>LTRIM keeps the elements whose index lies in the window, negative indices counting from the end.\<close>

definition ltrim_window :: "int \<Rightarrow> int \<Rightarrow> bytes list \<Rightarrow> bytes list" where
  "ltrim_window start stop l =
     (let n = int (length l);
          lo = (if start < 0 then n + start else start);
          hi = (if stop < 0 then n + stop else stop)
      in map ((!) l) (filter (\<lambda>i. lo \<le> int i \<and> int i \<le> hi) [0..<length l]))"

lemma filter_upt_interval:
  "filter (\<lambda>i. lo \<le> int i \<and> int i \<le> hi) [0..<n] = [nat (max lo 0)..<min n (nat (hi + 1))]"
proof (induction n)
  case 0
  then show ?case by simp
next
  case (Suc n)
  have "nat (hi + 1) = n" if "int n \<le> hi + 1" "\<not> int n \<le> hi" using that by linarith
  with Suc show ?case by (auto simp: min_def max_def le_nat_iff nat_le_iff split: if_splits)
qed

lemma map_nth_upt: "b \<le> length l \<Longrightarrow> map ((!) l) [a..<b] = take (b - a) (drop a l)"
  by (rule nth_equalityI) (auto simp: min_def)

lemma ltrim_window_eq:
  fixes start stop :: int and l :: "bytes list"
  defines "n \<equiv> int (length l)"
  defines "lo \<equiv> (if start < 0 then n + start else start)"
  defines "hi \<equiv> (if stop < 0 then n + stop else stop)"
  shows "ltrim_window start stop l = take (nat (min hi (n - 1) - max lo 0 + 1)) (drop (nat (max lo 0)) l)"
proof -
  have "ltrim_window start stop l = map ((!) l) [nat (max lo 0)..<min (length l) (nat (hi + 1))]"
    by (simp add: ltrim_window_def Let_def filter_upt_interval lo_def hi_def n_def)
  also have "\<dots> = take (min (length l) (nat (hi + 1)) - nat (max lo 0)) (drop (nat (max lo 0)) l)"
    by (rule map_nth_upt) simp
  also have "min (length l) (nat (hi + 1)) - nat (max lo 0) = nat (min hi (n - 1) - max lo 0 + 1)"
    unfolding n_def min_def max_def by (auto split: if_splits)
  finally show ?thesis .
qed


section \<open>Commands, proved\<close>

definition lview :: "obs option \<Rightarrow> bytes list" where
  "lview r = (case r of None \<Rightarrow> [] | Some v \<Rightarrow> list_of (o_pay v))"

lemma lview_simps [simp]: "lview None = []" "lview (Some v) = list_of (o_pay v)"
  by (simp_all add: lview_def)

lemma list_pay: "etype e = TList \<Longrightarrow> epay e = PList (list_of (epay e))"
  by (cases "epay e") simp_all

lemma lview_before: "\<not> wrong TList r \<Longrightarrow> lview r = list_of (o_pay (typed_before TList r))"
  by (cases r) (simp_all add: fresh_obs_def new_payload_def)

lemma push_ok:
  assumes w: "wf s c" and a: "alloc_ok c" and ne: "vals \<noteq> []" and r: "ar_list_push c k left vals = (c', n, wt)"
  defines "l' \<equiv> (if left then rev vals @ lview (live c k) else lview (live c k) @ vals)"
  shows "steps s (droppable c) {k} {} c c'" "wt = wrong TList (live c k)" "wt \<Longrightarrow> c' = c \<and> n = - 1"
    "\<not> wt \<Longrightarrow> yields c' ((live c)(k \<mapsto> (typed_before TList (live c k))\<lparr> o_pay := PList l' \<rparr>)) \<and>
       (n = int (length l') \<or> n = - 1 \<and> live c' k = None)"
proof -
  let ?g = "\<lambda>p. PList (list_push_vals True left (list_of p) vals)"
  have g: "\<forall>p. payload_type p = TList \<and> payload_ok p \<longrightarrow> payload_ok (?g p) \<and> payload_type (?g p) = TList" by simp
  have pv: "list_push_vals True left (lview (live c k)) vals = l'"
    by (cases left) (simp_all add: l'_def list_push_vals_eq)
  have "steps s (droppable c) {k} {} c c' \<and> wt = wrong TList (live c k) \<and> (wt \<longrightarrow> c' = c \<and> n = - 1) \<and>
    (\<not> wt \<longrightarrow> yields c' ((live c)(k \<mapsto> (typed_before TList (live c k))\<lparr> o_pay := PList l' \<rparr>)) \<and>
       (n = int (length l') \<or> n = - 1 \<and> live c' k = None))"
  proof (cases rule: grow_command [OF w a g, where k = k])
    case 1
    with r ne w show ?thesis by (simp add: ar_list_push_def steps_refl)
  next
    case (2 c1)
    have "c' = c1 \<and> n = - 1 \<and> \<not> wt" using r ne 2(1) by (simp add: ar_list_push_def)
    with 2 show ?thesis by auto
  next
    case (3 c1 e b tr)
    have "list_of (epay e) = lview (live c k)" using lview_before [OF 3(2)] arg_cong [OF 3(4), of o_pay] by simp
    with pv have v: "list_push_vals True left (list_of (epay e)) vals = l'" by simp
    have "c' = payload_commit c1 k e (PList l') \<and> n = int (length l') \<and> \<not> wt"
      using r ne 3(1,6) v by (auto simp: ar_list_push_def)
    then show ?thesis using 3(2,7,8) v by auto
  qed
  then show "steps s (droppable c) {k} {} c c'" "wt = wrong TList (live c k)" "wt \<Longrightarrow> c' = c \<and> n = - 1"
    "\<not> wt \<Longrightarrow> yields c' ((live c)(k \<mapsto> (typed_before TList (live c k))\<lparr> o_pay := PList l' \<rparr>)) \<and>
       (n = int (length l') \<or> n = - 1 \<and> live c' k = None)" by blast+
qed

text \<open>The contents after a list command that never grows: the list \<open>l'\<close>, or no key when it is empty.\<close>

definition with_list :: "core \<Rightarrow> bytes \<Rightarrow> bytes list \<Rightarrow> bytes \<Rightarrow> obs option" where
  "with_list c k l' = (live c)(k := (if l' = [] then None else map_option (\<lambda>v. v\<lparr> o_pay := PList l' \<rparr>) (live c k)))"

lemma mset_take_drop_sub: "mset (take n (drop i l)) \<subseteq># mset l"
proof -
  have "mset (take i l @ (take n (drop i l) @ drop n (drop i l))) = mset l" by (simp only: append_take_drop_id)
  then have "mset l = mset (take n (drop i l)) + (mset (take i l) + mset (drop n (drop i l)))"
    by (simp only: mset_append ac_simps)
  then show ?thesis by simp
qed

lemma mset_tl_le: "mset (tl l) \<subseteq># mset l"
  by (cases l) simp_all

lemma mset_butlast_le: "mset (butlast l) \<subseteq># mset l"
  by (cases l rule: rev_cases) simp_all

lemma pop_ok:
  assumes w: "wf s c" and r: "ar_list_pop c k left = (c', v, wt)"
  defines "l \<equiv> lview (live c k)"
  shows "steps s (\<lambda>_. False) {k} {} c c'" "wt = wrong TList (live c k)"
    "wt \<or> l = [] \<Longrightarrow> live c' = live c \<and> v = None"
    "\<not> wt \<Longrightarrow> l \<noteq> [] \<Longrightarrow> v = Some (if left then hd l else last l) \<and>
       live c' = with_list c k (if left then tl l else butlast l)"
proof -
  have "steps s (\<lambda>_. False) {k} {} c c' \<and> wt = wrong TList (live c k) \<and>
    (wt \<or> l = [] \<longrightarrow> live c' = live c \<and> v = None) \<and>
    (\<not> wt \<longrightarrow> l \<noteq> [] \<longrightarrow> v = Some (if left then hd l else last l) \<and>
       live c' = with_list c k (if left then tl l else butlast l))"
    using w
  proof (cases rule: typed_cases [of s c k TList])
    case (found e b tr N)
    have l: "list_of (epay e) = l" using found(6) by (simp add: l_def)
    show ?thesis
    proof (cases "l = []")
      case True
      then show ?thesis using r found(1,5,6) l w by (simp add: ar_list_pop_def steps_refl)
    next
      case False
      let ?l = "if left then tl l else butlast l"
      have "mset ?l \<subseteq># mset l" using False by (simp add: mset_tl_le mset_butlast_le)
      then have le: "payload_bytes (PList ?l) \<le> payload_bytes (epay e)"
        using list_size_mono [of ?l l] list_pay [OF found(5)] l by simp
      obtain c1 e1 where 1: "payload_shrink c e (PList ?l) = (c1, e1)" by fastforce
      have "payload_type (PList ?l) = etype e" "payload_ok (PList ?l)" using found(5) by simp_all
      note sh = shrink_slot [OF found(4,2,6) this le 1]
      have ev: "evo (\<lambda>_. False) {k} {k} c c1" using upd_evo [OF found(4) sh(1)] found(2) by simp
      have c': "c' = (if ?l = [] then ar_entry_free_ex c1 b tr e1 else ar_watch_touch c1 k)"
        "v = Some (if left then hd l else last l)" "\<not> wt"
        using r found(1) False l 1 by (auto simp: ar_list_pop_def Let_def split: if_splits)
      show ?thesis
        using written_free [OF ev upd_cursor [OF sh(1)] sh(6) [OF found(3)] sh(4)] c' sh(2,3) False found(5,6)
        by (simp add: with_list_def)
    qed
  next
    case (wrong x)
    with r w show ?thesis by (simp add: ar_list_pop_def steps_refl)
  next
    case (missing c1)
    then show ?thesis using r by (auto simp: ar_list_pop_def l_def)
  qed
  then show "steps s (\<lambda>_. False) {k} {} c c'" "wt = wrong TList (live c k)"
    "wt \<or> l = [] \<Longrightarrow> live c' = live c \<and> v = None"
    "\<not> wt \<Longrightarrow> l \<noteq> [] \<Longrightarrow> v = Some (if left then hd l else last l) \<and>
       live c' = with_list c k (if left then tl l else butlast l)" by blast+
qed

lemma llen_ok:
  assumes w: "wf s c" and r: "ar_list_llen c k = (c', n, wt)"
  shows "steps s P K W c c'" "wt = wrong TList (live c k)" "\<not> wt \<Longrightarrow> n = int (length (lview (live c k)))"
proof -
  have "steps s P K W c c' \<and> wt = wrong TList (live c k) \<and> (\<not> wt \<longrightarrow> n = int (length (lview (live c k))))"
    using w
  proof (cases rule: typed_cases [of s c k TList])
    case (found e b tr N)
    with r w show ?thesis by (auto simp: ar_list_llen_def steps_refl)
  next
    case (wrong x)
    with r w show ?thesis by (simp add: ar_list_llen_def steps_refl)
  next
    case (missing c1)
    then show ?thesis using r by (auto simp: ar_list_llen_def)
  qed
  then show "steps s P K W c c'" "wt = wrong TList (live c k)" "\<not> wt \<Longrightarrow> n = int (length (lview (live c k)))"
    by blast+
qed

text \<open>Element access by a possibly negative index.\<close>

definition list_at :: "bytes list \<Rightarrow> int \<Rightarrow> bytes option" where
  "list_at l i = (let i = (if i < 0 then int (length l) + i else i)
     in if 0 \<le> i \<and> i < int (length l) then Some (l ! nat i) else None)"

lemma lindex_ok:
  assumes w: "wf s c" and r: "ar_list_lindex c k i = (c', v, wt)"
  shows "steps s P K W c c'" "wt = wrong TList (live c k)"
    "\<not> wt \<Longrightarrow> v = (if alloc_ok c then list_at (lview (live c k)) i else None)"
proof -
  have "steps s P K W c c' \<and> wt = wrong TList (live c k) \<and>
    (\<not> wt \<longrightarrow> v = (if alloc_ok c then list_at (lview (live c k)) i else None))"
    using w
  proof (cases rule: typed_cases [of s c k TList])
    case (found e b tr N)
    with r w show ?thesis
      by (auto simp: ar_list_lindex_def steps_refl list_at_def Let_def drop_head_eq hd_drop_conv_nth split: if_splits)
  next
    case (wrong x)
    with r w show ?thesis by (simp add: ar_list_lindex_def steps_refl)
  next
    case (missing c1)
    then show ?thesis using r by (auto simp: ar_list_lindex_def list_at_def)
  qed
  then show "steps s P K W c c'" "wt = wrong TList (live c k)"
    "\<not> wt \<Longrightarrow> v = (if alloc_ok c then list_at (lview (live c k)) i else None)" by blast+
qed

lemma shrink_bump:
  fixes n n' :: nat
  assumes cu: "cursor s c e N" and k: "ekey e = k" and l: "live c k = Some (obs_of e)" and t: "etype e = TList"
    and m: "mset l' \<subseteq># mset (list_of (epay e))" and r: "payload_shrink c e (PList l') = (c1, e1)"
  defines "c2 \<equiv> ar_watch_touch (entry_put (c1\<lparr> clock := n \<rparr>) (e1\<lparr> last_access := n' \<rparr>)) k"
  shows "live c2 = (live c)(k \<mapsto> (obs_of e)\<lparr> o_pay := PList l' \<rparr>)" "steps s (\<lambda>_. False) {k} {} c c2"
proof -
  have le: "payload_bytes (PList l') \<le> payload_bytes (epay e)"
    using list_size_mono [OF m] list_pay [OF t] by (metis payload_bytes.simps(3))
  have tp: "payload_type (PList l') = etype e" "payload_ok (PList l')" using t by simp_all
  note sh = shrink_upd [OF cu tp le r]
  note u = upd_trans [OF sh(1) bump_upd [OF upd_cursor [OF sh(1)], of n n']]
  have "obs_of (e1\<lparr> last_access := n' \<rparr>) = (obs_of e)\<lparr> o_pay := PList l' \<rparr>"
    using sh(3) by (simp add: obs_of_def)
  note f = written_touch [OF cu k l u this]
  show "live c2 = (live c)(k \<mapsto> (obs_of e)\<lparr> o_pay := PList l' \<rparr>)" "steps s (\<lambda>_. False) {k} {} c c2"
    using f by (simp_all add: c2_def)
qed

text \<open>LREM. When it empties the list the key goes, but the counters keep the bytes of the removed
  nodes: the state then meets the invariant only with that much slack.\<close>

definition lrem_slack :: "slack \<Rightarrow> bytes list \<Rightarrow> bytes list \<Rightarrow> slack" where
  "lrem_slack s l l' = (if l' = [] then leak s TList (list_obj_bytes l - list_obj_bytes []) else s)"

lemma lrem_ok:
  assumes w: "wf s c" and r: "ar_list_lrem c k cnt x = (c', n, wt)"
  defines "l \<equiv> lview (live c k)" and "l' \<equiv> fst (lrem cnt x (lview (live c k)))"
  shows "wt = wrong TList (live c k)"
    "wt \<or> live c k = None \<Longrightarrow> live c' = live c \<and> steps s (\<lambda>_. False) {k} {} c c' \<and> n = (if wt then - 1 else 0)"
    "\<not> wt \<Longrightarrow> live c k \<noteq> None \<Longrightarrow> steps (lrem_slack s l l') (\<lambda>_. False) {k} {} c c' \<and>
       live c' = with_list c k l' \<and> n = int (snd (lrem cnt x l))"
proof -
  have "wt = wrong TList (live c k) \<and>
    (wt \<or> live c k = None \<longrightarrow> live c' = live c \<and> steps s (\<lambda>_. False) {k} {} c c' \<and> n = (if wt then - 1 else 0)) \<and>
    (\<not> wt \<longrightarrow> live c k \<noteq> None \<longrightarrow> steps (lrem_slack s l l') (\<lambda>_. False) {k} {} c c' \<and>
       live c' = with_list c k l' \<and> n = int (snd (lrem cnt x l)))"
    using w
  proof (cases rule: typed_cases [of s c k TList])
    case (found e b tr N)
    have l: "list_of (epay e) = l" using found(6) by (simp add: l_def)
    have pl: "epay e = PList l" using list_pay [OF found(5)] l by simp
    have l': "fst (lrem cnt x l) = l'" by (simp add: l'_def l_def)
    have m: "mset l' \<subseteq># mset (list_of (epay e))" using lrem_subseq [of cnt x l] l l' by simp
    show ?thesis
    proof (cases "l' = []")
      case True
      have le: "payload_bytes (PList []) \<le> payload_bytes (epay e)"
        using list_size_mono [of "[]" l] pl by simp
      have tp: "payload_type (PList []) = etype e" "payload_ok (PList [])" using found(5) by simp_all
      note lk = leak_put [OF found(4) tp le]
      let ?e = "e\<lparr> epay := PList [] \<rparr>"
      note wr = written_free [OF lk(2) [of "\<lambda>_. False", unfolded found(2)] lk(1) lk(3) [OF found(3)]]
      have c': "c' = ar_watch_touch (ar_entry_free_ex (entry_put c ?e) b tr ?e) k"
        "n = int (snd (lrem cnt x l))" "\<not> wt"
        using r found(1) l l' True by (auto simp: ar_list_lrem_def Let_def split: prod.splits)
      have "leak s (etype e) (payload_bytes (epay e) - payload_bytes (PList [])) = lrem_slack s l l'"
        using True found(5) pl by (simp add: lrem_slack_def)
      then show ?thesis
        using wr found(2,5,6) c' True by (simp add: with_list_def steps_touch_more)
    next
      case False
      obtain c1 e1 where 1: "payload_shrink c e (PList l') = (c1, e1)" by fastforce
      note sb = shrink_bump [OF found(4,2,6,5) m 1]
      have "c' = ar_watch_touch (entry_put (c1\<lparr> clock := clock c1 + 1 \<rparr>) (e1\<lparr> last_access := clock c1 + 1 \<rparr>)) k"
        "n = int (snd (lrem cnt x l))" "\<not> wt"
        using r found(1) l l' False 1 by (auto simp: ar_list_lrem_def Let_def split: prod.splits)
      then show ?thesis using sb found(5,6) False by (simp add: with_list_def lrem_slack_def)
    qed
  next
    case (wrong v)
    with r w show ?thesis by (simp add: ar_list_lrem_def steps_refl)
  next
    case (missing c1)
    then show ?thesis using r by (auto simp: ar_list_lrem_def)
  qed
  then show "wt = wrong TList (live c k)"
    "wt \<or> live c k = None \<Longrightarrow> live c' = live c \<and> steps s (\<lambda>_. False) {k} {} c c' \<and> n = (if wt then - 1 else 0)"
    "\<not> wt \<Longrightarrow> live c k \<noteq> None \<Longrightarrow> steps (lrem_slack s l l') (\<lambda>_. False) {k} {} c c' \<and>
       live c' = with_list c k l' \<and> n = int (snd (lrem cnt x l))" by blast+
qed

lemma clock_set: "clock (c\<lparr> clock := n \<rparr>) = n"
  by simp

lemma ltrim_ok:
  assumes w: "wf s c" and r: "ar_list_ltrim c k start stop = (c', n, wt)"
  shows "steps s (\<lambda>_. False) {k} {} c c'" "wt = wrong TList (live c k)" "n = (if wt then - 1 else 1)"
    "wt \<Longrightarrow> live c' = live c"
    "\<not> wt \<Longrightarrow> live c' = with_list c k (ltrim_window start stop (lview (live c k)))"
proof -
  have "steps s (\<lambda>_. False) {k} {} c c' \<and> wt = wrong TList (live c k) \<and> n = (if wt then - 1 else 1) \<and>
    (wt \<longrightarrow> live c' = live c) \<and>
    (\<not> wt \<longrightarrow> live c' = with_list c k (ltrim_window start stop (lview (live c k))))"
    using w
  proof (cases rule: typed_cases [of s c k TList])
    case (found e b tr N)
    define l where "l = list_of (epay e)"
    define m where "m = int (length l)"
    define a where "a = (if (if start < 0 then m + start else start) < 0 then 0
      else if start < 0 then m + start else start)"
    define z where "z = (if (if stop < 0 then m + stop else stop) \<ge> m then m - 1
      else if stop < 0 then m + stop else stop)"
    have az: "a = max (if start < 0 then m + start else start) 0"
      "z = min (if stop < 0 then m + stop else stop) (m - 1)" by (simp_all add: a_def z_def max_def min_def)
    let ?w = "take (nat (z - a + 1)) (drop (nat a) l)"
    have win: "ltrim_window start stop (lview (live c k)) = ?w"
      using found(6) by (simp add: ltrim_window_eq az m_def l_def)
    have red: "ar_list_ltrim c k start stop =
      (if a > z \<or> a \<ge> m \<or> m = 0 then (ar_watch_touch (ar_entry_free_ex c b tr e) k, 1, False)
       else if ?w = [] then (ar_watch_touch (ar_entry_free_ex (entry_put c (e\<lparr> epay := PList ?w \<rparr>)) b tr
              (e\<lparr> epay := PList ?w \<rparr>)) k, 1, False)
       else case payload_shrink c e (PList ?w) of (c, e) \<Rightarrow>
              (ar_watch_touch (entry_put (c\<lparr> clock := clock c + 1 \<rparr>) (e\<lparr> last_access := clock c + 1 \<rparr>)) k, 1, False))"
      unfolding ar_list_ltrim_def found(1) prod.case option.case Let_def drop_head_eq drop_tail_eq
        l_def [symmetric] m_def [symmetric] a_def [symmetric] z_def [symmetric]
        clock_set ..
    show ?thesis
    proof (cases "a > z \<or> a \<ge> m \<or> m = 0")
      case True
      then have "?w = []" by (auto simp: m_def)
      have "evo (\<lambda>_. False) {k} {k} c c" by simp
      note wr = written_free [OF this found(4,3,2)]
      from True red r have "c' = ar_watch_touch (ar_entry_free_ex c b tr e) k" "n = 1" "\<not> wt" by simp_all
      then show ?thesis using wr found(5,6) unfolding win \<open>?w = []\<close>
        by (simp add: with_list_def steps_touch_more)
    next
      case False
      have "0 \<le> a" by (simp add: az)
      with False have ne: "?w \<noteq> []" by (auto simp: m_def)
      obtain c1 e1 where 1: "payload_shrink c e (PList ?w) = (c1, e1)" by fastforce
      have "mset ?w \<subseteq># mset l"
        by (rule mset_take_drop_sub)
      then have "mset ?w \<subseteq># mset (list_of (epay e))" by (simp only: l_def)
      note sb = shrink_bump [OF found(4,2,6,5) this 1]
      have "c' = ar_watch_touch (entry_put (c1\<lparr> clock := clock c1 + 1 \<rparr>) (e1\<lparr> last_access := clock c1 + 1 \<rparr>)) k"
        "n = 1" "\<not> wt" using red r False ne 1 by simp_all
      then show ?thesis using sb found(5,6) ne unfolding win by (simp add: with_list_def)
    qed
  next
    case (wrong v)
    with r w show ?thesis by (simp add: ar_list_ltrim_def steps_refl)
  next
    case (missing c1)
    then show ?thesis using r by (auto simp: ar_list_ltrim_def with_list_def)
  qed
  then show "steps s (\<lambda>_. False) {k} {} c c'" "wt = wrong TList (live c k)" "n = (if wt then - 1 else 1)"
    "wt \<Longrightarrow> live c' = live c"
    "\<not> wt \<Longrightarrow> live c' = with_list c k (ltrim_window start stop (lview (live c k)))" by blast+
qed

end
