(* ===== verification/Zsets.thy ===== *)
theory Zsets
  imports Typed
begin

text \<open>
  ZSET values (\<open>ar_types.c\<close>): an array of members sorted by score, then by member, grown by
  doubling. The index arithmetic of \<open>memmove\<close> is \<open>take\<close>/\<open>drop\<close>. \<open>zmap\<close> is the value a client
  sees, a map from members to scores; \<open>zsorted\<close> the order ZRANGE relies on, which ZADD keeps
  for scores that are numbers.
\<close>


section \<open>The array\<close>

definition AR_ZSET_MAX_MEMBERS :: nat where "AR_ZSET_MAX_MEMBERS = 4096"

text \<open>\<open>memcmp\<close> of the common length, then the lengths.\<close>

fun mem_cmp :: "bytes \<Rightarrow> bytes \<Rightarrow> int" where
  "mem_cmp [] [] = 0"
| "mem_cmp [] (b # bs) = - 1"
| "mem_cmp (a # as) [] = 1"
| "mem_cmp (a # as) (b # bs) =
     (if a = b then mem_cmp as bs else if (of_char a :: nat) < of_char b then - 1 else 1)"

definition zcmp :: "znode \<Rightarrow> znode \<Rightarrow> int" where
  "zcmp a b =
     (if f64_lt (z_score a) (z_score b) then - 1
      else if f64_lt (z_score b) (z_score a) then 1
      else mem_cmp (z_member a) (z_member b))"

fun zfind :: "nat \<Rightarrow> znode list \<Rightarrow> bytes \<Rightarrow> nat option" where
  "zfind i [] m = None"
| "zfind i (x # xs) m = (if z_member x = m then Some i else zfind (i + 1) xs m)"

definition zfind_member :: "arzset \<Rightarrow> bytes \<Rightarrow> nat option" where
  "zfind_member z m = zfind 0 (z_arr z) m"

text \<open>\<open>nc\<close> starts at 8 or at twice the capacity, so it is never 0 here (C would loop on 0).\<close>

function double_to :: "nat \<Rightarrow> nat \<Rightarrow> nat" where
  "double_to nc need = (if nc \<noteq> 0 \<and> nc < need then double_to (nc * 2) need else nc)"
  by pat_completeness auto

termination by (relation "measure (\<lambda>(nc, need). need - nc)") auto

declare double_to.simps [simp del]

definition zensure_cap :: "bool \<Rightarrow> arzset \<Rightarrow> nat \<Rightarrow> arzset option" where
  "zensure_cap a z need =
     (if z_cap z \<ge> need then Some z
      else let nc = (if z_cap z \<noteq> 0 then z_cap z * 2 else 8);
               nc = double_to nc need
           in if \<not> a then None else Some (z\<lparr> z_cap := nc \<rparr>))"

definition zremove_at :: "arzset \<Rightarrow> nat \<Rightarrow> arzset" where
  "zremove_at z i = z\<lparr> z_arr := take i (z_arr z) @ drop (i + 1) (z_arr z) \<rparr>"

fun zpos :: "nat \<Rightarrow> znode list \<Rightarrow> znode \<Rightarrow> nat" where
  "zpos pos [] x = pos"
| "zpos pos (y # ys) x = (if zcmp y x < 0 then zpos (pos + 1) ys x else pos)"

definition zinsert :: "arzset \<Rightarrow> znode \<Rightarrow> arzset" where
  "zinsert z x =
     (let pos = zpos 0 (z_arr z) x
      in z\<lparr> z_arr := take pos (z_arr z) @ x # drop pos (z_arr z) \<rparr>)"

text \<open>One pair of ZADD. When memory is short the old node of an existing member is lost.\<close>

definition zadd_one :: "bool \<Rightarrow> arzset \<times> int \<Rightarrow> f64 \<times> bytes \<Rightarrow> arzset \<times> int" where
  "zadd_one a za sm =
     (case za of (z, added) \<Rightarrow> case sm of (score, member) \<Rightarrow>
        let idx = zfind_member z member;
            z = (case idx of Some i \<Rightarrow> zremove_at z i | None \<Rightarrow> z);
            added = (if idx = None then added + 1 else added)
        in case zensure_cap a z (length (z_arr z) + 1) of
             None \<Rightarrow> (z, added)
           | Some z \<Rightarrow>
               if \<not> a then (z, if idx = None then added - 1 else added)
               else (zinsert z \<lparr> z_member = member, z_score = score \<rparr>, added))"

definition new_members :: "arzset \<Rightarrow> (f64 \<times> bytes) list \<Rightarrow> nat" where
  "new_members z sms = length (filter (\<lambda>(score, member). zfind_member z member = None) sms)"

fun zset_of :: "payload \<Rightarrow> arzset" where
  "zset_of (PZset z) = z"
| "zset_of _ = \<lparr> z_arr = [], z_cap = 0 \<rparr>"


section \<open>Commands\<close>

definition ar_zset_zadd :: "core \<Rightarrow> bytes \<Rightarrow> (f64 \<times> bytes) list \<Rightarrow> core \<times> int \<times> bool" where
  "ar_zset_zadd c key sms =
     (if sms = [] then (c, 0, False)
      else case ar_entry_get_or_create c key TZset of
          (c, None, wt) \<Rightarrow> (c, - 1, wt)
        | (c, Some (e, b, tr), _) \<Rightarrow>
            let z = zset_of (epay e);
                nw = new_members z sms
            in if nw > 0 \<and> length (z_arr z) + nw > AR_ZSET_MAX_MEMBERS then (c, - 2, False)
               else case foldl (zadd_one (alloc_ok c)) (z, 0) sms of
                      (z, added) \<Rightarrow> (payload_commit c key e (PZset z), added, False))"

text \<open>The text of a score is \<open>printf\<close>'s \<open>%.17g\<close>, a parameter.\<close>

definition ar_zset_zscore :: "(f64 \<Rightarrow> bytes) \<Rightarrow> core \<Rightarrow> bytes \<Rightarrow> bytes \<Rightarrow> core \<times> bytes option \<times> bool" where
  "ar_zset_zscore fmt_g17 c key member =
     (case ar_entry_get_typed c key TZset of
        (c, None, wt) \<Rightarrow> (c, None, wt)
      | (c, Some (e, b, tr), _) \<Rightarrow>
          let z = zset_of (epay e)
          in case zfind_member z member of
               None \<Rightarrow> (c, None, False)
             | Some i \<Rightarrow> (c, if alloc_ok c then Some (fmt_g17 (z_score (z_arr z ! i))) else None, False))"

fun zrem_members :: "arzset \<Rightarrow> nat \<Rightarrow> bytes list \<Rightarrow> arzset \<times> nat" where
  "zrem_members z removed [] = (z, removed)"
| "zrem_members z removed (m # ms) =
     (case zfind_member z m of
        None \<Rightarrow> zrem_members z removed ms
      | Some i \<Rightarrow> zrem_members (zremove_at z i) (removed + 1) ms)"

definition ar_zset_zrem :: "core \<Rightarrow> bytes \<Rightarrow> bytes list \<Rightarrow> core \<times> int \<times> bool" where
  "ar_zset_zrem c key ms =
     (case ar_entry_get_typed c key TZset of
        (c, None, wt) \<Rightarrow> (c, 0, wt)
      | (c, Some (e, b, tr), _) \<Rightarrow>
          (case zrem_members (zset_of (epay e)) 0 ms of (z, removed) \<Rightarrow>
           case payload_shrink c e (PZset z) of (c, e) \<Rightarrow>
             if z_arr z = [] then (ar_entry_free_ex c b tr e, int removed, False)
             else if removed > 0 then (ar_watch_touch c key, int removed, False)
             else (c, int removed, False)))"

definition ar_zset_zcard :: "core \<Rightarrow> bytes \<Rightarrow> core \<times> int \<times> bool" where
  "ar_zset_zcard c key =
     (case ar_entry_get_typed c key TZset of
        (c, None, wt) \<Rightarrow> (c, 0, wt)
      | (c, Some (e, b, tr), _) \<Rightarrow> (c, int (length (z_arr (zset_of (epay e)))), False))"

definition ar_zset_get :: "core \<Rightarrow> bytes \<Rightarrow> core \<times> arzset option \<times> bool" where
  "ar_zset_get c key =
     (case ar_entry_get_typed c key TZset of
        (c, None, wt) \<Rightarrow> (c, None, wt)
      | (c, Some (e, b, tr), _) \<Rightarrow> (c, Some (zset_of (epay e)), False))"


section \<open>The order\<close>

lemma mem_cmp_eq: "mem_cmp a b = 0 \<longleftrightarrow> a = b"
  by (induction a b rule: mem_cmp.induct) auto

lemma of_char_less_linear: "(a::char) \<noteq> b \<Longrightarrow> (of_char a :: nat) < of_char b \<or> (of_char b :: nat) < of_char a"
  by (metis less_linear of_char_eq_iff)

lemma mem_cmp_swap: "mem_cmp b a = - mem_cmp a b"
  by (induction a b rule: mem_cmp.induct) (use of_char_less_linear in \<open>fastforce\<close>)+

lemma mem_cmp_trans: "mem_cmp a b < 0 \<Longrightarrow> mem_cmp b d < 0 \<Longrightarrow> mem_cmp a d < 0"
proof (induction a b arbitrary: d rule: mem_cmp.induct)
  case (2 x xs)
  then show ?case by (cases d) auto
next
  case (4 x xs y ys)
  then show ?case by (cases d) (auto split: if_splits)
qed auto

definition z_number :: "znode \<Rightarrow> bool" where
  "z_number x = (\<not> f64_is_nan (z_score x))"

lemma zcmp_neg:
  "z_number a \<Longrightarrow> z_number b \<Longrightarrow> zcmp a b < 0 \<longleftrightarrow>
     f64_key (z_score a) < f64_key (z_score b) \<or>
     f64_key (z_score a) = f64_key (z_score b) \<and> mem_cmp (z_member a) (z_member b) < 0"
  by (auto simp: zcmp_def f64_lt_def z_number_def)

lemma zcmp_trans:
  "z_number a \<Longrightarrow> z_number b \<Longrightarrow> z_number d \<Longrightarrow> zcmp a b < 0 \<Longrightarrow> zcmp b d < 0 \<Longrightarrow> zcmp a d < 0"
  by (auto simp: zcmp_neg dest: mem_cmp_trans)

lemma zcmp_linear:
  assumes "z_number a" and "z_number b" and "z_member a \<noteq> z_member b" and "\<not> zcmp a b < 0"
  shows "zcmp b a < 0"
  using assms mem_cmp_eq [of "z_member a" "z_member b"] mem_cmp_swap [of "z_member a" "z_member b"]
  by (auto simp: zcmp_neg not_less)

definition zsorted :: "arzset \<Rightarrow> bool" where
  "zsorted z \<longleftrightarrow> sorted_wrt (\<lambda>x y. zcmp x y < 0) (z_arr z) \<and> (\<forall>x \<in> set (z_arr z). z_number x)"


section \<open>The value as a map\<close>

definition zmap :: "arzset \<Rightarrow> bytes \<Rightarrow> f64 option" where
  "zmap z = map_of (map (\<lambda>x. (z_member x, z_score x)) (z_arr z))"

abbreviation zset_ok :: "arzset \<Rightarrow> bool" where
  "zset_ok z \<equiv> payload_ok (PZset z)"

lemma map_eqI: "(\<And>k v. f k = Some v \<longleftrightarrow> g k = Some v) \<Longrightarrow> f = g"
  by (rule ext) (metis not_Some_eq)

lemma zfind_None: "zfind i xs m = None \<longleftrightarrow> m \<notin> z_member ` set xs"
  by (induction xs arbitrary: i) auto

lemma zfind_Some: "zfind i xs m = Some j \<Longrightarrow> i \<le> j \<and> j - i < length xs \<and> z_member (xs ! (j - i)) = m"
proof (induction xs arbitrary: i)
  case Nil
  then show ?case by simp
next
  case (Cons x xs)
  show ?case
  proof (cases "z_member x = m")
    case True
    with Cons.prems show ?thesis by simp
  next
    case False
    then have "zfind (i + 1) xs m = Some j" using Cons.prems by simp
    note ih = Cons.IH [OF this]
    then have "j - i = Suc (j - (i + 1))" by arith
    with ih show ?thesis by simp
  qed
qed

lemma zmap_iff: "distinct (map z_member (z_arr z)) \<Longrightarrow>
    zmap z m = Some s \<longleftrightarrow> (\<exists>x \<in> set (z_arr z). z_member x = m \<and> z_score x = s)"
  unfolding zmap_def by (subst map_of_eq_Some_iff) (auto simp: comp_def)

lemma zmap_None: "zmap z m = None \<longleftrightarrow> m \<notin> z_member ` set (z_arr z)"
  by (simp add: zmap_def map_of_eq_None_iff image_image)

lemma zfind_member_None: "zfind_member z m = None \<longleftrightarrow> zmap z m = None"
  by (simp add: zfind_member_def zfind_None zmap_None)

lemma zfind_member_Some:
  assumes "distinct (map z_member (z_arr z))" and "zfind_member z m = Some i"
  shows "i < length (z_arr z)" "z_member (z_arr z ! i) = m" "zmap z m = Some (z_score (z_arr z ! i))"
  using zfind_Some [of 0 "z_arr z" m i] assms by (auto simp: zfind_member_def zmap_iff)

lemma zremove_filter:
  assumes d: "distinct (map z_member (z_arr z))" and f: "zfind_member z m = Some i"
  shows "z_arr (zremove_at z i) = filter (\<lambda>x. z_member x \<noteq> m) (z_arr z)"
proof -
  have i: "i < length (z_arr z)" "z_member (z_arr z ! i) = m" using zfind_member_Some [OF assms] by simp_all
  have sp: "z_arr z = take i (z_arr z) @ z_arr z ! i # drop (Suc i) (z_arr z)" using i by (simp add: id_take_nth_drop)
  have nd: "m \<notin> z_member ` set (take i (z_arr z))" "m \<notin> z_member ` set (drop (Suc i) (z_arr z))"
    using d i(2) by (subst (asm) sp, auto)+
  have "filter (\<lambda>x. z_member x \<noteq> m) (z_arr z) =
      filter (\<lambda>x. z_member x \<noteq> m) (take i (z_arr z)) @ filter (\<lambda>x. z_member x \<noteq> m) (drop (Suc i) (z_arr z))"
    using i(2) by (subst sp) simp
  also have "\<dots> = take i (z_arr z) @ drop (Suc i) (z_arr z)"
    using nd by (intro arg_cong2 [of _ _ _ _ "(@)"] filter_True) auto
  finally show ?thesis by (simp add: zremove_at_def)
qed

lemma zremove_ok:
  assumes ok: "zset_ok z" and f: "zfind_member z m = Some i"
  shows "zset_ok (zremove_at z i)" "zmap (zremove_at z i) = (zmap z)(m := None)" "zsorted z \<Longrightarrow> zsorted (zremove_at z i)"
    "length (z_arr z) = length (z_arr (zremove_at z i)) + 1" "zset_obj_bytes (zremove_at z i) \<le> zset_obj_bytes z"
proof -
  have d: "distinct (map z_member (z_arr z))" using ok by simp
  have i: "i < length (z_arr z)" using zfind_member_Some [OF d f] by simp
  note fl = zremove_filter [OF d f]
  have d': "distinct (map z_member (z_arr (zremove_at z i)))" unfolding fl using d by (rule distinct_map_filter)
  show l: "length (z_arr z) = length (z_arr (zremove_at z i)) + 1" using i by (simp add: zremove_at_def)
  have "z_cap (zremove_at z i) = z_cap z" by (simp add: zremove_at_def)
  then show "zset_ok (zremove_at z i)" using ok d' l by simp
  have "zmap (zremove_at z i) k = Some s \<longleftrightarrow> ((zmap z)(m := None)) k = Some s" for k s
    using zmap_iff [OF d, of k s] unfolding zmap_iff [OF d'] fl by (cases "k = m") auto
  then show "zmap (zremove_at z i) = (zmap z)(m := None)" by (rule map_eqI)
  show "zsorted (zremove_at z i)" if "zsorted z" using that by (simp add: zsorted_def fl sorted_wrt_filter)
  have "sum_list (map (\<lambda>x. length (z_member x)) (z_arr z)) =
      sum_list (map (\<lambda>x. length (z_member x)) (take i (z_arr z) @ z_arr z ! i # drop (Suc i) (z_arr z)))"
    by (simp only: id_take_nth_drop [OF i, symmetric])
  then show "zset_obj_bytes (zremove_at z i) \<le> zset_obj_bytes z"
    by (simp add: zset_obj_bytes_def zremove_at_def)
qed

lemma zpos_eq: "zpos n ys x = n + length (takeWhile (\<lambda>y. zcmp y x < 0) ys)"
  by (induction ys arbitrary: n) auto

lemma zinsert_arr: "z_arr (zinsert z x) =
    takeWhile (\<lambda>y. zcmp y x < 0) (z_arr z) @ x # dropWhile (\<lambda>y. zcmp y x < 0) (z_arr z)"
  by (simp add: zinsert_def Let_def zpos_eq takeWhile_eq_take [symmetric] dropWhile_eq_drop [symmetric])

lemma zinsert_mset: "mset (z_arr (zinsert z x)) = add_mset x (mset (z_arr z))"
proof -
  let ?P = "\<lambda>y. zcmp y x < 0"
  have "mset (z_arr z) = mset (takeWhile ?P (z_arr z)) + mset (dropWhile ?P (z_arr z))"
    by (simp only: takeWhile_dropWhile_id flip: mset_append)
  then show ?thesis by (simp add: zinsert_arr)
qed

lemma zinsert_set: "set (z_arr (zinsert z x)) = insert x (set (z_arr z))"
  using arg_cong [OF zinsert_mset [of z x], of set_mset] by simp

lemma zinsert_length: "length (z_arr (zinsert z x)) = length (z_arr z) + 1" "z_cap (zinsert z x) = z_cap z"
  using arg_cong [OF zinsert_mset [of z x], of size] by (simp_all add: zinsert_def Let_def)

lemma zinsert_ok:
  assumes d: "distinct (map z_member (z_arr z))" and new: "zmap z (z_member x) = None"
  shows "distinct (map z_member (z_arr (zinsert z x)))" "zmap (zinsert z x) = (zmap z)(z_member x \<mapsto> z_score x)"
    "zsorted z \<Longrightarrow> z_number x \<Longrightarrow> zsorted (zinsert z x)"
proof -
  let ?P = "\<lambda>y. zcmp y x < 0"
  have sp: "z_arr z = takeWhile ?P (z_arr z) @ dropWhile ?P (z_arr z)" by simp
  have n: "z_member x \<notin> z_member ` set (z_arr z)" using new by (simp add: zmap_None)
  show d': "distinct (map z_member (z_arr (zinsert z x)))"
    using mset_eq_distinct_map [of "z_arr (zinsert z x)" "x # z_arr z" z_member] n d by (simp add: zinsert_mset)
  have "zmap (zinsert z x) k = Some s \<longleftrightarrow> ((zmap z)(z_member x \<mapsto> z_score x)) k = Some s" for k s
    using n zmap_iff [OF d, of k s] unfolding zmap_iff [OF d'] zinsert_set
    by (cases "k = z_member x") (auto simp: image_iff)
  then show "zmap (zinsert z x) = (zmap z)(z_member x \<mapsto> z_score x)" by (rule map_eqI)
  show "zsorted (zinsert z x)" if so: "zsorted z" and nx: "z_number x"
  proof -
    have num: "\<And>y. y \<in> set (z_arr z) \<Longrightarrow> z_number y" using so by (simp add: zsorted_def)
    have s2: "sorted_wrt (\<lambda>x y. zcmp x y < 0) (takeWhile ?P (z_arr z) @ dropWhile ?P (z_arr z))"
      using so by (simp add: zsorted_def)
    have lo: "zcmp y x < 0" if "y \<in> set (takeWhile ?P (z_arr z))" for y using set_takeWhileD [OF that] by simp
    have hi: "zcmp x y < 0" if y: "y \<in> set (dropWhile ?P (z_arr z))" for y
    proof -
      obtain h t where ht: "dropWhile ?P (z_arr z) = h # t" using y by (cases "dropWhile ?P (z_arr z)") auto
      have hm: "h \<in> set (z_arr z)" "y \<in> set (z_arr z)" using ht y set_dropWhileD [of _ ?P "z_arr z"] by auto
      have "\<not> zcmp h x < 0" using hd_dropWhile [of ?P "z_arr z"] ht by auto
      moreover have "z_member h \<noteq> z_member x" using n imageI [OF hm(1), of z_member] by metis
      ultimately have xh: "zcmp x h < 0" using zcmp_linear [OF num [OF hm(1)] nx] by blast
      show ?thesis
      proof (cases "y = h")
        case True
        with xh show ?thesis by simp
      next
        case False
        with y ht s2 have "zcmp h y < 0" by (auto simp: sorted_wrt_append)
        then show ?thesis using zcmp_trans [OF nx num [OF hm(1)] num [OF hm(2)] xh] by simp
      qed
    qed
    have "\<forall>y \<in> set (z_arr (zinsert z x)). z_number y" using num nx by (auto simp: zinsert_set)
    moreover have "zcmp y y' < 0" if "y \<in> set (takeWhile ?P (z_arr z))" "y' \<in> set (dropWhile ?P (z_arr z))" for y y'
      using s2 [unfolded sorted_wrt_append, THEN conjunct2, THEN conjunct2] that by blast
    moreover have "sorted_wrt (\<lambda>x y. zcmp x y < 0) (takeWhile ?P (z_arr z))"
      "sorted_wrt (\<lambda>x y. zcmp x y < 0) (dropWhile ?P (z_arr z))"
      by (rule s2 [unfolded sorted_wrt_append, THEN conjunct1]
          s2 [unfolded sorted_wrt_append, THEN conjunct2, THEN conjunct1])+
    ultimately show ?thesis
      unfolding zsorted_def zinsert_arr sorted_wrt_append sorted_wrt.simps set_simps using lo hi by blast
  qed
qed

lemma double_to_ge: "nc \<noteq> 0 \<Longrightarrow> need \<le> double_to nc need"
  by (induction nc need rule: double_to.induct) (subst double_to.simps, auto)

lemma zensure_cap_ok:
  "\<exists>z'. zensure_cap True z need = Some z' \<and> z_arr z' = z_arr z \<and> need \<le> z_cap z'"
  by (auto simp: zensure_cap_def Let_def intro: double_to_ge)

lemma zadd_one_ok:
  assumes ok: "zset_ok z" and r: "zadd_one True (z, n) (sc, m) = (z', n')"
  shows "zset_ok z'" "zmap z' = (zmap z)(m \<mapsto> sc)" "n' = n + (if zmap z m = None then 1 else 0)"
    "zsorted z \<Longrightarrow> \<not> f64_is_nan sc \<Longrightarrow> zsorted z'"
    "length (z_arr z') = length (z_arr z) + (if zmap z m = None then 1 else 0)"
proof -
  define z1 where "z1 = (case zfind_member z m of Some i \<Rightarrow> zremove_at z i | None \<Rightarrow> z)"
  have 1: "zset_ok z1 \<and> zmap z1 = (zmap z)(m := None) \<and> (zsorted z \<longrightarrow> zsorted z1) \<and>
      length (z_arr z1) + 1 = length (z_arr z) + (if zmap z m = None then 1 else 0)"
  proof (cases "zfind_member z m")
    case None
    then have "zmap z m = None" by (simp only: zfind_member_None)
    moreover from this have "(zmap z)(m := None) = zmap z" by (rule fun_upd_idem)
    ultimately show ?thesis using ok None by (simp add: z1_def)
  next
    case (Some i)
    then have "zmap z m \<noteq> None" using zfind_member_None [of z m] by simp
    with Some zremove_ok [OF ok Some] show ?thesis by (simp add: z1_def)
  qed
  obtain z2 where 2: "zensure_cap True z1 (length (z_arr z1) + 1) = Some z2" "z_arr z2 = z_arr z1"
      "length (z_arr z1) + 1 \<le> z_cap z2" using zensure_cap_ok by blast
  let ?x = "\<lparr> z_member = m, z_score = sc \<rparr>"
  have z': "z' = zinsert z2 ?x" "n' = n + (if zmap z m = None then 1 else 0)"
    using r 2(1) zfind_member_None [of z m] by (auto simp: zadd_one_def Let_def z1_def split: option.splits)
  have m2: "zmap z2 = zmap z1" "zsorted z2 = zsorted z1" using 2(2) by (simp_all add: zmap_def zsorted_def)
  have d2: "distinct (map z_member (z_arr z2))" using 1 2(2) by simp
  have new: "zmap z2 (z_member ?x) = None" using 1 m2 by simp
  note ins = zinsert_ok [OF d2 new]
  show "zset_ok z'" using ins(1) 2 zinsert_length [of z2 ?x] by (simp add: z')
  show "zmap z' = (zmap z)(m \<mapsto> sc)" using ins(2) 1 m2 by (simp add: z')
  show "n' = n + (if zmap z m = None then 1 else 0)" by (rule z')
  show "zsorted z'" if "zsorted z" "\<not> f64_is_nan sc"
    using ins(3) that 1 m2 by (simp add: z' z_number_def)
  show "length (z_arr z') = length (z_arr z) + (if zmap z m = None then 1 else 0)"
    using 1 2(2) zinsert_length [of z2 ?x] by (simp add: z')
qed

lemma zadd_fold_ok:
  assumes "zset_ok z"
  shows "zset_ok (fst (foldl (zadd_one True) (z, n) sms)) \<and>
    zmap (fst (foldl (zadd_one True) (z, n) sms)) = foldl (\<lambda>f (sc, m). f(m \<mapsto> sc)) (zmap z) sms \<and>
    snd (foldl (zadd_one True) (z, n) sms) + int (length (z_arr z)) =
      n + int (length (z_arr (fst (foldl (zadd_one True) (z, n) sms)))) \<and>
    (zsorted z \<longrightarrow> (\<forall>(sc, m) \<in> set sms. \<not> f64_is_nan sc) \<longrightarrow> zsorted (fst (foldl (zadd_one True) (z, n) sms)))"
  using assms
proof (induction sms arbitrary: z n)
  case Nil
  then show ?case by simp
next
  case (Cons sm sms)
  obtain sc m where sm: "sm = (sc, m)" by fastforce
  obtain z1 n1 where 1: "zadd_one True (z, n) (sc, m) = (z1, n1)" by fastforce
  note a = zadd_one_ok [OF Cons.prems 1]
  note ih = Cons.IH [OF a(1), of n1]
  have st: "foldl (zadd_one True) (z, n) (sm # sms) = foldl (zadd_one True) (z1, n1) sms"
    by (simp add: sm 1)
  show ?case unfolding st using ih a(2-5) by (auto simp: sm split: if_splits)
qed

lemma zrem_members_ok:
  assumes "zset_ok z"
  shows "zset_ok (fst (zrem_members z n ms)) \<and> zmap (fst (zrem_members z n ms)) = zmap z |` (- set ms) \<and>
    (zsorted z \<longrightarrow> zsorted (fst (zrem_members z n ms))) \<and>
    length (z_arr z) + n = length (z_arr (fst (zrem_members z n ms))) + snd (zrem_members z n ms) \<and>
    zset_obj_bytes (fst (zrem_members z n ms)) \<le> zset_obj_bytes z \<and>
    n \<le> snd (zrem_members z n ms) \<and> (snd (zrem_members z n ms) = n \<longrightarrow> fst (zrem_members z n ms) = z)"
  using assms
proof (induction ms arbitrary: z n)
  case Nil
  then show ?case by (auto simp: restrict_map_def)
next
  case (Cons m ms)
  show ?case
  proof (cases "zfind_member z m")
    case None
    then have "zmap z m = None" by (simp only: zfind_member_None)
    then have "zmap z |` (- set ms) = zmap z |` (- set (m # ms))" by (auto simp: restrict_map_def)
    with None Cons.IH [OF Cons.prems, of n] show ?thesis by simp
  next
    case (Some i)
    note rm = zremove_ok [OF Cons.prems Some]
    have mp: "zmap (zremove_at z i) |` (- set ms) = zmap z |` (- set (m # ms))"
      unfolding rm(2) by (auto simp: restrict_map_def)
    have st: "zrem_members z n (m # ms) = zrem_members (zremove_at z i) (n + 1) ms" using Some by simp
    note ih = Cons.IH [OF rm(1), of "n + 1", unfolded mp]
    show ?thesis unfolding st by (intro conjI impI) (use ih rm(3-5) in \<open>simp_all del: payload_ok.simps\<close>)
  qed
qed

lemma zcard: "zset_ok z \<Longrightarrow> length (z_arr z) = card (dom (zmap z))"
  using distinct_card [of "map z_member (z_arr z)"]
  by (simp add: zmap_def dom_map_of_conv_image_fst image_image)

lemma zmap_empty: "z_arr z = [] \<longleftrightarrow> zmap z = Map.empty"
  by (cases "z_arr z") (auto simp: zmap_def fun_eq_iff)


section \<open>Commands, proved\<close>

definition zview :: "obs option \<Rightarrow> bytes \<Rightarrow> f64 option" where
  "zview r = (case r of None \<Rightarrow> Map.empty | Some v \<Rightarrow> zmap (zset_of (o_pay v)))"

definition zorder :: "obs option \<Rightarrow> bool" where
  "zorder r = (case r of None \<Rightarrow> True | Some v \<Rightarrow> zsorted (zset_of (o_pay v)))"

lemma zview_simps [simp]: "zview None = Map.empty" "zview (Some v) = zmap (zset_of (o_pay v))"
  "zorder None" "zorder (Some v) = zsorted (zset_of (o_pay v))"
  by (simp_all add: zview_def zorder_def)

lemma zset_pay: "etype e = TZset \<Longrightarrow> epay e = PZset (zset_of (epay e))"
  by (cases "epay e") simp_all

lemma new_zset [simp]: "new_payload TZset = PZset \<lparr> z_arr = [], z_cap = 0 \<rparr>"
  by (simp add: new_payload_def)

lemma zmap_new [simp]: "zmap \<lparr> z_arr = [], z_cap = n \<rparr> = Map.empty" "zsorted \<lparr> z_arr = [], z_cap = n \<rparr>"
  by (simp_all add: zmap_def zsorted_def fun_eq_iff)

lemma zview_before:
  "\<not> wrong TZset r \<Longrightarrow> zview r = zmap (zset_of (o_pay (typed_before TZset r)))"
  "\<not> wrong TZset r \<Longrightarrow> zorder r = zsorted (zset_of (o_pay (typed_before TZset r)))"
  by (cases r; simp add: fresh_obs_def)+

definition zadd_fits :: "obs option \<Rightarrow> (f64 \<times> bytes) list \<Rightarrow> bool" where
  "zadd_fits r sms =
     (let nw = length (filter (\<lambda>(sc, m). zview r m = None) sms)
      in nw = 0 \<or> card (dom (zview r)) + nw \<le> AR_ZSET_MAX_MEMBERS)"

lemma new_members_view: "new_members z sms = length (filter (\<lambda>(sc, m). zmap z m = None) sms)"
  unfolding new_members_def by (simp only: zfind_member_None)

text \<open>ZADD within the size bound: the scores become those given, the last one of a repeated member,
  and the array stays in order.\<close>

lemma zadd_ok:
  assumes w: "wf s c" and a: "alloc_ok c" and ne: "sms \<noteq> []" and fits: "zadd_fits (live c k) sms"
    and r: "ar_zset_zadd c k sms = (c', n, wt)"
  shows "steps s (droppable c) {k} {} c c'" "wt = wrong TZset (live c k)" "wt \<Longrightarrow> c' = c \<and> n = - 1"
    "\<not> wt \<Longrightarrow> \<exists>z. zset_ok z \<and> zmap z = foldl (\<lambda>f (sc, m). f(m \<mapsto> sc)) (zview (live c k)) sms \<and>
       (zorder (live c k) \<and> (\<forall>(sc, m) \<in> set sms. \<not> f64_is_nan sc) \<longrightarrow> zsorted z) \<and>
       yields c' ((live c)(k \<mapsto> (typed_before TZset (live c k))\<lparr> o_pay := PZset z \<rparr>)) \<and>
       (n + int (card (dom (zview (live c k)))) = int (card (dom (zmap z))) \<or> n = - 1 \<and> live c' k = None)"
proof -
  let ?F = "\<lambda>z. fst (foldl (zadd_one True) (z, 0) sms)"
  have g: "\<forall>p. payload_type p = TZset \<and> payload_ok p \<longrightarrow>
      payload_ok (PZset (?F (zset_of p))) \<and> payload_type (PZset (?F (zset_of p))) = TZset"
  proof (intro allI impI)
    fix p assume p: "payload_type p = TZset \<and> payload_ok p"
    then have "zset_ok (zset_of p)" by (cases p) simp_all
    from zadd_fold_ok [OF this, of 0 sms]
    show "payload_ok (PZset (?F (zset_of p))) \<and> payload_type (PZset (?F (zset_of p))) = TZset" by simp
  qed
  define m where "m = foldl (\<lambda>f (sc, m). f(m \<mapsto> sc)) (zview (live c k)) sms"
  define nn where "nn \<longleftrightarrow> (\<forall>(sc, m) \<in> set sms. \<not> f64_is_nan sc)"
  have "steps s (droppable c) {k} {} c c' \<and> wt = wrong TZset (live c k) \<and> (wt \<longrightarrow> c' = c \<and> n = - 1) \<and>
    (\<not> wt \<longrightarrow> (\<exists>z. zset_ok z \<and> zmap z = m \<and> (zorder (live c k) \<and> nn \<longrightarrow> zsorted z) \<and>
       yields c' ((live c)(k \<mapsto> (typed_before TZset (live c k))\<lparr> o_pay := PZset z \<rparr>)) \<and>
       (n + int (card (dom (zview (live c k)))) = int (card (dom (zmap z))) \<or> n = - 1 \<and> live c' k = None)))"
  proof (cases rule: grow_command [OF w a g, where k = k])
    case 1
    with r ne w show ?thesis by (simp add: ar_zset_zadd_def steps_refl)
  next
    case (2 c1)
    have "zset_ok \<lparr> z_arr = [], z_cap = 0 \<rparr>" by simp
    note f = zadd_fold_ok [OF this, of 0 sms]
    have "c' = c1 \<and> n = - 1 \<and> \<not> wt" using r ne 2(1) by (simp add: ar_zset_zadd_def)
    then show ?thesis using f 2 by (intro conjI impI exI [of _ "?F \<lparr> z_arr = [], z_cap = 0 \<rparr>"]) (simp_all add: m_def nn_def)
  next
    case (3 c1 e b tr)
    let ?z = "zset_of (epay e)"
    have ok: "zset_ok ?z" using 3(3,5) by (cases "epay e") simp_all
    have v: "zview (live c k) = zmap ?z" "zorder (live c k) = zsorted ?z"
      using zview_before [OF 3(2)] arg_cong [OF 3(4), of o_pay] by simp_all
    note f = zadd_fold_ok [OF ok, of 0 sms]
    have "\<not> (new_members ?z sms > 0 \<and> length (z_arr ?z) + new_members ?z sms > AR_ZSET_MAX_MEMBERS)"
      using fits v(1) zcard [OF ok] by (auto simp: zadd_fits_def new_members_view Let_def)
    then have c': "c' = payload_commit c1 k e (PZset (?F ?z)) \<and> n = snd (foldl (zadd_one True) (?z, 0) sms) \<and> \<not> wt"
      using r ne 3(1,6) by (auto simp: ar_zset_zadd_def Let_def split: prod.splits if_splits)
    have "zset_ok (?F ?z)" using f by simp
    then have "n + int (card (dom (zview (live c k)))) = int (card (dom (zmap (?F ?z))))"
      using f c' v(1) zcard [OF ok] zcard [of "?F ?z"] by simp
    then show ?thesis using 3(2,7,8) c' f v by (intro conjI impI exI [of _ "?F ?z"]) (simp_all add: m_def nn_def)
  qed
  then show "steps s (droppable c) {k} {} c c'" "wt = wrong TZset (live c k)" "wt \<Longrightarrow> c' = c \<and> n = - 1"
    "\<not> wt \<Longrightarrow> \<exists>z. zset_ok z \<and> zmap z = foldl (\<lambda>f (sc, m). f(m \<mapsto> sc)) (zview (live c k)) sms \<and>
       (zorder (live c k) \<and> (\<forall>(sc, m) \<in> set sms. \<not> f64_is_nan sc) \<longrightarrow> zsorted z) \<and>
       yields c' ((live c)(k \<mapsto> (typed_before TZset (live c k))\<lparr> o_pay := PZset z \<rparr>)) \<and>
       (n + int (card (dom (zview (live c k)))) = int (card (dom (zmap z))) \<or> n = - 1 \<and> live c' k = None)"
    unfolding m_def nn_def by blast+
qed

text \<open>Beyond the bound the command is refused and no existing value changes.\<close>

lemma zadd_oversize:
  assumes w: "wf s c" and l: "live c k = Some v" and t: "payload_type (o_pay v) = TZset"
    and fits: "\<not> zadd_fits (live c k) sms" and r: "ar_zset_zadd c k sms = (c', n, wt)"
  shows "c' = c \<and> n = - 2 \<and> \<not> wt"
  using w
proof (cases rule: typed_cases [of s c k TZset])
  case (found e b tr N)
  have ok: "zset_ok (zset_of (epay e))" using found(4,5) by (cases "epay e") (simp_all add: cursor_def)
  have "new_members (zset_of (epay e)) sms > 0 \<and>
      length (z_arr (zset_of (epay e))) + new_members (zset_of (epay e)) sms > AR_ZSET_MAX_MEMBERS"
    using fits found(6) zcard [OF ok] by (auto simp: zadd_fits_def new_members_view Let_def)
  moreover have "ar_entry_get_or_create c k TZset = (c, Some (e, b, tr), False)"
    using found(1) by (auto simp: ar_entry_get_typed_def ar_entry_get_or_create_def split: prod.splits option.splits if_splits)
  moreover have "sms \<noteq> []" using fits by (auto simp: zadd_fits_def)
  ultimately show ?thesis using r by (simp add: ar_zset_zadd_def)
next
  case (wrong x)
  with l t show ?thesis by simp
next
  case (missing c1)
  with l show ?thesis by simp
qed

lemma zscore_ok:
  assumes w: "wf s c" and r: "ar_zset_zscore fmt c k m = (c', v, wt)"
  shows "steps s P K W c c'" "wt = wrong TZset (live c k)"
    "\<not> wt \<Longrightarrow> v = (if alloc_ok c then map_option fmt (zview (live c k) m) else None)"
proof -
  have "steps s P K W c c' \<and> wt = wrong TZset (live c k) \<and>
    (\<not> wt \<longrightarrow> v = (if alloc_ok c then map_option fmt (zview (live c k) m) else None))"
    using w
  proof (cases rule: typed_cases [of s c k TZset])
    case (found e b tr N)
    have ok: "zset_ok (zset_of (epay e))" using found(4,5) by (cases "epay e") (simp_all add: cursor_def)
    then have d: "distinct (map z_member (z_arr (zset_of (epay e))))" by simp
    show ?thesis
    proof (cases "zfind_member (zset_of (epay e)) m")
      case None
      then have "zmap (zset_of (epay e)) m = None" by (simp only: zfind_member_None)
      then show ?thesis using r w found(1,5,6) None by (simp add: ar_zset_zscore_def steps_refl)
    next
      case (Some i)
      then show ?thesis using r w found(1,5,6) zfind_member_Some(3) [OF d Some]
        by (auto simp: ar_zset_zscore_def steps_refl)
    qed
  next
    case (wrong x)
    with r w show ?thesis by (simp add: ar_zset_zscore_def steps_refl)
  next
    case (missing c1)
    then show ?thesis using r by (auto simp: ar_zset_zscore_def)
  qed
  then show "steps s P K W c c'" "wt = wrong TZset (live c k)"
    "\<not> wt \<Longrightarrow> v = (if alloc_ok c then map_option fmt (zview (live c k) m) else None)" by blast+
qed

lemma zcard_ok:
  assumes w: "wf s c" and r: "ar_zset_zcard c k = (c', n, wt)"
  shows "steps s P K W c c'" "wt = wrong TZset (live c k)" "\<not> wt \<Longrightarrow> n = int (card (dom (zview (live c k))))"
proof -
  have "steps s P K W c c' \<and> wt = wrong TZset (live c k) \<and> (\<not> wt \<longrightarrow> n = int (card (dom (zview (live c k)))))"
    using w
  proof (cases rule: typed_cases [of s c k TZset])
    case (found e b tr N)
    have "zset_ok (zset_of (epay e))" using found(4,5) by (cases "epay e") (simp_all add: cursor_def)
    from zcard [OF this] found r w show ?thesis by (auto simp: ar_zset_zcard_def steps_refl)
  next
    case (wrong x)
    with r w show ?thesis by (simp add: ar_zset_zcard_def steps_refl)
  next
    case (missing c1)
    then show ?thesis using r by (auto simp: ar_zset_zcard_def)
  qed
  then show "steps s P K W c c'" "wt = wrong TZset (live c k)" "\<not> wt \<Longrightarrow> n = int (card (dom (zview (live c k))))"
    by blast+
qed

definition zrem_result :: "obs option \<Rightarrow> bytes list \<Rightarrow> obs option \<Rightarrow> bool" where
  "zrem_result r ms r' \<longleftrightarrow>
     zview r' = zview r |` (- set ms) \<and>
     (case r of None \<Rightarrow> r' = None
      | Some v \<Rightarrow> if zview r |` (- set ms) = Map.empty then r' = None
                  else \<exists>z. zset_ok z \<and> (zorder r \<longrightarrow> zsorted z) \<and> r' = Some (v\<lparr> o_pay := PZset z \<rparr>))"

lemma zrem_ok:
  assumes w: "wf s c" and r: "ar_zset_zrem c k ms = (c', n, wt)"
  shows "steps s (\<lambda>_. False) {k} {} c c'" "wt = wrong TZset (live c k)" "wt \<Longrightarrow> live c' = live c"
    "\<not> wt \<Longrightarrow> zrem_result (live c k) ms (live c' k) \<and> (\<forall>k'. k' \<noteq> k \<longrightarrow> live c' k' = live c k') \<and>
       n + int (card (dom (zview (live c' k)))) = int (card (dom (zview (live c k))))"
proof -
  define goal where "goal \<longleftrightarrow> steps s (\<lambda>_. False) {k} {} c c' \<and> wt = wrong TZset (live c k) \<and>
    (wt \<longrightarrow> live c' = live c) \<and>
    (\<not> wt \<longrightarrow> zrem_result (live c k) ms (live c' k) \<and> (\<forall>k'. k' \<noteq> k \<longrightarrow> live c' k' = live c k') \<and>
       n + int (card (dom (zview (live c' k)))) = int (card (dom (zview (live c k)))))"
  have goal
    using w
  proof (cases rule: typed_cases [of s c k TZset])
    case (found e b tr N)
    let ?z0 = "zset_of (epay e)"
    obtain z m where z: "zrem_members ?z0 0 ms = (z, m)" by fastforce
    have ok0: "zset_ok ?z0" using found(4,5) by (cases "epay e") (simp_all add: cursor_def)
    note zr = zrem_members_ok [OF ok0, of 0 ms, unfolded z fst_conv snd_conv]
    have zv: "zview (live c k) = zmap ?z0" using found(6) by simp
    have le: "payload_bytes (PZset z) \<le> payload_bytes (epay e)"
      using zr zset_pay [OF found(5)] by (metis payload_bytes.simps(4))
    obtain c1 e1 where 1: "payload_shrink c e (PZset z) = (c1, e1)" by fastforce
    have okz: "zset_ok z" and tz: "payload_type (PZset z) = etype e" using zr found(5) by simp_all
    note sh = shrink_slot [OF found(4,2,6) tz okz le 1]
    have ev: "evo (\<lambda>_. False) {k} {k} c c1" using upd_evo [OF found(4) sh(1)] found(2) by simp
    have n: "int m + int (card (dom (zmap z))) = int (card (dom (zview (live c k))))"
      using zr zcard [OF ok0] zcard [OF okz] zv by simp
    show ?thesis
    proof (cases "z_arr z = []")
      case True
      have "c' = ar_entry_free_ex c1 b tr e1 \<and> n = int m \<and> \<not> wt"
        using r found(1) z 1 True by (simp add: ar_zset_zrem_def)
      moreover have em: "zmap z = Map.empty" using True zmap_empty by blast
      moreover have "zmap ?z0 |` (- set ms) = Map.empty" using zr em by simp
      moreover have "int m = int (card (dom (zmap ?z0)))" using n em zv by simp
      ultimately show ?thesis
        using written_free [OF ev upd_cursor [OF sh(1)] sh(6) [OF found(3)] sh(4)] found(5,6)
        by (simp add: goal_def zrem_result_def)
    next
      case False
      have c': "c' = (if m > 0 then ar_watch_touch c1 k else c1) \<and> n = int m \<and> \<not> wt"
        using r found(1) z 1 False by (auto simp: ar_zset_zrem_def split: if_splits)
      have lv: "live c' = (live c)(k \<mapsto> (obs_of e)\<lparr> o_pay := PZset z \<rparr>)" using c' sh(2) by simp
      have res: "zrem_result (live c k) ms (live c' k)"
        using found(6) lv zr zv False zmap_empty [of z] by (auto simp: zrem_result_def)
      have "steps s (\<lambda>_. False) {k} {} c c'"
      proof (cases "m > 0")
        case True
        then show ?thesis using c' sh(3) by simp
      next
        case False
        then have "z = ?z0" using zr by simp
        then have "PZset z = epay e" using zset_pay [OF found(5)] by simp
        then have "(obs_of e)\<lparr> o_pay := PZset z \<rparr> = obs_of e" by (simp add: obs_of_def)
        then have "steps s (\<lambda>_. False) {} {} c c1"
          using shrink_upd(3) [OF found(4) tz okz le 1] by (intro upd_same_obs [OF found(4) sh(1)]) simp
        then have "steps s (\<lambda>_. False) {k} {} c c1" by (rule steps_mono) simp_all
        then show ?thesis using c' False by simp
      qed
      then show ?thesis using res lv c' n found by (simp add: goal_def)
    qed
  next
    case (wrong x)
    with r w show ?thesis by (simp add: goal_def ar_zset_zrem_def steps_refl)
  next
    case (missing c1)
    then show ?thesis using r by (auto simp: goal_def ar_zset_zrem_def zrem_result_def)
  qed
  then show "steps s (\<lambda>_. False) {k} {} c c'" "wt = wrong TZset (live c k)" "wt \<Longrightarrow> live c' = live c"
    "\<not> wt \<Longrightarrow> zrem_result (live c k) ms (live c' k) \<and> (\<forall>k'. k' \<noteq> k \<longrightarrow> live c' k' = live c k') \<and>
       n + int (card (dom (zview (live c' k)))) = int (card (dom (zview (live c k))))"
    unfolding goal_def by blast+
qed

end
