(* ===== verification/Commands.thy ===== *)
theory Commands
  imports Resp Hashes Lists Zsets
begin

text \<open>
  The data commands of \<open>dispatch\<close> in \<open>ar_server.c\<close>, one definition per command: the check of the
  arguments, the call into the store, the reply, and whether the command goes to the replicas
  (\<open>repl_propagate\<close>). A handler takes the store and the argument vector (the name is \<open>argv ! 0\<close>) and
  yields the store, the bytes of the reply and that flag. \<open>strtod\<close> and \<open>%.17g\<close> of the C library
  are the parameters \<open>strtod\<close> and \<open>g17\<close>.
\<close>

type_synonym result = "core \<times> bytes \<times> bool"
type_synonym libc = "(bytes \<Rightarrow> (f64 \<times> bytes) option) \<times> (f64 \<Rightarrow> bytes)"


section \<open>Arguments\<close>

definition quoted :: "bytes \<Rightarrow> bytes" where
  "quoted name = CHR 0x27 # name @ [CHR 0x27]"

definition wrong_args :: "bytes \<Rightarrow> bytes" where
  "wrong_args name = reply_err (''ERR wrong number of arguments for '' @ quoted name)"

definition wrong_type :: bytes where
  "wrong_type = reply_err ''WRONGTYPE Operation against a key holding the wrong kind of value''"

definition not_int :: bytes where
  "not_int = reply_err ''ERR value is not an integer or out of range''"

definition oom :: bytes where "oom = reply_err ''ERR OOM''"
definition syntax_error :: bytes where "syntax_error = reply_err ''ERR syntax error''"

text \<open>A number copied into a 32-byte buffer: \<open>strtoll\<close> with the end checked, or \<open>atoll\<close> without.\<close>

definition num_arg :: "bytes \<Rightarrow> int option" where
  "num_arg p = (if p = [] \<or> length p \<ge> 32 then None else strtoll_all p)"

definition time_arg :: "bytes \<Rightarrow> int option" where
  "time_arg p = (if p = [] \<or> length p \<ge> 32 then None else Some (atoll p))"

definition limit_arg :: "bytes \<Rightarrow> int option" where
  "limit_arg p = (if length p \<ge> 32 then None else strtoll_all p)"

text \<open>\<open>strtoull\<close>: a minus sign negates modulo \<open>2^64\<close>, too large a value is clamped.\<close>

definition strtoull :: "bytes \<Rightarrow> nat \<times> bytes" where
  "strtoull s =
     (let t = dropWhile is_space s;
          neg = (t \<noteq> [] \<and> hd t = CHR ''-'');
          u = (if t \<noteq> [] \<and> (hd t = CHR ''-'' \<or> hd t = CHR ''+'') then tl t else t)
      in if u = [] \<or> \<not> is_digit (hd u) then (0, s)
         else (case read_digits 0 u of
                 (m, rest) \<Rightarrow> (if m > UINT64_MAX then UINT64_MAX else if neg then u64 (2 ^ 64 - m) else m, rest)))"

definition cursor_arg :: "bytes \<Rightarrow> nat option" where
  "cursor_arg p = (if p = [] \<or> length p \<ge> 32 then None
     else case strtoull (cstr p) of (v, rest) \<Rightarrow> if rest \<noteq> [] then None else Some v)"

definition count_arg :: "bytes \<Rightarrow> int option" where
  "count_arg p = (if p = [] \<or> length p \<ge> 32 then None
     else case strtoll_all p of None \<Rightarrow> None
          | Some v \<Rightarrow> if v < 1 then None else Some (if v > 10000 then 10000 else v))"

definition F64_INF :: f64 where "F64_INF = 9218868437227405312"
definition F64_MINF :: f64 where "F64_MINF = 18442240474082181120"

definition parse_double :: "libc \<Rightarrow> bytes \<Rightarrow> f64 option" where
  "parse_double lib p =
     (if p = [] \<or> length p \<ge> 64 then None
      else if p = ''-inf'' \<or> p = ''-Inf'' \<or> p = ''-INF'' then Some F64_MINF
      else if p = ''inf'' \<or> p = ''Inf'' \<or> p = ''INF'' \<or> p = ''+inf'' \<or> p = ''+Inf'' \<or> p = ''+INF'' then Some F64_INF
      else case fst lib (cstr p) of
             None \<Rightarrow> None
           | Some (d, rest) \<Rightarrow> if rest = [] then Some d else None)"

definition array_of :: "nat \<Rightarrow> bytes \<Rightarrow> bytes" where
  "array_of n body = CHR ''*'' # show_nat n @ CRLF @ body"

definition bulks :: "bytes list \<Rightarrow> bytes" where
  "bulks ps = concat (map reply_bulk ps)"

definition bulk_or_null :: "bytes option \<Rightarrow> bytes" where
  "bulk_or_null r = (case r of None \<Rightarrow> reply_null_bulk | Some v \<Rightarrow> reply_bulk v)"

fun pairs_of :: "bytes list \<Rightarrow> (bytes \<times> bytes) list" where
  "pairs_of (a # b # xs) = (a, b) # pairs_of xs"
| "pairs_of _ = []"


section \<open>Strings\<close>

datatype got = Hit bytes | Miss | WrongType

definition get_ptr :: "core \<Rightarrow> bytes \<Rightarrow> core \<times> got" where
  "get_ptr c key =
     (let c = c\<lparr> ops := ops c + 1, gets := gets c + 1 \<rparr>
      in case ar_find_entry_ex c key of
           (c, None) \<Rightarrow> (shadow_miss (c\<lparr> misses := misses c + 1 \<rparr>), Miss)
         | (c, Some (e, b, tr)) \<Rightarrow>
             if etype e \<noteq> TString then (c, WrongType)
             else let c = shadow_hit (c\<lparr> hits := hits c + 1 \<rparr>)
                  in case ar_touch_get c e b tr of (c, e) \<Rightarrow>
                     case evict_on_get c e of (c, e) \<Rightarrow> (c, Hit (str_val (epay e))))"

definition cmd_get :: "core \<Rightarrow> bytes list \<Rightarrow> result" where
  "cmd_get c argv =
     (if length argv \<noteq> 2 then (c, wrong_args ''get'', False)
      else case get_ptr c (argv ! 1) of
             (c, WrongType) \<Rightarrow> (c, wrong_type, False)
           | (c, Miss) \<Rightarrow> (c, reply_null_bulk, False)
           | (c, Hit v) \<Rightarrow> (c, reply_bulk v, False))"

text \<open>The options of SET: \<open>-1\<close> is an unset time.\<close>

record set_opts =
  so_nx :: bool
  so_xx :: bool
  so_keep :: bool
  so_ex :: int
  so_px :: int
  so_exat :: int
  so_pxat :: int

definition set_opts0 :: set_opts where
  "set_opts0 = \<lparr> so_nx = False, so_xx = False, so_keep = False, so_ex = - 1, so_px = - 1, so_exat = - 1, so_pxat = - 1 \<rparr>"

definition timed :: "set_opts \<Rightarrow> bool" where
  "timed so = (so_ex so \<ge> 0 \<or> so_px so \<ge> 0 \<or> so_exat so \<ge> 0 \<or> so_pxat so \<ge> 0)"

definition bad_time :: "bytes \<Rightarrow> bytes" where
  "bad_time name = reply_err (''ERR invalid expire time in '' @ quoted name)"

definition positive_time :: "bytes \<Rightarrow> int option" where
  "positive_time p = (case time_arg p of None \<Rightarrow> None | Some t \<Rightarrow> if t \<le> 0 then None else Some t)"

text \<open>A time option and its argument; \<open>put\<close> stores the value.\<close>

definition set_time :: "(int \<Rightarrow> set_opts) \<Rightarrow> set_opts \<Rightarrow> bytes list \<Rightarrow> bytes + set_opts" where
  "set_time put so rest =
     (case rest of
        [] \<Rightarrow> Inl syntax_error
      | p # _ \<Rightarrow>
          if timed so \<or> so_keep so then Inl syntax_error
          else (case positive_time p of None \<Rightarrow> Inl (bad_time ''set'') | Some t \<Rightarrow> Inr (put t)))"

function parse_set_opts :: "set_opts \<Rightarrow> bytes list \<Rightarrow> bytes + set_opts" where
  "parse_set_opts so [] = Inr so"
| "parse_set_opts so (a # rest) =
     (if cmd_eq a ''nx'' then
        (if so_xx so then Inl syntax_error else parse_set_opts (so\<lparr> so_nx := True \<rparr>) rest)
      else if cmd_eq a ''xx'' then
        (if so_nx so then Inl syntax_error else parse_set_opts (so\<lparr> so_xx := True \<rparr>) rest)
      else if cmd_eq a ''keepttl'' then
        (if timed so then Inl syntax_error else parse_set_opts (so\<lparr> so_keep := True \<rparr>) rest)
      else if cmd_eq a ''ex'' then
        (case set_time (\<lambda>t. so\<lparr> so_ex := t \<rparr>) so rest of Inl m \<Rightarrow> Inl m | Inr so \<Rightarrow> parse_set_opts so (tl rest))
      else if cmd_eq a ''px'' then
        (case set_time (\<lambda>t. so\<lparr> so_px := t \<rparr>) so rest of Inl m \<Rightarrow> Inl m | Inr so \<Rightarrow> parse_set_opts so (tl rest))
      else if cmd_eq a ''exat'' then
        (case set_time (\<lambda>t. so\<lparr> so_exat := t \<rparr>) so rest of Inl m \<Rightarrow> Inl m | Inr so \<Rightarrow> parse_set_opts so (tl rest))
      else if cmd_eq a ''pxat'' then
        (case set_time (\<lambda>t. so\<lparr> so_pxat := t \<rparr>) so rest of Inl m \<Rightarrow> Inl m | Inr so \<Rightarrow> parse_set_opts so (tl rest))
      else Inl syntax_error)"
  by pat_completeness auto

termination
  by (relation "measure (\<lambda>(so, xs). length xs)") auto

definition counted :: "core \<Rightarrow> core" where
  "counted c = c\<lparr> ops := ops c + 1, sets := sets c + 1 \<rparr>"

definition set_with :: "core \<Rightarrow> set_opts \<Rightarrow> bytes \<Rightarrow> bytes \<Rightarrow> core \<times> bool" where
  "set_with c so key val =
     (if so_ex so > 0 then ar_set_bin_ex c key val (so_ex so)
      else if so_px so > 0 then ar_set_bin_px c key val (so_px so)
      else if so_exat so > 0 then ar_entry_set_ex (counted c) key val (u64 (nat (so_exat so) * 1000))
      else if so_pxat so > 0 then ar_entry_set_ex (counted c) key val (nat (so_pxat so))
      else if so_keep so then
        (case ar_find_entry_ex c key of
           (c, None) \<Rightarrow> ar_entry_set_ex (counted c) key val 0
         | (c, Some (e, b, tr)) \<Rightarrow> ar_entry_set_ex (counted c) key val (expire_at e))
      else ar_entry_set (counted c) key val)"

definition cmd_set :: "core \<Rightarrow> bytes list \<Rightarrow> result" where
  "cmd_set c argv =
     (if length argv < 3 then (c, wrong_args ''set'', False)
      else case parse_set_opts set_opts0 (drop 3 argv) of
             Inl msg \<Rightarrow> (c, msg, False)
           | Inr so \<Rightarrow>
               (case ar_exists_bin c (argv ! 1) of (c, present) \<Rightarrow>
                  if so_nx so \<and> present then (c, reply_null_bulk, False)
                  else if so_xx so \<and> \<not> present then (c, reply_null_bulk, False)
                  else (case set_with c so (argv ! 1) (argv ! 2) of
                          (c, False) \<Rightarrow> (c, oom, False)
                        | (c, True) \<Rightarrow> (c, reply_ok, True))))"

definition cmd_setnx :: "core \<Rightarrow> bytes list \<Rightarrow> result" where
  "cmd_setnx c argv =
     (if length argv \<noteq> 3 then (c, wrong_args ''setnx'', False)
      else case ar_exists_bin c (argv ! 1) of
             (c, True) \<Rightarrow> (c, reply_int 0, False)
           | (c, False) \<Rightarrow>
               (case ar_entry_set (counted c) (argv ! 1) (argv ! 2) of
                  (c, False) \<Rightarrow> (c, oom, False)
                | (c, True) \<Rightarrow> (c, reply_int 1, True)))"

text \<open>SETEX and PSETEX: the same handler over \<open>ar_set_bin_ex\<close> and \<open>ar_set_bin_px\<close>.\<close>

definition cmd_setex :: "(core \<Rightarrow> bytes \<Rightarrow> bytes \<Rightarrow> int \<Rightarrow> core \<times> bool) \<Rightarrow> bytes \<Rightarrow> core \<Rightarrow> bytes list \<Rightarrow> result" where
  "cmd_setex op name c argv =
     (if length argv \<noteq> 4 then (c, wrong_args name, False)
      else case positive_time (argv ! 2) of
             None \<Rightarrow> (c, bad_time name, False)
           | Some t \<Rightarrow>
               (case op c (argv ! 1) (argv ! 3) t of
                  (c, False) \<Rightarrow> (c, oom, False)
                | (c, True) \<Rightarrow> (c, reply_ok, True)))"

definition cmd_getset :: "core \<Rightarrow> bytes list \<Rightarrow> result" where
  "cmd_getset c argv =
     (if length argv \<noteq> 3 then (c, wrong_args ''getset'', False)
      else case get_ptr c (argv ! 1) of
             (c, WrongType) \<Rightarrow> (c, wrong_type, False)
           | (c, r) \<Rightarrow>
               if r \<noteq> Miss \<and> \<not> alloc_ok c then (c, oom, False)
               else (case ar_entry_set (c\<lparr> sets := sets c + 1 \<rparr>) (argv ! 1) (argv ! 2) of
                       (c, False) \<Rightarrow> (c, oom, False)
                     | (c, True) \<Rightarrow> (c, case r of Hit v \<Rightarrow> reply_bulk v | _ \<Rightarrow> reply_null_bulk, True)))"

text \<open>EXPIRE, PEXPIRE, EXPIREAT, PEXPIREAT.\<close>

definition cmd_expire :: "(core \<Rightarrow> bytes \<Rightarrow> int \<Rightarrow> core \<times> bool) \<Rightarrow> bytes \<Rightarrow> core \<Rightarrow> bytes list \<Rightarrow> result" where
  "cmd_expire op name c argv =
     (if length argv \<noteq> 3 then (c, wrong_args name, False)
      else case time_arg (argv ! 2) of
             None \<Rightarrow> (c, not_int, False)
           | Some t \<Rightarrow>
               (case op c (argv ! 1) t of
                  (c, ok) \<Rightarrow> (c\<lparr> ops := ops c + 1 \<rparr>, reply_int (if ok then 1 else 0), ok)))"

definition cmd_ttl :: "(core \<Rightarrow> bytes \<Rightarrow> core \<times> int) \<Rightarrow> bytes \<Rightarrow> core \<Rightarrow> bytes list \<Rightarrow> result" where
  "cmd_ttl op name c argv =
     (if length argv \<noteq> 2 then (c, wrong_args name, False)
      else case op c (argv ! 1) of (c, t) \<Rightarrow> (c\<lparr> ops := ops c + 1 \<rparr>, reply_int t, False))"

text \<open>Run a one-key operation over the arguments, counting its successes.\<close>

fun count_keys :: "(core \<Rightarrow> bytes \<Rightarrow> core \<times> bool) \<Rightarrow> core \<Rightarrow> bytes list \<Rightarrow> nat \<Rightarrow> core \<times> nat" where
  "count_keys op c [] n = (c, n)"
| "count_keys op c (k # ks) n = (case op c k of (c, ok) \<Rightarrow> count_keys op c ks (if ok then n + 1 else n))"

definition cmd_del :: "bytes \<Rightarrow> core \<Rightarrow> bytes list \<Rightarrow> result" where
  "cmd_del name c argv =
     (if length argv < 2 then (c, wrong_args name, False)
      else case count_keys ar_del_bin c (tl argv) 0 of (c, n) \<Rightarrow> (c, reply_int (int n), n > 0))"

definition cmd_exists :: "core \<Rightarrow> bytes list \<Rightarrow> result" where
  "cmd_exists c argv =
     (if length argv < 2 then (c, wrong_args ''exists'', False)
      else case count_keys ar_exists_bin c (tl argv) 0 of
             (c, n) \<Rightarrow> (c\<lparr> ops := ops c + 1 \<rparr>, reply_int (int n), False))"

definition cmd_append :: "core \<Rightarrow> bytes list \<Rightarrow> result" where
  "cmd_append c argv =
     (if length argv \<noteq> 3 then (c, wrong_args ''append'', False)
      else case ar_append c (argv ! 1) (argv ! 2) of
             (c, n, wt) \<Rightarrow>
               if wt then (c, wrong_type, False)
               else if n < 0 then (c, oom, False)
               else (c, reply_int n, True))"

definition cmd_strlen :: "core \<Rightarrow> bytes list \<Rightarrow> result" where
  "cmd_strlen c argv =
     (if length argv \<noteq> 2 then (c, wrong_args ''strlen'', False)
      else case ar_strlen c (argv ! 1) of
             (c, n, wt) \<Rightarrow> if wt then (c, wrong_type, False) else (c, reply_int n, False))"

definition cmd_rename :: "bool \<Rightarrow> core \<Rightarrow> bytes list \<Rightarrow> result" where
  "cmd_rename nx c argv =
     (if length argv \<noteq> 3 then (c, wrong_args (if nx then ''renamenx'' else ''rename''), False)
      else case ar_rename c (argv ! 1) (argv ! 2) nx of
             (c, rc) \<Rightarrow>
               if rc = 0 then (c, reply_err ''ERR no such key'', False)
               else if rc < 0 then (c, oom, False)
               else if nx then (if rc = 2 then (c, reply_int 0, False) else (c, reply_int 1, True))
               else (c, reply_ok, True))"

fun mget_loop :: "core \<Rightarrow> bytes list \<Rightarrow> bytes \<Rightarrow> core \<times> bytes" where
  "mget_loop c [] out = (c, out)"
| "mget_loop c (k # ks) out =
     (case get_ptr c k of
        (c, Hit v) \<Rightarrow> mget_loop c ks (out @ reply_bulk v)
      | (c, _) \<Rightarrow> mget_loop c ks (out @ reply_null_bulk))"

definition cmd_mget :: "core \<Rightarrow> bytes list \<Rightarrow> result" where
  "cmd_mget c argv =
     (if length argv < 2 then (c, wrong_args ''mget'', False)
      else case mget_loop c (tl argv) [] of
             (c, out) \<Rightarrow> (c, array_of (length argv - 1) out, False))"

definition cmd_mset :: "core \<Rightarrow> bytes list \<Rightarrow> result" where
  "cmd_mset c argv =
     (if length argv < 3 \<or> (length argv - 1) mod 2 \<noteq> 0 then (c, wrong_args ''mset'', False)
      else case ar_mset c (pairs_of (tl argv)) of
             (c, False) \<Rightarrow> (c, oom, False)
           | (c, True) \<Rightarrow> (c, reply_ok, True))"

definition incr_reply :: "core \<times> int \<times> bool \<Rightarrow> result" where
  "incr_reply r = (case r of (c, v, ok) \<Rightarrow> if ok then (c, reply_int v, True) else (c, not_int, False))"

text \<open>INCR and DECR (\<open>delta\<close> is 1 or -1), INCRBY and DECRBY (\<open>neg\<close> negates, in 64 bits).\<close>

definition cmd_incr :: "int \<Rightarrow> bytes \<Rightarrow> core \<Rightarrow> bytes list \<Rightarrow> result" where
  "cmd_incr delta name c argv =
     (if length argv \<noteq> 2 then (c, wrong_args name, False)
      else incr_reply (ar_incr c (argv ! 1) delta))"

definition cmd_incrby :: "bool \<Rightarrow> bytes \<Rightarrow> core \<Rightarrow> bytes list \<Rightarrow> result" where
  "cmd_incrby neg name c argv =
     (if length argv \<noteq> 3 then (c, wrong_args name, False)
      else case num_arg (argv ! 2) of
             None \<Rightarrow> (c, not_int, False)
           | Some d \<Rightarrow> incr_reply (ar_incr c (argv ! 1) (if neg then s64 (- d) else d)))"

definition cmd_dbsize :: "core \<Rightarrow> bytes list \<Rightarrow> result" where
  "cmd_dbsize c argv =
     (if length argv \<noteq> 1 then (c, wrong_args ''dbsize'', False)
      else case ar_dbsize c of (c, n) \<Rightarrow> (c, reply_int (s64 (int n)), False))"

definition cmd_flushdb :: "core \<Rightarrow> bytes list \<Rightarrow> result" where
  "cmd_flushdb c argv = (ar_flushdb c, reply_ok, True)"

definition cmd_type :: "core \<Rightarrow> bytes list \<Rightarrow> result" where
  "cmd_type c argv =
     (if length argv \<noteq> 2 then (c, wrong_args ''type'', False)
      else case ar_find_entry_ex c (argv ! 1) of
             (c, None) \<Rightarrow> (c, reply_bulk ''none'', False)
           | (c, Some (e, b, tr)) \<Rightarrow> (c, reply_bulk (ar_type_name (etype e)), False))"


section \<open>Hashes\<close>

definition cmd_hset :: "core \<Rightarrow> bytes list \<Rightarrow> result" where
  "cmd_hset c argv =
     (if length argv < 4 \<or> (length argv - 2) mod 2 \<noteq> 0 then (c, wrong_args ''hset'', False)
      else if (length argv - 2) div 2 > 64 then (c, reply_err ''ERR too many fields'', False)
      else case ar_hash_hset c (argv ! 1) (pairs_of (drop 2 argv)) of
             (c, added, wt) \<Rightarrow>
               if wt then (c, wrong_type, False)
               else if added < 0 then (c, reply_err ''ERR hset failed'', False)
               else (c, reply_int added, True))"

definition cmd_hget :: "core \<Rightarrow> bytes list \<Rightarrow> result" where
  "cmd_hget c argv =
     (if length argv \<noteq> 3 then (c, wrong_args ''hget'', False)
      else case ar_hash_hget c (argv ! 1) (argv ! 2) of
             (c, v, wt) \<Rightarrow> if wt then (c, wrong_type, False) else (c, bulk_or_null v, False))"

fun hmget_loop :: "core \<Rightarrow> bytes \<Rightarrow> bytes list \<Rightarrow> bytes \<Rightarrow> core \<times> bytes" where
  "hmget_loop c key [] out = (c, out)"
| "hmget_loop c key (f # fs) out =
     (case ar_hash_hget c key f of (c, v, wt) \<Rightarrow> hmget_loop c key fs (out @ bulk_or_null v))"

definition cmd_hmget :: "core \<Rightarrow> bytes list \<Rightarrow> result" where
  "cmd_hmget c argv =
     (if length argv < 3 then (c, wrong_args ''hmget'', False)
      else case ar_entry_get_typed c (argv ! 1) THash of
             (c, r, wt) \<Rightarrow>
               if wt then (c, wrong_type, False)
               else if r = None then
                 (c, array_of (length argv - 2) (concat (map (\<lambda>_. reply_null_bulk) (drop 2 argv))), False)
               else (case hmget_loop c (argv ! 1) (drop 2 argv) [] of
                       (c, out) \<Rightarrow> (c, array_of (length argv - 2) out, False)))"

definition cmd_hgetall :: "core \<Rightarrow> bytes list \<Rightarrow> result" where
  "cmd_hgetall c argv =
     (if length argv \<noteq> 2 then (c, wrong_args ''hgetall'', False)
      else case ar_entry_get_typed c (argv ! 1) THash of
             (c, r, wt) \<Rightarrow>
               if wt then (c, wrong_type, False)
               else (case r of
                       None \<Rightarrow> (c, array_of 0 [], False)
                     | Some (e, b, tr) \<Rightarrow>
                         let h = hash_of (epay e)
                         in (c, resp_append_array_hdr (s32 (int (h_nfields h * 2))) @
                                bulks (concat (map (\<lambda>f. [hf_field f, hf_val f]) (concat (h_buckets h)))), False)))"

text \<open>A count that is reported as WRONGTYPE when it is negative, as several handlers do.\<close>

definition int_or_wrong :: "core \<times> int \<times> bool \<Rightarrow> result" where
  "int_or_wrong r = (case r of (c, n, wt) \<Rightarrow> if wt \<or> n < 0 then (c, wrong_type, False) else (c, reply_int n, False))"

text \<open>The same, for a handler that propagates when something was removed.\<close>

definition removed_or_wrong :: "core \<times> int \<times> bool \<Rightarrow> result" where
  "removed_or_wrong r = (case r of (c, n, wt) \<Rightarrow> if wt \<or> n < 0 then (c, wrong_type, False) else (c, reply_int n, n > 0))"

definition cmd_hdel :: "core \<Rightarrow> bytes list \<Rightarrow> result" where
  "cmd_hdel c argv =
     (if length argv < 3 then (c, wrong_args ''hdel'', False)
      else if length argv - 2 > 64 then (c, reply_err ''ERR too many fields'', False)
      else removed_or_wrong (ar_hash_hdel c (argv ! 1) (drop 2 argv)))"

definition cmd_hexists :: "core \<Rightarrow> bytes list \<Rightarrow> result" where
  "cmd_hexists c argv =
     (if length argv \<noteq> 3 then (c, wrong_args ''hexists'', False)
      else int_or_wrong (ar_hash_hexists c (argv ! 1) (argv ! 2)))"

definition cmd_hlen :: "core \<Rightarrow> bytes list \<Rightarrow> result" where
  "cmd_hlen c argv =
     (if length argv \<noteq> 2 then (c, wrong_args ''hlen'', False)
      else int_or_wrong (ar_hash_hlen c (argv ! 1)))"

definition cmd_hincrby :: "core \<Rightarrow> bytes list \<Rightarrow> result" where
  "cmd_hincrby c argv =
     (if length argv \<noteq> 4 then (c, wrong_args ''hincrby'', False)
      else case num_arg (argv ! 3) of
             None \<Rightarrow> (c, not_int, False)
           | Some d \<Rightarrow>
               (case ar_hash_hincrby c (argv ! 1) (argv ! 2) d of
                  (c, v, wt, ni) \<Rightarrow>
                    if wt then (c, wrong_type, False)
                    else if ni then (c, reply_err ''ERR hash value is not an integer'', False)
                    else (c, reply_int v, True)))"

text \<open>The options of SCAN and HSCAN: the pattern and the count, or the error.\<close>

function scan_opts :: "bytes \<Rightarrow> int \<Rightarrow> bytes list \<Rightarrow> bytes + bytes \<times> int" where
  "scan_opts pat cnt [] = Inr (pat, cnt)"
| "scan_opts pat cnt (a # rest) =
     (if cmd_eq a ''match'' then
        (case rest of [] \<Rightarrow> Inl syntax_error | p # rest \<Rightarrow> scan_opts p cnt rest)
      else if cmd_eq a ''count'' then
        (case rest of [] \<Rightarrow> Inl syntax_error
         | p # rest \<Rightarrow> (case count_arg p of None \<Rightarrow> Inl not_int | Some v \<Rightarrow> scan_opts pat v rest))
      else Inl syntax_error)"
  by pat_completeness auto

termination
  by (relation "measure (\<lambda>(p, n, xs). length xs)") auto

definition scan_reply :: "bytes list \<Rightarrow> nat \<Rightarrow> bytes" where
  "scan_reply elems nxt = array_of 2 (reply_bulk (show_nat nxt) @ array_of (length elems) (bulks elems))"

definition cmd_hscan :: "core \<Rightarrow> bytes list \<Rightarrow> result" where
  "cmd_hscan c argv =
     (if length argv < 3 then (c, wrong_args ''hscan'', False)
      else case cursor_arg (argv ! 2) of
             None \<Rightarrow> (c, reply_err ''ERR invalid cursor'', False)
           | Some cur \<Rightarrow>
               (case scan_opts [] 10 (drop 3 argv) of
                  Inl msg \<Rightarrow> (c, msg, False)
                | Inr (pat, cnt) \<Rightarrow>
                    (case ar_hscan c (argv ! 1) cur pat cnt of
                       (c, elems, nxt, wt) \<Rightarrow>
                         if wt then (c, wrong_type, False) else (c, scan_reply elems nxt, False))))"

definition cmd_scan :: "core \<Rightarrow> bytes list \<Rightarrow> result" where
  "cmd_scan c argv =
     (if length argv < 2 then (c, wrong_args ''scan'', False)
      else case cursor_arg (argv ! 1) of
             None \<Rightarrow> (c, reply_err ''ERR invalid cursor'', False)
           | Some cur \<Rightarrow>
               (case scan_opts [] 10 (drop 2 argv) of
                  Inl msg \<Rightarrow> (c, msg, False)
                | Inr (pat, cnt) \<Rightarrow>
                    (case ar_scan c cur pat cnt of (c, keys, nxt) \<Rightarrow> (c, scan_reply keys nxt, False))))"

definition cmd_keys :: "core \<Rightarrow> bytes list \<Rightarrow> result" where
  "cmd_keys c argv =
     (if length argv \<noteq> 2 then (c, wrong_args ''keys'', False)
      else case ar_keys c (argv ! 1) of (c, ks) \<Rightarrow> (c, array_of (length ks) (bulks ks), False))"


section \<open>Lists\<close>

definition cmd_push :: "bool \<Rightarrow> core \<Rightarrow> bytes list \<Rightarrow> result" where
  "cmd_push left c argv =
     (if length argv < 3 then (c, wrong_args (if left then ''lpush'' else ''rpush''), False)
      else if length argv - 2 > 64 then (c, reply_err ''ERR too many values'', False)
      else case ar_list_push c (argv ! 1) left (drop 2 argv) of
             (c, len, wt) \<Rightarrow> if wt \<or> len < 0 then (c, wrong_type, False) else (c, reply_int len, True))"

definition cmd_pop :: "bool \<Rightarrow> core \<Rightarrow> bytes list \<Rightarrow> result" where
  "cmd_pop left c argv =
     (if length argv \<noteq> 2 then (c, wrong_args (if left then ''lpop'' else ''rpop''), False)
      else case ar_list_pop c (argv ! 1) left of
             (c, v, wt) \<Rightarrow>
               if wt then (c, wrong_type, False)
               else (case v of None \<Rightarrow> (c, reply_null_bulk, False) | Some p \<Rightarrow> (c, reply_bulk p, True)))"

definition cmd_llen :: "core \<Rightarrow> bytes list \<Rightarrow> result" where
  "cmd_llen c argv =
     (if length argv \<noteq> 2 then (c, wrong_args ''llen'', False)
      else int_or_wrong (ar_list_llen c (argv ! 1)))"

definition cmd_lindex :: "core \<Rightarrow> bytes list \<Rightarrow> result" where
  "cmd_lindex c argv =
     (if length argv \<noteq> 3 then (c, wrong_args ''lindex'', False)
      else case num_arg (argv ! 2) of
             None \<Rightarrow> (c, not_int, False)
           | Some i \<Rightarrow>
               (case ar_list_lindex c (argv ! 1) i of
                  (c, v, wt) \<Rightarrow> if wt then (c, wrong_type, False) else (c, bulk_or_null v, False)))"

text \<open>The bounds of LRANGE and ZRANGE: \<open>None\<close> where nothing is left.\<close>

definition range_bounds :: "int \<Rightarrow> int \<Rightarrow> int \<Rightarrow> (int \<times> int) option" where
  "range_bounds len start stop =
     (let start = (if start < 0 then len + start else start);
          stop = (if stop < 0 then len + stop else stop);
          start = (if start < 0 then 0 else start);
          stop = (if stop \<ge> len then len - 1 else stop)
      in if start > stop \<or> start \<ge> len then None else Some (start, stop))"

definition two_nums :: "bytes \<Rightarrow> bytes \<Rightarrow> (int \<times> int) option" where
  "two_nums p q =
     (if p = [] \<or> length p \<ge> 32 \<or> q = [] \<or> length q \<ge> 32 then None
      else case strtoll_all p of None \<Rightarrow> None
           | Some a \<Rightarrow> (case strtoll_all q of None \<Rightarrow> None | Some b \<Rightarrow> Some (a, b)))"

definition cmd_lrange :: "core \<Rightarrow> bytes list \<Rightarrow> result" where
  "cmd_lrange c argv =
     (if length argv \<noteq> 4 then (c, wrong_args ''lrange'', False)
      else case two_nums (argv ! 2) (argv ! 3) of
             None \<Rightarrow> (c, not_int, False)
           | Some (start, stop) \<Rightarrow>
               (case ar_list_get c (argv ! 1) of
                  (c, r, wt) \<Rightarrow>
                    if wt then (c, wrong_type, False)
                    else (case r of
                            None \<Rightarrow> (c, array_of 0 [], False)
                          | Some l \<Rightarrow>
                              if l = [] then (c, array_of 0 [], False)
                              else (case range_bounds (int (length l)) start stop of
                                      None \<Rightarrow> (c, array_of 0 [], False)
                                    | Some (i, j) \<Rightarrow>
                                        let n = s32 (j - i + 1)
                                        in (c, resp_append_array_hdr n @ bulks (take (nat n) (drop (nat i) l)), False)))))"

definition cmd_lrem :: "core \<Rightarrow> bytes list \<Rightarrow> result" where
  "cmd_lrem c argv =
     (if length argv \<noteq> 4 then (c, wrong_args ''lrem'', False)
      else case num_arg (argv ! 2) of
             None \<Rightarrow> (c, not_int, False)
           | Some cnt \<Rightarrow> removed_or_wrong (ar_list_lrem c (argv ! 1) cnt (argv ! 3)))"

definition cmd_ltrim :: "core \<Rightarrow> bytes list \<Rightarrow> result" where
  "cmd_ltrim c argv =
     (if length argv \<noteq> 4 then (c, wrong_args ''ltrim'', False)
      else case two_nums (argv ! 2) (argv ! 3) of
             None \<Rightarrow> (c, not_int, False)
           | Some (start, stop) \<Rightarrow>
               (case ar_list_ltrim c (argv ! 1) start stop of
                  (c, rc, wt) \<Rightarrow> if wt \<or> rc < 0 then (c, wrong_type, False) else (c, reply_ok, True)))"


section \<open>Sorted sets\<close>

definition AR_ZSET_RANGE_MATCH_CAP :: nat where "AR_ZSET_RANGE_MATCH_CAP = 256"

text \<open>The scores and members of ZADD; \<open>None\<close> at the first score that is not a float.\<close>

fun scored :: "libc \<Rightarrow> bytes list \<Rightarrow> (f64 \<times> bytes) list option" where
  "scored lib (a # b # xs) =
     (case parse_double lib a of None \<Rightarrow> None | Some d \<Rightarrow> map_option ((#) (d, b)) (scored lib xs))"
| "scored lib _ = Some []"

definition cmd_zadd :: "libc \<Rightarrow> core \<Rightarrow> bytes list \<Rightarrow> result" where
  "cmd_zadd lib c argv =
     (if length argv < 4 \<or> (length argv - 2) mod 2 \<noteq> 0 then (c, wrong_args ''zadd'', False)
      else if (length argv - 2) div 2 > 64 then (c, reply_err ''ERR too many members'', False)
      else case scored lib (drop 2 argv) of
             None \<Rightarrow> (c, reply_err ''ERR value is not a valid float'', False)
           | Some sms \<Rightarrow>
               (case ar_zset_zadd c (argv ! 1) sms of
                  (c, added, wt) \<Rightarrow>
                    if wt then (c, wrong_type, False)
                    else if added = - 2 then
                      (c, reply_err ''ERR zset max members exceeded (Tier-2 sorted-array cap)'', False)
                    else if added < 0 then (c, reply_err ''ERR zadd failed'', False)
                    else (c, reply_int added, True)))"

definition cmd_zscore :: "libc \<Rightarrow> core \<Rightarrow> bytes list \<Rightarrow> result" where
  "cmd_zscore lib c argv =
     (if length argv \<noteq> 3 then (c, wrong_args ''zscore'', False)
      else case ar_zset_zscore (snd lib) c (argv ! 1) (argv ! 2) of
             (c, v, wt) \<Rightarrow> if wt then (c, wrong_type, False) else (c, bulk_or_null v, False))"

definition cmd_zrem :: "core \<Rightarrow> bytes list \<Rightarrow> result" where
  "cmd_zrem c argv =
     (if length argv < 3 then (c, wrong_args ''zrem'', False)
      else if length argv - 2 > 64 then (c, reply_err ''ERR too many members'', False)
      else removed_or_wrong (ar_zset_zrem c (argv ! 1) (drop 2 argv)))"

definition cmd_zcard :: "core \<Rightarrow> bytes list \<Rightarrow> result" where
  "cmd_zcard c argv =
     (if length argv \<noteq> 2 then (c, wrong_args ''zcard'', False)
      else int_or_wrong (ar_zset_zcard c (argv ! 1)))"

definition zitems :: "libc \<Rightarrow> bool \<Rightarrow> znode list \<Rightarrow> bytes" where
  "zitems lib scores xs =
     resp_append_array_hdr (s32 (if scores then int (length xs) * 2 else int (length xs))) @
     bulks (concat (map (\<lambda>x. if scores then [z_member x, snd lib (z_score x)] else [z_member x]) xs))"

definition cmd_zrange :: "libc \<Rightarrow> core \<Rightarrow> bytes list \<Rightarrow> result" where
  "cmd_zrange lib c argv =
     (if length argv < 4 \<or> length argv > 5 then (c, wrong_args ''zrange'', False)
      else if length argv = 5 \<and> \<not> cmd_eq (argv ! 4) ''withscores'' then (c, syntax_error, False)
      else case two_nums (argv ! 2) (argv ! 3) of
             None \<Rightarrow> (c, not_int, False)
           | Some (start, stop) \<Rightarrow>
               (case ar_zset_get c (argv ! 1) of
                  (c, r, wt) \<Rightarrow>
                    if wt then (c, wrong_type, False)
                    else (case r of
                            None \<Rightarrow> (c, array_of 0 [], False)
                          | Some z \<Rightarrow>
                              if z_arr z = [] then (c, array_of 0 [], False)
                              else (case range_bounds (int (length (z_arr z))) start stop of
                                      None \<Rightarrow> (c, array_of 0 [], False)
                                    | Some (i, j) \<Rightarrow>
                                        (c, zitems lib (length argv = 5)
                                              (take (nat (j - i + 1)) (drop (nat i) (z_arr z))), False)))))"

text \<open>The options of ZRANGEBYSCORE: whether scores are wanted, offset and count.\<close>

function zrange_opts :: "bool \<times> int \<times> int \<Rightarrow> bytes list \<Rightarrow> bytes + bool \<times> int \<times> int" where
  "zrange_opts st [] = Inr st"
| "zrange_opts st (a # rest) =
     (case st of (ws, off, cnt) \<Rightarrow>
        if cmd_eq a ''withscores'' then zrange_opts (True, off, cnt) rest
        else if cmd_eq a ''limit'' then
          (case rest of
             p # q # rest \<Rightarrow>
               if length p \<ge> 32 \<or> length q \<ge> 32 then Inl not_int
               else (case limit_arg p of None \<Rightarrow> Inl not_int
                     | Some x \<Rightarrow> (case limit_arg q of None \<Rightarrow> Inl not_int
                                   | Some y \<Rightarrow> zrange_opts (ws, x, y) rest))
           | _ \<Rightarrow> Inl syntax_error)
        else Inl syntax_error)"
  by pat_completeness auto

termination
  by (relation "measure (\<lambda>(st, xs). length xs)") auto

text \<open>The window of the matches, after the cap: \<open>skip\<close> and \<open>take\<close> are C \<open>int\<close>s.\<close>

definition limit_window :: "int \<Rightarrow> int \<Rightarrow> 'a list \<Rightarrow> 'a list" where
  "limit_window off cnt ms =
     (let nm = int (length ms);
          skip = s32 off;
          skip = (if skip < 0 then 0 else skip);
          tk = (if cnt < 0 then nm else s32 cnt);
          skip = (if skip > nm then nm else skip);
          outn = nm - skip;
          outn = (if outn > tk then tk else outn);
          outn = (if outn < 0 then 0 else outn)
      in take (nat outn) (drop (nat skip) ms))"

definition cmd_zrangebyscore :: "libc \<Rightarrow> core \<Rightarrow> bytes list \<Rightarrow> result" where
  "cmd_zrangebyscore lib c argv =
     (if length argv < 4 then (c, wrong_args ''zrangebyscore'', False)
      else case (parse_double lib (argv ! 2), parse_double lib (argv ! 3)) of
             (Some lo, Some hi) \<Rightarrow>
               (case zrange_opts (False, 0, - 1) (drop 4 argv) of
                  Inl msg \<Rightarrow> (c, msg, False)
                | Inr (ws, off, cnt) \<Rightarrow>
                    (case ar_zset_get c (argv ! 1) of
                       (c, r, wt) \<Rightarrow>
                         if wt then (c, wrong_type, False)
                         else (case r of
                                 None \<Rightarrow> (c, array_of 0 [], False)
                               | Some z \<Rightarrow>
                                   if z_arr z = [] then (c, array_of 0 [], False)
                                   else let ms = filter (\<lambda>x. \<not> (f64_lt (z_score x) lo \<or> f64_lt hi (z_score x))) (z_arr z)
                                        in (c, zitems lib ws (limit_window off cnt (take AR_ZSET_RANGE_MATCH_CAP ms)),
                                            False))))
           | _ \<Rightarrow> (c, reply_err ''ERR min or max is not a float'', False))"

end
