(* ===== verification/Handlers.thy ===== *)
theory Handlers
  imports Commands
begin

text \<open>
  What every data command keeps: the store stays well formed, the configuration and the clock do
  not change, the connections change at most by becoming dirty, and whoever watches a key whose
  contents changed is dirty afterwards. The contract is the locale \<open>handler\<close>; it is discharged for
  every entry of the command table.
\<close>


section \<open>Heeding the watchers\<close>

definition heeds :: "core \<Rightarrow> core \<Rightarrow> bool" where
  "heeds c c' \<longleftrightarrow> (\<exists>s. wf s c') \<and> env_of c' = env_of c \<and> conns_mono c c' \<and>
     (\<forall>k. view c' k = view c k \<or> touched c' k)"

lemma heeds_steps: "steps s P K {} c c' \<Longrightarrow> heeds c c'"
  by (auto simp: heeds_def steps_def evo_def)

lemma heeds_refl: "wf s c \<Longrightarrow> heeds c c"
  by (auto simp: heeds_def)

lemma heeds_trans:
  assumes "heeds c c'" and "heeds c' c''"
  shows "heeds c c''"
  unfolding heeds_def
proof (intro conjI allI)
  show "\<exists>s. wf s c''" "env_of c'' = env_of c" "conns_mono c c''"
    using assms by (auto simp: heeds_def intro: conns_mono_trans)
  fix k
  have "touched c' k \<Longrightarrow> touched c'' k" using assms(2) by (auto simp: heeds_def intro: touched_mono)
  moreover have "view c' k = view c k \<or> touched c' k" "view c'' k = view c' k \<or> touched c'' k"
    using assms by (simp_all add: heeds_def)
  ultimately show "view c'' k = view c k \<or> touched c'' k" by auto
qed

lemma heeds_same:
  assumes "heeds c c'" and "dict_of c'' = dict_of c'" "conns c'' = conns c'" "env_of c'' = env_of c'"
  shows "heeds c c''"
proof -
  obtain s where "wf s c'" using assms(1) by (auto simp: heeds_def)
  then have "steps s (\<lambda>_. False) {} {} c' c''" by (rule steps_same) (rule assms)+
  then show ?thesis using heeds_trans [OF assms(1)] heeds_steps by blast
qed

lemma heeds_from:
  assumes "heeds c0 c'" and "dict_of c0 = dict_of c" "conns c0 = conns c" "env_of c0 = env_of c"
  shows "heeds c c'"
proof -
  have "touched c0 k = touched c k" for k using assms(3) by (simp add: touched_def)
  then show ?thesis
    using assms(1) view_cong [OF assms(2)] conns_mono_cong [OF assms(3)] assms(4)
    by (auto simp: heeds_def intro: conns_mono_trans)
qed

lemma heeds_env: "heeds c c' \<Longrightarrow> env_of c' = env_of c"
  by (simp add: heeds_def)

text \<open>A step that writes nothing.\<close>

lemma read_kept: "wf s c \<Longrightarrow> (\<And>P W. steps s P {} W c c') \<Longrightarrow> wf s c' \<and> live c' = live c \<and> env_of c' = env_of c"
  using steps_live [of s "{}" c c'] steps_env [of s "\<lambda>_. False" "{}" "{}" c c'] stepsD(1) [of s "\<lambda>_. False" "{}" "{}" c c'] by auto

text \<open>A store that serves every allocation, and the contract of an operation on it.\<close>

definition sound :: "core \<Rightarrow> bool" where
  "sound c \<longleftrightarrow> (\<exists>s. wf s c) \<and> alloc_ok c"

lemma sound_heeds: "sound c \<Longrightarrow> heeds c c' \<Longrightarrow> sound c'"
  by (auto simp: sound_def heeds_def env_of_def)

lemma sound_refl: "sound c \<Longrightarrow> heeds c c"
  by (auto simp: sound_def intro: heeds_refl)

locale handler =
  fixes h :: "core \<Rightarrow> bytes list \<Rightarrow> result"
  assumes keeps: "sound c \<Longrightarrow> h c argv = (c', r, p) \<Longrightarrow> heeds c c'"
begin

lemma stays_sound: "sound c \<Longrightarrow> h c argv = (c', r, p) \<Longrightarrow> sound c'"
  using keeps sound_heeds by blast

lemma conns_kept: "sound c \<Longrightarrow> h c argv = (c', r, p) \<Longrightarrow> conns_mono c c'"
  using keeps by (auto simp: heeds_def)

text \<open>A watcher that is still clean has seen no change of its keys.\<close>

lemma clean_unchanged:
  assumes "sound c" and "h c argv = (c', r, p)" and "cn \<in> set (conns c')" and "in_use cn"
    and "k \<in> set (watch_keys cn)" and "\<not> watch_dirty cn"
  shows "view c' k = view c k"
  using keeps [OF assms(1,2)] assms(3-) by (auto simp: heeds_def touched_def)

end


section \<open>The operations\<close>

lemma find_heeds:
  assumes "sound c" and "ar_find_entry_ex c k = (c', r)"
  shows "heeds c c'"
proof -
  obtain s where w: "wf s c" using assms(1) by (auto simp: sound_def)
  show ?thesis using w
  proof (cases rule: find_cases [of s c k])
    case found
    then show ?thesis using assms(2) w by (auto intro: heeds_refl)
  next
    case (missing c1)
    then show ?thesis using assms(2) heeds_steps [OF missing(2) [of "\<lambda>_. False" "{}" "{}"]] by auto
  qed
qed

lemma exists_heeds: "sound c \<Longrightarrow> ar_exists_bin c k = (c', b) \<Longrightarrow> heeds c c'"
  by (auto simp: ar_exists_bin_def split: prod.splits dest: find_heeds)

lemma heeds_by: "sound c \<Longrightarrow> (\<And>s. wf s c \<Longrightarrow> alloc_ok c \<Longrightarrow> steps s P K {} c c') \<Longrightarrow> heeds c c'"
  by (auto simp: sound_def intro: heeds_steps)

lemma set_ex_heeds:
  assumes "sound c" and "ar_entry_set_ex c k v x = (c', ok)"
  shows "heeds c c'"
  by (rule heeds_by [OF assms(1) set_ex_ok(2) [OF _ assms(2)]])

lemma entry_set_heeds: "sound c \<Longrightarrow> ar_entry_set c k v = (c', ok) \<Longrightarrow> heeds c c'"
  unfolding ar_entry_set_def by (rule set_ex_heeds)

lemma counted_same [simp]: "dict_of (counted c) = dict_of c" "env_of (counted c) = env_of c" "conns (counted c) = conns c"
  by (simp_all add: counted_def dict_of_def env_of_def)

lemma sound_same:
  assumes "sound c" and d: "dict_of c' = dict_of c" and e: "env_of c' = env_of c"
  shows "sound c'"
proof -
  obtain s where "wf s c" "alloc_ok c" using assms(1) by (auto simp: sound_def)
  then have "wf s c'" "alloc_ok c'" using wf_same [OF _ d] env_alloc [OF e] by blast+
  then show ?thesis by (auto simp: sound_def)
qed

lemma sound_counted [simp]: "sound (counted c) = sound c"
  by (rule iffI; erule sound_same; simp)

lemma heeds_counted: "heeds (counted c) c' \<Longrightarrow> heeds c c'"
  by (erule heeds_from) simp_all

lemma set_bin_ex_heeds:
  assumes s: "sound c" and r: "ar_set_bin_ex c k v t = (c', ok)"
  shows "heeds c c'"
proof -
  obtain x where "ar_entry_set_ex (counted c) k v x = (c', ok)"
    using r by (auto simp: ar_set_bin_ex_def counted_def Let_def)
  then have "heeds (counted c) c'" using s by (intro set_ex_heeds) simp_all
  then show ?thesis by (rule heeds_counted)
qed

lemma set_bin_px_heeds:
  assumes s: "sound c" and r: "ar_set_bin_px c k v t = (c', ok)"
  shows "heeds c c'"
proof -
  obtain x where "ar_entry_set_ex (counted c) k v x = (c', ok)"
    using r by (auto simp: ar_set_bin_px_def counted_def Let_def)
  then have "heeds (counted c) c'" using s by (intro set_ex_heeds) simp_all
  then show ?thesis by (rule heeds_counted)
qed

lemma expire_heeds:
  assumes "sound c" and "expire_with c k n d = (c', ok)"
  shows "heeds c c'"
  by (rule heeds_by [OF assms(1) expire_with_ok(1) [OF _ assms(2)]])

lemma del_heeds:
  assumes "sound c" and "ar_del_bin c k = (c', ok)"
  shows "heeds c c'"
  by (rule heeds_by [OF assms(1) del_bin_ok(1) [OF _ assms(2)]])

lemma append_heeds:
  assumes "sound c" and "ar_append c k v = (c', n, wt)"
  shows "heeds c c'"
  by (rule heeds_by [OF assms(1) append_ok(1) [OF _ assms(2)]])

lemma incr_heeds:
  assumes "sound c" and "ar_incr c k d = (c', n, ok)"
  shows "heeds c c'"
  by (rule heeds_by [OF assms(1) incr_ok(1) [OF _ assms(2)]])

lemma ttl_heeds:
  assumes "sound c" and "ar_ttl c k = (c', t)"
  shows "heeds c c'"
  by (rule heeds_by [OF assms(1) ttl_ok(1) [OF _ assms(2)]])

lemma pttl_heeds:
  assumes "sound c" and "ar_pttl c k = (c', t)"
  shows "heeds c c'"
  by (rule heeds_by [OF assms(1) pttl_ok(1) [OF _ assms(2)]])

lemma flush_heeds:
  assumes "sound c"
  shows "heeds c (ar_flushdb c)"
proof -
  obtain s where w: "wf s c" using assms by (auto simp: sound_def)
  note f = flush_ok [OF w]
  show ?thesis using f(1,4) f(3) by (auto simp: heeds_def flush_fields(12))
qed

lemma swept_heeds: "swept s c c' \<Longrightarrow> heeds c c'"
  unfolding swept_def by (blast intro: heeds_steps)

lemma rename_heeds:
  assumes s: "sound c" and r: "ar_rename c k k' nx = (c', n)"
  shows "heeds c c'"
proof -
  obtain s where w: "wf s c" "alloc_ok c" using s by (auto simp: sound_def)
  show ?thesis
  proof (cases "live c k = None")
    case True
    then show ?thesis using rename_missing [OF w(1) r] by (blast intro: heeds_steps)
  next
    case l: False
    show ?thesis
    proof (cases "k = k'")
      case True
      let ?c = "c\<lparr> ops := ops c + 1 \<rparr>"
      have same: "dict_of ?c = dict_of c" "env_of ?c = env_of c" "conns ?c = conns c" by (simp_all add: dict_of_def env_of_def)
      obtain q where "ar_find_entry_ex ?c k = (c', q)"
        using r True by (auto simp: ar_rename_def Let_def split: prod.splits option.splits)
      then have "heeds ?c c'" using sound_same [OF s same(1,2)] by (rule find_heeds [rotated])
      then show ?thesis by (rule heeds_from) (rule same)+
    next
      case False
      show ?thesis using rename_found [OF w(1) r w(2) l False]
        by (cases "live c k' \<noteq> None \<and> nx") (auto dest: heeds_steps)
    qed
  qed
qed

lemma mset_heeds:
  assumes "sound c" and "ar_mset c kvs = (c', ok)"
  shows "heeds c c'"
  using assms mset_ok [OF _ assms(2)] by (auto simp: sound_def dest: heeds_steps)

text \<open>The read path of GET: the value is the live one, and nothing else moves.\<close>

lemma get_ptr_ok:
  assumes w: "wf s c" and r: "get_ptr c k = (c', g)"
  shows "steps s P K W c c'"
    "g = (case live c k of None \<Rightarrow> Miss | Some v \<Rightarrow>
            (case string_of (live c k) of None \<Rightarrow> WrongType | Some b \<Rightarrow> Hit b))"
proof -
  let ?c = "c\<lparr> ops := ops c + 1, gets := gets c + 1 \<rparr>"
  have w1: "wf s ?c" using w by (rule wf_same) simp
  have l1: "live ?c = live c" by (rule live_same) simp_all
  have p: "steps s P K W c x" if "steps s P K W ?c x" for x using that by (rule steps_same_then) simp_all
  have "steps s P K W ?c c' \<and>
      g = (case live c k of None \<Rightarrow> Miss | Some v \<Rightarrow>
             (case string_of (live c k) of None \<Rightarrow> WrongType | Some b \<Rightarrow> Hit b))"
    using w1
  proof (cases rule: find_cases [of s ?c k])
    case (found e b tr N)
    show ?thesis
    proof (cases "etype e = TString")
      case False
      then have "c' = ?c" "g = WrongType" using r found(1) by (simp_all add: get_ptr_def Let_def)
      then show ?thesis using w1 found(6) False l1 by (simp add: steps_refl string_of_obs)
    next
      case True
      let ?c1 = "shadow_hit (?c\<lparr> hits := hits ?c + 1 \<rparr>)"
      obtain c2 e2 where 2: "(case ar_touch_get ?c1 e b tr of (c, e) \<Rightarrow> evict_on_get c e) = (c2, e2)" by fastforce
      have c0: "dict_of ?c1 = dict_of ?c" "env_of ?c1 = env_of ?c" "conns ?c1 = conns ?c" by (simp_all add: shadow_same)
      note g = get_found [OF found(4,3) c0 2]
      have "c' = c2" "g = Hit (str_val (epay e2))"
        using r found(1) True 2 by (auto simp: get_ptr_def Let_def split: prod.splits)
      then show ?thesis using g(1,2) True found(6) l1 by (simp add: string_of_obs)
    qed
  next
    case (missing c0)
    then have "c' = shadow_miss (c0\<lparr> misses := misses c0 + 1 \<rparr>)" "g = Miss"
      using r by (simp_all add: get_ptr_def Let_def)
    moreover have "steps s P K W ?c (shadow_miss (c0\<lparr> misses := misses c0 + 1 \<rparr>))"
      by (rule steps_then_same [OF missing(2)]) (simp_all add: shadow_same)
    ultimately show ?thesis using missing(4) l1 by (simp add: string_of_def)
  qed
  with p show "steps s P K W c c'"
    "g = (case live c k of None \<Rightarrow> Miss | Some v \<Rightarrow>
            (case string_of (live c k) of None \<Rightarrow> WrongType | Some b \<Rightarrow> Hit b))" by blast+
qed

lemma get_ptr_heeds:
  assumes "sound c" and "get_ptr c k = (c', g)"
  shows "heeds c c'"
  by (rule heeds_by [OF assms(1) get_ptr_ok(1) [OF _ assms(2)]])

lemma bumped [simp]: "dict_of (c\<lparr> ops := n \<rparr>) = dict_of c" "env_of (c\<lparr> ops := n \<rparr>) = env_of c"
    "dict_of (c\<lparr> sets := n \<rparr>) = dict_of c" "env_of (c\<lparr> sets := n \<rparr>) = env_of c"
  by (simp_all add: dict_of_def env_of_def)

lemma heeds_bump: "heeds c c' \<Longrightarrow> heeds c (c'\<lparr> ops := n \<rparr>)" "heeds c c' \<Longrightarrow> heeds c (c'\<lparr> sets := n \<rparr>)"
  by (erule heeds_same; simp)+

lemma strlen_heeds:
  assumes s: "sound c" and r: "ar_strlen c k = (c', n, wt)"
  shows "heeds c c'"
proof -
  let ?c = "c\<lparr> ops := ops c + 1 \<rparr>"
  obtain q where "ar_find_entry_ex ?c k = (c', q)"
    using r by (auto simp: ar_strlen_def Let_def split: prod.splits option.splits if_splits)
  then have "heeds ?c c'" using sound_same [OF s] by (intro find_heeds) simp_all
  then show ?thesis by (rule heeds_from) simp_all
qed

lemma typed_heeds:
  assumes "sound c" and "ar_entry_get_typed c k t = (c', r, wt)"
  shows "heeds c c'"
  by (rule heeds_by [OF assms(1) typed_read(1) [OF _ assms(2)]])

lemma hset_heeds:
  assumes "sound c" and "ar_hash_hset c k kvs = (c', n, wt)"
  shows "heeds c c'"
proof (cases "kvs = []")
  case True
  then show ?thesis using assms by (simp add: ar_hash_hset_def sound_refl)
next
  case False
  show ?thesis by (rule heeds_by [OF assms(1) hset_ok(1) [OF _ _ False assms(2)]])
qed

lemma hget_heeds:
  assumes "sound c" and "ar_hash_hget c k f = (c', v, wt)"
  shows "heeds c c'"
  by (rule heeds_by [OF assms(1) hget_ok(1) [OF _ assms(2)]])

lemma hdel_heeds:
  assumes "sound c" and "ar_hash_hdel c k fs = (c', n, wt)"
  shows "heeds c c'"
  by (rule heeds_by [OF assms(1) hdel_ok(1) [OF _ assms(2)]])

lemma hexists_heeds:
  assumes "sound c" and "ar_hash_hexists c k f = (c', n, wt)"
  shows "heeds c c'"
  by (rule heeds_by [OF assms(1) hexists_ok(1) [OF _ assms(2)]])

lemma hlen_heeds:
  assumes "sound c" and "ar_hash_hlen c k = (c', n, wt)"
  shows "heeds c c'"
  by (rule heeds_by [OF assms(1) hlen_ok(1) [OF _ assms(2)]])

lemma hincrby_heeds:
  assumes "sound c" and "ar_hash_hincrby c k f d = (c', n, wt, ni)"
  shows "heeds c c'"
  by (rule heeds_by [OF assms(1) hincrby_ok(1) [OF _ _ assms(2)]])

lemma hscan_heeds:
  assumes "sound c" and "ar_hscan c k cur pat cnt = (c', els, nxt, wt)"
  shows "heeds c c'"
proof -
  obtain r w where t: "ar_entry_get_typed c k THash = (c', r, w)"
    using assms(2) by (auto simp: ar_hscan_def Let_def split: prod.splits option.splits if_splits)
  show ?thesis by (rule typed_heeds [OF assms(1) t])
qed

lemma push_heeds:
  assumes "sound c" and "vals \<noteq> []" and "ar_list_push c k left vals = (c', n, wt)"
  shows "heeds c c'"
  by (rule heeds_by [OF assms(1) push_ok(1) [OF _ _ assms(2,3)]])

lemma pop_heeds:
  assumes "sound c" and "ar_list_pop c k left = (c', v, wt)"
  shows "heeds c c'"
  by (rule heeds_by [OF assms(1) pop_ok(1) [OF _ assms(2)]])

lemma llen_heeds:
  assumes "sound c" and "ar_list_llen c k = (c', n, wt)"
  shows "heeds c c'"
  by (rule heeds_by [OF assms(1) llen_ok(1) [OF _ assms(2)]])

lemma lindex_heeds:
  assumes "sound c" and "ar_list_lindex c k i = (c', v, wt)"
  shows "heeds c c'"
  by (rule heeds_by [OF assms(1) lindex_ok(1) [OF _ assms(2)]])

lemma list_get_heeds:
  assumes "sound c" and "ar_list_get c k = (c', v, wt)"
  shows "heeds c c'"
proof -
  obtain r w where t: "ar_entry_get_typed c k TList = (c', r, w)"
    using assms(2) by (auto simp: ar_list_get_def split: prod.splits option.splits)
  show ?thesis by (rule typed_heeds [OF assms(1) t])
qed

lemma lrem_heeds:
  assumes "sound c" and r: "ar_list_lrem c k cnt x = (c', n, wt)"
  shows "heeds c c'"
proof -
  obtain s where w: "wf s c" using assms(1) by (auto simp: sound_def)
  note ok = lrem_ok [OF w r]
  show ?thesis
    using ok(2,3) by (cases "wt \<or> live c k = None") (blast intro: heeds_steps)+
qed

lemma ltrim_heeds:
  assumes "sound c" and "ar_list_ltrim c k start stop = (c', n, wt)"
  shows "heeds c c'"
  by (rule heeds_by [OF assms(1) ltrim_ok(1) [OF _ assms(2)]])

lemma zadd_heeds:
  assumes "sound c" and ne: "sms \<noteq> []" and few: "length sms \<le> 64" and r: "ar_zset_zadd c k sms = (c', n, wt)"
  shows "heeds c c'"
proof -
  obtain s where w: "wf s c" "alloc_ok c" using assms(1) by (auto simp: sound_def)
  have le: "length (filter p sms) \<le> 64" for p using few length_filter_le [of p sms] by linarith
  show ?thesis
  proof (cases "zadd_fits (live c k) sms")
    case True
    show ?thesis by (rule heeds_steps [OF zadd_ok(1) [OF w ne True r]])
  next
    case False
    have fits: "zadd_fits r sms" if "zview r = Map.empty" for r
      using le [of "\<lambda>(sc, m). True"] few that by (simp add: zadd_fits_def Let_def AR_ZSET_MAX_MEMBERS_def case_prod_unfold)
    have "zview (live c k) \<noteq> Map.empty" using False fits by blast
    then obtain v where v: "live c k = Some v" "payload_type (o_pay v) = TZset"
      by (cases "live c k"; cases "o_pay (the (live c k))") auto
    show ?thesis using zadd_oversize [OF w(1) v False r] w(1) by (simp add: heeds_refl)
  qed
qed

lemma zscore_heeds:
  assumes "sound c" and "ar_zset_zscore fmt c k m = (c', v, wt)"
  shows "heeds c c'"
  by (rule heeds_by [OF assms(1) zscore_ok(1) [OF _ assms(2)]])

lemma zcard_heeds:
  assumes "sound c" and "ar_zset_zcard c k = (c', n, wt)"
  shows "heeds c c'"
  by (rule heeds_by [OF assms(1) zcard_ok(1) [OF _ assms(2)]])

lemma zrem_heeds:
  assumes "sound c" and "ar_zset_zrem c k ms = (c', n, wt)"
  shows "heeds c c'"
  by (rule heeds_by [OF assms(1) zrem_ok(1) [OF _ assms(2)]])

lemma zset_get_heeds:
  assumes "sound c" and "ar_zset_get c k = (c', v, wt)"
  shows "heeds c c'"
proof -
  obtain r w where t: "ar_entry_get_typed c k TZset = (c', r, w)"
    using assms(2) by (auto simp: ar_zset_get_def split: prod.splits option.splits)
  show ?thesis by (rule typed_heeds [OF assms(1) t])
qed

lemma scan_heeds:
  assumes "sound c" and "ar_scan c cur pat cnt = (c', ks, nxt)"
  shows "heeds c c'"
proof (cases "cur < scan_total_buckets c")
  case True
  obtain s where w: "wf s c" "alloc_ok c" using assms(1) by (auto simp: sound_def)
  show ?thesis by (rule swept_heeds [OF ar_scan_ok(1) [OF w True assms(2)]])
next
  case False
  then show ?thesis using assms by (auto simp: ar_scan_def Let_def sound_refl split: if_splits)
qed

lemma keys_heeds:
  assumes "sound c" and "ar_keys c pat = (c', ks)"
  shows "heeds c c'"
proof -
  obtain s where w: "wf s c" "alloc_ok c" using assms(1) by (auto simp: sound_def)
  show ?thesis by (rule swept_heeds [OF ar_keys_list(1) [OF w assms(2)]])
qed

lemma dbsize_heeds:
  assumes "sound c" and "ar_dbsize c = (c', n)"
  shows "heeds c c'"
proof -
  obtain s where w: "wf s c" using assms(1) by (auto simp: sound_def)
  show ?thesis by (rule swept_heeds [OF ar_dbsize_list(1) [OF w assms(2)]])
qed

lemma count_keys_heeds:
  assumes "\<And>c k c' ok. sound c \<Longrightarrow> op c k = (c', ok) \<Longrightarrow> heeds c c'" and "sound c" and "count_keys op c ks n = (c', m)"
  shows "heeds c c'"
  using assms(2,3)
proof (induction ks arbitrary: c n)
  case Nil
  then show ?case by (simp add: sound_refl)
next
  case (Cons k ks)
  obtain c1 ok where 1: "op c k = (c1, ok)" by fastforce
  have h: "heeds c c1" by (rule assms(1) [OF Cons.prems(1) 1])
  have "heeds c1 c'" using Cons.prems(2) 1 by (intro Cons.IH [OF sound_heeds [OF Cons.prems(1) h]]) simp
  with h show ?case by (rule heeds_trans)
qed

lemma mget_loop_heeds: "sound c \<Longrightarrow> mget_loop c ks out = (c', out') \<Longrightarrow> heeds c c'"
proof (induction ks arbitrary: c out)
  case Nil
  then show ?case by (simp add: sound_refl)
next
  case (Cons k ks)
  obtain c1 g where 1: "get_ptr c k = (c1, g)" by fastforce
  have h: "heeds c c1" by (rule get_ptr_heeds [OF Cons.prems(1) 1])
  obtain o1 where "mget_loop c1 ks o1 = (c', out')" using Cons.prems(2) 1 by (auto split: got.splits)
  with h show ?case by (rule heeds_trans [OF _ Cons.IH [OF sound_heeds [OF Cons.prems(1) h]]])
qed

lemma hmget_loop_heeds: "sound c \<Longrightarrow> hmget_loop c k fs out = (c', out') \<Longrightarrow> heeds c c'"
proof (induction fs arbitrary: c out)
  case Nil
  then show ?case by (simp add: sound_refl)
next
  case (Cons f fs)
  obtain c1 v wt where 1: "ar_hash_hget c k f = (c1, v, wt)" using prod_cases3 by blast
  have h: "heeds c c1" by (rule hget_heeds [OF Cons.prems(1) 1])
  have "hmget_loop c1 k fs (out @ bulk_or_null v) = (c', out')" using Cons.prems(2) 1 by simp
  with h show ?case by (rule heeds_trans [OF _ Cons.IH [OF sound_heeds [OF Cons.prems(1) h]]])
qed



section \<open>Every handler is one\<close>

lemmas reply_defs = int_or_wrong_def removed_or_wrong_def incr_reply_def
lemmas branches = if_splits prod.splits option.splits sum.splits bool.splits got.splits

lemma handler_ttl:
  assumes "\<And>c k c' t. sound c \<Longrightarrow> op c k = (c', t) \<Longrightarrow> heeds c c'"
  shows "handler (cmd_ttl op name)"
  by unfold_locales (auto simp: cmd_ttl_def sound_refl split: if_splits prod.splits dest!: assms intro: heeds_bump)

lemma handler_expire:
  assumes "\<And>c k t c' ok. sound c \<Longrightarrow> op c k t = (c', ok) \<Longrightarrow> heeds c c'"
  shows "handler (cmd_expire op name)"
  by unfold_locales (auto simp: cmd_expire_def sound_refl split: if_splits prod.splits option.splits
      dest!: assms intro: heeds_bump)

lemma handler_setex:
  assumes "\<And>c k v t c' ok. sound c \<Longrightarrow> op c k v t = (c', ok) \<Longrightarrow> heeds c c'"
  shows "handler (cmd_setex op name)"
  by unfold_locales (auto simp: cmd_setex_def sound_refl split: if_splits prod.splits option.splits bool.splits
      dest!: assms)

lemma counted_set_heeds:
  assumes "sound c" and "ar_entry_set_ex (counted c) k v x = (c', ok)"
  shows "heeds c c'"
  by (rule heeds_counted, rule set_ex_heeds [OF _ assms(2)]) (simp add: assms(1))

lemma counted_entry_set_heeds: "sound c \<Longrightarrow> ar_entry_set (counted c) k v = (c', ok) \<Longrightarrow> heeds c c'"
  unfolding ar_entry_set_def by (rule counted_set_heeds)

lemma set_with_heeds:
  assumes s: "sound c" and r: "set_with c so k v = (c', ok)"
  shows "heeds c c'"
proof (cases "\<not> so_ex so > 0 \<and> \<not> so_px so > 0 \<and> \<not> so_exat so > 0 \<and> \<not> so_pxat so > 0 \<and> so_keep so")
  case True
  obtain c1 q where 1: "ar_find_entry_ex c k = (c1, q)" by fastforce
  have h: "heeds c c1" by (rule find_heeds [OF s 1])
  obtain x where "ar_entry_set_ex (counted c1) k v x = (c', ok)"
    using r True 1 by (auto simp: set_with_def split: option.splits)
  then show ?thesis using heeds_trans [OF h] counted_set_heeds [OF sound_heeds [OF s h]] by blast
next
  case False
  then show ?thesis
    using r s by (auto simp: set_with_def split: if_splits intro: set_bin_ex_heeds set_bin_px_heeds
        counted_set_heeds counted_entry_set_heeds)
qed

interpretation h_get: handler cmd_get
  by unfold_locales (auto simp: cmd_get_def sound_refl split: branches dest!: get_ptr_heeds)

interpretation h_set: handler cmd_set
proof
  fix c argv c' r p assume s: "sound c" and r: "cmd_set c argv = (c', r, p)"
  show "heeds c c'"
  proof (cases "length argv < 3 \<or> (\<exists>m. parse_set_opts set_opts0 (drop 3 argv) = Inl m)")
    case True
    then show ?thesis using r s by (auto simp: cmd_set_def sound_refl split: if_splits)
  next
    case False
    then obtain so where so: "parse_set_opts set_opts0 (drop 3 argv) = Inr so"
      by (cases "parse_set_opts set_opts0 (drop 3 argv)") auto
    obtain c1 b where 1: "ar_exists_bin c (argv ! 1) = (c1, b)" by fastforce
    have h: "heeds c c1" by (rule exists_heeds [OF s 1])
    obtain c2 ok where 2: "set_with c1 so (argv ! 1) (argv ! 2) = (c2, ok)" by fastforce
    have "heeds c c2" using h by (rule heeds_trans) (rule set_with_heeds [OF sound_heeds [OF s h] 2])
    then show ?thesis using r so False 1 2 h by (auto simp: cmd_set_def split: if_splits bool.splits)
  qed
qed

interpretation h_setnx: handler cmd_setnx
proof
  fix c argv c' r p assume s: "sound c" and r: "cmd_setnx c argv = (c', r, p)"
  obtain c1 b where 1: "ar_exists_bin c (argv ! 1) = (c1, b)" by fastforce
  have h: "heeds c c1" by (rule exists_heeds [OF s 1])
  obtain c2 ok where 2: "ar_entry_set (counted c1) (argv ! 1) (argv ! 2) = (c2, ok)" by fastforce
  have "heeds c c2" using h by (rule heeds_trans) (rule counted_entry_set_heeds [OF sound_heeds [OF s h] 2])
  then show "heeds c c'" using r 1 2 h s by (auto simp: cmd_setnx_def sound_refl split: if_splits bool.splits)
qed

interpretation h_setex: handler "cmd_setex ar_set_bin_ex ''setex''"
  by (rule handler_setex) (rule set_bin_ex_heeds)

interpretation h_psetex: handler "cmd_setex ar_set_bin_px ''psetex''"
  by (rule handler_setex) (rule set_bin_px_heeds)

interpretation h_getset: handler cmd_getset
proof
  fix c argv c' r p assume s: "sound c" and r: "cmd_getset c argv = (c', r, p)"
  obtain c1 g where 1: "get_ptr c (argv ! 1) = (c1, g)" by fastforce
  have h: "heeds c c1" by (rule get_ptr_heeds [OF s 1])
  let ?c1 = "c1\<lparr> sets := sets c1 + 1 \<rparr>"
  obtain c2 ok where 2: "ar_entry_set ?c1 (argv ! 1) (argv ! 2) = (c2, ok)" by fastforce
  have "heeds c ?c1" using h by (rule heeds_bump(2))
  moreover from this have "heeds ?c1 c2" using sound_heeds [OF s] 2 by (blast intro: entry_set_heeds)
  ultimately have "heeds c c2" by (rule heeds_trans)
  then show "heeds c c'" using r 1 2 h s by (auto simp: cmd_getset_def sound_refl split: if_splits bool.splits got.splits)
qed

interpretation h_expire: handler "cmd_expire ar_expire ''expire''"
  by (rule handler_expire) (simp add: ar_expire_def expire_heeds)

interpretation h_pexpire: handler "cmd_expire ar_pexpire ''pexpire''"
  by (rule handler_expire) (simp add: ar_pexpire_def expire_heeds)

interpretation h_expireat: handler "cmd_expire ar_expireat ''expireat''"
  by (rule handler_expire) (simp add: ar_expireat_def expire_heeds)

interpretation h_pexpireat: handler "cmd_expire ar_pexpireat ''pexpireat''"
  by (rule handler_expire) (simp add: ar_pexpireat_def expire_heeds)

interpretation h_ttl: handler "cmd_ttl ar_ttl ''ttl''"
  by (rule handler_ttl) (rule ttl_heeds)

interpretation h_pttl: handler "cmd_ttl ar_pttl ''pttl''"
  by (rule handler_ttl) (rule pttl_heeds)

interpretation h_del: handler "cmd_del name" for name
  by unfold_locales (auto simp: cmd_del_def sound_refl split: branches intro: count_keys_heeds [OF del_heeds])

interpretation h_exists: handler cmd_exists
  by unfold_locales (auto simp: cmd_exists_def sound_refl split: branches
      intro: heeds_bump count_keys_heeds [OF exists_heeds])

interpretation h_append: handler cmd_append
  by unfold_locales (auto simp: cmd_append_def sound_refl split: branches dest!: append_heeds)

interpretation h_strlen: handler cmd_strlen
  by unfold_locales (auto simp: cmd_strlen_def sound_refl split: branches dest!: strlen_heeds)

interpretation h_rename: handler "cmd_rename nx" for nx
  by unfold_locales (auto simp: cmd_rename_def sound_refl split: branches dest!: rename_heeds)

interpretation h_mget: handler cmd_mget
  by unfold_locales (auto simp: cmd_mget_def sound_refl split: branches dest!: mget_loop_heeds)

interpretation h_mset: handler cmd_mset
  by unfold_locales (auto simp: cmd_mset_def sound_refl split: branches dest!: mset_heeds)

interpretation h_incr: handler "cmd_incr d name" for d name
  by unfold_locales (auto simp: cmd_incr_def reply_defs sound_refl split: branches dest!: incr_heeds)

interpretation h_incrby: handler "cmd_incrby neg name" for neg name
  by unfold_locales (auto simp: cmd_incrby_def reply_defs sound_refl split: branches dest!: incr_heeds)

interpretation h_dbsize: handler cmd_dbsize
  by unfold_locales (auto simp: cmd_dbsize_def sound_refl split: branches dest!: dbsize_heeds)

interpretation h_flushdb: handler cmd_flushdb
  by unfold_locales (auto simp: cmd_flushdb_def intro: flush_heeds)

interpretation h_type: handler cmd_type
  by unfold_locales (auto simp: cmd_type_def sound_refl split: branches dest!: find_heeds)

interpretation h_hset: handler cmd_hset
  by unfold_locales (auto simp: cmd_hset_def sound_refl split: branches dest!: hset_heeds)

interpretation h_hget: handler cmd_hget
  by unfold_locales (auto simp: cmd_hget_def sound_refl split: branches dest!: hget_heeds)

interpretation h_hmget: handler cmd_hmget
proof
  fix c argv c' r p assume s: "sound c" and r: "cmd_hmget c argv = (c', r, p)"
  obtain c1 q wt where 1: "ar_entry_get_typed c (argv ! 1) THash = (c1, q, wt)" using prod_cases3 by blast
  have h: "heeds c c1" by (rule typed_heeds [OF s 1])
  obtain c2 out where 2: "hmget_loop c1 (argv ! 1) (drop 2 argv) [] = (c2, out)" by fastforce
  have "heeds c c2" using h by (rule heeds_trans) (rule hmget_loop_heeds [OF sound_heeds [OF s h] 2])
  then show "heeds c c'" using r 1 2 h s by (auto simp: cmd_hmget_def sound_refl split: if_splits)
qed

interpretation h_hgetall: handler cmd_hgetall
  by unfold_locales (auto simp: cmd_hgetall_def Let_def sound_refl split: branches dest!: typed_heeds)

interpretation h_hdel: handler cmd_hdel
  by unfold_locales (auto simp: cmd_hdel_def reply_defs sound_refl split: branches dest!: hdel_heeds)

interpretation h_hexists: handler cmd_hexists
  by unfold_locales (auto simp: cmd_hexists_def reply_defs sound_refl split: branches dest!: hexists_heeds)

interpretation h_hlen: handler cmd_hlen
  by unfold_locales (auto simp: cmd_hlen_def reply_defs sound_refl split: branches dest!: hlen_heeds)

interpretation h_hincrby: handler cmd_hincrby
  by unfold_locales (auto simp: cmd_hincrby_def sound_refl split: branches dest!: hincrby_heeds)

interpretation h_hscan: handler cmd_hscan
  by unfold_locales (auto simp: cmd_hscan_def sound_refl split: branches dest!: hscan_heeds)

interpretation h_scan: handler cmd_scan
  by unfold_locales (auto simp: cmd_scan_def sound_refl split: branches dest!: scan_heeds)

interpretation h_keys: handler cmd_keys
  by unfold_locales (auto simp: cmd_keys_def sound_refl split: branches dest!: keys_heeds)

interpretation h_push: handler "cmd_push left" for left
proof
  fix c argv c' r p assume s: "sound c" and r: "cmd_push left c argv = (c', r, p)"
  show "heeds c c'"
  proof (cases "length argv < 3 \<or> 64 < length argv - 2")
    case True
    then show ?thesis using r s by (auto simp: cmd_push_def sound_refl split: if_splits)
  next
    case False
    then have ne: "drop 2 argv \<noteq> []" by simp
    obtain c1 n wt where 1: "ar_list_push c (argv ! 1) left (drop 2 argv) = (c1, n, wt)" using prod_cases3 by blast
    then show ?thesis using r False push_heeds [OF s ne 1] by (auto simp: cmd_push_def split: if_splits)
  qed
qed

interpretation h_pop: handler "cmd_pop left" for left
  by unfold_locales (auto simp: cmd_pop_def sound_refl split: branches dest!: pop_heeds)

interpretation h_llen: handler cmd_llen
  by unfold_locales (auto simp: cmd_llen_def reply_defs sound_refl split: branches dest!: llen_heeds)

interpretation h_lindex: handler cmd_lindex
  by unfold_locales (auto simp: cmd_lindex_def sound_refl split: branches dest!: lindex_heeds)

interpretation h_lrange: handler cmd_lrange
  by unfold_locales (auto simp: cmd_lrange_def Let_def sound_refl split: branches dest!: list_get_heeds)

interpretation h_lrem: handler cmd_lrem
  by unfold_locales (auto simp: cmd_lrem_def reply_defs sound_refl split: branches dest!: lrem_heeds)

interpretation h_ltrim: handler cmd_ltrim
  by unfold_locales (auto simp: cmd_ltrim_def sound_refl split: branches dest!: ltrim_heeds)

lemma scored_length: "scored lib xs = Some sms \<Longrightarrow> length sms = length xs div 2"
  by (induction lib xs arbitrary: sms rule: scored.induct) (auto split: option.splits)

interpretation h_zadd: handler "cmd_zadd lib" for lib
proof
  fix c argv c' r p assume s: "sound c" and r: "cmd_zadd lib c argv = (c', r, p)"
  show "heeds c c'"
  proof (cases "length argv < 4 \<or> (length argv - 2) mod 2 \<noteq> 0 \<or> 64 < (length argv - 2) div 2 \<or> scored lib (drop 2 argv) = None")
    case True
    then show ?thesis using r s by (auto simp: cmd_zadd_def sound_refl split: if_splits option.splits)
  next
    case False
    then obtain sms where sms: "scored lib (drop 2 argv) = Some sms" by auto
    have len: "length sms = (length argv - 2) div 2" using scored_length [OF sms] by simp
    have ne: "sms \<noteq> []" "length sms \<le> 64" using len False by (auto simp: div_greater_zero_iff)
    obtain c1 n wt where 1: "ar_zset_zadd c (argv ! 1) sms = (c1, n, wt)" using prod_cases3 by blast
    then show ?thesis using r False sms zadd_heeds [OF s ne 1] by (auto simp: cmd_zadd_def split: if_splits)
  qed
qed

interpretation h_zscore: handler "cmd_zscore lib" for lib
  by unfold_locales (auto simp: cmd_zscore_def sound_refl split: branches dest!: zscore_heeds)

interpretation h_zrem: handler cmd_zrem
  by unfold_locales (auto simp: cmd_zrem_def reply_defs sound_refl split: branches dest!: zrem_heeds)

interpretation h_zcard: handler cmd_zcard
  by unfold_locales (auto simp: cmd_zcard_def reply_defs sound_refl split: branches dest!: zcard_heeds)

interpretation h_zrange: handler "cmd_zrange lib" for lib
  by unfold_locales (auto simp: cmd_zrange_def Let_def sound_refl split: branches dest!: zset_get_heeds)

interpretation h_zrangebyscore: handler "cmd_zrangebyscore lib" for lib
  by unfold_locales (auto simp: cmd_zrangebyscore_def Let_def sound_refl split: branches dest!: zset_get_heeds)



section \<open>The command table\<close>

text \<open>The data commands in the order in which \<open>dispatch\<close> compares their names.\<close>

definition data_commands :: "libc \<Rightarrow> (bytes \<times> (core \<Rightarrow> bytes list \<Rightarrow> result)) list" where
  "data_commands lib =
     [(''get'', cmd_get), (''set'', cmd_set), (''setnx'', cmd_setnx),
      (''setex'', cmd_setex ar_set_bin_ex ''setex''), (''psetex'', cmd_setex ar_set_bin_px ''psetex''),
      (''getset'', cmd_getset), (''expire'', cmd_expire ar_expire ''expire''),
      (''ttl'', cmd_ttl ar_ttl ''ttl''), (''pttl'', cmd_ttl ar_pttl ''pttl''),
      (''pexpire'', cmd_expire ar_pexpire ''pexpire''), (''expireat'', cmd_expire ar_expireat ''expireat''),
      (''pexpireat'', cmd_expire ar_pexpireat ''pexpireat''), (''del'', cmd_del ''del''),
      (''unlink'', cmd_del ''unlink''), (''append'', cmd_append), (''strlen'', cmd_strlen),
      (''rename'', cmd_rename False), (''renamenx'', cmd_rename True), (''exists'', cmd_exists),
      (''mget'', cmd_mget), (''mset'', cmd_mset), (''incr'', cmd_incr 1 ''incr''),
      (''decr'', cmd_incr (- 1) ''decr''), (''incrby'', cmd_incrby False ''incrby''),
      (''decrby'', cmd_incrby True ''decrby''), (''dbsize'', cmd_dbsize), (''flushdb'', cmd_flushdb),
      (''zadd'', cmd_zadd lib), (''zscore'', cmd_zscore lib), (''zrem'', cmd_zrem), (''zcard'', cmd_zcard),
      (''zrange'', cmd_zrange lib), (''zrangebyscore'', cmd_zrangebyscore lib),
      (''lpush'', cmd_push True), (''rpush'', cmd_push False), (''lpop'', cmd_pop True),
      (''rpop'', cmd_pop False), (''llen'', cmd_llen), (''lindex'', cmd_lindex), (''lrange'', cmd_lrange),
      (''lrem'', cmd_lrem), (''ltrim'', cmd_ltrim), (''type'', cmd_type), (''hset'', cmd_hset),
      (''hget'', cmd_hget), (''hmget'', cmd_hmget), (''hgetall'', cmd_hgetall), (''hdel'', cmd_hdel),
      (''hexists'', cmd_hexists), (''hlen'', cmd_hlen), (''hincrby'', cmd_hincrby), (''hscan'', cmd_hscan),
      (''scan'', cmd_scan), (''keys'', cmd_keys)]"

definition find_handler :: "bytes \<Rightarrow> (bytes \<times> 'h) list \<Rightarrow> 'h option" where
  "find_handler name tbl = map_option snd (find (\<lambda>(n, h). cmd_eq name n) tbl)"

lemmas handler_axioms =
  h_get.handler_axioms h_set.handler_axioms h_setnx.handler_axioms h_setex.handler_axioms
  h_psetex.handler_axioms h_getset.handler_axioms h_expire.handler_axioms h_pexpire.handler_axioms
  h_expireat.handler_axioms h_pexpireat.handler_axioms h_ttl.handler_axioms h_pttl.handler_axioms
  h_del.handler_axioms h_exists.handler_axioms h_append.handler_axioms h_strlen.handler_axioms
  h_rename.handler_axioms h_mget.handler_axioms h_mset.handler_axioms h_incr.handler_axioms
  h_incrby.handler_axioms h_dbsize.handler_axioms h_flushdb.handler_axioms h_type.handler_axioms
  h_hset.handler_axioms h_hget.handler_axioms h_hmget.handler_axioms h_hgetall.handler_axioms
  h_hdel.handler_axioms h_hexists.handler_axioms h_hlen.handler_axioms h_hincrby.handler_axioms
  h_hscan.handler_axioms h_scan.handler_axioms h_keys.handler_axioms h_push.handler_axioms
  h_pop.handler_axioms h_llen.handler_axioms h_lindex.handler_axioms h_lrange.handler_axioms
  h_lrem.handler_axioms h_ltrim.handler_axioms h_zadd.handler_axioms h_zscore.handler_axioms
  h_zrem.handler_axioms h_zcard.handler_axioms h_zrange.handler_axioms h_zrangebyscore.handler_axioms

lemma all_handlers: "(n, h) \<in> set (data_commands lib) \<Longrightarrow> handler h"
  unfolding data_commands_def by (elim set_ConsD [elim_format] disjE; simp add: handler_axioms)

lemma found_handler:
  assumes "find_handler name (data_commands lib) = Some h"
  shows "handler h"
proof -
  obtain n where "find (\<lambda>(n, h). cmd_eq name n) (data_commands lib) = Some (n, h)"
    using assms by (auto simp: find_handler_def)
  then have "(n, h) \<in> set (data_commands lib)" by (auto simp: find_Some_iff) (metis nth_mem)
  then show ?thesis by (rule all_handlers)
qed

end
