(* ===== verification/Sample.thy ===== *)
theory Sample
  imports Handlers
begin

text \<open>
  A store with one value of each type, built by the commands themselves, on which the properties
  are instantiated: \<open>s\<close> is the string \<open>10\<close> that expires at 6000 (the clock stands at 1000), \<open>l\<close> the list
  \<open>a b a\<close>, \<open>h\<close> the hash with \<open>f = 1\<close> and \<open>g = x\<close>, \<open>z\<close> a sorted set of two members. Four chains, so
  chains are shared.
\<close>

definition sample1 :: core where "sample1 = fst (ar_set_bin_ex (core_with 4 1000 (\<lambda>_. 0)) ''s'' ''10'' 5)"
definition sample2 :: core where "sample2 = fst (ar_list_push sample1 ''l'' False [''a'', ''b'', ''a''])"
definition sample3 :: core where "sample3 = fst (ar_hash_hset sample2 ''h'' [(''f'', ''1''), (''g'', ''x'')])"
definition sample :: core where "sample = fst (ar_zset_zadd sample3 ''z'' [(4607182418800017408, ''m''), (0, ''n'')])"

text \<open>What each stage keeps: exact books, the clock, no memory limit.\<close>

definition calm :: "core \<Rightarrow> bool" where
  "calm c \<longleftrightarrow> wf exact c \<and> alloc_ok c \<and> maxmemory c = 0 \<and> evict c = EvNoop \<and> now_ms c = 1000"

lemma calm_steps: "calm c \<Longrightarrow> steps exact P K {} c c' \<Longrightarrow> calm c'"
  by (auto simp: calm_def steps_def evo_def env_of_def)

lemma calm_yields: "calm c \<Longrightarrow> calm c' \<Longrightarrow> yields c' L \<Longrightarrow> live c' = L"
  by (auto simp: calm_def intro: yields_unlimited)

lemma calm_unlimited: "calm c \<Longrightarrow> wf exact c" "calm c \<Longrightarrow> alloc_ok c"
  by (simp_all add: calm_def)

lemma calm_empty: "calm (core_with 4 1000 (\<lambda>_. 0))" "live (core_with 4 1000 (\<lambda>_. 0)) = Map.empty"
  by (simp_all add: wf_core_with calm_def)

lemma sample1: "calm sample1" "live sample1 = [''s'' \<mapsto> string_obs ''10'' 6000 False]"
proof -
  let ?c = "core_with 4 1000 (\<lambda>_. 0)"
  let ?c1 = "counted ?c"
  obtain ok where "ar_entry_set_ex ?c1 ''s'' ''10'' 6000 = (sample1, ok)"
    by (simp add: sample1_def ar_set_bin_ex_def Let_def counted_def prod_eq_iff u64_def)
  note ok = counted_set [OF calm_unlimited(1) [OF calm_empty(1)] this counted_same]
  show c: "calm sample1" using calm_empty(1) ok(2) by (rule calm_steps)
  have "yields sample1 [''s'' \<mapsto> string_obs ''10'' 6000 False]"
    using ok(1,3) by (simp add: calm_empty(2) gone_def string_obs_def)
  then show "live sample1 = [''s'' \<mapsto> string_obs ''10'' 6000 False]" by (rule calm_yields [OF calm_empty(1) c])
qed

lemma sample2: "calm sample2" "live sample2 = [''s'' \<mapsto> string_obs ''10'' 6000 False,
    ''l'' \<mapsto> (fresh_obs TList)\<lparr> o_pay := PList [''a'', ''b'', ''a''] \<rparr>]"
proof -
  obtain n wt where r: "ar_list_push sample1 ''l'' False [''a'', ''b'', ''a''] = (sample2, n, wt)"
    by (simp add: sample2_def prod_eq_iff)
  note ok = push_ok [OF calm_unlimited [OF sample1(1)] _ r]
  show c: "calm sample2" using sample1(1) by (rule calm_steps) (rule ok(1), simp)
  have "\<not> wt" using ok(2) by (simp add: sample1(2))
  with ok(4) show "live sample2 = [''s'' \<mapsto> string_obs ''10'' 6000 False,
    ''l'' \<mapsto> (fresh_obs TList)\<lparr> o_pay := PList [''a'', ''b'', ''a''] \<rparr>]"
    by (intro calm_yields [OF sample1(1) c]) (simp add: sample1(2))
qed

lemma sample3: "calm sample3" "\<exists>h. hash_ok h \<and> hmap h = [''f'' \<mapsto> ''1'', ''g'' \<mapsto> ''x''] \<and>
    live sample3 = (live sample2)(''h'' \<mapsto> (fresh_obs THash)\<lparr> o_pay := PHash h \<rparr>)"
proof -
  obtain n wt where r: "ar_hash_hset sample2 ''h'' [(''f'', ''1''), (''g'', ''x'')] = (sample3, n, wt)"
    by (simp add: sample3_def prod_eq_iff)
  note ok = hset_ok [OF calm_unlimited [OF sample2(1)] _ r]
  have l: "live sample2 ''h'' = None" by (simp add: sample2(2))
  show c: "calm sample3" using sample2(1) by (rule calm_steps) (rule ok(1), simp)
  have "\<not> wt" using ok(2) by (simp add: l)
  with ok(4) show "\<exists>h. hash_ok h \<and> hmap h = [''f'' \<mapsto> ''1'', ''g'' \<mapsto> ''x''] \<and>
    live sample3 = (live sample2)(''h'' \<mapsto> (fresh_obs THash)\<lparr> o_pay := PHash h \<rparr>)"
    using calm_yields [OF sample2(1) c] l by fastforce
qed

lemma sample4: "calm sample" "\<exists>z. zset_ok z \<and> zmap z = [''m'' \<mapsto> 4607182418800017408, ''n'' \<mapsto> 0] \<and>
    zsorted z \<and> live sample = (live sample3)(''z'' \<mapsto> (fresh_obs TZset)\<lparr> o_pay := PZset z \<rparr>)"
proof -
  let ?sms = "[(4607182418800017408, ''m''), (0, ''n'')]"
  obtain n wt where r: "ar_zset_zadd sample3 ''z'' ?sms = (sample, n, wt)"
    by (simp add: sample_def prod_eq_iff)
  obtain h where "live sample3 = (live sample2)(''h'' \<mapsto> (fresh_obs THash)\<lparr> o_pay := PHash h \<rparr>)"
    using sample3(2) by blast
  then have l: "live sample3 ''z'' = None" by (simp add: sample2(2))
  have fits: "zadd_fits (live sample3 ''z'') ?sms" by (simp add: l zadd_fits_def AR_ZSET_MAX_MEMBERS_def)
  note ok = zadd_ok [OF calm_unlimited [OF sample3(1)] _ fits r]
  show c: "calm sample" using sample3(1) by (rule calm_steps) (rule ok(1), simp)
  have "\<not> wt" using ok(2) by (simp add: l)
  with ok(4) show "\<exists>z. zset_ok z \<and> zmap z = [''m'' \<mapsto> 4607182418800017408, ''n'' \<mapsto> 0] \<and>
    zsorted z \<and> live sample = (live sample3)(''z'' \<mapsto> (fresh_obs TZset)\<lparr> o_pay := PZset z \<rparr>)"
    using calm_yields [OF sample3(1) c] l
    by (fastforce simp: zorder_def f64_is_nan_def)
qed

lemma sample_facts [simp]:
  "wf exact sample" "alloc_ok sample" "sound sample" "maxmemory sample = 0" "evict sample = EvNoop" "now_ms sample = 1000"
  "live sample ''s'' = Some (string_obs ''10'' 6000 False)"
  "live sample ''l'' = Some ((fresh_obs TList)\<lparr> o_pay := PList [''a'', ''b'', ''a''] \<rparr>)"
  "hview (live sample ''h'') = [''f'' \<mapsto> ''1'', ''g'' \<mapsto> ''x'']"
  "zview (live sample ''z'') = [''m'' \<mapsto> 4607182418800017408, ''n'' \<mapsto> 0]"
  "wrong THash (live sample ''h'') = False" "wrong TZset (live sample ''z'') = False"
  "live sample ''h'' \<noteq> None" "live sample ''z'' \<noteq> None" "live sample ''q'' = None"
  using sample4 sample3(2) sample2(2) by (auto simp: calm_def sound_def)


lemma sample_dom: "dom (live sample) = {''s'', ''l'', ''h'', ''z''}"
proof -
  obtain h z where "live sample = (live sample2)(''h'' \<mapsto> (fresh_obs THash)\<lparr> o_pay := PHash h \<rparr>,
      ''z'' \<mapsto> (fresh_obs TZset)\<lparr> o_pay := PZset z \<rparr>)"
    using sample4(2) sample3(2) by auto
  then show ?thesis by (simp add: sample2(2) insert_commute del: fun_upd_apply)
qed

text \<open>A store of one chain with one hash of one chain, written out, on which walks evaluate.\<close>

definition tiny_entry :: entry where
  "tiny_entry = \<lparr> ekey = ''h'', epay = PHash \<lparr> h_buckets = [[\<lparr> hf_field = ''f'', hf_val = ''1'' \<rparr>, \<lparr> hf_field = ''g'', hf_val = ''x'' \<rparr>]],
     h_nfields = 2 \<rparr>, last_access = 0, lfu_freq = 0, pinned = False, expire_at = 0 \<rparr>"

definition tiny :: core where
  "tiny = (core_with 1 1000 (\<lambda>_. 0))\<lparr> buckets := [[tiny_entry]], nkeys := 1, used_memory := etotal tiny_entry,
     type_nkeys := (\<lambda>t. of_bool (t = THash)), type_bytes := (\<lambda>t. if t = THash then etotal tiny_entry else 0) \<rparr>"

lemma tiny_fields [simp]: "alloc_ok tiny" "maxmemory tiny = 0" "evict tiny = EvNoop" "now_ms tiny = 1000" "layout tiny = Flat"
  "buckets tiny = [[tiny_entry]]" "cold_buckets tiny = []" "nkeys tiny = 1"
  by (simp_all add: tiny_def core_with_def)

lemma tiny_wf [simp]: "wf exact tiny"
proof -
  have "shape tiny" by (simp add: shape_def ct_placed_def ents_def)
  moreover have "balanced exact tiny {#tiny_entry#}"
    by (auto simp: balanced_def tiny_def core_with_def exact_def tiny_entry_def)
  moreover have "payload_ok (epay tiny_entry)" by (simp add: tiny_entry_def ct_ok_def ct_placed_def)
  ultimately show ?thesis by (simp add: wf_def ents_def)
qed

lemma tiny_map: "live tiny = [''h'' \<mapsto> obs_of tiny_entry]"
  by (auto simp: live_def view_def vw_def ents_def unexpired_def gone_def tiny_entry_def fun_eq_iff)

lemma tiny_live [simp]: "live tiny ''h'' = Some (obs_of tiny_entry)"
  by (simp add: tiny_map)

end
