(* ===== verification/StringSpec.thy ===== *)
theory StringSpec
  imports Sample
begin

text \<open>
  The promises of the string and key commands, as a client sees them: the reply, whether the
  command goes to the replicas, and the keys that are live afterwards. \<open>live c\<close> is the abstract
  store, \<open>yields c' L\<close> says that \<open>c'\<close> holds \<open>L\<close> up to what the eviction kernel may have taken (exactly \<open>L\<close>
  when there is no memory limit).
\<close>


section \<open>The deadline of SET\<close>

definition set_deadline :: "core \<Rightarrow> set_opts \<Rightarrow> obs option \<Rightarrow> nat" where
  "set_deadline c so r =
     (if so_ex so > 0 then u64 (now_ms c + u64 (nat (so_ex so) * 1000))
      else if so_px so > 0 then u64 (now_ms c + nat (so_px so))
      else if so_exat so > 0 then u64 (nat (so_exat so) * 1000)
      else if so_pxat so > 0 then nat (so_pxat so)
      else if so_keep so then deadline_of r else 0)"

definition stored :: "core \<Rightarrow> bytes \<Rightarrow> bytes \<Rightarrow> nat \<Rightarrow> bytes \<Rightarrow> obs option" where
  "stored c k v x = (live c)(k := unexpired (now_ms c) (Some (string_obs v x (pin_of (live c k)))))"

lemma counted_set_ok:
  assumes "wf s c" and "alloc_ok c" and "ar_entry_set_ex (counted c) k v x = (c', ok)"
  shows "ok \<and> wf s c' \<and> yields c' (stored c k v x)"
  using counted_set [OF assms(1,3)] assms(2) by (auto simp: stored_def dest: stepsD)

lemma counted_plain_ok:
  assumes "wf s c" and "alloc_ok c" and "ar_entry_set (counted c) k v = (c', ok)"
  shows "ok \<and> wf s c' \<and> yields c' (stored c k v 0)"
  by (rule counted_set_ok [OF assms(1,2)]) (use assms(3) in \<open>simp add: ar_entry_set_def\<close>)

lemma find_ok:
  assumes "wf s c" and "ar_find_entry_ex c k = (c', r)"
  shows "steps s P K W c c'" "case r of None \<Rightarrow> live c k = None | Some (e, b, tr) \<Rightarrow> live c k = Some (obs_of e)"
proof -
  have "steps s P K W c c' \<and> (case r of None \<Rightarrow> live c k = None | Some (e, b, tr) \<Rightarrow> live c k = Some (obs_of e))"
    using assms(1)
  proof (cases rule: find_cases [of s c k])
    case found
    then show ?thesis using assms by (auto simp: steps_refl)
  next
    case (missing c1)
    have "steps s P K W c c1" by (rule missing(2))
    with missing(1,4) assms(2) show ?thesis by auto
  qed
  then show "steps s P K W c c'" "case r of None \<Rightarrow> live c k = None | Some (e, b, tr) \<Rightarrow> live c k = Some (obs_of e)"
    by blast+
qed

lemma exists_ok:
  assumes "wf s c" and "ar_exists_bin c k = (c', b)"
  shows "wf s c' \<and> live c' = live c \<and> env_of c' = env_of c \<and> b = (live c k \<noteq> None)"
proof -
  obtain r where r: "ar_find_entry_ex c k = (c', r)" "b = (r \<noteq> None)"
    using assms(2) by (auto simp: ar_exists_bin_def split: prod.splits)
  show ?thesis using read_kept [OF assms(1) find_ok(1) [OF assms(1) r(1)]] find_ok(2) [OF assms(1) r(1)] r(2)
    by (auto split: option.splits prod.splits)
qed

lemma stored_cong: "live c' = live c \<Longrightarrow> env_of c' = env_of c \<Longrightarrow> stored c' = stored c"
  by (auto simp: stored_def fun_eq_iff env_of_def)

lemma set_with_ok:
  assumes w: "wf s c" and a: "alloc_ok c" and r: "set_with c so k v = (c', ok)"
  shows "ok \<and> wf s c' \<and> yields c' (stored c k v (set_deadline c so (live c k)))"
proof (cases "\<not> so_ex so > 0 \<and> \<not> so_px so > 0 \<and> \<not> so_exat so > 0 \<and> \<not> so_pxat so > 0 \<and> so_keep so")
  case True
  obtain c1 q where 1: "ar_find_entry_ex c k = (c1, q)" by fastforce
  have k1: "wf s c1" "live c1 = live c" "env_of c1 = env_of c"
    using read_kept [OF w find_ok(1) [OF w 1]] by blast+
  have x: "ar_entry_set_ex (counted c1) k v (set_deadline c so (live c k)) = (c', ok)"
    using r True 1 find_ok(2) [OF w 1] by (auto simp: set_with_def set_deadline_def split: option.splits)
  have "alloc_ok c1" using a k1(3) by (simp add: env_of_def)
  then show ?thesis using counted_set_ok [OF k1(1) _ x] stored_cong [OF k1(2,3)] by simp
next
  case False
  have "ar_entry_set_ex (counted c) k v (set_deadline c so (live c k)) = (c', ok)"
    using r False by (auto simp: set_with_def set_deadline_def ar_set_bin_ex_def ar_set_bin_px_def
        ar_entry_set_def counted_def Let_def split: if_splits)
  then show ?thesis by (rule counted_set_ok [OF w a])
qed


text \<open>Consistent SET options, kept by every step of the parser.\<close>

definition good_opts :: "set_opts \<Rightarrow> bool" where
  "good_opts so \<longleftrightarrow> \<not> (so_nx so \<and> so_xx so) \<and>
     length (filter id [so_ex so \<noteq> - 1, so_px so \<noteq> - 1, so_exat so \<noteq> - 1, so_pxat so \<noteq> - 1, so_keep so]) \<le> 1 \<and>
     (\<forall>t \<in> {so_ex so, so_px so, so_exat so, so_pxat so}. t = - 1 \<or> t > 0)"

lemma good_flags:
  assumes "good_opts so"
  shows "\<not> so_xx so \<Longrightarrow> good_opts (so\<lparr> so_nx := True \<rparr>)" "\<not> so_nx so \<Longrightarrow> good_opts (so\<lparr> so_xx := True \<rparr>)"
    "\<not> timed so \<Longrightarrow> good_opts (so\<lparr> so_keep := True \<rparr>)"
  using assms by (auto simp: good_opts_def timed_def)

lemma good_time:
  assumes "good_opts so" and "set_time put so rest = Inr so'"
    and "put \<in> {\<lambda>t. so\<lparr> so_ex := t \<rparr>, \<lambda>t. so\<lparr> so_px := t \<rparr>, \<lambda>t. so\<lparr> so_exat := t \<rparr>, \<lambda>t. so\<lparr> so_pxat := t \<rparr>}"
  shows "good_opts so' \<and> rest \<noteq> []"
proof -
  obtain t where t: "0 < t" "so' = put t" "\<not> timed so" "\<not> so_keep so" "rest \<noteq> []"
    using assms(2) by (fastforce simp: set_time_def positive_time_def not_le split: list.splits if_splits option.splits)
  then show ?thesis using assms(1,3) by (auto simp: good_opts_def timed_def)
qed

lemma parse_keeps_good: "good_opts so \<Longrightarrow> parse_set_opts so xs = Inr so' \<Longrightarrow> good_opts so'"
proof (induction "length xs" arbitrary: xs so rule: less_induct)
  case less
  show ?case
  proof (cases xs)
    case Nil
    then show ?thesis using less.prems by simp
  next
    case (Cons a rest)
    let ?puts = "{\<lambda>t. so\<lparr> so_ex := t \<rparr>, \<lambda>t. so\<lparr> so_px := t \<rparr>, \<lambda>t. so\<lparr> so_exat := t \<rparr>, \<lambda>t. so\<lparr> so_pxat := t \<rparr>}"
    have "\<exists>so1 ys. good_opts so1 \<and> length ys < length xs \<and> parse_set_opts so1 ys = Inr so'"
    proof (cases "cmd_eq a ''nx'' \<or> cmd_eq a ''xx'' \<or> cmd_eq a ''keepttl''")
      case True
      then show ?thesis using less.prems(2) good_flags [OF less.prems(1)]
        by (intro exI [where x = "if cmd_eq a ''nx'' then so\<lparr> so_nx := True \<rparr> else if cmd_eq a ''xx'' then so\<lparr> so_xx := True \<rparr>
              else so\<lparr> so_keep := True \<rparr>"] exI [where x = rest]) (auto simp: Cons split: if_splits)
    next
      case False
      then obtain put so1 where "put \<in> ?puts" "set_time put so rest = Inr so1" "parse_set_opts so1 (tl rest) = Inr so'"
        using less.prems(2) by (auto simp: Cons split: if_splits sum.splits)
      moreover from this have "good_opts so1" "rest \<noteq> []" using good_time [OF less.prems(1)] by blast+
      ultimately show ?thesis by (intro exI [where x = so1] exI [where x = "tl rest"]) (simp add: Cons)
    qed
    then show ?thesis using less.hyps by blast
  qed
qed


text \<open>DEL over a list of keys, EXISTS over a list of keys.\<close>

lemma del_all_ok:
  assumes "wf s c" and "count_keys ar_del_bin c ks n = (c', m)"
  shows "wf s c' \<and> live c' = (live c) |` (- set ks) \<and> m = n + card (set ks \<inter> dom (live c))"
  using assms
proof (induction ks arbitrary: c n)
  case Nil
  then show ?case by simp
next
  case (Cons k ks)
  obtain c1 ok where 1: "ar_del_bin c k = (c1, ok)" by fastforce
  note d = del_bin_ok [OF Cons.prems(1) 1]
  have "wf s c' \<and> live c' = (live c1) |` (- set ks) \<and> m = (if ok then n + 1 else n) + card (set ks \<inter> dom (live c1))"
    using Cons.prems(2) 1 by (intro Cons.IH stepsD(1) [OF d(1)]) simp
  moreover have "dom (live c1) = dom (live c) - {k}" using d(3) by simp
  moreover have "card (set (k # ks) \<inter> dom (live c)) = (if ok then 1 else 0) + card (set ks \<inter> (dom (live c) - {k}))"
  proof -
    have "set (k # ks) \<inter> dom (live c) = (if ok then insert k (set ks \<inter> (dom (live c) - {k})) else set ks \<inter> (dom (live c) - {k}))"
      using d(2) by auto
    then show ?thesis by simp
  qed
  moreover have "(live c1) |` (- set ks) = (live c) |` (- set (k # ks))"
    using d(3) by (auto simp: restrict_map_def fun_eq_iff)
  ultimately show ?case by simp
qed

lemma exists_all_ok:
  assumes "wf s c" and "count_keys ar_exists_bin c ks n = (c', m)"
  shows "wf s c' \<and> live c' = live c \<and> m = n + length (filter (\<lambda>k. live c k \<noteq> None) ks)"
  using assms
proof (induction ks arbitrary: c n)
  case Nil
  then show ?case by simp
next
  case (Cons k ks)
  obtain c1 ok where 1: "ar_exists_bin c k = (c1, ok)" by fastforce
  note e = exists_ok [OF Cons.prems(1) 1]
  then have "wf s c' \<and> live c' = live c1 \<and> m = (if ok then n + 1 else n) + length (filter (\<lambda>k. live c1 k \<noteq> None) ks)"
    using Cons.prems(2) 1 by (intro Cons.IH) simp_all
  then show ?case using e by simp
qed

lemma bumped_same [simp]: "live (c\<lparr> ops := n \<rparr>) = live c" "wf s (c\<lparr> ops := n \<rparr>) = wf s c"
  by (rule live_same; simp add: dict_of_def env_of_def) (auto elim: wf_same simp: dict_of_def)


text \<open>The four expiry commands and the deadline each asks for.\<close>

definition expire_ops :: "((core \<Rightarrow> bytes \<Rightarrow> int \<Rightarrow> core \<times> bool) \<times> (nat \<Rightarrow> int \<Rightarrow> nat)) list" where
  "expire_ops =
     [(ar_expire, \<lambda>now n. u64 (now + u64 (nat n * 1000))), (ar_pexpire, \<lambda>now n. u64 (now + nat n)),
      (ar_expireat, \<lambda>now n. u64 (nat n * 1000)), (ar_pexpireat, \<lambda>now n. nat n)]"


section \<open>Properties\<close>

text \<open>GET. The reply is the live string, the null bulk for a missing or expired key, or WRONGTYPE for
  a value of another type; no live key changes, the books stay balanced and nothing is propagated.\<close>

lemma get_replies:
  assumes "wf s c" and "cmd_get c [name, k] = (c', r, p)"
  shows "wf s c' \<and> live c' = live c \<and> \<not> p \<and>
    r = (case live c k of
           None \<Rightarrow> reply_null_bulk
         | Some v \<Rightarrow> (case o_pay v of PStr b \<Rightarrow> reply_bulk b | _ \<Rightarrow> wrong_type))"
proof -
  obtain c1 g where g: "get_ptr c k = (c1, g)" by fastforce
  have 1: "c' = c1" "\<not> p" "r = (case g of WrongType \<Rightarrow> wrong_type | Miss \<Rightarrow> reply_null_bulk | Hit v \<Rightarrow> reply_bulk v)"
    using assms(2) g by (auto simp: cmd_get_def split: got.splits)
  show ?thesis using read_kept [OF assms(1) get_ptr_ok(1) [OF assms(1) g]] 1 get_ptr_ok(2) [OF assms(1) g]
    by (auto simp: string_of_def split: option.splits payload.splits)
qed

text \<open>The options of SET that parse are consistent: NX and XX never together, at most one of EX, PX, EXAT,
  PXAT and KEEPTTL, and a time that was given is positive.\<close>

lemma set_opts_consistent:
  assumes "parse_set_opts set_opts0 xs = Inr so"
  shows "\<not> (so_nx so \<and> so_xx so) \<and>
    length (filter id [so_ex so \<noteq> - 1, so_px so \<noteq> - 1, so_exat so \<noteq> - 1, so_pxat so \<noteq> - 1, so_keep so]) \<le> 1 \<and>
    (\<forall>t \<in> {so_ex so, so_px so, so_exat so, so_pxat so}. t = - 1 \<or> t > 0)"
proof -
  have "good_opts set_opts0" by (simp add: good_opts_def set_opts0_def)
  then have "good_opts so" using assms by (rule parse_keeps_good)
  then show ?thesis by (simp add: good_opts_def)
qed

text \<open>C9. SET with its options. Under NX (XX) a key that exists (does not exist) gets the null reply and nothing
  changes; otherwise the reply is +OK, the command is propagated, and the key holds the new string
  with the deadline its option asks for (KEEPTTL the old one, none by default) and the pin it had.\<close>

theorem set_replies:
  assumes "wf s c" and "alloc_ok c" and "parse_set_opts set_opts0 opts = Inr so"
    and "cmd_set c (name # k # v # opts) = (c', r, p)"
  shows "wf s c' \<and>
    (if so_nx so \<and> live c k \<noteq> None \<or> so_xx so \<and> live c k = None
     then r = reply_null_bulk \<and> \<not> p \<and> live c' = live c
     else r = reply_ok \<and> p \<and> yields c' (stored c k v (set_deadline c so (live c k))))"
proof -
  obtain c1 b where 1: "ar_exists_bin c k = (c1, b)" by fastforce
  note e = exists_ok [OF assms(1) 1]
  obtain c2 ok where 2: "set_with c1 so k v = (c2, ok)" by fastforce
  have a1: "alloc_ok c1" using e assms(2) by (simp add: env_of_def)
  have "set_deadline c1 so = set_deadline c so" using e by (simp add: set_deadline_def env_of_def fun_eq_iff)
  then have s: "ok \<and> wf s c2 \<and> yields c2 (stored c k v (set_deadline c so (live c k)))"
    using set_with_ok [OF conjunct1 [OF e] a1 2] e stored_cong [of c1 c] by simp
  then show ?thesis using assms(3,4) 1 2 e by (auto simp: cmd_set_def split: if_splits)
qed

theorem set_replies_witness:
  "let x = cmd_set sample [''SET'', ''s'', ''9'', ''XX'', ''KEEPTTL''] in
   fst (snd x) = reply_ok \<and> yields (fst x) (stored sample ''s'' ''9'' 6000)"
proof -
  have o: "parse_set_opts set_opts0 [''XX'', ''KEEPTTL''] = Inr (set_opts0\<lparr> so_xx := True, so_keep := True \<rparr>)"
    by code_simp
  show ?thesis
    using set_replies [OF _ _ o, of exact sample "''SET''" "''s''" "''9''"
        "fst (cmd_set sample [''SET'', ''s'', ''9'', ''XX'', ''KEEPTTL''])"
        "fst (snd (cmd_set sample [''SET'', ''s'', ''9'', ''XX'', ''KEEPTTL'']))"
        "snd (snd (cmd_set sample [''SET'', ''s'', ''9'', ''XX'', ''KEEPTTL'']))"]
    by (simp add: Let_def set_deadline_def set_opts0_def string_obs_def)
qed

text \<open>C33. INCR and DECR. A missing key counts as 0; a value that is no decimal integer of fewer than 64 characters is an
  error and stays as it is. Otherwise the reply is the 64-bit sum, which the key then holds in
  decimal, with the deadline and the pin it had.\<close>

theorem incr_replies:
  assumes "wf s c" and "alloc_ok c" and "cmd_incr d name c [n, k] = (c', r, p)"
  shows "wf s c' \<and>
    (case counter_of (live c k) of
       None \<Rightarrow> r = not_int \<and> \<not> p \<and> live c' = live c
     | Some i \<Rightarrow> r = reply_int (s64 (i + d)) \<and> p \<and>
         yields c' ((live c)(k \<mapsto> string_obs (show_int (s64 (i + d))) (deadline_of (live c k)) (pin_of (live c k)))))"
proof -
  obtain c1 v ok where 1: "ar_incr c k d = (c1, v, ok)" using prod_cases3 by blast
  note i = incr_ok [OF assms(1) 1]
  have "c' = c1" "r = (if ok then reply_int v else not_int)" "p = ok"
    using assms(3) 1 by (auto simp: cmd_incr_def incr_reply_def split: if_splits)
  then show ?thesis using i(2,3) stepsD(1) [OF i(1)] assms(2) by (cases "counter_of (live c k)") auto
qed

theorem incr_replies_witness:
  "fst (snd (cmd_incr 1 ''incr'' sample [''INCR'', ''s''])) = reply_int 11"
proof -
  have "counter_of (live sample ''s'') = Some 10" by (simp add: string_obs_def counter_of_def) code_simp
  then show ?thesis
    using incr_replies [of exact sample 1 "''incr''" "''INCR''" "''s''"
        "fst (cmd_incr 1 ''incr'' sample [''INCR'', ''s''])"
        "fst (snd (cmd_incr 1 ''incr'' sample [''INCR'', ''s'']))" "snd (snd (cmd_incr 1 ''incr'' sample [''INCR'', ''s'']))"]
    by (simp add: s64_def)
qed

text \<open>APPEND. On a string the reply is the new length and the key holds the concatenation with its deadline and pin; a missing key
  is created; a value of another type gives WRONGTYPE and stays.\<close>

lemma append_replies:
  assumes "wf s c" and "alloc_ok c" and "cmd_append c [name, k, x] = (c', r, p)"
  shows "wf s c' \<and>
    (case live c k of
       None \<Rightarrow> r \<noteq> wrong_type \<and> yields c' ((live c)(k \<mapsto> string_obs x 0 False))
     | Some v \<Rightarrow>
         (case o_pay v of
            PStr old \<Rightarrow> r = reply_int (int (length (old @ x))) \<and> p \<and> yields c' ((live c)(k \<mapsto> v\<lparr> o_pay := PStr (old @ x) \<rparr>))
          | _ \<Rightarrow> r = wrong_type \<and> \<not> p \<and> live c' = live c))"
proof -
  obtain c1 n wt where 1: "ar_append c k x = (c1, n, wt)" using prod_cases3 by blast
  note a = append_ok [OF assms(1) 1 assms(2)]
  have e: "c' = c1" "r = (if wt then wrong_type else if n < 0 then oom else reply_int n)" "p \<longleftrightarrow> \<not> wt \<and> \<not> n < 0"
    using assms(3) 1 by (auto simp: cmd_append_def split: if_splits)
  have "oom \<noteq> wrong_type" "reply_int n \<noteq> wrong_type" by (simp_all add: oom_def wrong_type_def reply_err_def reply_int_def)
  then show ?thesis using a(2) a(3,4) stepsD(1) [OF a(1)] e
    by (cases "live c k"; cases "o_pay (the (live c k))") fastforce+
qed

text \<open>DEL and UNLINK. Every live key named is removed and counted once, however often it is named; no other key
  changes; the command is propagated when something was removed.\<close>

lemma del_replies:
  assumes "wf s c" and "ks \<noteq> []" and "cmd_del name c (n # ks) = (c', r, p)"
  shows "wf s c' \<and> live c' = (live c) |` (- set ks) \<and>
    r = reply_int (int (card (set ks \<inter> dom (live c)))) \<and> p = (set ks \<inter> dom (live c) \<noteq> {})"
proof -
  obtain c1 m where 1: "count_keys ar_del_bin c ks 0 = (c1, m)" by fastforce
  have "finite (set ks \<inter> dom (live c))" by simp
  then show ?thesis using del_all_ok [OF assms(1) 1] assms(2,3) 1
    by (auto simp: cmd_del_def card_gt_0_iff split: if_splits)
qed

text \<open>RENAME and RENAMENX of two different keys. Without the source the reply is an error; RENAMENX onto a live
  key replies 0; otherwise the value moves, deadline and pin included, and replaces what was there.\<close>

lemma rename_replies:
  assumes "wf s c" and "alloc_ok c" and "k \<noteq> k'" and "cmd_rename nx c [name, k, k'] = (c', r, p)"
  shows "wf s c' \<and>
    (if live c k = None then r = reply_err ''ERR no such key'' \<and> \<not> p \<and> live c' = live c
     else if nx \<and> live c k' \<noteq> None then r = reply_int 0 \<and> \<not> p \<and> live c' = live c
     else r = (if nx then reply_int 1 else reply_ok) \<and> p \<and> yields c' ((live c)(k := None, k' := live c k)))"
proof -
  obtain c1 n where 1: "ar_rename c k k' nx = (c1, n)" by fastforce
  show ?thesis
  proof (cases "live c k = None")
    case True
    have "n = 0 \<and> steps s (\<lambda>_. False) {} {} c c1" by (rule rename_missing [OF assms(1) 1 True])
    then show ?thesis using assms(4) 1 True steps_live by (auto simp: cmd_rename_def dest: stepsD)
  next
    case False
    note f = rename_found [OF assms(1) 1 assms(2) False assms(3)]
    show ?thesis
    proof (cases "live c k' \<noteq> None \<and> nx")
      case True
      then show ?thesis using f assms(4) 1 False steps_live by (auto simp: cmd_rename_def dest: stepsD)
    next
      case keep: False
      then have "n = 1 \<and> wf s c1 \<and> yields c1 ((live c)(k := None, k' := live c k))" using f by (auto dest: stepsD)
      then show ?thesis using assms(4) 1 False keep by (auto simp: cmd_rename_def split: if_splits)
    qed
  qed
qed

text \<open>SETEX, then GET and TTL at the same instant. In a store without a memory limit the value comes back as it was
  written and the lifetime is the number of seconds asked for, as long as the deadline fits 64 bits.\<close>

lemma setex_then_get_ttl:
  assumes "wf s c" and "alloc_ok c" and "maxmemory c = 0" and "0 < sec" and "now_ms c + nat sec * 1000 + 999 < 2 ^ 64"
    and "positive_time t = Some sec" and "cmd_setex ar_set_bin_ex ''setex'' c [n1, k, t, v] = (c1, r1, p1)"
    and "cmd_get c1 [n2, k] = (c2, r2, p2)" and "cmd_ttl ar_ttl ''ttl'' c2 [n3, k] = (c3, r3, p3)"
  shows "r1 = reply_ok \<and> r2 = reply_bulk v \<and> r3 = reply_int sec"
proof -
  let ?x = "now_ms c + nat sec * 1000"
  have x: "u64 (now_ms c + u64 (nat sec * 1000)) = ?x" using assms(5) by (simp add: u64_def)
  obtain x1 ok where x1: "ar_set_bin_ex c k v sec = (x1, ok)" by fastforce
  have 1: "ar_set_bin_ex c k v sec = (c1, ok)" "r1 = (if ok then reply_ok else oom)"
    using assms(6,7) x1 by (auto simp: cmd_setex_def split: bool.splits)
  have "ar_entry_set_ex (counted c) k v ?x = (c1, ok)"
    using 1(1) assms(4) x by (simp add: ar_set_bin_ex_def counted_def Let_def)
  note o = counted_set [OF assms(1) this counted_same]
  have e: "env_of c1 = env_of c" "wf s c1" using steps_env [OF o(2)] stepsD(1) [OF o(2)] .
  have "live c1 k = Some (string_obs v ?x (pin_of (live c k)))"
    using yields_unlimited [OF o(3)] o(1) e(1) assms(2,3,4) by (simp add: env_of_def gone_def string_obs_def)
  moreover have 2: "wf s c2 \<and> live c2 = live c1 \<and> env_of c2 = env_of c1 \<and> r2 = (case live c1 k of
           None \<Rightarrow> reply_null_bulk
         | Some v \<Rightarrow> (case o_pay v of PStr b \<Rightarrow> reply_bulk b | _ \<Rightarrow> wrong_type))"
  proof -
    obtain c1' g where g: "get_ptr c1 k = (c1', g)" by fastforce
    have "c2 = c1'" "r2 = (case g of WrongType \<Rightarrow> wrong_type | Miss \<Rightarrow> reply_null_bulk | Hit v \<Rightarrow> reply_bulk v)"
      using assms(8) g by (auto simp: cmd_get_def split: got.splits)
    then show ?thesis using read_kept [OF e(2) get_ptr_ok(1) [OF e(2) g]] get_ptr_ok(2) [OF e(2) g]
      by (auto simp: string_of_def split: option.splits payload.splits)
  qed
  moreover obtain c2' d where 3: "ar_ttl c2 k = (c2', d)" by fastforce
  moreover have "now_ms c2 = now_ms c" using 2 e(1) by (simp add: env_of_def)
  moreover have "u64 (nat sec * 1000 + 999) = nat sec * 1000 + 999" using assms(5) by (simp add: u64_def)
  ultimately show ?thesis using 1(2) o(1) assms(2,4,9) ttl_ok(2) [OF conjunct1 [OF 2] 3]
    by (auto simp: cmd_ttl_def string_obs_def)
qed

text \<open>C34. EXPIRE, PEXPIRE, EXPIREAT and PEXPIREAT. The reply is 1 exactly for a live key. A time of zero or less
  takes the deadline away; otherwise the key gets the deadline, reduced to 64 bits, and is gone if
  that has passed. The value, the pin and all other keys stay.\<close>

theorem expire_replies:
  assumes "wf s c" and "(op, d) \<in> set expire_ops" and "cmd_expire op name c [nm, k, t] = (c', r, p)"
    and "time_arg t = Some n"
  shows "wf s c' \<and> r = reply_int (if live c k = None then 0 else 1) \<and> p = (live c k \<noteq> None) \<and>
    live c' = (live c)(k := (case live c k of
        None \<Rightarrow> None
      | Some v \<Rightarrow> if n \<le> 0 then Some (v\<lparr> o_exp := 0 \<rparr>)
                  else if 0 < d (now_ms c) n \<and> d (now_ms c) n \<le> now_ms c then None
                  else Some (v\<lparr> o_exp := d (now_ms c) n \<rparr>)))"
proof -
  obtain c1 ok where 1: "op c k n = (c1, ok)" by fastforce
  have "expire_with c k n (d (now_ms c) n) = (c1, ok)"
    using 1 assms(2)
    by (auto simp: expire_ops_def ar_expire_def ar_pexpire_def ar_expireat_def ar_pexpireat_def)
  note e = expire_with_ok [OF assms(1) this]
  show ?thesis using assms(3,4) 1 e(2,3) stepsD(1) [OF e(1)]
    by (auto simp: cmd_expire_def deadline_after_def gone_def split: option.splits)
qed

theorem expire_replies_witness:
  "let x = cmd_expire ar_expire ''expire'' sample [''EXPIRE'', ''l'', ''9'']
   in fst (snd x) = reply_int 1 \<and> deadline_of (live (fst x) ''l'') = 10000"
proof -
  have t: "time_arg ''9'' = Some 9" by code_simp
  let ?x = "cmd_expire ar_expire ''expire'' sample [''EXPIRE'', ''l'', ''9'']"
  show ?thesis
    using expire_replies [OF _ _ _ t, of exact sample ar_expire "\<lambda>now n. u64 (now + u64 (nat n * 1000))"
        "''expire''" "''EXPIRE''" "''l''" "fst ?x" "fst (snd ?x)" "snd (snd ?x)"]
    by (simp add: Let_def u64_def expire_ops_def)
qed

text \<open>FLUSHDB. No key is left, the books are those of an empty store except the count of pinned keys, which keeps its
  old value, and every connection that watches anything is dirty.\<close>

lemma flushdb_empties:
  assumes "wf s c"
  shows "case cmd_flushdb c argv of (c', r, p) \<Rightarrow>
    live c' = Map.empty \<and> nkeys c' = 0 \<and> used_memory c' = 0 \<and> pinned_keys c' = pinned_keys c \<and>
    (\<forall>cn \<in> set (conns c'). in_use cn \<and> watch_keys cn \<noteq> [] \<longrightarrow> watch_dirty cn) \<and> r = reply_ok \<and> p"
proof -
  note f = flush_ok [OF assms]
  have "ents (ar_flushdb c) = []" using flush_fields by (simp add: ents_def)
  then show ?thesis
    using f(1,2) by (auto simp: cmd_flushdb_def flush_conns wf_def balanced_def exact_def)
qed

end
