(* ===== verification/TypedSpec.thy ===== *)
theory TypedSpec
  imports Sample
begin

text \<open>
  The promises of the commands on lists, hashes and sorted sets, and of the walks over the key
  space: each command against the abstract value of its key (\<open>lview\<close> a list, \<open>hview\<close> a map from
  fields, \<open>zview\<close> a map from members to scores).
\<close>


section \<open>Replies over a window\<close>

text \<open>The reference definition of a window: the elements whose index lies between the bounds, a negative bound
  counting from the end.\<close>

definition window :: "int \<Rightarrow> int \<Rightarrow> 'a list \<Rightarrow> 'a list" where
  "window start stop l =
     (let n = int (length l);
          lo = (if start < 0 then n + start else start);
          hi = (if stop < 0 then n + stop else stop)
      in map ((!) l) (filter (\<lambda>i. lo \<le> int i \<and> int i \<le> hi) [0..<length l]))"

lemma window_slice:
  "window start stop l =
     (case range_bounds (int (length l)) start stop of
        None \<Rightarrow> [] | Some (i, j) \<Rightarrow> take (nat (j - i + 1)) (drop (nat i) l))"
proof -
  let ?n = "int (length l)"
  define lo where "lo = (if start < 0 then ?n + start else start)"
  define hi where "hi = (if stop < 0 then ?n + stop else stop)"
  have w: "window start stop l = take (min (length l) (nat (hi + 1)) - nat (max lo 0)) (drop (nat (max lo 0)) l)"
    unfolding window_def Let_def lo_def [symmetric] hi_def [symmetric] filter_upt_interval
    by (rule map_nth_upt) simp
  have b: "range_bounds ?n start stop =
      (let i = max lo 0; j = min hi (?n - 1) in if i > j \<or> i \<ge> ?n then None else Some (i, j))"
    by (simp add: range_bounds_def lo_def hi_def Let_def max_def min_def)
  show ?thesis
  proof (cases "max lo 0 > min hi (?n - 1) \<or> max lo 0 \<ge> ?n")
    case True
    then have "min (length l) (nat (hi + 1)) - nat (max lo 0) = 0" by auto
    then have "window start stop l = []" by (simp only: w take_0)
    moreover have "range_bounds ?n start stop = None" using True by (simp add: b Let_def)
    ultimately show ?thesis by simp
  next
    case False
    let ?i = "max lo 0" and ?j = "min hi (?n - 1)"
    have "range_bounds ?n start stop = Some (?i, ?j)" using False by (simp add: b Let_def)
    moreover have "min (length l) (nat (hi + 1)) - nat ?i = nat (?j - ?i + 1)" using False by auto
    ultimately show ?thesis by (simp add: w)
  qed
qed

lemma window_bounds: "range_bounds n start stop = Some (i, j) \<Longrightarrow> 0 \<le> i \<and> i \<le> j \<and> j < n"
  by (auto simp: range_bounds_def Let_def split: if_splits)

lemma window_length: "length (window start stop l) \<le> length l"
  by (simp add: window_def Let_def) (metis diff_zero length_filter_le length_upt)

definition array :: "bytes list \<Rightarrow> bytes" where
  "array xs = array_of (length xs) (bulks xs)"

lemma array_hdr: "length xs < 2 ^ 31 \<Longrightarrow> resp_append_array_hdr (s32 (int (length xs))) @ bulks xs = array xs"
  by (simp add: array_def array_of_def resp_append_array_hdr_def s32_def show_int_def)


section \<open>Reference definitions\<close>

text \<open>Take away up to \<open>n\<close> occurrences, from the front.\<close>

fun remove_up_to :: "nat \<Rightarrow> 'a \<Rightarrow> 'a list \<Rightarrow> 'a list" where
  "remove_up_to n x [] = []"
| "remove_up_to 0 x l = l"
| "remove_up_to (Suc n) x (y # l) = (if y = x then remove_up_to n x l else y # remove_up_to (Suc n) x l)"

lemma remove_none [simp]: "remove_up_to 0 x l = l"
  by (cases l) simp_all

lemma lrem_walk_limit:
  "lrem_walk (\<lambda>n. int n \<ge> lim) n x l = (remove_up_to (nat (lim - int n)) x l, n + min (nat (lim - int n)) (count_list l x))"
  if "int n < lim" for lim
  using that
proof (induction l arbitrary: n)
  case Nil
  then show ?case by simp
next
  case (Cons y l)
  obtain m where m: "nat (lim - int n) = Suc m" using Cons.prems by (cases "nat (lim - int n)") auto
  then have lim: "lim = int n + int m + 1" by linarith
  show ?case using Cons.IH [of "n + 1"] Cons.IH [of n] Cons.prems
    by (cases m) (auto simp: lim nat_add_distrib)
qed

text \<open>A client's SCAN loop, one COUNT per call, until the cursor is back at 0.\<close>

fun scan_session :: "core \<Rightarrow> nat \<Rightarrow> bytes \<Rightarrow> int list \<Rightarrow> core \<times> bytes list \<times> nat" where
  "scan_session c cur pat [] = (c, [], cur)"
| "scan_session c cur pat (cnt # cnts) =
     (case ar_scan c cur pat cnt of
        (c, ks, nxt) \<Rightarrow>
          if nxt = 0 then (c, ks, 0)
          else (case scan_session c nxt pat cnts of (c, rest, cur) \<Rightarrow> (c, ks @ rest, cur)))"

lemma scan_width_pos: "0 < scan_width cnt"
  by (simp add: scan_width_def)

lemma scan_session_ok:
  "wf s c \<Longrightarrow> alloc_ok c \<Longrightarrow> cur < scan_total_buckets c \<Longrightarrow> scan_total_buckets c \<le> cur + length cnts \<Longrightarrow>
   scan_session c cur pat cnts = (c', ks, nxt) \<Longrightarrow>
   swept s c c' \<and> nxt = 0 \<and> ks = slot_keys (scan_matches pat) c cur (scan_total_buckets c)"
proof (induction cnts arbitrary: c cur ks)
  case Nil
  then show ?case by simp
next
  case (Cons cnt cnts)
  let ?t = "scan_total_buckets c"
  obtain c1 page n1 where 1: "ar_scan c cur pat cnt = (c1, page, n1)" using prod_cases3 by blast
  note sc = ar_scan_ok [OF Cons.prems(1-3) 1]
  show ?case
  proof (cases "n1 = 0")
    case True
    have "page = slot_keys (scan_matches pat) c cur ?t"
    proof (cases "nkeys c = 0")
      case True
      then show ?thesis using sc(2) slot_keys_none [OF Cons.prems(1)] by simp
    next
      case False
      then have "?t \<le> cur + scan_width cnt" using sc(3) True scan_width_pos [of cnt] by (auto split: if_splits)
      then show ?thesis using sc(2) by simp
    qed
    then show ?thesis using Cons.prems(5) 1 True sc(1) by simp
  next
    case False
    have nz: "nkeys c \<noteq> 0" using sc(4) False by auto
    have nx: "n1 = cur + scan_width cnt" "n1 < ?t" using sc(3) [OF nz] False by (auto split: if_splits)
    obtain rest where 2: "scan_session c1 n1 pat cnts = (c', rest, nxt)" "ks = page @ rest"
      using Cons.prems(5) 1 False by (auto split: prod.splits)
    have "swept s c1 c' \<and> nxt = 0 \<and> rest = slot_keys (scan_matches pat) c1 n1 (scan_total_buckets c1)"
      using Cons.prems(2,4) nx scan_width_pos [of cnt] swept_alloc [OF sc(1)] swept_slots [OF sc(1)]
      by (intro Cons.IH [OF swept_wf [OF sc(1)] _ _ _ 2(1)]) simp_all
    then show ?thesis
      using nx sc(2) 2(2) swept_trans [OF sc(1)] swept_slots [OF sc(1)] swept_slot_keys [OF sc(1)]
        slot_keys_split [of cur n1 ?t "scan_matches pat" c]
      by simp
  qed
qed

lemma typed_kept:
  assumes "wf s c" and "ar_entry_get_typed c k t = (c', r, wt)"
  shows "wf s c' \<and> live c' = live c \<and> env_of c' = env_of c"
  by (rule read_kept [OF assms(1) typed_read(1) [OF assms]])


section \<open>Properties: lists\<close>

text \<open>C35. LRANGE. The reply is the array of the elements whose index lies between the bounds, negative bounds
  counting from the end, as the reference definition has it; nothing changes.\<close>

theorem lrange_replies:
  assumes "wf s c" and "two_nums p q = Some (start, stop)" and "length (lview (live c k)) < 2 ^ 31"
    and "cmd_lrange c [name, k, p, q] = (c', r, f)"
  shows "wf s c' \<and> live c' = live c \<and> \<not> f \<and>
    r = (if wrong TList (live c k) then wrong_type else array (window start stop (lview (live c k))))"
proof -
  obtain x wt where 1: "ar_entry_get_typed c k TList = (fst (ar_list_get c k), x, wt)"
    by (cases "ar_entry_get_typed c k TList") (auto simp: ar_list_get_def split: option.splits)
  let ?l = "lview (live c k)"
  note t = typed_read [OF assms(1) 1]
  have g: "snd (ar_list_get c k) = (if x = None then None else Some ?l, wt)"
    using 1 t(2,4) by (auto simp: ar_list_get_def split: option.splits prod.splits)
  have e: "wt \<or> x = None \<or> array (window start stop ?l) =
      (if ?l = [] then array_of 0 []
       else case range_bounds (int (length ?l)) start stop of None \<Rightarrow> array_of 0 []
         | Some (i, j) \<Rightarrow> resp_append_array_hdr (s32 (j - i + 1)) @ bulks (take (nat (s32 (j - i + 1))) (drop (nat i) ?l)))"
  proof (cases "range_bounds (int (length ?l)) start stop")
    case None
    then show ?thesis by (simp add: window_slice array_def bulks_def)
  next
    case (Some ij)
    obtain i j where ij: "ij = (i, j)" by fastforce
    note b = window_bounds [OF Some [unfolded ij]]
    have s: "s32 (j - i + 1) = j - i + 1" using b assms(3) by (simp add: s32_def)
    have len: "length (take (nat (j - i + 1)) (drop (nat i) ?l)) = nat (j - i + 1)" using b by (simp add: min_def) linarith
    have lt: "nat (j - i + 1) < 2 ^ 31" using b assms(3) by linarith
    have "array (take (nat (j - i + 1)) (drop (nat i) ?l)) =
        resp_append_array_hdr (s32 (int (nat (j - i + 1)))) @ bulks (take (nat (j - i + 1)) (drop (nat i) ?l))"
      using array_hdr [of "take (nat (j - i + 1)) (drop (nat i) ?l)"] b lt unfolding len by simp
    then show ?thesis using Some ij s b by (auto simp: window_slice)
  qed
  have n: "window start stop ([]::bytes list) = []" by (simp add: window_def)
  have lv: "x = None \<Longrightarrow> \<not> wt \<Longrightarrow> ?l = []" using t(3) by simp
  have c': "c' = fst (ar_list_get c k)" "\<not> f"
      "r = (if wt then wrong_type else array (window start stop ?l))"
    using assms(2,4) g e lv n
    by (auto simp: cmd_lrange_def Let_def array_def bulks_def case_prod_unfold split: option.splits if_splits)
  then show ?thesis using typed_kept [OF assms(1) 1] t(2) by simp
qed

theorem lrange_replies_witness:
  "fst (snd (cmd_lrange sample [''LRANGE'', ''l'', ''-2'', ''5''])) = array [''b'', ''a'']"
proof -
  have n: "two_nums ''-2'' ''5'' = Some (- 2, 5)" by code_simp
  let ?x = "cmd_lrange sample [''LRANGE'', ''l'', ''-2'', ''5'']"
  have w: "window (- 2) 5 [''a'', ''b'', ''a''] = [''b'', ''a'']" by code_simp
  show ?thesis
    using lrange_replies [OF _ n, of exact sample "''l''" "''LRANGE''" "fst ?x" "fst (snd ?x)" "snd (snd ?x)"]
    by (simp add: w fresh_obs_def)
qed

text \<open>C37. LPUSH then LPOP, or RPUSH then RPOP, of one element, with no memory limit. The element comes back and every key
  is as it was, a list that did not exist included.\<close>

theorem push_then_pop:
  assumes "wf s c" and "alloc_ok c" and "maxmemory c = 0" and "\<not> wrong TList (live c k)"
    and "live c k \<noteq> None \<longrightarrow> lview (live c k) \<noteq> []"
    and "cmd_push left c [n1, k, x] = (c1, r1, p1)" and "cmd_pop left c1 [n2, k] = (c2, r2, p2)"
  shows "r1 = reply_int (int (length (lview (live c k)) + 1)) \<and> r2 = reply_bulk x \<and> live c2 = live c \<and> wf s c2"
proof -
  let ?l = "lview (live c k)"
  let ?l' = "if left then x # ?l else ?l @ [x]"
  obtain c1' n wt where 1: "ar_list_push c k left [x] = (c1', n, wt)" using prod_cases3 by blast
  have ne: "[x] \<noteq> []" by simp
  note p = push_ok [OF assms(1,2) ne 1]
  have e1: "env_of c1' = env_of c" "wf s c1'" using steps_env [OF p(1)] stepsD(1) [OF p(1)] .
  have nwt: "\<not> wt" using p(2) assms(4) by simp
  have "maxmemory c1' = 0" using e1(1) assms(3) by (simp add: env_of_def)
  then have l1: "live c1' = (live c)(k \<mapsto> (typed_before TList (live c k))\<lparr> o_pay := PList ?l' \<rparr>)"
    using p(4) [OF nwt] yields_unlimited by (cases left) auto
  have n: "n = int (length ?l')" using p(4) [OF nwt] l1 by (cases left) auto
  obtain c2' v wt2 where 2: "ar_list_pop c1' k left = (c2', v, wt2)" using prod_cases3 by blast
  note q = pop_ok [OF e1(2) 2]
  have lv: "lview (live c1' k) = ?l'" by (simp add: l1)
  have nwt2: "\<not> wt2" using q(2) by (simp add: l1)
  have v: "v = Some x" "live c2' = with_list c1' k ?l" using q(4) nwt2 unfolding lv by (auto split: if_splits)
  have "live c2' = live c"
  proof (cases "live c k")
    case None
    then show ?thesis using v(2) l1 by (auto simp: with_list_def)
  next
    case (Some w)
    then have "o_pay w = PList ?l" using assms(4) by (cases "o_pay w") simp_all
    then show ?thesis using Some assms(5) v(2) l1 by (auto simp: with_list_def)
  qed
  moreover have "c1 = c1'" "r1 = reply_int n" using assms(6) 1 n nwt by (auto simp: cmd_push_def)
  moreover have "c2 = c2'" "r2 = reply_bulk x" using assms(7) 2 v nwt2 \<open>c1 = c1'\<close> by (auto simp: cmd_pop_def)
  ultimately show ?thesis using n stepsD(1) [OF q(1)] by (simp split: if_splits)
qed

theorem push_then_pop_witness:
  "let c1 = fst (cmd_push True sample [''LPUSH'', ''l'', ''x'']) in
   fst (snd (cmd_pop True c1 [''LPOP'', ''l''])) = reply_bulk ''x'' \<and>
   live (fst (cmd_pop True c1 [''LPOP'', ''l''])) = live sample"
proof -
  let ?a = "cmd_push True sample [''LPUSH'', ''l'', ''x'']"
  let ?b = "cmd_pop True (fst ?a) [''LPOP'', ''l'']"
  show ?thesis
    using push_then_pop [of exact sample "''l''" True "''LPUSH''" "''x''" "fst ?a" "fst (snd ?a)" "snd (snd ?a)"
        "''LPOP''" "fst ?b" "fst (snd ?b)" "snd (snd ?b)"]
    by (simp add: Let_def fresh_obs_def)
qed

text \<open>C36. LREM. For a count of 0 every equal element goes, for a positive (negative) count at most that many from the
  head (tail); the reply is how many went, and a list left empty is deleted. The most negative
  count is excluded: the code negates it in 64 bits.\<close>

theorem lrem_replies:
  assumes "wf s c" and "live c k = Some v" and "o_pay v = PList l" and "num_arg t = Some n" and "- (2 ^ 63) < n" "n < 2 ^ 63"
    and "cmd_lrem c [name, k, t, x] = (c', r, p)"
  shows "r = reply_int (int (if n = 0 then count_list l x else min (nat \<bar>n\<bar>) (count_list l x))) \<and>
    p = (x \<in> set l) \<and>
    live c' = with_list c k (if n = 0 then removeAll x l else if n > 0 then remove_up_to (nat n) x l
      else rev (remove_up_to (nat (- n)) x (rev l)))"
proof -
  obtain c1 m wt where 1: "ar_list_lrem c k n x = (c1, m, wt)" using prod_cases3 by blast
  have l: "lview (live c k) = l" "\<not> wrong TList (live c k)" "live c k \<noteq> None" using assms(2,3) by auto
  note lr = lrem_ok [OF assms(1) 1, unfolded l(1)]
  have lim: "n < 0 \<Longrightarrow> s64 (- n) = - n" using assms(5) by (simp add: s64_def)
  have "lrem n x l = (if n = 0 then removeAll x l else if n > 0 then remove_up_to (nat n) x l
      else rev (remove_up_to (nat (- n)) x (rev l)), if n = 0 then count_list l x else min (nat \<bar>n\<bar>) (count_list l x))"
  proof (cases "n = 0")
    case True
    then show ?thesis using lrem_all by simp
  next
    case False
    have pos: "n > 0 \<Longrightarrow> (\<lambda>m. n \<noteq> 0 \<and> n \<le> int m) = (\<lambda>m. n \<le> int m)" using False by simp
    have cr: "count_list (rev l) x = count_list l x" by (metis count_mset mset_rev)
    show ?thesis
      using False lrem_walk_limit [of 0 n x l] lrem_walk_limit [of 0 "- n" x "rev l"]
      by (auto simp: lrem_def Let_def lim pos cr)
  qed
  moreover have "(0 < (if n = 0 then count_list l x else min (nat \<bar>n\<bar>) (count_list l x))) = (x \<in> set l)"
    using count_list_0_iff [of l x] by (cases "count_list l x") auto
  ultimately show ?thesis using lr(1) lr(3) l(2,3) assms(4,7) 1
    by (auto simp: cmd_lrem_def removed_or_wrong_def)
qed

theorem lrem_replies_witness:
  "fst (snd (cmd_lrem sample [''LREM'', ''l'', ''-1'', ''a''])) = reply_int 1 \<and>
   lview (live (fst (cmd_lrem sample [''LREM'', ''l'', ''-1'', ''a''])) ''l'') = [''a'', ''b'']"
proof -
  have n: "num_arg ''-1'' = Some (- 1)" by code_simp
  let ?x = "cmd_lrem sample [''LREM'', ''l'', ''-1'', ''a'']"
  show ?thesis
    using lrem_replies [OF _ _ _ n, of exact sample "''l''" "(fresh_obs TList)\<lparr> o_pay := PList [''a'', ''b'', ''a''] \<rparr>"
        "[''a'', ''b'', ''a'']" "''LREM''" "''a''" "fst ?x" "fst (snd ?x)" "snd (snd ?x)"]
    by (simp add: with_list_def)
qed


section \<open>Properties: hashes\<close>

lemma pairs_of_nonempty: "2 \<le> length xs \<Longrightarrow> pairs_of xs \<noteq> []"
  by (cases xs rule: pairs_of.cases) auto

lemma foldl_grows: "dom M \<subseteq> dom (foldl (\<lambda>m (f, v). m(f \<mapsto> v)) M xs)"
proof (induction xs arbitrary: M)
  case (Cons x xs)
  show ?case using Cons.IH [of "M(fst x \<mapsto> snd x)"] by (simp add: case_prod_unfold del: fun_upd_apply)
qed simp

text \<open>C38. HSET. On a hash or a missing key, with no memory limit, the fields take the given values, the last one for a
  repeated field, the others stay, and the reply is how many fields are new; deadline, pin and
  all other keys stay. On another type the reply is WRONGTYPE and nothing changes.\<close>

theorem hset_replies:
  assumes "wf s c" and "alloc_ok c" and "maxmemory c = 0" and "4 \<le> length argv" "length argv \<le> 130" "even (length argv)"
    and "argv ! 1 = k" and "cmd_hset c argv = (c', r, p)"
  defines "m \<equiv> foldl (\<lambda>m (f, v). m(f \<mapsto> v)) (hview (live c k)) (pairs_of (drop 2 argv))"
  shows "wf s c' \<and>
    (if wrong THash (live c k) then r = wrong_type \<and> \<not> p \<and> live c' = live c
     else r = reply_int (int (card (dom m)) - int (card (dom (hview (live c k))))) \<and> p \<and> hview (live c' k) = m \<and>
       deadline_of (live c' k) = deadline_of (live c k) \<and> (\<forall>k'. k' \<noteq> k \<longrightarrow> live c' k' = live c k'))"
proof -
  obtain c1 n wt where 1: "ar_hash_hset c k (pairs_of (drop 2 argv)) = (c1, n, wt)" using prod_cases3 by blast
  have ne: "pairs_of (drop 2 argv) \<noteq> []" using assms(4) by (intro pairs_of_nonempty) simp
  note h = hset_ok [OF assms(1,2) ne 1]
  have e: "c' = c1" "r = (if wt then wrong_type else if n < 0 then reply_err ''ERR hset failed'' else reply_int n)"
      "p \<longleftrightarrow> \<not> wt \<and> \<not> n < 0"
    using assms(4-8) 1 by (auto simp: cmd_hset_def split: if_splits)
  show ?thesis
  proof (cases wt)
    case True
    then show ?thesis using h(2,3) e assms(1) by simp
  next
    case False
    then obtain h' where h': "hash_ok h'" "hmap h' = m"
        "yields c1 ((live c)(k \<mapsto> (typed_before THash (live c k))\<lparr> o_pay := PHash h' \<rparr>))"
        "n + int (card (dom (hview (live c k)))) = int (card (dom (hmap h'))) \<or> n = - 1 \<and> live c1 k = None"
      using h(4) by (auto simp: m_def)
    have "maxmemory c1 = 0" using steps_env [OF h(1)] assms(3) by (simp add: env_of_def)
    then have l: "live c1 = (live c)(k \<mapsto> (typed_before THash (live c k))\<lparr> o_pay := PHash h' \<rparr>)"
      using h'(3) yields_unlimited by blast
    have n: "n = int (card (dom m)) - int (card (dom (hview (live c k))))" using h'(2,4) l by simp
    have fin: "finite (dom m)" by (simp only: hash_fields(1) [OF h'(1)] h'(2) [symmetric]) simp
    have "0 \<le> n" using card_mono [OF fin foldl_grows [of "hview (live c k)" "pairs_of (drop 2 argv)", folded m_def]] n by simp
    moreover have "deadline_of (live c1 k) = deadline_of (live c k)"
      by (cases "live c k") (simp_all add: l fresh_obs_def)
    ultimately show ?thesis using False h(2) e n l h'(2) stepsD(1) [OF h(1)] by simp
  qed
qed

theorem hset_replies_witness:
  "let x = cmd_hset sample [''HSET'', ''h'', ''f'', ''7'', ''n'', ''y''] in
   fst (snd x) = reply_int 1 \<and> hview (live (fst x) ''h'') = [''f'' \<mapsto> ''7'', ''g'' \<mapsto> ''x'', ''n'' \<mapsto> ''y'']"
  using hset_replies [of exact sample "[''HSET'', ''h'', ''f'', ''7'', ''n'', ''y'']" "''h''"
      "fst (cmd_hset sample [''HSET'', ''h'', ''f'', ''7'', ''n'', ''y''])"
      "fst (snd (cmd_hset sample [''HSET'', ''h'', ''f'', ''7'', ''n'', ''y'']))"
      "snd (snd (cmd_hset sample [''HSET'', ''h'', ''f'', ''7'', ''n'', ''y'']))"]
  by (simp add: Let_def insert_commute fun_upd_twist)

text \<open>HINCRBY. The field counts as 0 when it is missing; text that is no decimal integer is an error and changes
  nothing. Otherwise the field holds the 64-bit sum in decimal and the reply is that sum.\<close>

lemma hincrby_replies:
  assumes "wf s c" and "alloc_ok c" and "maxmemory c = 0" and "\<not> wrong THash (live c k)" and "num_arg t = Some d"
    and "cmd_hincrby c [name, k, f, t] = (c', r, p)"
  shows "wf s c' \<and>
    (case counter_text (hview (live c k) f) of
       None \<Rightarrow> r = reply_err ''ERR hash value is not an integer'' \<and> \<not> p \<and> c' = c
     | Some v \<Rightarrow> r = reply_int (s64 (v + d)) \<and> p \<and> hview (live c' k) = (hview (live c k))(f \<mapsto> show_int (s64 (v + d))) \<and>
         (\<forall>k'. k' \<noteq> k \<longrightarrow> live c' k' = live c k'))"
proof -
  obtain c1 n wt ni where 1: "ar_hash_hincrby c k f d = (c1, n, wt, ni)" using prod_cases4 by blast
  note h = hincrby_ok [OF assms(1,2) 1]
  have e: "c' = c1" "r = (if wt then wrong_type else if ni then reply_err ''ERR hash value is not an integer'' else reply_int n)"
      "p \<longleftrightarrow> \<not> wt \<and> \<not> ni"
    using assms(5,6) 1 by (auto simp: cmd_hincrby_def split: if_splits)
  have nwt: "\<not> wt" using h(2) assms(4) by simp
  show ?thesis
  proof (cases "counter_text (hview (live c k) f)")
    case None
    then show ?thesis using h(4) nwt e assms(1) by simp
  next
    case (Some v)
    then obtain h' where h': "\<not> ni" "hmap h' = (hview (live c k))(f \<mapsto> show_int (s64 (v + d)))"
        "yields c1 ((live c)(k \<mapsto> (typed_before THash (live c k))\<lparr> o_pay := PHash h' \<rparr>))"
        "n = s64 (v + d) \<or> n = 0 \<and> live c1 k = None"
      using h(5) [OF nwt] by blast
    have "maxmemory c1 = 0" using steps_env [OF h(1)] assms(3) by (simp add: env_of_def)
    then have l: "live c1 = (live c)(k \<mapsto> (typed_before THash (live c k))\<lparr> o_pay := PHash h' \<rparr>)"
      using h'(3) yields_unlimited by blast
    then show ?thesis using Some h' nwt e stepsD(1) [OF h(1)] by auto
  qed
qed

text \<open>C12. HSCAN to the end. A loop of HSCAN calls from cursor 0, with any counts, that comes back to 0 has returned
  every field that matches the pattern exactly once, each with its value, and nothing else.\<close>

theorem hscan_complete:
  assumes "wf s c" and "alloc_ok c" and "live c k \<noteq> None" and "\<not> wrong THash (live c k)"
    and "cnts \<noteq> []" and "hscan_session c k 0 pat cnts = (els, 0)"
  shows "\<exists>fs. els = concat (map (\<lambda>(f, v). [f, v]) fs) \<and> distinct (map fst fs) \<and>
    set fs = {(f, v). hview (live c k) f = Some v \<and> (pat = [] \<or> glob pat f)}"
  using assms(1)
proof (cases rule: typed_cases [of s c k THash])
  case (found e b tr N)
  have ok: "hash_ok (hash_of (epay e))" by (rule cursor_hash_ok [OF found(4,5)])
  then have "h_buckets (hash_of (epay e)) \<noteq> []" by (simp add: ct_ok_def)
  then have els: "els = hpage (scan_matches pat) (concat (h_buckets (hash_of (epay e))))"
    using hscan_session_ok [OF assms(1,2) found(1) ok _ assms(5,6)] by simp
  note hp = hpage_pairs [OF ok, of "scan_matches pat"]
  have "hview (live c k) = hmap (hash_of (epay e))" by (simp only: found(6) hview_entry [OF found(5)])
  then have "{(f, v). hmap (hash_of (epay e)) f = Some v \<and> scan_matches pat f} =
      {(f, v). hview (live c k) f = Some v \<and> (pat = [] \<or> glob pat f)}"
    by (simp only: scan_matches_glob)
  note set = trans [OF hp(3) this]
  show ?thesis by (rule exI, rule conjI, rule trans [OF els hp(1)], rule conjI, rule hp(2), rule set)
next
  case wrong
  then show ?thesis using assms(4) by simp
next
  case missing
  then show ?thesis using assms(3) by simp
qed

theorem hscan_complete_witness:
  "\<exists>fs. fst (hscan_session tiny ''h'' 0 [] [10]) = concat (map (\<lambda>(f, v). [f, v]) fs) \<and> distinct (map fst fs) \<and>
     set fs = {(f, v). hview (live tiny ''h'') f = Some v}"
proof -
  have p: "epay tiny_entry = PHash \<lparr> h_buckets = [[\<lparr> hf_field = ''f'', hf_val = ''1'' \<rparr>, \<lparr> hf_field = ''g'', hf_val = ''x'' \<rparr>]], h_nfields = 2 \<rparr>"
    by (simp add: tiny_entry_def)
  obtain e b tr where e: "ar_entry_get_typed tiny ''h'' THash = (tiny, Some (e, b, tr), False)" "epay e = epay tiny_entry"
    using tiny_wf
  proof (cases rule: typed_cases [of exact tiny "''h''" THash])
    case (found e b tr N)
    then have "obs_of e = obs_of tiny_entry" by simp
    then have "epay e = epay tiny_entry" by (metis obs_of_simps(1))
    with found(1) show ?thesis by (rule that)
  next
    case (wrong v)
    then have "payload_type (epay tiny_entry) \<noteq> THash" by auto
    then show ?thesis by (simp add: p)
  qed simp
  have "snd (hscan_session tiny ''h'' 0 [] [10]) = 0" by (simp add: ar_hscan_def e p eval_nat_numeral)
  then have "hscan_session tiny ''h'' 0 [] [10] = (fst (hscan_session tiny ''h'' 0 [] [10]), 0)"
    by (metis prod.collapse)
  from hscan_complete [OF tiny_wf tiny_fields(1) _ _ _ this] show ?thesis by (simp add: p)
qed


section \<open>Properties: sorted sets\<close>



text \<open>ZRANGE on an ordered set: the members in the window of the ranks, in strictly increasing order of score and
  member; nothing changes.\<close>

lemma zrange_ranks:
  assumes "wf s c" and "two_nums p q = Some (start, stop)" and "live c k = Some v" and "o_pay v = PZset z" and "zsorted z"
    and "length (z_arr z) < 2 ^ 31" and "cmd_zrange lib c [name, k, p, q] = (c', r, f)"
  shows "wf s c' \<and> live c' = live c \<and> \<not> f \<and> r = array (map z_member (window start stop (z_arr z))) \<and>
    sorted_wrt (\<lambda>x y. zcmp x y < 0) (window start stop (z_arr z))"
proof -
  let ?l = "z_arr z"
  obtain x wt where 1: "ar_entry_get_typed c k TZset = (fst (ar_zset_get c k), x, wt)"
    by (cases "ar_entry_get_typed c k TZset") (auto simp: ar_zset_get_def split: option.splits)
  note t = typed_read [OF assms(1) 1]
  have nwt: "\<not> wt" "x \<noteq> None" using t(2,3) assms(3,4) by auto
  then obtain e b tr where x: "x = Some (e, b, tr)" by (metis prod_cases3 option.exhaust)
  have "obs_of e = v" using t(4) [OF x] assms(3) by simp
  then have "epay e = PZset z" using assms(4) by auto
  then have g: "snd (ar_zset_get c k) = (Some z, False)" using 1 x by (simp add: ar_zset_get_def split: prod.splits)
  have items: "zitems lib False xs = array (map z_member xs)" if "length xs < 2 ^ 31" for xs
    using array_hdr [of "map z_member xs"] that by (simp add: zitems_def array_def concat_map_singleton)
  have sub: "sorted_wrt (\<lambda>x y. zcmp x y < 0) (take n (drop m ?l))" for n m
    using assms(5) by (simp add: zsorted_def sorted_wrt_take sorted_wrt_drop)
  have r: "c' = fst (ar_zset_get c k) \<and> \<not> f \<and> r = array (map z_member (window start stop ?l))"
  proof (cases "range_bounds (int (length ?l)) start stop")
    case None
    then show ?thesis using assms(2,7) g
      by (cases "ar_zset_get c k") (auto simp: cmd_zrange_def window_slice array_def bulks_def split: if_splits)
  next
    case (Some ij)
    obtain i j where ij: "ij = (i, j)" by fastforce
    note b = window_bounds [OF Some [unfolded ij]]
    have "length (take (nat (j - i + 1)) (drop (nat i) ?l)) < 2 ^ 31" using b assms(6) by simp
    then show ?thesis using Some ij assms(2,7) g b items
      by (cases "ar_zset_get c k") (auto simp: cmd_zrange_def window_slice split: if_splits)
  qed
  have "sorted_wrt (\<lambda>x y. zcmp x y < 0) (window start stop ?l)"
    using sub by (auto simp: window_slice split: option.splits)
  then show ?thesis using r typed_kept [OF assms(1) 1] by simp
qed

lemma window_all: "window 0 (- 1) l = l"
proof -
  have "filter (\<lambda>i. 0 \<le> int i \<and> int i \<le> int (length l) + - 1) [0..<length l] = [0..<length l]"
    by (rule filter_True) auto
  then show ?thesis by (simp add: window_def map_nth)
qed

section \<open>Properties: the key space\<close>

text \<open>KEYS. The reply is the array of the live keys that match the pattern, each once; expired keys met on the walk are
  reclaimed and nothing else changes.\<close>

lemma keys_replies:
  assumes "wf s c" and "alloc_ok c" and "cmd_keys c [name, pat] = (c', r, p)"
  shows "wf s c' \<and> live c' = live c \<and> \<not> p \<and>
    (\<exists>ks. r = array ks \<and> distinct ks \<and> set ks = {k. live c k \<noteq> None \<and> (pat = [] \<or> glob pat k)})"
proof -
  obtain c1 ks where 1: "ar_keys c pat = (c1, ks)" by fastforce
  note k = ar_keys_list [OF assms(1,2) 1]
  have sh: "shape c" using assms(1) by (rule wf_shape)
  have "distinct ks" unfolding k(2) by (rule page_keys_set(2) [OF sh])
  moreover have "set ks = {k. live c k \<noteq> None \<and> (pat = [] \<or> glob pat k)}"
    unfolding k(2) page_keys_set(1) [OF sh] scan_matches_glob ..
  moreover have "c' = c1" "r = array ks" "\<not> p" using assms(3) 1 by (auto simp: cmd_keys_def array_def)
  ultimately show ?thesis using swept_wf [OF k(1)] swept_live [OF k(1)] by blast
qed

text \<open>C26. SCAN to the end. A loop of SCAN calls from cursor 0, with any counts and at least as many calls as there are
  chains, is back at cursor 0 and has returned every live key that matches exactly once.\<close>

theorem scan_complete:
  assumes "wf s c" and "alloc_ok c" and "scan_total_buckets c \<le> length cnts" and "scan_session c 0 pat cnts = (c', ks, nxt)"
  shows "nxt = 0 \<and> live c' = live c \<and> wf s c' \<and> distinct ks \<and>
    set ks = {k. live c k \<noteq> None \<and> (pat = [] \<or> glob pat k)}"
proof -
  note sc = scan_session_ok [OF assms(1,2) scan_total_pos [OF assms(1)] _ assms(4)]
  have sh: "shape c" using assms(1) by (rule wf_shape)
  have ks: "ks = page_keys (scan_matches pat) c (ents c)" and sw: "swept s c c'" "nxt = 0"
    using sc assms(3) slot_keys_all [OF sh] by simp_all
  have "set ks = {k. live c k \<noteq> None \<and> (pat = [] \<or> glob pat k)}"
    unfolding ks page_keys_set(1) [OF sh] scan_matches_glob ..
  moreover have "distinct ks" unfolding ks by (rule page_keys_set(2) [OF sh])
  ultimately show ?thesis using sw swept_wf [OF sw(1)] swept_live [OF sw(1)] by blast
qed

theorem scan_complete_witness:
  "case scan_session tiny 0 [] [1] of (c', ks, nxt) \<Rightarrow> nxt = 0 \<and> ''h'' \<in> set ks"
proof -
  have t: "scan_total_buckets tiny \<le> length [1::int]" by (simp add: scan_total_buckets_def)
  obtain c' ks nxt where r: "scan_session tiny 0 [] [1] = (c', ks, nxt)" using prod_cases3 by blast
  show ?thesis using scan_complete [OF tiny_wf tiny_fields(1) t r] r by simp
qed

text \<open>DBSIZE counts the live keys, reclaiming the expired ones it meets.\<close>

lemma dbsize_counts:
  assumes "wf s c" and "cmd_dbsize c [name] = (c', r, p)"
  shows "wf s c' \<and> live c' = live c \<and> r = reply_int (s64 (int (card (dom (live c)))))"
proof -
  obtain c1 n where 1: "ar_dbsize c = (c1, n)" by fastforce
  note d = ar_dbsize_list [OF assms(1) 1]
  have "n = card {k. live c k \<noteq> None}" using d(2) length_kept [OF wf_shape [OF assms(1)]] by simp
  then show ?thesis using assms(2) 1 swept_wf [OF d(1)] swept_live [OF d(1)] by (auto simp: cmd_dbsize_def dom_def)
qed

end
