(* ===== verification/Layout.thy ===== *)
theory Layout
  imports Strings
begin

text \<open>
  Dictionary layout of \<open>ar_core.c\<close>: migration between the flat table and the hot/cold tiers, the
  adaptive rule, and the setters of the tier knobs, all of which move entries and change none.
\<close>


section \<open>Migration\<close>

definition migrate_to_hot_cold :: "core \<Rightarrow> core \<times> bool" where
  "migrate_to_hot_cold c =
     (if layout c = HotCold then (c, True)
      else let cn = length (buckets c);
               cn = (if cn < 256 then 256 else cn)
           in if \<not> alloc_ok c then (c, False)
              else (c\<lparr> cold_buckets := replicate cn [], cold_nkeys := 0, hot_nkeys := nkeys c,
                       layout := HotCold, layout_gen := layout_gen c + 1, migrates := migrates c + 1 \<rparr>, True))"

definition migrate_to_flat :: "core \<Rightarrow> core \<times> bool" where
  "migrate_to_flat c =
     (if layout c = Flat then (c, True)
      else let c = (if cold_buckets c \<noteq> [] then
                      c\<lparr> buckets := foldl (ct_push ekey) (buckets c) (concat (cold_buckets c)),
                         cold_buckets := [], cold_nkeys := 0 \<rparr>
                    else c);
               c = c\<lparr> hot_nkeys := 0, layout := Flat, layout_gen := layout_gen c + 1,
                      migrates := migrates c + 1 \<rparr>
           in (ar_rehash_if_needed c, True))"

definition parse_layout_name :: "bytes \<Rightarrow> layout option" where
  "parse_layout_name name =
     (if name = ''flat'' \<or> name = ''flat_hash'' then Some Flat
      else if name = ''hot_cold'' \<or> name = ''hot-cold'' then Some HotCold
      else None)"

definition ar_core_set_layout :: "core \<Rightarrow> bytes \<Rightarrow> core \<times> bool" where
  "ar_core_set_layout c name =
     (case parse_layout_name name of
        None \<Rightarrow> (c, False)
      | Some want \<Rightarrow>
          if layout_busy c then (c, False)
          else if layout c = want then (c, True)
          else let c = c\<lparr> layout_busy := True \<rparr>
               in case (if want = HotCold then migrate_to_hot_cold c else migrate_to_flat c) of
                    (c, ok) \<Rightarrow> (c\<lparr> layout_busy := False \<rparr>, ok))"

definition ar_core_adapt_layout :: "core \<Rightarrow> core \<times> bool" where
  "ar_core_adapt_layout c =
     (if layout_busy c then (c, False)
      else if nkeys c \<ge> 500 \<and> gets c > sets c * 3 then
        (if layout c \<noteq> HotCold then ar_core_set_layout c ''hot_cold'' else (c, False))
      else if nkeys c < 64 \<and> layout c = HotCold then ar_core_set_layout c ''flat''
      else (c, False))"

definition ar_core_layout_name :: "core \<Rightarrow> bytes" where
  "ar_core_layout_name c = (if layout c = HotCold then ''hot_cold'' else ''flat'')"

definition ar_core_hot_keys :: "core \<Rightarrow> nat" where
  "ar_core_hot_keys c = (if layout c = HotCold then hot_nkeys c else nkeys c)"

definition ar_core_cold_keys :: "core \<Rightarrow> nat" where
  "ar_core_cold_keys c = (if layout c = HotCold then cold_nkeys c else 0)"

definition ar_core_set_hot_soft_cap_pct :: "core \<Rightarrow> int \<Rightarrow> core" where
  "ar_core_set_hot_soft_cap_pct c pct =
     (let pct = (if pct < 1 then 1 else pct); pct = (if pct > 100 then 100 else pct)
      in maybe_demote_hot (c\<lparr> hot_soft_cap_pct := pct \<rparr>))"

definition ar_core_set_hot_soft_cap_min :: "core \<Rightarrow> int \<Rightarrow> core" where
  "ar_core_set_hot_soft_cap_min c n =
     (let n = (if n < 0 then 0 else n); n = (if n > 1000000 then 1000000 else n)
      in maybe_demote_hot (c\<lparr> hot_soft_cap_min := n \<rparr>))"

definition ar_core_set_hot_promote_on_get :: "core \<Rightarrow> bool \<Rightarrow> core" where
  "ar_core_set_hot_promote_on_get c on = c\<lparr> hot_promote_on_get := on \<rparr>"

definition ar_core_set_evict_samples :: "core \<Rightarrow> int \<Rightarrow> core" where
  "ar_core_set_evict_samples c n =
     (let n = (if n < 1 then 1 else n); n = (if n > 256 then 256 else n)
      in c\<lparr> evict_samples := n \<rparr>)"

definition ar_core_set_evict_by_name :: "core \<Rightarrow> bytes \<Rightarrow> core \<times> bool" where
  "ar_core_set_evict_by_name c name =
     (let ev = (if name = ''noop'' then Some EvNoop
                else if name = ''lru'' then Some EvLru
                else if name = ''lfu'' then Some EvLfu
                else if name = ''ttl_aware'' \<or> name = ''ttl'' then Some EvTtl
                else if name = ''slru'' then Some EvSlru
                else if name = ''tinylfu'' \<or> name = ''w_tinylfu'' \<or> name = ''tiny_lfu'' then Some EvTinylfu
                else None)
      in case ev of
           None \<Rightarrow> (c, False)
         | Some k \<Rightarrow> (c\<lparr> evict_plugin := False, evict := k \<rparr>, True))"

definition ar_core_avg_ttl_ms :: "core \<Rightarrow> nat" where
  "ar_core_avg_ttl_ms c =
     (if keys_with_ttl c = 0 then 0
      else let avg_at = expire_at_sum c div keys_with_ttl c
           in if avg_at \<le> now_ms c then 0 else avg_at - now_ms c)"


section \<open>Migration keeps every entry\<close>

text \<open>The same entries and accounts under another layout.\<close>

definition relays :: "core \<Rightarrow> core \<Rightarrow> bool" where
  "relays c c' \<longleftrightarrow> shape c' \<and> mset (ents c') = mset (ents c) \<and> acct_of c' = acct_of c \<and>
     conns c' = conns c \<and> env_of c' = env_of c"

lemma relays_steps:
  assumes r: "relays c c'" and w: "wf s c"
  shows "steps s P K W c c'" "view c' = view c"
proof -
  have m: "mset (ents c') = mset (ents c)" using r by (simp add: relays_def)
  have d: "distinct (map ekey (ents c))" using wf_shape [OF w] by (simp add: shape_def)
  show v: "view c' = view c" unfolding view_def using m d by (rule vw_cong_mset)
  have "wf s c'"
    using w r balanced_acct [of c' c] mset_eq_setD [OF m] by (simp add: wf_def relays_def)
  then show "steps s P K W c c'"
    using r conns_mono_cong [of c' c] by (simp add: steps_def evo_def v relays_def)
qed

lemma to_hot_cold_relays:
  assumes w: "wf s c" and m: "migrate_to_hot_cold c = (c', ok)"
  shows "relays c c'" "ok \<Longrightarrow> layout c' = HotCold" "\<not> ok \<Longrightarrow> c' = c"
proof -
  have sh: "shape c" using w by (rule wf_shape)
  have "relays c c' \<and> (ok \<longrightarrow> layout c' = HotCold) \<and> (\<not> ok \<longrightarrow> c' = c)"
  proof (cases "layout c = HotCold \<or> \<not> alloc_ok c")
    case True
    with m sh show ?thesis by (auto simp: migrate_to_hot_cold_def relays_def Let_def split: if_splits)
  next
    case False
    then have fl: "layout c = Flat" "cold_buckets c = []"
      using sh by (cases "layout c"; simp add: shape_def)+
    define cn where "cn = (if length (buckets c) < 256 then 256 else length (buckets c))"
    have cn: "0 < cn" by (auto simp: cn_def)
    have c': "c' = c\<lparr> cold_buckets := replicate cn [], cold_nkeys := 0,
        hot_nkeys := nkeys c, layout := HotCold, layout_gen := layout_gen c + 1, migrates := migrates c + 1 \<rparr>"
      and ok: ok
      using m False by (auto simp: migrate_to_hot_cold_def Let_def cn_def split: if_splits)
    have e: "ents c' = ents c" by (simp add: ents_def c' fl(2))
    have "nkeys c = length (concat (buckets c))"
      using w by (simp add: wf_def balanced_def ents_def fl(2))
    then have "shape c'" using sh cn e by (simp add: shape_def) (simp add: c')
    with e ok show ?thesis by (simp add: relays_def acct_of_def env_of_def c')
  qed
  then show "relays c c'" "ok \<Longrightarrow> layout c' = HotCold" "\<not> ok \<Longrightarrow> c' = c" by blast+
qed

lemma to_flat_relays:
  assumes w: "wf s c" and m: "migrate_to_flat c = (c', ok)"
  shows "relays c c' \<and> ok \<and> layout c' = Flat"
proof (cases "layout c = Flat")
  case True
  with m wf_shape [OF w] show ?thesis by (auto simp: migrate_to_flat_def relays_def)
next
  case False
  then have h: "layout c = HotCold" by (cases "layout c") simp_all
  have sh: "shape c" using w by (rule wf_shape)
  have ne: "buckets c \<noteq> []" "cold_buckets c \<noteq> []" "ct_placed ekey (buckets c)"
    using sh h by (simp_all add: shape_def)
  let ?b = "foldl (ct_push ekey) (buckets c) (concat (cold_buckets c))"
  note f = ct_foldl_push [OF ne(1,3), of "concat (cold_buckets c)"]
  define c1 where "c1 = c\<lparr> buckets := ?b, cold_buckets := [], cold_nkeys := 0, hot_nkeys := 0, layout := Flat,
    layout_gen := layout_gen c + 1, migrates := migrates c + 1 \<rparr>"
  have c': "c' = ar_rehash_if_needed c1" and ok: ok
    using m h ne(2) by (auto simp: migrate_to_flat_def Let_def c1_def)
  have e: "mset (ents c1) = mset (ents c)" using f by (simp add: ents_def c1_def del: mset_concat)
  have "?b \<noteq> []" using f ne(1) by auto
  then have s1: "shape c1"
    using shape_mset_distinct [OF sh e] f by (simp add: shape_def) (simp add: c1_def)
  have "moves c1 c'" unfolding c' using s1 by (rule rehash_moves)
  moreover have "acct_of c1 = acct_of c" "conns c1 = conns c" "env_of c1 = env_of c" "layout c1 = Flat"
    by (simp_all add: c1_def acct_of_def env_of_def)
  ultimately show ?thesis using e ok by (simp add: relays_def moves_def)
qed

lemma relays_refl: "shape c \<Longrightarrow> relays c c"
  by (simp add: relays_def)

lemma relays_same:
  assumes "relays c1 c2" and "dict_of c1 = dict_of c" "conns c1 = conns c" "env_of c1 = env_of c"
    and "dict_of c' = dict_of c2" "conns c' = conns c2" "env_of c' = env_of c2"
  shows "relays c c'"
proof -
  have "shape c' = shape c2" using assms(5) by (intro shape_cong) (simp_all add: dict_of_def)
  moreover have "ents c' = ents c2" using assms(5) by (intro ents_cong) (simp_all add: dict_of_def)
  moreover have "ents c1 = ents c" using assms(2) by (intro ents_cong) (simp_all add: dict_of_def)
  moreover have "acct_of c' = acct_of c2" "acct_of c1 = acct_of c"
    using assms(2,5) by (simp_all add: dict_of_def acct_of_def)
  ultimately show ?thesis using assms by (simp add: relays_def)
qed

lemma set_layout_relays:
  assumes w: "wf s c" and r: "ar_core_set_layout c name = (c', ok)"
  shows "relays c c'" "ok \<Longrightarrow> parse_layout_name name = Some (layout c')" "\<not> ok \<Longrightarrow> view c' = view c \<and> layout c' = layout c"
proof -
  let ?c = "c\<lparr> layout_busy := True \<rparr>"
  have d: "dict_of ?c = dict_of c" "conns ?c = conns c" "env_of ?c = env_of c"
    by (simp_all add: dict_of_def env_of_def)
  have w1: "wf s ?c" using w d(1) by (rule wf_same)
  have "relays c c' \<and> (ok \<longrightarrow> parse_layout_name name = Some (layout c')) \<and>
      (\<not> ok \<longrightarrow> view c' = view c \<and> layout c' = layout c)"
  proof (cases "parse_layout_name name")
    case None
    with r wf_shape [OF w] show ?thesis by (auto simp: ar_core_set_layout_def relays_refl)
  next
    case (Some want)
    show ?thesis
    proof (cases "layout_busy c \<or> layout c = want")
      case True
      with r Some wf_shape [OF w] show ?thesis by (auto simp: ar_core_set_layout_def relays_refl split: if_splits)
    next
      case False
      obtain c2 k where 2: "(if want = HotCold then migrate_to_hot_cold ?c else migrate_to_flat ?c) = (c2, k)"
        by fastforce
      have c': "c' = c2\<lparr> layout_busy := False \<rparr>" "ok = k"
        using r Some False 2 by (simp_all add: ar_core_set_layout_def Let_def)
      have "relays ?c c2 \<and> (k \<longrightarrow> layout c2 = want) \<and> (\<not> k \<longrightarrow> c2 = ?c)"
        using 2 to_hot_cold_relays [OF w1, of c2 k] to_flat_relays [OF w1, of c2 k]
        by (cases want) (auto split: if_splits)
      moreover have "relays c c'" if "relays ?c c2"
        using that by (rule relays_same) (use d in \<open>simp_all add: c' dict_of_def env_of_def\<close>)
      moreover have "view c' = view c" if "c2 = ?c"
        by (rule view_cong) (simp add: c' that dict_of_def)
      ultimately show ?thesis using Some c' by auto
    qed
  qed
  then show "relays c c'" "ok \<Longrightarrow> parse_layout_name name = Some (layout c')"
    "\<not> ok \<Longrightarrow> view c' = view c \<and> layout c' = layout c" by blast+
qed

lemma adapt_layout_relays:
  assumes w: "wf s c" and r: "ar_core_adapt_layout c = (c', ok)"
  shows "relays c c'"
  using r set_layout_relays(1) [OF w] wf_shape [OF w]
  by (auto simp: ar_core_adapt_layout_def relays_refl split: if_splits)


section \<open>Tier knobs\<close>

lemma knob_steps:
  assumes "wf s c" and "dict_of c0 = dict_of c" "conns c0 = conns c" "env_of c0 = env_of c"
  shows "steps s P K W c (maybe_demote_hot c0)"
proof -
  have w0: "wf s c0" using assms(1,2) by (rule wf_same)
  have "steps s P K W c0 (maybe_demote_hot c0)"
    using w0 by (intro moves_steps maybe_demote_moves wf_shape)
  then show ?thesis using assms(2-4) by (rule steps_same_then)
qed

lemma soft_cap_pct_steps: "wf s c \<Longrightarrow> steps s P K W c (ar_core_set_hot_soft_cap_pct c n)"
  unfolding ar_core_set_hot_soft_cap_pct_def Let_def
  by (erule knob_steps) (simp_all add: dict_of_def env_of_def)

lemma soft_cap_min_steps: "wf s c \<Longrightarrow> steps s P K W c (ar_core_set_hot_soft_cap_min c n)"
  unfolding ar_core_set_hot_soft_cap_min_def Let_def
  by (erule knob_steps) (simp_all add: dict_of_def env_of_def)

end
