(* ===== verification/Rdb.thy ===== *)
theory Rdb
  imports Codec Hashes Lists Zsets
begin

text \<open>
  Snapshots, \<open>ar_rdb.c\<close>: writing the live keys of a core as a file image (version 2, typed values)
  and loading an image (versions 1 and 2) into a core by replaying SET, HSET, RPUSH and ZADD. The
  main result is the round trip: loading the image of a core into an empty one gives the same keys
  with the same values, less the keys that came to be due in between, with the deadlines of typed
  keys rounded up to whole seconds and the pins gone.
\<close>


section \<open>Writing\<close>

definition AURA_RDB_MAGIC :: bytes where
  "AURA_RDB_MAGIC = ''AURARDB'' @ [CHR 0x00]"

definition entry_live :: "nat \<Rightarrow> entry \<Rightarrow> bool" where
  "entry_live now e = (\<not> (expire_at e \<noteq> 0 \<and> expire_at e \<le> now))"

definition count_live_entries :: "core \<Rightarrow> nat \<Rightarrow> nat" where
  "count_live_entries c now =
     length (filter (entry_live now) (concat (buckets c))) +
     length (filter (entry_live now) (concat (cold_buckets c)))"

definition wr_field :: "bytes \<times> bytes \<Rightarrow> bytes option" where
  "wr_field = wr_pair wr_blob wr_blob"

definition wr_member :: "f64 \<times> bytes \<Rightarrow> bytes option" where
  "wr_member = wr_pair wr_f64 wr_blob"

text \<open>\<open>fwrite\<close> appends: a second part follows the first one.\<close>

definition wr_then :: "bytes option \<Rightarrow> bytes option \<Rightarrow> bytes option" where
  "wr_then a b = (case a of None \<Rightarrow> None | Some p \<Rightarrow> map_option ((@) p) b)"

definition write_hash :: "arhash \<Rightarrow> bytes option" where
  "write_hash h =
     (let fs = concat (h_buckets h)
      in case wr_then (wr_u32 (h_nfields h)) (wr_all wr_field (map (\<lambda>f. (hf_field f, hf_val f)) fs)) of
           None \<Rightarrow> None
         | Some b \<Rightarrow> if length fs mod 2 ^ 32 = h_nfields h mod 2 ^ 32 then Some b else None)"

definition write_list :: "bytes list \<Rightarrow> bytes option" where
  "write_list l = wr_then (wr_u32 (length l)) (wr_all wr_blob l)"

definition write_zset :: "arzset \<Rightarrow> bytes option" where
  "write_zset z =
     wr_then (wr_u32 (length (z_arr z))) (wr_all wr_member (map (\<lambda>x. (z_score x, z_member x)) (z_arr z)))"

definition write_payload :: "payload \<Rightarrow> bytes option" where
  "write_payload p = (case p of
       PStr v \<Rightarrow> if length v > BLOB_WRITE_MAX then None else wr_blob v
     | PHash h \<Rightarrow> write_hash h
     | PList l \<Rightarrow> write_list l
     | PZset z \<Rightarrow> write_zset z)"

definition write_entry_v2 :: "entry \<Rightarrow> bytes option" where
  "write_entry_v2 e =
     (if length (ekey e) > BLOB_WRITE_MAX then None
      else wr_then (wr_u8 (tag (etype e))) (wr_then (wr_blob (ekey e))
             (wr_then (wr_u64 (expire_at e)) (write_payload (epay e)))))"

definition write_table_v2 :: "entry list list \<Rightarrow> nat \<Rightarrow> bytes option" where
  "write_table_v2 tbl now = wr_all write_entry_v2 (filter (entry_live now) (concat tbl))"

definition rdb_image :: "core \<Rightarrow> bytes option" where
  "rdb_image c =
     wr_then (Some AURA_RDB_MAGIC) (wr_then (wr_u32 2) (wr_then (wr_u64 (count_live_entries c (now_ms c)))
       (wr_then (write_table_v2 (buckets c) (now_ms c)) (write_table_v2 (cold_buckets c) (now_ms c)))))"


section \<open>Reading\<close>

definition apply_expire_abs :: "core \<Rightarrow> bytes \<Rightarrow> nat \<Rightarrow> nat \<Rightarrow> core \<times> bool" where
  "apply_expire_abs c key exp now =
     (if exp = 0 then (c, True)
      else if exp \<le> now then (c, True)
      else let sec = int (u64 (exp - now + 999) div 1000);
               sec = (if sec \<le> 0 then 1 else sec)
           in ar_expire c key sec)"

definition rd_field :: "bytes \<Rightarrow> ((bytes \<times> bytes) \<times> bytes) option" where
  "rd_field = rd_pair rd_blob rd_blob"

definition rd_member :: "bytes \<Rightarrow> ((f64 \<times> bytes) \<times> bytes) option" where
  "rd_member = rd_pair rd_f64 rd_blob"

text \<open>An element count, refused above the limit.\<close>

definition rd_count :: "bytes \<Rightarrow> (nat \<times> bytes) option" where
  "rd_count s = (case rd_u32 s of None \<Rightarrow> None
     | Some (n, s) \<Rightarrow> if n > AURA_RDB_MAX_ELEMS then None else Some (n, s))"

definition drain :: "(bytes \<Rightarrow> ('a \<times> bytes) option) \<Rightarrow> bytes \<Rightarrow> bytes option" where
  "drain rd s = (case rd_count s of None \<Rightarrow> None | Some (n, s) \<Rightarrow> map_option snd (rd_times rd n s))"

definition drain_hash_payload :: "bytes \<Rightarrow> bytes option" where
  "drain_hash_payload s = drain rd_field s"

definition drain_list_payload :: "bytes \<Rightarrow> bytes option" where
  "drain_list_payload s = drain rd_blob s"

definition drain_zset_payload :: "bytes \<Rightarrow> bytes option" where
  "drain_zset_payload s = drain rd_member s"

text \<open>The loop over the elements of a value: read one, hand it to the command, stop at the first failure.\<close>

fun load_elems :: "(bytes \<Rightarrow> ('a \<times> bytes) option) \<Rightarrow> (core \<Rightarrow> 'a \<Rightarrow> core \<times> bool) \<Rightarrow> nat \<Rightarrow> core \<Rightarrow>
    bytes \<Rightarrow> core \<times> bytes option" where
  "load_elems rd put 0 c s = (c, Some s)"
| "load_elems rd put (Suc n) c s =
     (case rd s of None \<Rightarrow> (c, None)
      | Some (x, s) \<Rightarrow>
          (case put c x of
             (c, False) \<Rightarrow> (c, None)
           | (c, True) \<Rightarrow> load_elems rd put n c s))"

definition put_field :: "bytes \<Rightarrow> core \<Rightarrow> bytes \<times> bytes \<Rightarrow> core \<times> bool" where
  "put_field key c x = (case ar_hash_hset c key [x] of (c, n, wt) \<Rightarrow> (c, \<not> n < 0))"

definition put_item :: "bytes \<Rightarrow> core \<Rightarrow> bytes \<Rightarrow> core \<times> bool" where
  "put_item key c x = (case ar_list_push c key False [x] of (c, n, wt) \<Rightarrow> (c, \<not> n < 0))"

definition put_member :: "bytes \<Rightarrow> core \<Rightarrow> f64 \<times> bytes \<Rightarrow> core \<times> bool" where
  "put_member key c x = (case ar_zset_zadd c key [x] of (c, n, wt) \<Rightarrow> (c, \<not> n < 0))"

text \<open>\<open>(loaded, skipped_expired)\<close>\<close>

type_synonym tally = "nat \<times> nat"

definition load_typed :: "(bytes \<Rightarrow> ('a \<times> bytes) option) \<Rightarrow> (core \<Rightarrow> 'a \<Rightarrow> core \<times> bool) \<Rightarrow> bytes \<Rightarrow> nat \<Rightarrow>
    nat \<Rightarrow> core \<Rightarrow> bytes \<Rightarrow> tally \<Rightarrow> core \<times> tally \<times> bytes option" where
  "load_typed rd put key exp now c s t =
     (case rd_count s of None \<Rightarrow> (c, t, None)
      | Some (n, s) \<Rightarrow>
          (case load_elems rd put n c s of
             (c, None) \<Rightarrow> (c, t, None)
           | (c, Some s) \<Rightarrow>
               (case apply_expire_abs c key exp now of
                  (c, False) \<Rightarrow> (c, t, None)
                | (c, True) \<Rightarrow> (c, (fst t + 1, snd t), Some s))))"

definition load_string :: "bytes \<Rightarrow> nat \<Rightarrow> bool \<Rightarrow> core \<Rightarrow> bytes \<Rightarrow> tally \<Rightarrow> core \<times> tally \<times> bytes option" where
  "load_string key exp due c s t =
     (case rd_blob s of None \<Rightarrow> (c, t, None)
      | Some (v, s) \<Rightarrow>
          if due then (c, t, Some s)
          else (case ar_entry_set_ex c key v exp of
                  (c, False) \<Rightarrow> (c, t, None)
                | (c, True) \<Rightarrow> (c, (fst t + 1, snd t), Some s)))"

definition load_payload :: "nat \<Rightarrow> bytes \<Rightarrow> nat \<Rightarrow> nat \<Rightarrow> core \<Rightarrow> bytes \<Rightarrow> tally \<Rightarrow> core \<times> tally \<times> bytes option" where
  "load_payload ty key exp now c s t =
     (let due = (exp \<noteq> 0 \<and> exp \<le> now);
          t = (if due then (fst t, snd t + 1) else t)
      in if ty = tag TString then load_string key exp due c s t
         else if ty = tag THash then
           (if due then (c, t, drain_hash_payload s) else load_typed rd_field (put_field key) key exp now c s t)
         else if ty = tag TList then
           (if due then (c, t, drain_list_payload s) else load_typed rd_blob (put_item key) key exp now c s t)
         else if ty = tag TZset then
           (if due then (c, t, drain_zset_payload s) else load_typed rd_member (put_member key) key exp now c s t)
         else (c, t, None))"

definition load_one_v2 :: "nat \<Rightarrow> core \<Rightarrow> bytes \<Rightarrow> tally \<Rightarrow> core \<times> tally \<times> bytes option" where
  "load_one_v2 now c s t =
     (case rd_u8 s of None \<Rightarrow> (c, t, None)
      | Some (ty, s) \<Rightarrow>
          (case rd_blob s of None \<Rightarrow> (c, t, None)
           | Some (key, s) \<Rightarrow>
               (case rd_u64 s of None \<Rightarrow> (c, t, None)
                | Some (exp, s) \<Rightarrow> load_payload ty key exp now c s t)))"

definition load_one_v1 :: "nat \<Rightarrow> core \<Rightarrow> bytes \<Rightarrow> tally \<Rightarrow> core \<times> tally \<times> bytes option" where
  "load_one_v1 now c s t =
     (case rd_blob s of None \<Rightarrow> (c, t, None)
      | Some (key, s) \<Rightarrow>
          (case rd_blob s of None \<Rightarrow> (c, t, None)
           | Some (val, s) \<Rightarrow>
               (case rd_u64 s of None \<Rightarrow> (c, t, None)
                | Some (exp, s) \<Rightarrow>
                    if exp \<noteq> 0 \<and> exp \<le> now then (c, (fst t, snd t + 1), Some s)
                    else (case ar_entry_set_ex c key val exp of
                            (c, False) \<Rightarrow> (c, t, None)
                          | (c, True) \<Rightarrow> (c, (fst t + 1, snd t), Some s)))))"

fun load_entries :: "(core \<Rightarrow> bytes \<Rightarrow> tally \<Rightarrow> core \<times> tally \<times> bytes option) \<Rightarrow> nat \<Rightarrow> core \<Rightarrow> bytes \<Rightarrow>
    tally \<Rightarrow> core \<times> tally \<times> bytes option" where
  "load_entries one 0 c s t = (c, t, Some s)"
| "load_entries one (Suc n) c s t =
     (case one c s t of
        (c, t, None) \<Rightarrow> (c, t, None)
      | (c, t, Some s) \<Rightarrow> load_entries one n c s t)"

text \<open>Magic, version and entry count.\<close>

definition rd_header :: "bytes \<Rightarrow> ((nat \<times> nat) \<times> bytes) option" where
  "rd_header s =
     (case fread 8 s of None \<Rightarrow> None
      | Some (magic, s) \<Rightarrow>
          if magic \<noteq> AURA_RDB_MAGIC then None
          else (case rd_u32 s of None \<Rightarrow> None
            | Some (ver, s) \<Rightarrow>
                if ver \<noteq> 2 \<and> ver \<noteq> 1 then None
                else (case rd_u64 s of None \<Rightarrow> None
                  | Some (n, s) \<Rightarrow> if n > 10000000 then None else Some ((ver, n), s))))"

text \<open>The body of \<open>ar_rdb_load\<close> on the bytes of the file: the core, the tally, and whether it is \<open>ok\<close>.\<close>

definition rdb_load_image :: "core \<Rightarrow> bytes \<Rightarrow> core \<times> tally \<times> bool" where
  "rdb_load_image c s =
     (case rd_header s of None \<Rightarrow> (c, (0, 0), False)
      | Some ((ver, n), s) \<Rightarrow>
          (case load_entries (if ver = 1 then load_one_v1 (now_ms c) else load_one_v2 (now_ms c)) n c s (0, 0) of
             (c, t, rest) \<Rightarrow> (c, t, rest \<noteq> None)))"


section \<open>Replaying a value\<close>

text \<open>A core that takes new keys without refusing or evicting any.\<close>

definition ready :: "slack \<Rightarrow> core \<Rightarrow> bool" where
  "ready s c \<longleftrightarrow> wf s c \<and> alloc_ok c \<and> (maxmemory c = 0 \<or> evict c = EvNoop)"

lemma ready_steps: "ready s c \<Longrightarrow> steps s P K W c c' \<Longrightarrow> ready s c' \<and> droppable c' = droppable c \<and> now_ms c' = now_ms c"
  using droppable_env [OF steps_env, of s P K W c c'] steps_env [of s P K W c c']
  by (auto simp: ready_def env_of_def dest: stepsD)

lemma ready_yields: "ready s c \<Longrightarrow> steps s P K W c c' \<Longrightarrow> yields c' L \<Longrightarrow> live c' = L"
  using ready_steps [of s c P K W c'] by (intro yields_unlimited) (auto simp: ready_def)

definition plain_obs :: "payload \<Rightarrow> obs" where
  "plain_obs p = \<lparr> o_pay = p, o_exp = 0, o_pin = False \<rparr>"

text \<open>What the key holds after the elements \<open>xs\<close> were replayed: nothing at all before the first.\<close>

definition holding :: "('a list \<Rightarrow> payload \<Rightarrow> bool) \<Rightarrow> 'a list \<Rightarrow> obs option \<Rightarrow> bool" where
  "holding rep xs r \<longleftrightarrow> (if xs = [] then r = None else \<exists>p. r = Some (plain_obs p) \<and> rep xs p)"

text \<open>Every element of \<open>xs\<close> is acceptable when it comes after \<open>ys\<close> and those before it.\<close>

fun all_good :: "('a list \<Rightarrow> 'a \<Rightarrow> bool) \<Rightarrow> 'a list \<Rightarrow> 'a list \<Rightarrow> bool" where
  "all_good good ys [] = True"
| "all_good good ys (x # xs) = (good ys x \<and> all_good good (ys @ [x]) xs)"

lemma all_good_True [simp]: "all_good (\<lambda>_ _. True) ys xs"
  by (induction xs arbitrary: ys) simp_all

lemma all_good_bound: "length ys + length xs \<le> n \<Longrightarrow> all_good (\<lambda>ys x. length ys < n) ys xs"
  by (induction xs arbitrary: ys) simp_all

text \<open>
  The contract of a command that rebuilds a value element by element under the key \<open>k\<close>: \<open>rep\<close>
  relates the elements given so far to the value, \<open>good\<close> is what the next element has to meet.
\<close>

locale rebuild =
  fixes k :: bytes
    and put :: "core \<Rightarrow> 'a \<Rightarrow> core \<times> bool"
    and rep :: "'a list \<Rightarrow> payload \<Rightarrow> bool"
    and good :: "'a list \<Rightarrow> 'a \<Rightarrow> bool"
  assumes put_one: "ready s c \<Longrightarrow> holding rep xs (live c k) \<Longrightarrow> good xs x \<Longrightarrow> put c x = (c', ok) \<Longrightarrow>
    ok \<and> steps s (droppable c) {k} {} c c' \<and>
    (\<exists>p. rep (xs @ [x]) p \<and> live c' = (live c)(k \<mapsto> plain_obs p))"
begin

lemma replay:
  assumes "codec enc rd fits" and "ready s c" and "holding rep ys (live c k)" and "all_good good ys xs"
    and "\<forall>x \<in> set xs. fits x" and "wr_all enc xs = Some b"
  shows "\<exists>c'. load_elems rd put (length xs) c (b @ r) = (c', Some r) \<and> steps s (droppable c) {k} {} c c' \<and>
    holding rep (ys @ xs) (live c' k) \<and> (\<forall>k'. k' \<noteq> k \<longrightarrow> live c' k' = live c k')"
  using assms(2-)
proof (induction xs arbitrary: c ys b)
  case Nil
  then show ?case by (auto simp: steps_refl ready_def)
next
  case (Cons x xs)
  obtain p q where pq: "enc x = Some p" "wr_all enc xs = Some q" "b = p @ q"
    using Cons.prems(5) by (auto split: option.splits)
  have rd: "rd (b @ r) = Some (x, q @ r)"
    using codec.reads_back [OF assms(1) _ pq(1), of "q @ r"] Cons.prems(4) pq(3) by simp
  have g: "good ys x" "all_good good (ys @ [x]) xs" using Cons.prems(3) by simp_all
  obtain c1 ok where 1: "put c x = (c1, ok)" by fastforce
  have p1: "ok" "steps s (droppable c) {k} {} c c1"
    "\<exists>v. rep (ys @ [x]) v \<and> live c1 = (live c)(k \<mapsto> plain_obs v)"
    using put_one [OF Cons.prems(1,2) _ 1] g by blast+
  have r1: "ready s c1" "droppable c1 = droppable c" using ready_steps [OF Cons.prems(1) p1(2)] by simp_all
  have h1: "holding rep (ys @ [x]) (live c1 k)" using p1(3) by (auto simp: holding_def)
  obtain c2 where 2: "load_elems rd put (length xs) c1 (q @ r) = (c2, Some r)" "steps s (droppable c1) {k} {} c1 c2"
      "holding rep ((ys @ [x]) @ xs) (live c2 k)" "\<forall>k'. k' \<noteq> k \<longrightarrow> live c2 k' = live c1 k'"
    using Cons.IH [OF r1(1) h1 _ _ pq(2)] g Cons.prems(4) by auto
  have "load_elems rd put (length (x # xs)) c (b @ r) = (c2, Some r)"
    using rd 1 p1(1) 2(1) by simp
  moreover have "steps s (droppable c) {k} {} c c2" using steps_trans [OF p1(2)] 2(2) r1(2) by simp
  moreover have "\<forall>k'. k' \<noteq> k \<longrightarrow> live c2 k' = live c k'" using 2(4) p1(3) by auto
  ultimately show ?case using 2(3) by auto
qed

end

definition hash_rep :: "(bytes \<times> bytes) list \<Rightarrow> payload \<Rightarrow> bool" where
  "hash_rep xs p \<longleftrightarrow> (\<exists>h. p = PHash h \<and> hash_ok h \<and> hmap h = foldl (\<lambda>m (f, v). m(f \<mapsto> v)) Map.empty xs)"

definition list_rep :: "bytes list \<Rightarrow> payload \<Rightarrow> bool" where
  "list_rep xs p \<longleftrightarrow> p = PList xs"

definition zset_rep :: "(f64 \<times> bytes) list \<Rightarrow> payload \<Rightarrow> bool" where
  "zset_rep xs p \<longleftrightarrow> (\<exists>z. p = PZset z \<and> zset_ok z \<and> zmap z = foldl (\<lambda>m (sc, x). m(x \<mapsto> sc)) Map.empty xs \<and>
     ((\<forall>(sc, x) \<in> set xs. \<not> f64_is_nan sc) \<longrightarrow> zsorted z))"

lemma hash_rep_type: "hash_rep xs p \<Longrightarrow> payload_type p = THash"
  by (auto simp: hash_rep_def)

lemma list_rep_type: "list_rep xs p \<Longrightarrow> payload_type p = TList"
  by (simp add: list_rep_def)

lemma zset_rep_type: "zset_rep xs p \<Longrightarrow> payload_type p = TZset"
  by (auto simp: zset_rep_def)

lemma holding_before:
  "holding rep xs r \<Longrightarrow> (\<And>p. rep xs p \<Longrightarrow> payload_type p = t) \<Longrightarrow>
   \<not> wrong t r \<and> (typed_before t r)\<lparr> o_pay := q \<rparr> = plain_obs q"
  by (auto simp: holding_def plain_obs_def fresh_obs_def split: if_splits)

lemma holding_hview: "holding hash_rep xs r \<Longrightarrow> hview r = foldl (\<lambda>m (f, v). m(f \<mapsto> v)) Map.empty xs"
  by (auto simp: holding_def hash_rep_def hview_def plain_obs_def split: if_splits)

lemma holding_lview: "holding list_rep xs r \<Longrightarrow> lview r = xs"
  by (auto simp: holding_def list_rep_def lview_def plain_obs_def split: if_splits)

lemma holding_zview:
  "holding zset_rep xs r \<Longrightarrow> zview r = foldl (\<lambda>m (sc, x). m(x \<mapsto> sc)) Map.empty xs"
  "holding zset_rep xs r \<Longrightarrow> \<forall>(sc, x) \<in> set xs. \<not> f64_is_nan sc \<Longrightarrow> zorder r"
  by (auto simp: holding_def zset_rep_def zview_def zorder_def plain_obs_def split: if_splits)


lemma card_upd: "finite (dom m) \<Longrightarrow> card (dom m) \<le> card (dom (m(f \<mapsto> v)))"
  by (simp add: card_insert_le)

lemma finite_foldl_upd:
  "finite (dom m) \<Longrightarrow> finite (dom (foldl (\<lambda>m (f, v). m(f \<mapsto> v)) m xs))"
  by (induction xs arbitrary: m) (auto simp del: fun_upd_apply)

lemma finite_foldl_score:
  "finite (dom m) \<Longrightarrow> finite (dom (foldl (\<lambda>m (sc, x). m(x \<mapsto> sc)) m ys))"
  by (induction ys arbitrary: m) (auto simp del: fun_upd_apply)

lemma card_foldl_upd:
  "card (dom (foldl (\<lambda>m (sc, x). m(x \<mapsto> sc)) Map.empty xs)) \<le> length xs"
proof (induction xs rule: rev_induct)
  case (snoc x xs)
  obtain sc y where x: "x = (sc, y)" by fastforce
  define m where "m = foldl (\<lambda>m (sc, x). m(x \<mapsto> sc)) Map.empty xs"
  have "finite (dom m)" unfolding m_def by (rule finite_foldl_score) simp
  moreover have "card (dom m) \<le> length xs" using snoc by (simp add: m_def del: fun_upd_apply)
  ultimately have "card (dom (m(y \<mapsto> sc))) \<le> length (xs @ [x])" by (simp add: card_insert_if)
  then show ?case by (simp add: x m_def del: fun_upd_apply dom_fun_upd)
qed simp

lemma rebuild_hash: "rebuild k (put_field k) hash_rep (\<lambda>_ _. True)"
proof
  fix s c xs x c' ok
  assume rd: "ready s c" and h: "holding hash_rep xs (live c k)" and r: "put_field k c x = (c', ok)"
  obtain f v where x: "x = (f, v)" by fastforce
  obtain n wt where 1: "ar_hash_hset c k [x] = (c', n, wt)" "ok = (\<not> n < 0)"
    using r by (auto simp: put_field_def split: prod.splits)
  have w: "wf s c" "alloc_ok c" using rd by (simp_all add: ready_def)
  note hs = hset_ok [OF w(1,2) _ 1(1)]
  have pre: "\<not> wrong THash (live c k)"
    "(typed_before THash (live c k))\<lparr> o_pay := q \<rparr> = plain_obs q" for q
    using holding_before [OF h, of THash q] hash_rep_type by auto
  have st: "steps s (droppable c) {k} {} c c'" by (rule hs(1)) simp
  have nwt: "\<not> wt" using hs(2) pre(1) by simp
  obtain m where m: "hash_ok m" "hmap m = (hview (live c k))(f \<mapsto> v)"
      "yields c' ((live c)(k \<mapsto> plain_obs (PHash m)))"
      "n + int (card (dom (hview (live c k)))) = int (card (dom (hmap m))) \<or> n = - 1 \<and> live c' k = None"
    using hs(4) [OF _ nwt] unfolding pre(2) by (auto simp: x)
  have l: "live c' = (live c)(k \<mapsto> plain_obs (PHash m))" by (rule ready_yields [OF rd st m(3)])
  have v: "hview (live c k) = foldl (\<lambda>m (f, v). m(f \<mapsto> v)) Map.empty xs" by (rule holding_hview [OF h])
  have "finite (dom (hview (live c k)))" unfolding v by (rule finite_foldl_upd) simp
  then have "card (dom (hview (live c k))) \<le> card (dom (hmap m))" unfolding m(2) by (rule card_upd)
  then have "ok" using m(4) l 1(2) by auto
  moreover have "hash_rep (xs @ [x]) (PHash m)" using m(1,2) v by (simp add: hash_rep_def x)
  ultimately show "ok \<and> steps s (droppable c) {k} {} c c' \<and>
      (\<exists>p. hash_rep (xs @ [x]) p \<and> live c' = (live c)(k \<mapsto> plain_obs p))"
    using st l by blast
qed

lemma rebuild_list: "rebuild k (put_item k) list_rep (\<lambda>_ _. True)"
proof
  fix s c xs x c' ok
  assume rd: "ready s c" and h: "holding list_rep xs (live c k)" and r: "put_item k c x = (c', ok)"
  obtain n wt where 1: "ar_list_push c k False [x] = (c', n, wt)" "ok = (\<not> n < 0)"
    using r by (auto simp: put_item_def split: prod.splits)
  have w: "wf s c" "alloc_ok c" using rd by (simp_all add: ready_def)
  note hs = push_ok [OF w(1,2) _ 1(1)]
  have pre: "\<not> wrong TList (live c k)"
    "(typed_before TList (live c k))\<lparr> o_pay := q \<rparr> = plain_obs q" for q
    using holding_before [OF h, of TList q] list_rep_type by auto
  have st: "steps s (droppable c) {k} {} c c'" by (rule hs(1)) simp
  have nwt: "\<not> wt" using hs(2) pre(1) by simp
  have m: "yields c' ((live c)(k \<mapsto> plain_obs (PList (xs @ [x]))))"
      "n = int (length (xs @ [x])) \<or> n = - 1 \<and> live c' k = None"
    using hs(4) [OF _ nwt] unfolding pre(2) holding_lview [OF h] by auto
  have l: "live c' = (live c)(k \<mapsto> plain_obs (PList (xs @ [x])))" by (rule ready_yields [OF rd st m(1)])
  then show "ok \<and> steps s (droppable c) {k} {} c c' \<and>
      (\<exists>p. list_rep (xs @ [x]) p \<and> live c' = (live c)(k \<mapsto> plain_obs p))"
    using st m(2) 1(2) by (auto simp: list_rep_def)
qed

text \<open>One member at a time, ZADD accepts as long as the bound of the sorted array is not reached.\<close>

lemma rebuild_zset: "rebuild k (put_member k) zset_rep (\<lambda>xs x. length xs < AR_ZSET_MAX_MEMBERS)"
proof
  fix s c xs x c' ok
  assume rd: "ready s c" and h: "holding zset_rep xs (live c k)" and len: "length xs < AR_ZSET_MAX_MEMBERS"
    and r: "put_member k c x = (c', ok)"
  obtain sc y where x: "x = (sc, y)" by fastforce
  obtain n wt where 1: "ar_zset_zadd c k [x] = (c', n, wt)" "ok = (\<not> n < 0)"
    using r by (auto simp: put_member_def split: prod.splits)
  have w: "wf s c" "alloc_ok c" using rd by (simp_all add: ready_def)
  have v: "zview (live c k) = foldl (\<lambda>m (sc, x). m(x \<mapsto> sc)) Map.empty xs" by (rule holding_zview(1) [OF h])
  have fits: "zadd_fits (live c k) [x]"
    using card_foldl_upd [of xs] len by (auto simp: zadd_fits_def v x)
  note hs = zadd_ok [OF w(1,2) _ fits 1(1)]
  have pre: "\<not> wrong TZset (live c k)"
    "(typed_before TZset (live c k))\<lparr> o_pay := q \<rparr> = plain_obs q" for q
    using holding_before [OF h, of TZset q] zset_rep_type by auto
  have st: "steps s (droppable c) {k} {} c c'" by (rule hs(1)) simp
  have nwt: "\<not> wt" using hs(2) pre(1) by simp
  have "\<exists>m. zset_ok m \<and> zmap m = (zview (live c k))(y \<mapsto> sc) \<and>
      (zorder (live c k) \<and> \<not> f64_is_nan sc \<longrightarrow> zsorted m) \<and>
      yields c' ((live c)(k \<mapsto> plain_obs (PZset m))) \<and>
      (n + int (card (dom (zview (live c k)))) = int (card (dom (zmap m))) \<or> n = - 1 \<and> live c' k = None)"
    using hs(4) [OF _ nwt] unfolding pre(2) by (simp add: x)
  then obtain m where m: "zset_ok m" "zmap m = (zview (live c k))(y \<mapsto> sc)"
      "zorder (live c k) \<and> \<not> f64_is_nan sc \<longrightarrow> zsorted m"
      "yields c' ((live c)(k \<mapsto> plain_obs (PZset m)))"
      "n + int (card (dom (zview (live c k)))) = int (card (dom (zmap m))) \<or> n = - 1 \<and> live c' k = None"
    by blast
  have l: "live c' = (live c)(k \<mapsto> plain_obs (PZset m))" by (rule ready_yields [OF rd st m(4)])
  have "finite (dom (zview (live c k)))" unfolding v by (rule finite_foldl_score) simp
  then have "card (dom (zview (live c k))) \<le> card (dom (zmap m))" unfolding m(2) by (rule card_upd)
  then have "ok" using m(5) l 1(2) by auto
  moreover have "zset_rep (xs @ [x]) (PZset m)"
    using m(1,2,3) v holding_zview(2) [OF h] by (auto simp: zset_rep_def x)
  ultimately show "ok \<and> steps s (droppable c) {k} {} c c' \<and>
      (\<exists>p. zset_rep (xs @ [x]) p \<and> live c' = (live c)(k \<mapsto> plain_obs p))"
    using st l by blast
qed

interpretation hb: rebuild k "put_field k" hash_rep "\<lambda>_ _. True" for k by (rule rebuild_hash)
interpretation lb: rebuild k "put_item k" list_rep "\<lambda>_ _. True" for k by (rule rebuild_list)
interpretation zb: rebuild k "put_member k" zset_rep "\<lambda>xs _. length xs < AR_ZSET_MAX_MEMBERS" for k
  by (rule rebuild_zset)

text \<open>A deadline counts on in whole seconds from the moment of loading, rounded up.\<close>

definition rounded :: "nat \<Rightarrow> nat \<Rightarrow> nat" where
  "rounded now exp = (if exp = 0 then 0 else now + (exp - now + 999) div 1000 * 1000)"

lemma apply_expire_ok:
  assumes rd: "ready s c" and v: "live c k = Some v" "o_exp v = 0" and now: "now = now_ms c"
    and exp: "exp = 0 \<or> now < exp" "exp + 1000 < 2 ^ 64" and r: "apply_expire_abs c k exp now = (c', ok)"
  shows "ok" "steps s (droppable c) {k} {} c c'" "live c' = (live c)(k \<mapsto> v\<lparr> o_exp := rounded now exp \<rparr>)"
proof -
  have w: "wf s c" using rd by (simp add: ready_def)
  have "ok \<and> steps s (droppable c) {k} {} c c' \<and> live c' = (live c)(k \<mapsto> v\<lparr> o_exp := rounded now exp \<rparr>)"
  proof (cases "exp = 0")
    case True
    then have "c' = c" "ok" using r by (simp_all add: apply_expire_abs_def)
    moreover have "v\<lparr> o_exp := rounded now exp \<rparr> = v" using v(2) True by (simp add: rounded_def)
    ultimately show ?thesis using v(1) steps_refl [OF w] by (auto simp: fun_upd_idem)
  next
    case False
    define q where "q = (exp - now + 999) div 1000"
    have le: "q * 1000 \<le> exp - now + 999" by (simp add: q_def)
    have q: "0 < q" using False exp(1) by (simp add: q_def div_greater_zero_iff)
    have u: "u64 (exp - now + 999) div 1000 = q" using exp(2) by (simp add: u64_id q_def)
    have dl: "u64 (now_ms c + u64 (nat (int q) * 1000)) = now + q * 1000"
      using le exp False now by (simp add: u64_id)
    have "expire_with c k (int q) (now + q * 1000) = (c', ok)"
      using r q exp(1) False dl unfolding apply_expire_abs_def u ar_expire_def by (simp add: Let_def)
    note ex = expire_with_ok [OF w this]
    have "steps s (droppable c) {k} {} c c'" using ex(1) by (rule steps_mono) auto
    moreover have "live c' = (live c)(k \<mapsto> v\<lparr> o_exp := now + q * 1000 \<rparr>)"
      using ex(3) q v(1) now by (simp add: deadline_after_def gone_def)
    then have "live c' = (live c)(k \<mapsto> v\<lparr> o_exp := rounded now exp \<rparr>)"
      using False by (simp add: rounded_def q_def)
    ultimately show ?thesis using ex(2) v(1) by blast
  qed
  then show "ok" "steps s (droppable c) {k} {} c c'" "live c' = (live c)(k \<mapsto> v\<lparr> o_exp := rounded now exp \<rparr>)"
    by blast+
qed


section \<open>The round trip of one key\<close>

text \<open>What both sides of the format accept: the reader's limits are narrower than the writer's.\<close>

fun payload_fits :: "payload \<Rightarrow> bool" where
  "payload_fits (PStr v) = (length v \<le> AURA_RDB_MAX_BLOB)"
| "payload_fits (PHash h) = (h_nfields h \<noteq> 0 \<and> h_nfields h \<le> AURA_RDB_MAX_ELEMS \<and>
     (\<forall>f \<in> set (concat (h_buckets h)). length (hf_field f) \<le> AURA_RDB_MAX_BLOB \<and> length (hf_val f) \<le> AURA_RDB_MAX_BLOB))"
| "payload_fits (PList l) = (l \<noteq> [] \<and> length l \<le> AURA_RDB_MAX_ELEMS \<and> (\<forall>x \<in> set l. length x \<le> AURA_RDB_MAX_BLOB))"
| "payload_fits (PZset z) = (z_arr z \<noteq> [] \<and> length (z_arr z) \<le> AR_ZSET_MAX_MEMBERS \<and>
     (\<forall>x \<in> set (z_arr z). z_score x < 2 ^ 64 \<and> length (z_member x) \<le> AURA_RDB_MAX_BLOB))"

definition entry_fits :: "bytes \<Rightarrow> obs \<Rightarrow> bool" where
  "entry_fits k v \<longleftrightarrow> length k \<le> AURA_RDB_MAX_BLOB \<and> o_exp v + 1000 < 2 ^ 64 \<and> payload_fits (o_pay v)"

text \<open>The same value, as far as any command can see.\<close>

fun same_value :: "payload \<Rightarrow> payload \<Rightarrow> bool" where
  "same_value (PStr v) p = (p = PStr v)"
| "same_value (PHash h) p = (\<exists>h'. p = PHash h' \<and> hmap h' = hmap h)"
| "same_value (PList l) p = (p = PList l)"
| "same_value (PZset z) p = (\<exists>z'. p = PZset z' \<and> zmap z' = zmap z \<and>
     ((\<forall>x \<in> set (z_arr z). \<not> f64_is_nan (z_score x)) \<longrightarrow> zsorted z'))"

definition reloaded :: "nat \<Rightarrow> obs \<Rightarrow> obs \<Rightarrow> bool" where
  "reloaded now v v' \<longleftrightarrow> same_value (o_pay v) (o_pay v') \<and> \<not> o_pin v' \<and>
     o_exp v' = (if payload_type (o_pay v) = TString then o_exp v else rounded now (o_exp v))"

lemma count_read:
  "n \<le> AURA_RDB_MAX_ELEMS \<Longrightarrow> wr_u32 n = Some h \<Longrightarrow> rd_count (h @ s) = Some (n, s)"
  using u32.reads_back [of n h s] by (simp add: rd_count_def AURA_RDB_MAX_ELEMS_def)

lemma wr_then_Some: "wr_then a b = Some s \<longleftrightarrow> (\<exists>p q. a = Some p \<and> b = Some q \<and> s = p @ q)"
  by (auto simp: wr_then_def split: option.splits)

text \<open>A value of a typed key, replayed into a core that has no such key.\<close>

lemma load_typed_ok:
  assumes rb: "rebuild k put rep good" and co: "codec enc rd fits"
    and rdy: "ready s c" and free: "live c k = None" and now: "now = now_ms c"
    and ne: "xs \<noteq> []" and len: "length xs \<le> AURA_RDB_MAX_ELEMS" and g: "all_good good [] xs"
    and f: "\<forall>x \<in> set xs. fits x" and b: "wr_then (wr_u32 (length xs)) (wr_all enc xs) = Some b"
    and exp: "exp = 0 \<or> now < exp" "exp + 1000 < 2 ^ 64"
  shows "\<exists>c' p. load_typed rd put k exp now c (b @ r) t = (c', (fst t + 1, snd t), Some r) \<and>
    steps s (droppable c) {k} {} c c' \<and> rep xs p \<and>
    live c' = (live c)(k \<mapsto> \<lparr> o_pay = p, o_exp = rounded now exp, o_pin = False \<rparr>)"
proof -
  obtain h q where hq: "wr_u32 (length xs) = Some h" "wr_all enc xs = Some q" "b = h @ q"
    using b by (auto simp: wr_then_Some)
  have cn: "rd_count (b @ r) = Some (length xs, q @ r)" using count_read [OF len hq(1)] hq(3) by simp
  obtain c1 where 1: "load_elems rd put (length xs) c (q @ r) = (c1, Some r)" "steps s (droppable c) {k} {} c c1"
      "holding rep xs (live c1 k)" "\<forall>k'. k' \<noteq> k \<longrightarrow> live c1 k' = live c k'"
    using rebuild.replay [OF rb co rdy _ g f hq(2)] free by (auto simp: holding_def)
  obtain p where p: "live c1 k = Some (plain_obs p)" "rep xs p" using 1(3) ne by (auto simp: holding_def)
  obtain c2 ok where 2: "apply_expire_abs c1 k exp now = (c2, ok)" by fastforce
  have r1: "ready s c1" "now = now_ms c1" "droppable c1 = droppable c" using ready_steps [OF rdy 1(2)] now by simp_all
  have "o_exp (plain_obs p) = 0" by (simp add: plain_obs_def)
  note ex = apply_expire_ok [OF r1(1) p(1) this r1(2) exp 2]
  have "steps s (droppable c) {k} {} c c2" using 1(2) ex(2) r1(3) by (auto intro: steps_trans)
  moreover have "live c2 = (live c)(k \<mapsto> \<lparr> o_pay = p, o_exp = rounded now exp, o_pin = False \<rparr>)"
    using ex(3) 1(4) by (auto simp: plain_obs_def)
  ultimately show ?thesis using cn 1(1) 2 ex(1) p(2) by (auto simp: load_typed_def)
qed

lemma foldl_upd: "distinct (map fst xs) \<Longrightarrow> foldl (\<lambda>m (f, v). m(f \<mapsto> v)) m xs = m ++ map_of xs"
proof (induction xs arbitrary: m)
  case (Cons x xs)
  obtain f v where x: "x = (f, v)" by fastforce
  have "f \<notin> dom (map_of xs)" using Cons.prems by (auto simp: x dom_map_of_conv_image_fst image_iff)
  then have "m(f \<mapsto> v) ++ map_of xs = m ++ map_of (x # xs)" by (simp add: x map_add_upd_left del: fun_upd_apply)
  then show ?case using Cons.IH [of "m(f \<mapsto> v)"] Cons.prems by (simp add: x del: fun_upd_apply)
qed simp

lemma foldl_score:
  assumes "distinct (map snd xs)"
  shows "foldl (\<lambda>m (sc, x). m(x \<mapsto> sc)) m xs = m ++ map_of (map (\<lambda>(sc, x). (x, sc)) xs)"
proof -
  have "foldl (\<lambda>m (sc, x). m(x \<mapsto> sc)) m xs = foldl (\<lambda>m (f, v). m(f \<mapsto> v)) m (map (\<lambda>(sc, x). (x, sc)) xs)" for m
    by (induction xs arbitrary: m) auto
  moreover have "distinct (map fst (map (\<lambda>(sc, x). (x, sc)) xs))"
    using assms by (simp add: comp_def case_prod_beta)
  ultimately show ?thesis by (simp only: foldl_upd)
qed

lemma hash_rep_fields:
  assumes "hash_ok h" and "hash_rep (map (\<lambda>f. (hf_field f, hf_val f)) (concat (h_buckets h))) p"
  shows "same_value (PHash h) p"
proof -
  let ?xs = "map (\<lambda>f. (hf_field f, hf_val f)) (concat (h_buckets h))"
  obtain h' where h': "p = PHash h'" "hmap h' = foldl (\<lambda>m (f, v). m(f \<mapsto> v)) Map.empty ?xs"
    using assms(2) by (auto simp: hash_rep_def)
  have k: "ct_ok hf_field (h_buckets h)" using assms(1) by simp
  have d: "distinct (map fst ?xs)" using hf.inv_distinct [OF k] by (simp add: comp_def del: map_concat)
  have "hmap h f = Some v \<longleftrightarrow> map_of ?xs f = Some v" for f v
    using hf.lookup_iff [OF k, of f] map_of_eq_Some_iff [OF d, of f v]
    by (auto simp: hmap_def hash_find_def image_iff simp del: set_concat map_concat)
  then have "hmap h' = hmap h" using h'(2) foldl_upd [OF d] by (intro map_eqI) simp
  then show ?thesis using h'(1) by simp
qed

lemma zset_rep_members:
  assumes "zset_ok z" and "zset_rep (map (\<lambda>x. (z_score x, z_member x)) (z_arr z)) p"
  shows "same_value (PZset z) p"
proof -
  let ?xs = "map (\<lambda>x. (z_score x, z_member x)) (z_arr z)"
  obtain z' where z': "p = PZset z'" "zmap z' = foldl (\<lambda>m (sc, x). m(x \<mapsto> sc)) Map.empty ?xs"
      "(\<forall>(sc, x) \<in> set ?xs. \<not> f64_is_nan sc) \<longrightarrow> zsorted z'"
    using assms(2) by (auto simp: zset_rep_def)
  have "distinct (map snd ?xs)" using assms(1) by (simp add: comp_def)
  then have "zmap z' = zmap z" using z'(2) by (simp add: foldl_score zmap_def comp_def)
  then show ?thesis using z'(1,3) by auto
qed

text \<open>One entry of the file: replayed, or read over when its deadline has passed in the meantime.\<close>

lemma write_hash_Some: "hash_ok h \<Longrightarrow> write_hash h = Some b \<longleftrightarrow>
    wr_then (wr_u32 (length (map (\<lambda>f. (hf_field f, hf_val f)) (concat (h_buckets h)))))
      (wr_all wr_field (map (\<lambda>f. (hf_field f, hf_val f)) (concat (h_buckets h)))) = Some b"
  by (simp add: write_hash_def Let_def del: map_concat split: option.split)

lemma drain_ok:
  assumes "codec enc rd fits" and "length xs \<le> AURA_RDB_MAX_ELEMS" and "\<forall>x \<in> set xs. fits x"
    and "wr_then (wr_u32 (length xs)) (wr_all enc xs) = Some b"
  shows "drain rd (b @ r) = Some r"
proof -
  obtain h q where hq: "wr_u32 (length xs) = Some h" "wr_all enc xs = Some q" "b = h @ q"
    using assms(4) by (auto simp: wr_then_Some)
  show ?thesis
    using count_read [OF assms(2) hq(1)] codec.all_read_back [OF assms(1,3) hq(2)] by (simp add: drain_def hq(3))
qed

lemma field_codec: "codec wr_field rd_field
    (\<lambda>x. length (fst x) \<le> AURA_RDB_MAX_BLOB \<and> length (snd x) \<le> AURA_RDB_MAX_BLOB)"
  unfolding wr_field_def rd_field_def by (rule field.codec_axioms)

lemma member_codec: "codec wr_member rd_member (\<lambda>x. fst x < 2 ^ 64 \<and> length (snd x) \<le> AURA_RDB_MAX_BLOB)"
  unfolding wr_member_def rd_member_def by (rule member.codec_axioms)

lemma load_payload_due:
  assumes ok: "payload_ok p" and f: "payload_fits p" and b: "write_payload p = Some b"
    and due: "exp \<noteq> 0" "exp \<le> now"
  shows "load_payload (tag (payload_type p)) key exp now c (b @ r) t = (c, (fst t, snd t + 1), Some r)"
proof (cases p)
  case (PStr v)
  then have "rd_blob (b @ r) = Some (v, r)"
    using b f blob.reads_back [of v b r] by (auto simp: write_payload_def split: if_splits)
  then show ?thesis using due by (simp add: PStr load_payload_def load_string_def)
next
  case (PHash h)
  have "drain rd_field (b @ r) = Some r"
    by (rule drain_ok [OF field_codec, where xs = "map (\<lambda>f. (hf_field f, hf_val f)) (concat (h_buckets h))"])
      (use ok f b in \<open>auto simp: PHash write_payload_def write_hash_Some simp del: map_concat\<close>)
  then show ?thesis using due by (simp add: PHash load_payload_def drain_hash_payload_def)
next
  case (PList l)
  have "drain rd_blob (b @ r) = Some r"
    by (rule drain_ok [OF blob.codec_axioms]) (use ok f b in \<open>auto simp: PList write_payload_def write_list_def\<close>)
  then show ?thesis using due by (simp add: PList load_payload_def drain_list_payload_def)
next
  case (PZset z)
  have "drain rd_member (b @ r) = Some r"
    by (rule drain_ok [OF member_codec, where xs = "map (\<lambda>x. (z_score x, z_member x)) (z_arr z)"])
      (use ok f b in \<open>auto simp: PZset write_payload_def write_zset_def AR_ZSET_MAX_MEMBERS_def AURA_RDB_MAX_ELEMS_def\<close>)
  then show ?thesis using due by (simp add: PZset load_payload_def drain_zset_payload_def)
qed

lemma load_payload_live:
  assumes ok: "payload_ok p" and f: "payload_fits p" and b: "write_payload p = Some b"
    and rdy: "ready s c" and free: "live c key = None" and now: "now = now_ms c"
    and exp: "exp = 0 \<or> now < exp" "exp + 1000 < 2 ^ 64"
  shows "\<exists>c' p'. load_payload (tag (payload_type p)) key exp now c (b @ r) t = (c', (fst t + 1, snd t), Some r) \<and>
    steps s (droppable c) {key} {} c c' \<and> same_value p p' \<and>
    live c' = (live c)(key \<mapsto> \<lparr> o_pay = p',
      o_exp = (if payload_type p = TString then exp else rounded now exp), o_pin = False \<rparr>)"
proof (cases p)
  case (PStr v)
  then have rd: "rd_blob (b @ r) = Some (v, r)"
    using b f blob.reads_back [of v b r] by (auto simp: write_payload_def split: if_splits)
  obtain c' ok where 1: "ar_entry_set_ex c key v exp = (c', ok)" by fastforce
  note se = set_ex_ok [OF _ 1, of s]
  have w: "wf s c" "alloc_ok c" using rdy by (simp_all add: ready_def)
  have "live c' = (live c)(key \<mapsto> string_obs v exp False)"
    using ready_yields [OF rdy se(2) [OF w(1)] se(3) [OF w(1)]] se(1) [OF w(1)] w(2) free exp(1) now
    by (auto simp: gone_def string_obs_def pin_of_def)
  then show ?thesis using rd 1 se(1,2) [OF w(1)] w(2) exp(1)
    by (auto simp: PStr load_payload_def load_string_def string_obs_def)
next
  case (PHash h)
  let ?xs = "map (\<lambda>f. (hf_field f, hf_val f)) (concat (h_buckets h))"
  have sv: "\<And>q. hash_rep ?xs q \<Longrightarrow> same_value p q" using hash_rep_fields [of h] ok unfolding PHash by blast
  have "\<exists>c' q. load_typed rd_field (put_field key) key exp now c (b @ r) t = (c', (fst t + 1, snd t), Some r) \<and>
      steps s (droppable c) {key} {} c c' \<and> hash_rep ?xs q \<and>
      live c' = (live c)(key \<mapsto> \<lparr> o_pay = q, o_exp = rounded now exp, o_pin = False \<rparr>)"
    by (rule load_typed_ok [OF rebuild_hash field_codec rdy free now _ _ _ _ _ exp, where xs = ?xs])
      (use ok f b in \<open>auto simp: PHash write_payload_def write_hash_Some simp del: map_concat\<close>)
  then obtain c' q where 1: "load_typed rd_field (put_field key) key exp now c (b @ r) t = (c', (fst t + 1, snd t), Some r)"
      "steps s (droppable c) {key} {} c c'" "same_value p q"
      "live c' = (live c)(key \<mapsto> \<lparr> o_pay = q, o_exp = rounded now exp, o_pin = False \<rparr>)"
    using sv by blast
  have "load_payload (tag (payload_type p)) key exp now c (b @ r) t = (c', (fst t + 1, snd t), Some r)"
    using 1(1) exp(1) by (auto simp: PHash load_payload_def)
  then show ?thesis using 1(2-4) by (intro exI [of _ c'] exI [of _ q]) (simp add: PHash del: same_value.simps)
next
  case (PList l)
  have sv: "\<And>q. list_rep l q \<Longrightarrow> same_value p q" by (simp add: PList list_rep_def)
  have "\<exists>c' q. load_typed rd_blob (put_item key) key exp now c (b @ r) t = (c', (fst t + 1, snd t), Some r) \<and>
      steps s (droppable c) {key} {} c c' \<and> list_rep l q \<and>
      live c' = (live c)(key \<mapsto> \<lparr> o_pay = q, o_exp = rounded now exp, o_pin = False \<rparr>)"
    by (rule load_typed_ok [OF rebuild_list blob.codec_axioms rdy free now _ _ _ _ _ exp])
      (use ok f b in \<open>auto simp: PList write_payload_def write_list_def\<close>)
  then obtain c' q where 1: "load_typed rd_blob (put_item key) key exp now c (b @ r) t = (c', (fst t + 1, snd t), Some r)"
      "steps s (droppable c) {key} {} c c'" "same_value p q"
      "live c' = (live c)(key \<mapsto> \<lparr> o_pay = q, o_exp = rounded now exp, o_pin = False \<rparr>)"
    using sv by blast
  have "load_payload (tag (payload_type p)) key exp now c (b @ r) t = (c', (fst t + 1, snd t), Some r)"
    using 1(1) exp(1) by (auto simp: PList load_payload_def)
  then show ?thesis using 1(2-4) by (intro exI [of _ c'] exI [of _ q]) (simp add: PList del: same_value.simps)
next
  case (PZset z)
  let ?xs = "map (\<lambda>x. (z_score x, z_member x)) (z_arr z)"
  have sv: "\<And>q. zset_rep ?xs q \<Longrightarrow> same_value p q" using zset_rep_members [of z] ok unfolding PZset by blast
  have "\<exists>c' q. load_typed rd_member (put_member key) key exp now c (b @ r) t = (c', (fst t + 1, snd t), Some r) \<and>
      steps s (droppable c) {key} {} c c' \<and> zset_rep ?xs q \<and>
      live c' = (live c)(key \<mapsto> \<lparr> o_pay = q, o_exp = rounded now exp, o_pin = False \<rparr>)"
    by (rule load_typed_ok [OF rebuild_zset member_codec rdy free now _ _ _ _ _ exp, where xs = ?xs])
      (use ok f b in \<open>auto simp: PZset write_payload_def write_zset_def AR_ZSET_MAX_MEMBERS_def AURA_RDB_MAX_ELEMS_def
          intro: all_good_bound\<close>)
  then obtain c' q where 1: "load_typed rd_member (put_member key) key exp now c (b @ r) t = (c', (fst t + 1, snd t), Some r)"
      "steps s (droppable c) {key} {} c c'" "same_value p q"
      "live c' = (live c)(key \<mapsto> \<lparr> o_pay = q, o_exp = rounded now exp, o_pin = False \<rparr>)"
    using sv by blast
  have "load_payload (tag (payload_type p)) key exp now c (b @ r) t = (c', (fst t + 1, snd t), Some r)"
    using 1(1) exp(1) by (auto simp: PZset load_payload_def)
  then show ?thesis using 1(2-4) by (intro exI [of _ c'] exI [of _ q]) (simp add: PZset del: same_value.simps)
qed

lemma tag_less: "tag t < 2 ^ 8"
  by (cases t) simp_all

lemma entry_header:
  assumes f: "entry_fits (ekey e) (obs_of e)" and b: "write_entry_v2 e = Some b"
  shows "\<exists>q. write_payload (epay e) = Some q \<and>
    (\<forall>r. load_one_v2 now c (b @ r) t = load_payload (tag (etype e)) (ekey e) (expire_at e) now c (q @ r) t)"
proof -
  obtain x k d q where w: "wr_u8 (tag (etype e)) = Some x" "wr_blob (ekey e) = Some k" "wr_u64 (expire_at e) = Some d"
      "write_payload (epay e) = Some q" "b = x @ k @ d @ q"
    using b by (auto simp: write_entry_v2_def wr_then_Some split: if_splits)
  have "rd_u8 (x @ s) = Some (tag (etype e), s)" "rd_blob (k @ s) = Some (ekey e, s)"
    "rd_u64 (d @ s) = Some (expire_at e, s)" for s
    using u8.reads_back [OF tag_less w(1)] blob.reads_back [OF _ w(2)] u64.reads_back [OF _ w(3)] f
    by (simp_all add: entry_fits_def)
  then show ?thesis using w(4,5) by (simp add: load_one_v2_def)
qed

text \<open>What a key holds after loading, against what it held when the snapshot was taken.\<close>

definition loaded_as :: "nat \<Rightarrow> obs option \<Rightarrow> obs option \<Rightarrow> bool" where
  "loaded_as now r r' \<longleftrightarrow> (case unexpired now r of None \<Rightarrow> r' = None | Some v \<Rightarrow> (\<exists>v'. r' = Some v' \<and> reloaded now v v'))"

lemma load_one_ok:
  assumes f: "entry_fits (ekey e) (obs_of e)" and ok: "payload_ok (epay e)" and b: "write_entry_v2 e = Some b"
    and rdy: "ready s c" and free: "live c (ekey e) = None"
  shows "\<exists>c' t'. load_one_v2 (now_ms c) c (b @ r) t = (c', t', Some r) \<and> steps s (droppable c) {ekey e} {} c c' \<and>
    loaded_as (now_ms c) (Some (obs_of e)) (live c' (ekey e)) \<and> (\<forall>k. k \<noteq> ekey e \<longrightarrow> live c' k = live c k)"
proof -
  obtain q where q: "write_payload (epay e) = Some q"
      "load_one_v2 (now_ms c) c (b @ r) t = load_payload (tag (etype e)) (ekey e) (expire_at e) (now_ms c) c (q @ r) t"
    using entry_header [OF f b] by blast
  have pf: "payload_fits (epay e)" "expire_at e + 1000 < 2 ^ 64" using f by (simp_all add: entry_fits_def)
  show ?thesis
  proof (cases "expire_at e \<noteq> 0 \<and> expire_at e \<le> now_ms c")
    case True
    then show ?thesis
      using q load_payload_due [OF ok pf(1) q(1)] free rdy
      by (simp add: loaded_as_def gone_def ready_def steps_refl)
  next
    case False
    then have due: "expire_at e = 0 \<or> now_ms c < expire_at e" by auto
    obtain c' p' where 1: "load_payload (tag (etype e)) (ekey e) (expire_at e) (now_ms c) c (q @ r) t =
        (c', (fst t + 1, snd t), Some r)" "steps s (droppable c) {ekey e} {} c c'" "same_value (epay e) p'"
      "live c' = (live c)(ekey e \<mapsto> \<lparr> o_pay = p',
        o_exp = (if etype e = TString then expire_at e else rounded (now_ms c) (expire_at e)), o_pin = False \<rparr>)"
      using load_payload_live [OF ok pf(1) q(1) rdy free refl due pf(2)] by blast
    have "loaded_as (now_ms c) (Some (obs_of e)) (live c' (ekey e))"
      using False 1(3,4) by (simp add: loaded_as_def gone_def reloaded_def)
    then show ?thesis using q(2) 1 by simp
  qed
qed

lemma load_all_ok:
  assumes "distinct (map ekey es)" and "\<forall>e \<in> set es. entry_fits (ekey e) (obs_of e) \<and> payload_ok (epay e)"
    and "\<forall>e \<in> set es. live c (ekey e) = None" and "wr_all write_entry_v2 es = Some b" and "ready s c"
  shows "\<exists>c' t'. load_entries (load_one_v2 (now_ms c)) (length es) c (b @ r) t = (c', t', Some r) \<and>
    steps s (droppable c) (ekey ` set es) {} c c' \<and>
    (\<forall>e \<in> set es. loaded_as (now_ms c) (Some (obs_of e)) (live c' (ekey e))) \<and>
    (\<forall>k. k \<notin> ekey ` set es \<longrightarrow> live c' k = live c k)"
  using assms
proof (induction es arbitrary: c b t)
  case Nil
  then show ?case by (simp add: ready_def steps_refl)
next
  case (Cons e es)
  obtain p q where pq: "write_entry_v2 e = Some p" "wr_all write_entry_v2 es = Some q" "b = p @ q"
    using Cons.prems(4) by (auto split: option.splits)
  obtain c1 t1 where 1: "load_one_v2 (now_ms c) c (p @ q @ r) t = (c1, t1, Some (q @ r))"
      "steps s (droppable c) {ekey e} {} c c1" "loaded_as (now_ms c) (Some (obs_of e)) (live c1 (ekey e))"
      "\<forall>k. k \<noteq> ekey e \<longrightarrow> live c1 k = live c k"
    using load_one_ok [OF _ _ pq(1) Cons.prems(5)] Cons.prems(2,3) by (metis list.set_intros(1))
  have r1: "ready s c1" "droppable c1 = droppable c" "now_ms c1 = now_ms c"
    using ready_steps [OF Cons.prems(5) 1(2)] by simp_all
  have new: "ekey x \<noteq> ekey e" if "x \<in> set es" for x using Cons.prems(1) that by (auto simp: image_iff)
  have free: "\<forall>x \<in> set es. live c1 (ekey x) = None" using Cons.prems(3) 1(4) new by simp
  obtain c2 t2 where 2: "load_entries (load_one_v2 (now_ms c1)) (length es) c1 (q @ r) t1 = (c2, t2, Some r)"
      "steps s (droppable c1) (ekey ` set es) {} c1 c2"
      "\<forall>x \<in> set es. loaded_as (now_ms c1) (Some (obs_of x)) (live c2 (ekey x))"
      "\<forall>k. k \<notin> ekey ` set es \<longrightarrow> live c2 k = live c1 k"
    using Cons.IH [OF _ _ free pq(2) r1(1), of t1] Cons.prems(1,2) by auto
  have "load_entries (load_one_v2 (now_ms c)) (length (e # es)) c (b @ r) t = (c2, t2, Some r)"
    using 1(1) 2(1) pq(3) r1(3) by simp
  moreover have "steps s (droppable c) (ekey ` set (e # es)) {} c c2"
    using steps_mono [OF 1(2), of "droppable c" "ekey ` set (e # es)" "{}"]
      steps_mono [OF 2(2), of "droppable c" "ekey ` set (e # es)" "{}"] r1(2)
    by (intro steps_trans [of s _ _ _ c c1 c2]) auto
  moreover have "ekey e \<notin> ekey ` set es" using new by force
  then have "\<forall>x \<in> set (e # es). loaded_as (now_ms c) (Some (obs_of x)) (live c2 (ekey x))"
    using 1(3) 2(3,4) r1(3) by simp
  moreover have "\<forall>k. k \<notin> ekey ` set (e # es) \<longrightarrow> live c2 k = live c k" using 1(4) 2(4) by simp
  ultimately show ?case by blast
qed

section \<open>The round trip of the whole file\<close>

definition snapshot :: "core \<Rightarrow> entry list" where
  "snapshot c = kept c (ents c)"

lemma kept_live: "kept c es = filter (entry_live (now_ms c)) es"
  by (simp add: kept_def entry_live_def [abs_def] entry_due_def)

lemma wr_all_append: "wr_all enc (xs @ ys) = wr_then (wr_all enc xs) (wr_all enc ys)"
  by (induction xs; cases "wr_all enc ys") (auto simp: wr_then_def split: option.splits)

lemma wr_all_written: "\<forall>x \<in> set xs. enc x \<noteq> None \<Longrightarrow> wr_all enc xs \<noteq> None"
  by (induction xs) (auto split: option.splits)

text \<open>The image: header, count, and the live entries of both tables.\<close>

lemma image_eq:
  "rdb_image c = wr_then (Some AURA_RDB_MAGIC) (wr_then (wr_u32 2)
     (wr_then (wr_u64 (length (snapshot c))) (wr_all write_entry_v2 (snapshot c))))"
  by (simp add: rdb_image_def write_table_v2_def snapshot_def kept_live ents_def wr_all_append count_live_entries_def)

lemma entry_written:
  assumes "entry_fits (ekey e) (obs_of e)" and "payload_ok (epay e)"
  shows "write_entry_v2 e \<noteq> None"
proof -
  have le: "AURA_RDB_MAX_BLOB \<le> BLOB_WRITE_MAX" by (simp add: AURA_RDB_MAX_BLOB_def BLOB_WRITE_MAX_def)
  have fw: "wr_all wr_field xs \<noteq> None"
    if "\<forall>x \<in> set xs. length (fst x) \<le> AURA_RDB_MAX_BLOB \<and> length (snd x) \<le> AURA_RDB_MAX_BLOB" for xs
    using codec.all_written [OF field_codec that] .
  have mw: "wr_all wr_member xs \<noteq> None"
    if "\<forall>x \<in> set xs. fst x < 2 ^ 64 \<and> length (snd x) \<le> AURA_RDB_MAX_BLOB" for xs
    using codec.all_written [OF member_codec that] .
  have "write_payload (epay e) \<noteq> None"
  proof (cases "epay e")
    case (PStr v)
    then show ?thesis using assms(1) blob.written [of v] le by (auto simp: write_payload_def entry_fits_def)
  next
    case (PHash h)
    have "hash_ok h" using assms(2) PHash by simp
    moreover obtain b where "wr_all wr_field (map (\<lambda>f. (hf_field f, hf_val f)) (concat (h_buckets h))) = Some b"
      using fw [of "map (\<lambda>f. (hf_field f, hf_val f)) (concat (h_buckets h))"] assms(1) PHash
      by (auto simp: entry_fits_def simp del: map_concat)
    ultimately show ?thesis
      by (auto simp: PHash write_payload_def write_hash_def Let_def wr_then_def wr_u32_def simp del: map_concat)
  next
    case (PList l)
    then show ?thesis using blob.all_written [of l] assms(1)
      by (auto simp: write_payload_def write_list_def wr_then_def wr_u32_def entry_fits_def)
  next
    case (PZset z)
    then show ?thesis using mw [of "map (\<lambda>x. (z_score x, z_member x)) (z_arr z)"] assms(1)
      by (auto simp: write_payload_def write_zset_def wr_then_def wr_u32_def entry_fits_def)
  qed
  then show ?thesis using assms(1) blob.written [of "ekey e"] le
    by (auto simp: write_entry_v2_def wr_then_def wr_u8_def wr_u64_def entry_fits_def)
qed

lemma header_read:
  assumes "n \<le> 10000000" and "wr_u32 2 = Some v" and "wr_u64 n = Some m"
  shows "rd_header (AURA_RDB_MAGIC @ v @ m @ s) = Some ((2, n), s)"
proof -
  have "length AURA_RDB_MAGIC = 8" by (simp add: AURA_RDB_MAGIC_def)
  then show ?thesis
    using u32.reads_back [OF _ assms(2)] u64.reads_back [OF _ assms(3)] assms(1) by (simp add: rd_header_def)
qed

text \<open>Every key of the snapshot's map stands in the list of live entries, once.\<close>

lemma snapshot_live:
  assumes w: "wf s c"
  shows "distinct (map ekey (snapshot c))"
    "e \<in> set (snapshot c) \<Longrightarrow> live c (ekey e) = Some (obs_of e) \<and> payload_ok (epay e)"
    "live c k = Some v \<Longrightarrow> k \<in> ekey ` set (snapshot c)"
    "length (snapshot c) = card (dom (live c))"
proof -
  have sh: "shape c" using w by (rule wf_shape)
  have d: "distinct (map ekey (ents c))" using sh by (simp add: shape_def)
  then show "distinct (map ekey (snapshot c))"
    by (auto simp: snapshot_def kept_def intro: distinct_map_filter)
  have l: "live c k = Some v \<longleftrightarrow> (\<exists>e \<in> set (snapshot c). ekey e = k \<and> obs_of e = v)" for k v
    using view_Some_iff [OF sh, of k v]
    by (auto simp: live_def unexpired_Some_iff snapshot_def kept_def gone_obs_of [symmetric])
  then show "e \<in> set (snapshot c) \<Longrightarrow> live c (ekey e) = Some (obs_of e) \<and> payload_ok (epay e)"
    using w by (auto simp: wf_def snapshot_def kept_def)
  show "live c k = Some v \<Longrightarrow> k \<in> ekey ` set (snapshot c)" using l by auto
  show "length (snapshot c) = card (dom (live c))"
    using length_kept [OF sh] by (simp add: snapshot_def dom_def)
qed

lemma image_loaded:
  assumes w: "wf s c" and f: "\<forall>k v. live c k = Some v \<longrightarrow> entry_fits k v"
    and n: "card (dom (live c)) \<le> 10000000" and rdy: "ready s0 c0" and new: "live c0 = Map.empty"
  shows "\<exists>b c' t. rdb_image c = Some b \<and> rdb_load_image c0 b = (c', t, True) \<and>
    (\<exists>v m q. wr_u32 2 = Some v \<and> wr_u64 (card (dom (live c))) = Some m \<and> b = AURA_RDB_MAGIC @ v @ m @ q \<and>
       load_entries (load_one_v2 (now_ms c0)) (card (dom (live c))) c0 q (0, 0) = (c', t, Some [])) \<and>
    steps s0 (droppable c0) (dom (live c)) {} c0 c' \<and>
    (\<forall>k. loaded_as (now_ms c0) (live c k) (live c' k))"
proof -
  note sl = snapshot_live [OF w]
  let ?es = "snapshot c"
  have ef: "\<forall>e \<in> set ?es. entry_fits (ekey e) (obs_of e) \<and> payload_ok (epay e)" using sl(2) f by simp
  have "wr_all write_entry_v2 ?es \<noteq> None"
    using ef entry_written by (intro wr_all_written) blast
  then obtain q where q: "wr_all write_entry_v2 ?es = Some q" by blast
  obtain v m where vm: "wr_u32 2 = Some v" "wr_u64 (length ?es) = Some m" by (simp add: wr_u32_def wr_u64_def)
  have b: "rdb_image c = Some (AURA_RDB_MAGIC @ v @ m @ q)" by (simp add: image_eq wr_then_def vm q)
  obtain c' t where 1: "load_entries (load_one_v2 (now_ms c0)) (length ?es) c0 (q @ []) (0, 0) = (c', t, Some [])"
      "steps s0 (droppable c0) (ekey ` set ?es) {} c0 c'"
      "\<forall>e \<in> set ?es. loaded_as (now_ms c0) (Some (obs_of e)) (live c' (ekey e))"
      "\<forall>k. k \<notin> ekey ` set ?es \<longrightarrow> live c' k = live c0 k"
    using load_all_ok [OF sl(1) ef _ q rdy, of "[]" "(0, 0)"] new by auto
  have "rdb_load_image c0 (AURA_RDB_MAGIC @ v @ m @ q) = (c', t, True)"
    using header_read [OF _ vm] 1(1) n sl(4) by (simp add: rdb_load_image_def)
  moreover have "loaded_as (now_ms c0) (live c k) (live c' k)" for k
  proof (cases "live c k")
    case None
    then have "k \<notin> ekey ` set ?es" using sl(2) by force
    then show ?thesis using 1(4) new None by (simp add: loaded_as_def)
  next
    case (Some x)
    then obtain e where "e \<in> set ?es" "ekey e = k" using sl(3) by blast
    then show ?thesis using 1(3) sl(2) by auto
  qed
  moreover have "ekey ` set ?es = dom (live c)" using sl(2,3) by force
  ultimately show ?thesis using b 1(1,2) vm sl(4) by auto
qed

text \<open>More bytes behind those a loader used do not change what it did.\<close>

lemma elems_extend:
  assumes co: "codec enc rd fits"
  shows "load_elems rd put n c s = (c', Some r) \<Longrightarrow> load_elems rd put n c (s @ u) = (c', Some (r @ u))"
proof (induction n arbitrary: c s)
  case (Suc n)
  then obtain x s1 c1 where 1: "rd s = Some (x, s1)" "put c x = (c1, True)"
      "load_elems rd put n c1 s1 = (c', Some r)"
    by (auto split: option.splits prod.splits bool.splits)
  then show ?case using codec.extends [OF co 1(1)] Suc.IH [OF 1(3)] by simp
qed simp

lemma count_extend: "rd_count s = Some (n, r) \<Longrightarrow> rd_count (s @ u) = Some (n, r @ u)"
  using u32.extends [of s] by (auto simp: rd_count_def split: option.splits if_splits)

lemma typed_extend:
  assumes co: "codec enc rd fits" and r: "load_typed rd put k exp now c s t = (c', t', Some r)"
  shows "load_typed rd put k exp now c (s @ u) t = (c', t', Some (r @ u))"
proof -
  obtain n s1 c1 s2 where 1: "rd_count s = Some (n, s1)" "load_elems rd put n c s1 = (c1, Some s2)"
      "apply_expire_abs c1 k exp now = (c', True)" "s2 = r" "t' = (fst t + 1, snd t)"
    using r by (auto simp: load_typed_def split: option.splits prod.splits bool.splits)
  then show ?thesis using count_extend [OF 1(1)] elems_extend [OF co 1(2)] by (simp add: load_typed_def)
qed

lemma drain_extend:
  assumes co: "codec enc rd fits" and r: "drain rd s = Some r"
  shows "drain rd (s @ u) = Some (r @ u)"
proof -
  obtain n s1 xs where 1: "rd_count s = Some (n, s1)" "rd_times rd n s1 = Some (xs, r)"
    using r by (auto simp: drain_def split: option.splits)
  then show ?thesis using count_extend [OF 1(1)] codec.times_extend [OF co 1(2)] by (simp add: drain_def)
qed

lemma string_extend:
  "load_string k exp due c s t = (c', t', Some r) \<Longrightarrow> load_string k exp due c (s @ u) t = (c', t', Some (r @ u))"
  using blob.extends [of s] by (auto simp: load_string_def split: option.splits if_splits prod.splits bool.splits)

lemma payload_extend:
  assumes "load_payload ty k exp now c s t = (c', t', Some r)"
  shows "load_payload ty k exp now c (s @ u) t = (c', t', Some (r @ u))"
  using assms
  by (auto simp: load_payload_def Let_def drain_hash_payload_def drain_list_payload_def drain_zset_payload_def
      intro: string_extend typed_extend [OF field_codec] typed_extend [OF blob.codec_axioms]
        typed_extend [OF member_codec] drain_extend [OF field_codec] drain_extend [OF blob.codec_axioms]
        drain_extend [OF member_codec] split: if_splits)

lemma one_v2_extend:
  assumes "load_one_v2 now c s t = (c', t', Some r)"
  shows "load_one_v2 now c (s @ u) t = (c', t', Some (r @ u))"
proof -
  obtain ty s1 k s2 exp s3 where 1: "rd_u8 s = Some (ty, s1)" "rd_blob s1 = Some (k, s2)" "rd_u64 s2 = Some (exp, s3)"
      "load_payload ty k exp now c s3 t = (c', t', Some r)"
    using assms by (auto simp: load_one_v2_def split: option.splits)
  then show ?thesis
    using u8.extends [OF 1(1)] blob.extends [OF 1(2)] u64.extends [OF 1(3)] payload_extend [OF 1(4)]
    by (simp add: load_one_v2_def)
qed

lemma entries_extend:
  "load_entries (load_one_v2 now) n c s t = (c', t', Some r) \<Longrightarrow>
   load_entries (load_one_v2 now) n c (s @ u) t = (c', t', Some (r @ u))"
proof (induction n arbitrary: c s t)
  case (Suc n)
  then obtain c1 t1 s1 where 1: "load_one_v2 now c s t = (c1, t1, Some s1)"
      "load_entries (load_one_v2 now) n c1 s1 t1 = (c', t', Some r)"
    by (auto split: option.splits prod.splits)
  then show ?case using one_v2_extend [OF 1(1)] Suc.IH [OF 1(2)] by simp
qed simp

lemma header_extend: "rd_header s = Some (h, r) \<Longrightarrow> rd_header (s @ u) = Some (h, r @ u)"
  using fread_extends [of 8 s] u32.extends u64.extends
  by (auto simp: rd_header_def split: option.splits if_splits)

text \<open>A file cut short is never taken for complete.\<close>

lemma truncated:
  assumes w: "wf s c" and f: "\<forall>k v. live c k = Some v \<longrightarrow> entry_fits k v"
    and n: "card (dom (live c)) \<le> 10000000" and rdy: "ready s0 c0" and new: "live c0 = Map.empty"
    and b: "rdb_image c = Some (p @ u)" "u \<noteq> []" and r: "rdb_load_image c0 p = (c', t, ok)"
  shows "\<not> ok"
proof
  assume ok: "ok"
  obtain v m q c1 t1 where 1: "wr_u32 2 = Some v" "wr_u64 (card (dom (live c))) = Some m" "p @ u = AURA_RDB_MAGIC @ v @ m @ q"
      "load_entries (load_one_v2 (now_ms c0)) (card (dom (live c))) c0 q (0, 0) = (c1, t1, Some [])"
    using image_loaded [OF w f n rdy new] b(1) by auto
  obtain ver k s1 where 2: "rd_header p = Some ((ver, k), s1)"
      "\<exists>r. load_entries (if ver = 1 then load_one_v1 (now_ms c0) else load_one_v2 (now_ms c0)) k c0 s1 (0, 0) = (c', t, Some r)"
    using r ok by (auto simp: rdb_load_image_def split: option.splits prod.splits)
  have "rd_header (p @ u) = Some ((2, card (dom (live c))), q)"
    using header_read [OF n 1(1,2)] 1(3) by simp
  then have h: "ver = 2" "k = card (dom (live c))" "s1 @ u = q" using header_extend [OF 2(1), of u] by auto
  obtain r where "load_entries (load_one_v2 (now_ms c0)) k c0 s1 (0, 0) = (c', t, Some r)" using 2(2) h(1) by auto
  then have "load_entries (load_one_v2 (now_ms c0)) k c0 (s1 @ u) (0, 0) = (c', t, Some (r @ u))"
    by (rule entries_extend)
  then show False using 1(4) h b(2) by simp
qed

section \<open>Files, SAVE and BGSAVE\<close>

text \<open>
  The host: the files, whether the calls on them succeed, the process id and the wall clock. \<open>fwrite\<close>, \<open>fflush\<close> and \<open>fclose\<close> share one flag.
\<close>

record host =
  files :: "bytes \<Rightarrow> bytes option"
  open_ok :: bool
  write_ok :: bool
  rename_ok :: bool
  host_pid :: nat
  unix_now :: nat

definition ar_core_rdb_dir :: "rdb \<Rightarrow> bytes" where
  "ar_core_rdb_dir r = (if rdb_dir r \<noteq> [] then rdb_dir r else ''.'')"

definition ar_core_rdb_filename :: "rdb \<Rightarrow> bytes" where
  "ar_core_rdb_filename r = (if rdb_filename r \<noteq> [] then rdb_filename r else ''dump.aura-rdb'')"

text \<open>The names are C strings: no NUL byte inside.\<close>

definition ar_core_set_rdb_dir :: "rdb \<Rightarrow> bytes \<Rightarrow> rdb \<times> bool" where
  "ar_core_set_rdb_dir r dir =
     (if dir = [] then (r, False)
      else if length dir \<ge> 256 then (r, False)
      else (r\<lparr> rdb_dir := dir \<rparr>, True))"

definition ar_core_set_rdb_filename :: "rdb \<Rightarrow> bytes \<Rightarrow> rdb \<times> bool" where
  "ar_core_set_rdb_filename r name =
     (if name = [] then (r, False)
      else if CHR ''/'' \<in> set name \<or> CHR 0x5C \<in> set name then (r, False)
      else if length name \<ge> 128 then (r, False)
      else (r\<lparr> rdb_filename := name \<rparr>, True))"

definition ar_rdb_build_path :: "rdb \<Rightarrow> nat \<Rightarrow> bytes option" where
  "ar_rdb_build_path r outsz =
     (if outsz < 4 then None
      else let p = ar_core_rdb_dir r @ ''/'' @ ar_core_rdb_filename r
           in if length p < outsz then Some p else None)"

definition ar_rdb_save_to_path :: "host \<Rightarrow> core \<Rightarrow> bytes \<Rightarrow> host \<times> bool" where
  "ar_rdb_save_to_path h c path =
     (let tmp = path @ ''.tmp.'' @ show_nat (host_pid h)
      in if length tmp \<ge> 640 then (h, False)
         else if \<not> open_ok h then (h, False)
         else case (if write_ok h then rdb_image c else None) of
                None \<Rightarrow> (h\<lparr> files := (files h)(tmp := None) \<rparr>, False)
              | Some img \<Rightarrow>
                  if \<not> rename_ok h then (h\<lparr> files := (files h)(tmp := None) \<rparr>, False)
                  else (h\<lparr> files := (files h)(tmp := None, path \<mapsto> img) \<rparr>, True))"

definition ar_rdb_save :: "host \<Rightarrow> rdb \<Rightarrow> core \<Rightarrow> host \<times> rdb \<times> bool" where
  "ar_rdb_save h r c =
     (case ar_rdb_build_path r 512 of
        None \<Rightarrow> (h, r, False)
      | Some path \<Rightarrow>
          (case ar_rdb_save_to_path h c path of
             (h, False) \<Rightarrow> (h, r, False)
           | (h, True) \<Rightarrow> (h, r\<lparr> rdb_last_save_time := unix_now h, rdb_last_bgsave_ok := True \<rparr>, True)))"

text \<open>\<open>waitpid\<close> with \<open>WNOHANG\<close>, as the code tells its answers apart, and \<open>fork\<close> in the parent.\<close>

datatype wait_result = StillRunning | Reaped bool | WaitFailed bool
datatype fork_result = ForkFailed | Child nat

definition reaped :: "nat \<Rightarrow> rdb \<Rightarrow> bool \<Rightarrow> rdb" where
  "reaped now r ok =
     (let r = r\<lparr> rdb_last_bgsave_ok := ok \<rparr>;
          r = (if ok then r\<lparr> rdb_last_save_time := now \<rparr> else r)
      in r\<lparr> rdb_bgsave_pid := 0 \<rparr>)"

definition ar_rdb_poll_bgsave :: "wait_result \<Rightarrow> nat \<Rightarrow> rdb \<Rightarrow> rdb" where
  "ar_rdb_poll_bgsave wr now r =
     (if rdb_bgsave_pid r = 0 then r
      else case wr of
             StillRunning \<Rightarrow> r
           | Reaped ok \<Rightarrow> reaped now r ok
           | WaitFailed eintr \<Rightarrow> if eintr then r else r\<lparr> rdb_bgsave_pid := 0, rdb_last_bgsave_ok := False \<rparr>)"

definition ar_rdb_wait_bgsave :: "bool \<Rightarrow> nat \<Rightarrow> rdb \<Rightarrow> rdb" where
  "ar_rdb_wait_bgsave ok now r = (if rdb_bgsave_pid r = 0 then r else reaped now r ok)"

definition ar_rdb_bgsave :: "wait_result \<Rightarrow> fork_result \<Rightarrow> host \<Rightarrow> rdb \<Rightarrow> core \<Rightarrow> host \<times> rdb \<times> int" where
  "ar_rdb_bgsave wr fk h r c =
     (let r = ar_rdb_poll_bgsave wr (unix_now h) r
      in if rdb_bgsave_pid r > 0 then (h, r, - 1)
         else case ar_rdb_build_path r 512 of
                None \<Rightarrow> (h, r, 0)
              | Some path \<Rightarrow>
                  (case fk of
                     ForkFailed \<Rightarrow> (case ar_rdb_save h r c of (h, r, ok) \<Rightarrow> (h, r, if ok then 1 else 0))
                   | Child pid \<Rightarrow> (h, r\<lparr> rdb_bgsave_pid := pid \<rparr>, 1)))"

definition ar_rdb_load :: "host \<Rightarrow> rdb \<Rightarrow> core \<Rightarrow> core \<times> rdb \<times> bool" where
  "ar_rdb_load h r c =
     (case ar_rdb_build_path r 512 of
        None \<Rightarrow> (c, r, False)
      | Some path \<Rightarrow>
          (case files h path of
             None \<Rightarrow> (c, r, True)
           | Some s \<Rightarrow>
               if \<not> open_ok h then (c, r, False)
               else (case rdb_load_image c s of (c, t, ok) \<Rightarrow> (c, r\<lparr> rdb_loading := False \<rparr>, ok))))"

text \<open>The snapshot file is replaced as a whole or not at all, and no other file but the temporary one changes.\<close>

lemma save_atomic:
  assumes "ar_rdb_save_to_path h c path = (h', ok)"
  shows "files h' path = (if ok then rdb_image c else files h path)" "ok \<Longrightarrow> rdb_image c \<noteq> None"
    "p \<noteq> path \<Longrightarrow> p \<noteq> path @ ''.tmp.'' @ show_nat (host_pid h) \<Longrightarrow> files h' p = files h p"
  using assms by (auto simp: ar_rdb_save_to_path_def Let_def split: if_splits option.splits)

lemma path_short:
  assumes "length (rdb_dir r) < 256" and "length (rdb_filename r) < 128"
  shows "ar_rdb_build_path r 512 = Some (ar_core_rdb_dir r @ ''/'' @ ar_core_rdb_filename r)"
  using assms by (simp add: ar_rdb_build_path_def ar_core_rdb_dir_def ar_core_rdb_filename_def Let_def)

text \<open>What SAVE wrote, a restart with the same directory and name loads.\<close>

lemma save_then_load:
  assumes w: "wf s c" and f: "\<forall>k v. live c k = Some v \<longrightarrow> entry_fits k v"
    and n: "card (dom (live c)) \<le> 10000000" and rdy: "ready s0 c0" and new: "live c0 = Map.empty"
    and sv: "ar_rdb_save h r c = (h', r', True)" and op: "open_ok h'" and ld: "ar_rdb_load h' r' c0 = (c', r'', ok)"
  shows "ok \<and> wf s0 c' \<and> (\<forall>k. loaded_as (now_ms c0) (live c k) (live c' k))"
proof -
  obtain path h1 where 1: "ar_rdb_build_path r 512 = Some path" "ar_rdb_save_to_path h c path = (h1, True)" "h' = h1"
      "r' = r\<lparr> rdb_last_save_time := unix_now h1, rdb_last_bgsave_ok := True \<rparr>"
    using sv by (auto simp: ar_rdb_save_def split: option.splits prod.splits bool.splits)
  have "ar_rdb_build_path r' 512 = ar_rdb_build_path r 512"
    by (simp add: 1(4) ar_rdb_build_path_def ar_core_rdb_dir_def ar_core_rdb_filename_def)
  then have p: "ar_rdb_build_path r' 512 = Some path" using 1(1) by simp
  have fl: "files h' path = rdb_image c" using save_atomic(1) [OF 1(2)] 1(3) by simp
  obtain b c1 t where 2: "rdb_image c = Some b" "rdb_load_image c0 b = (c1, t, True)"
      "steps s0 (droppable c0) (dom (live c)) {} c0 c1" "\<forall>k. loaded_as (now_ms c0) (live c k) (live c1 k)"
    using image_loaded [OF w f n rdy new] by blast
  have "c' = c1" "ok" using ld p fl 2(1,2) op by (auto simp: ar_rdb_load_def)
  then show ?thesis using 2(3,4) by (auto dest: stepsD)
qed

end
