(* ===== verification/EngineSpec.thy ===== *)
theory EngineSpec
  imports Sample Layout Rdb Resp
begin

text \<open>
  The promises of the engine under the commands: the glob matcher, the table layouts, eviction,
  active expiry, the snapshot file and the wire format.
\<close>


section \<open>Properties: the engine\<close>

text \<open>C17. The iterative glob matcher, which backtracks to the last star only, decides the same language as the recursive
  definition of globbing with \<open>*\<close> and \<open>?\<close>.\<close>

theorem glob_match_correct: "ar_glob_match pat str \<longleftrightarrow> glob pat str"
  by (simp only: ar_glob_match_eq)

text \<open>C18. Changing the layout of the tables, one table or hot and cold tiers, moves entries and nothing else: the books stay
  balanced, every key holds what it held, expired entries included, and the new layout is the one
  that was named.\<close>

theorem set_layout_moves_only:
  assumes "wf s c" and "ar_core_set_layout c name = (c', ok)"
  shows "wf s c' \<and> mset (ents c') = mset (ents c) \<and> view c' = view c \<and> conns c' = conns c \<and>
    (if ok then parse_layout_name name = Some (layout c') else layout c' = layout c)"
proof -
  note r = set_layout_relays [OF assms]
  show ?thesis
    using r(2,3) relays_steps [OF r(1) assms(1)] r(1) by (auto simp: relays_def dest: stepsD)
qed

theorem set_layout_moves_only_witness:
  "live (fst (ar_core_set_layout sample ''hot_cold'')) ''s'' = live sample ''s''"
proof -
  have "view (fst (ar_core_set_layout sample ''hot_cold'')) = view sample"
    and w: "mset (ents (fst (ar_core_set_layout sample ''hot_cold''))) = mset (ents sample)"
    using set_layout_moves_only [of exact sample "''hot_cold''" "fst (ar_core_set_layout sample ''hot_cold'')"
        "snd (ar_core_set_layout sample ''hot_cold'')"] by simp_all
  moreover have "now_ms (fst (ar_core_set_layout sample ''hot_cold'')) = now_ms sample"
  proof -
    obtain c' ok where r: "ar_core_set_layout sample ''hot_cold'' = (c', ok)" by fastforce
    have "env_of c' = env_of sample" using set_layout_relays(1) [OF _ r, of exact] by (simp add: relays_def)
    then show ?thesis by (simp add: r env_of_def)
  qed
  ultimately show ?thesis by (simp add: live_def)
qed

text \<open>C11. Eviction under a memory limit never touches a pinned key, except with the kernels that pick at random or in
  rotation, and never changes a value: what is live afterwards was live before, unchanged.\<close>

theorem eviction_spares_pinned:
  assumes "wf s c"
  shows "wf s (maybe_evict c) \<and>
    (\<forall>k v. live c k = Some v \<and> o_pin v \<and> evict c \<noteq> EvRandom \<and> evict c \<noteq> EvRr \<longrightarrow> live (maybe_evict c) k = Some v) \<and>
    (\<forall>k v. live (maybe_evict c) k = Some v \<longrightarrow> live c k = Some v) \<and>
    (maxmemory c = 0 \<longrightarrow> live (maybe_evict c) = live c)"
proof -
  have st: "steps s (droppable c) {} {} c (maybe_evict c)" using assms by (rule maybe_evict_steps)
  have "yields (maybe_evict c) (live c)"
    using yields_evo [OF yields_refl [OF refl] stepsD(2) [OF st]] .
  moreover have "droppable (maybe_evict c) = droppable c" by (rule droppable_env [OF steps_env [OF st]])
  ultimately have y: "live (maybe_evict c) k = live c k \<or> (\<exists>v. live c k = Some v \<and> droppable c v \<and> live (maybe_evict c) k = None)" for k
    by (simp add: yields_def)
  have "live (maybe_evict c) k = Some v" if "live c k = Some v" "o_pin v" "evict c \<noteq> EvRandom" "evict c \<noteq> EvRr" for k v
    using y [of k] that by (auto simp: droppable_def kernel_takes_def)
  moreover have "live c k = Some v" if "live (maybe_evict c) k = Some v" for k v using y [of k] that by auto
  moreover have "live (maybe_evict c) = live c" if "maxmemory c = 0"
    using y that by (auto simp: droppable_def fun_eq_iff)
  ultimately show ?thesis using stepsD(1) [OF st] by blast
qed

theorem eviction_spares_pinned_witness: "live (maybe_evict sample) ''s'' = Some (string_obs ''10'' 6000 False)"
  using eviction_spares_pinned [of exact sample] by simp






section \<open>Properties: the snapshot file\<close>

lemma tiny_fits: "\<forall>k v. live tiny k = Some v \<longrightarrow> entry_fits k v" "card (dom (live tiny)) \<le> 10000000"
  by (simp_all add: tiny_map entry_fits_def)
    (simp add: tiny_entry_def AURA_RDB_MAX_BLOB_def AURA_RDB_MAX_ELEMS_def)

lemma fresh_ready: "ready exact (core_with 1 1000 (\<lambda>_. 0))" "live (core_with 1 1000 (\<lambda>_. 0)) = Map.empty"
  by (simp_all add: ready_def wf_core_with)

text \<open>C8. A snapshot of a store whose keys and values are within the format's bounds, loaded into an empty store, restores
  every key that is still due to live: the same string, list, hash or sorted set, the string's exact
  deadline, other deadlines rounded up to whole seconds, no pins. Keys whose deadline has passed
  between saving and loading stay away, and the loader reads the file to its end.\<close>

theorem snapshot_restores:
  assumes "wf s c" and "\<forall>k v. live c k = Some v \<longrightarrow> entry_fits k v" and "card (dom (live c)) \<le> 10000000"
    and "ready s0 c0" and "live c0 = Map.empty"
  shows "\<exists>b c' t. rdb_image c = Some b \<and> rdb_load_image c0 b = (c', t, True) \<and> wf s0 c' \<and>
    (\<forall>k. loaded_as (now_ms c0) (live c k) (live c' k))"
  using image_loaded [OF assms] by (blast dest: stepsD)

theorem snapshot_restores_witness:
  "\<exists>b c' t. rdb_image tiny = Some b \<and> rdb_load_image (core_with 1 1000 (\<lambda>_. 0)) b = (c', t, True) \<and>
     hview (live c' ''h'') = [''f'' \<mapsto> ''1'', ''g'' \<mapsto> ''x'']"
proof -
  obtain b c' t where 1: "rdb_image tiny = Some b" "rdb_load_image (core_with 1 1000 (\<lambda>_. 0)) b = (c', t, True)"
      "\<forall>k. loaded_as 1000 (live tiny k) (live c' k)"
    using snapshot_restores [OF tiny_wf tiny_fits fresh_ready] by (auto simp: core_with_def)
  have "hmap (hash_of (epay tiny_entry)) = [''f'' \<mapsto> ''1'', ''g'' \<mapsto> ''x'']"
    by (auto simp: tiny_entry_def hmap_def hash_find_def ct_find_def fun_eq_iff)
  moreover have "loaded_as 1000 (live tiny ''h'') (live c' ''h'')" using 1(3) by blast
  ultimately have "hview (live c' ''h'') = [''f'' \<mapsto> ''1'', ''g'' \<mapsto> ''x'']"
    by (auto simp: loaded_as_def reloaded_def unexpired_def gone_def tiny_entry_def hview_def)
  with 1 show ?thesis by blast
qed

text \<open>C25. A snapshot that was cut short anywhere, before its last byte, is never accepted: the loader reports failure.\<close>

theorem cut_snapshot_refused:
  assumes "wf s c" and "\<forall>k v. live c k = Some v \<longrightarrow> entry_fits k v" and "card (dom (live c)) \<le> 10000000"
    and "ready s0 c0" and "live c0 = Map.empty" and "rdb_image c = Some (p @ u)" and "u \<noteq> []"
    and "rdb_load_image c0 p = (c', t, ok)"
  shows "\<not> ok"
  by (rule truncated [OF assms])

theorem cut_snapshot_refused_witness:
  "\<exists>p u. rdb_image tiny = Some (p @ u) \<and> \<not> snd (snd (rdb_load_image (core_with 1 1000 (\<lambda>_. 0)) p))"
proof -
  obtain v m q where b: "rdb_image tiny = Some (AURA_RDB_MAGIC @ v @ m @ q)"
    using image_loaded [OF tiny_wf tiny_fits fresh_ready] by blast
  then have "rdb_image tiny = Some ([] @ AURA_RDB_MAGIC @ v @ m @ q)" by simp
  moreover have "AURA_RDB_MAGIC @ v @ m @ q \<noteq> []" by (simp add: AURA_RDB_MAGIC_def)
  moreover obtain c' t ok where r: "rdb_load_image (core_with 1 1000 (\<lambda>_. 0)) [] = (c', t, ok)" using prod_cases3 by blast
  ultimately have "\<not> ok" using cut_snapshot_refused [OF tiny_wf tiny_fits fresh_ready] by blast
  with b r show ?thesis by (intro exI [where x = "[]"] exI [where x = "AURA_RDB_MAGIC @ v @ m @ q"]) simp
qed

text \<open>C28. SAVE is atomic: the snapshot file is replaced by the whole new image or stays as it was, whatever of opening,
  writing and renaming fails; and no other file changes but the temporary one.\<close>

theorem save_is_atomic:
  assumes "ar_rdb_save_to_path h c path = (h', ok)"
  shows "(if ok then rdb_image c \<noteq> None \<and> files h' path = rdb_image c else files h' path = files h path) \<and>
    (\<forall>p. p \<noteq> path \<and> p \<noteq> path @ ''.tmp.'' @ show_nat (host_pid h) \<longrightarrow> files h' p = files h p)"
  using save_atomic [OF assms] by auto

theorem save_is_atomic_witness:
  "let h = \<lparr> files = [''/d/x'' \<mapsto> ''old''], open_ok = True, write_ok = True, rename_ok = False, host_pid = 7, unix_now = 0 \<rparr>
   in files (fst (ar_rdb_save_to_path h tiny ''/d/x'')) ''/d/x'' = Some ''old''"
proof -
  let ?h = "\<lparr> files = [''/d/x'' \<mapsto> ''old''], open_ok = True, write_ok = True, rename_ok = False, host_pid = 7, unix_now = 0 \<rparr>"
  obtain h' ok where r: "ar_rdb_save_to_path ?h tiny ''/d/x'' = (h', ok)" by fastforce
  then have "\<not> ok" by (auto simp: ar_rdb_save_to_path_def Let_def split: if_splits option.splits)
  then show ?thesis using save_is_atomic [OF r] r by (simp add: Let_def)
qed

text \<open>C29. SAVE followed by a restart that loads the file: the load succeeds and the new process serves the same keys.\<close>

theorem save_then_restart:
  assumes "wf s c" and "\<forall>k v. live c k = Some v \<longrightarrow> entry_fits k v" and "card (dom (live c)) \<le> 10000000"
    and "ready s0 c0" and "live c0 = Map.empty"
    and "ar_rdb_save h r c = (h', r', True)" and "open_ok h'" and "ar_rdb_load h' r' c0 = (c', r'', ok)"
  shows "ok \<and> wf s0 c' \<and> (\<forall>k. loaded_as (now_ms c0) (live c k) (live c' k))"
  by (rule save_then_load [OF assms])

theorem save_then_restart_witness:
  "\<exists>h r h' r'. ar_rdb_save h r tiny = (h', r', True) \<and>
     snd (snd (ar_rdb_load h' r' (core_with 1 1000 (\<lambda>_. 0))))"
proof -
  let ?h = "\<lparr> files = Map.empty, open_ok = True, write_ok = True, rename_ok = True, host_pid = 7, unix_now = 5 \<rparr>"
  obtain img where img: "rdb_image tiny = Some img"
    using image_loaded [OF tiny_wf tiny_fits fresh_ready] by blast
  define r where "r = rdb0"
  have p: "ar_rdb_build_path r 512 = Some ''./dump.aura-rdb''"
    by (simp add: r_def rdb0_def ar_rdb_build_path_def ar_core_rdb_dir_def ar_core_rdb_filename_def)
  have t: "length (show_nat 7) = 1" by code_simp
  obtain h' where h': "ar_rdb_save ?h r tiny = (h', r\<lparr> rdb_last_save_time := 5, rdb_last_bgsave_ok := True \<rparr>, True)" "open_ok h'"
    by (auto simp: ar_rdb_save_def p ar_rdb_save_to_path_def img Let_def t)
  obtain c' r'' ok where l: "ar_rdb_load h' (r\<lparr> rdb_last_save_time := 5, rdb_last_bgsave_ok := True \<rparr>) (core_with 1 1000 (\<lambda>_. 0)) = (c', r'', ok)"
    using prod_cases3 by blast
  show ?thesis using save_then_restart [OF tiny_wf tiny_fits fresh_ready h' l] h' l by (metis snd_conv)
qed


section \<open>Properties: the wire\<close>

text \<open>C27. What a client or a master writes for a command, \<open>parse_command\<close> reads back, whatever follows it: up to 64
  arguments of up to 16 MiB each, any bytes.\<close>

theorem command_round_trip:
  assumes "sendable argv"
  shows "parse_command (resp_array argv @ s) = Parsed argv s"
  using assms parse_command_print [of argv s] by (simp add: sendable_def)

theorem command_round_trip_witness:
  "parse_command (resp_array [''SET'', ''k'', [CHR 0x0D, CHR 0x0A, CHR 0x00]] @ ''x'') =
     Parsed [''SET'', ''k'', [CHR 0x0D, CHR 0x0A, CHR 0x00]] ''x''"
  by (rule command_round_trip) (simp add: sendable_def AR_MAX_ARGV_def BULK_MAX_def)

text \<open>Pipelining: a stream of commands is read back command by command, in order, with what follows untouched.\<close>

lemma pipeline_round_trip:
  assumes "\<forall>argv \<in> set cmds. sendable argv"
  shows "rd_times dec_command (length cmds) (concat (map resp_array cmds) @ s) = Some (cmds, s)"
proof -
  have "wr_all (\<lambda>argv. Some (resp_array argv)) cmds = Some (concat (map resp_array cmds))"
    by (induction cmds) simp_all
  then show ?thesis using wire.all_read_back assms by blast
qed

text \<open>C39. The bounds of the parser: a command it accepts has at most 64 arguments of at most 16 MiB, used up at least one
  byte, and would be accepted the same with more input behind it.\<close>

theorem parser_bounds:
  assumes "parse_command s = Parsed argv r"
  shows "length argv \<le> AR_MAX_ARGV \<and> (\<forall>p \<in> set argv. length p \<le> BULK_MAX) \<and> length r < length s \<and>
    parse_command (s @ u) = Parsed argv (r @ u)"
  using parse_command_Parsed [OF assms] by blast

theorem parser_bounds_witness:
  "parse_command (resp_array [''PING''] @ ''tail'') = Parsed [''PING''] ''tail''"
proof -
  have "parse_command (resp_array [''PING''] @ []) = Parsed [''PING''] []"
    using parse_command_print [of "[''PING'']" "[]"] by (simp add: AR_MAX_ARGV_def BULK_MAX_def)
  then show ?thesis using parser_bounds [of "resp_array [''PING'']" "[''PING'']" "[]" "''tail''"] by simp
qed



end
