(* ===== verification/Conns.thy ===== *)
theory Conns
  imports Handlers Layout
begin

text \<open>
  The connections of \<open>ar_server.c\<close>: resetting and allocating a slot, the output buffer, WATCH and MULTI
  state, publish and subscribe, replication to the replicas and the full synchronisation, and the
  slow log. A connection is its index in \<open>conns\<close>; \<open>wbuf\<close> holds the output not yet sent, to which every
  reply is appended. Output buffers always grow; whether write interest is
  armed in \<open>epoll\<close> is not kept.
\<close>

definition AR_MULTI_MAX :: nat where "AR_MULTI_MAX = 128"
definition AR_MULTI_ARGV :: nat where "AR_MULTI_ARGV = 32"
definition AR_PUBSUB_MAX :: nat where "AR_PUBSUB_MAX = 64"
definition AR_WATCH_MAX :: nat where "AR_WATCH_MAX = 64"
definition AR_SLOWLOG_ARGV :: nat where "AR_SLOWLOG_ARGV = 8"
definition AR_SLOWLOG_ARG_LEN :: nat where "AR_SLOWLOG_ARG_LEN = 48"


section \<open>Connection slots\<close>

definition upd_conn :: "nat \<Rightarrow> (conn \<Rightarrow> conn) \<Rightarrow> core \<Rightarrow> core" where
  "upd_conn i f c = c\<lparr> conns := (conns c)[i := f (conns c ! i)] \<rparr>"

definition put_out :: "bytes \<Rightarrow> conn \<Rightarrow> conn" where
  "put_out b x = x\<lparr> wbuf := wbuf x @ b \<rparr>"

definition reply :: "nat \<Rightarrow> bytes \<Rightarrow> core \<Rightarrow> core" where
  "reply i b c = upd_conn i (put_out b) c"

definition multi_clear :: "conn \<Rightarrow> conn" where
  "multi_clear x = x\<lparr> multi_q := [], in_multi := False \<rparr>"

definition watch_clear :: "conn \<Rightarrow> conn" where
  "watch_clear x = x\<lparr> watch_keys := [], watch_dirty := False \<rparr>"

definition pubsub_clear :: "conn \<Rightarrow> conn" where
  "pubsub_clear x = x\<lparr> sub_channels := [], pubsub_mode := False \<rparr>"

definition conn_reset :: "conn \<Rightarrow> conn" where
  "conn_reset x =
     (pubsub_clear (watch_clear (multi_clear x)))
       \<lparr> in_use := False, rbuf := [], wbuf := [], should_close := False, authenticated := False,
         is_replica := False, is_master_link := False, client_id := 0, peer_addr := [], conn_name := [],
         ctime_ms := 0, last_cmd := [], is_tls := False, ssl_hs_done := False \<rparr>"

definition has_pass :: "server \<Rightarrow> bool" where
  "has_pass s = (case requirepass s of None \<Rightarrow> False | Some p \<Rightarrow> p \<noteq> [])"

definition conn_alloc :: "core \<Rightarrow> core \<times> nat option" where
  "conn_alloc c =
     (case find (\<lambda>i. \<not> in_use (conns c ! i)) [0..<length (conns c)] of
        None \<Rightarrow> (c, None)
      | Some i \<Rightarrow>
          if \<not> alloc_ok c then (c, None)
          else (upd_conn i (\<lambda>x. let x = (conn_reset x)\<lparr> in_use := True, last_active_ms := now_ms c \<rparr>
                                in if has_pass (srv c) then x else x\<lparr> authenticated := True \<rparr>) c, Some i))"

definition conn_close :: "nat \<Rightarrow> core \<Rightarrow> core" where
  "conn_close i c = (if in_use (conns c ! i) then upd_conn i conn_reset c else c)"

definition connected_clients :: "core \<Rightarrow> nat" where
  "connected_clients c = length (filter in_use (conns c))"

text \<open>The first idle client is closed, then the next, over all slots.\<close>

definition idle :: "core \<Rightarrow> conn \<Rightarrow> bool" where
  "idle c x = (in_use x \<and> \<not> (is_replica x \<or> is_master_link x) \<and>
     last_active_ms x \<noteq> 0 \<and> now_ms c > last_active_ms x \<and>
     now_ms c - last_active_ms x \<ge> nat (timeout_sec (srv c)) * 1000)"

definition close_idle_clients :: "core \<Rightarrow> core" where
  "close_idle_clients c =
     (if timeout_sec (srv c) \<le> 0 then c
      else foldl (\<lambda>c i. if idle c (conns c ! i) then conn_close i c else c) c [0..<length (conns c)])"

definition note_last_cmd :: "bytes \<Rightarrow> conn \<Rightarrow> conn" where
  "note_last_cmd cmd x = x\<lparr> last_cmd := map lower (take 47 cmd) \<rparr>"


section \<open>Publish and subscribe\<close>

definition conn_subscribed :: "conn \<Rightarrow> bytes \<Rightarrow> bool" where
  "conn_subscribed x ch = (ch \<in> set (sub_channels x))"

text \<open>The number of subscriptions afterwards; \<open>None\<close> stands for -1.\<close>

definition conn_add_sub :: "bool \<Rightarrow> conn \<Rightarrow> bytes \<Rightarrow> conn \<times> nat option" where
  "conn_add_sub a x ch =
     (if conn_subscribed x ch then (x, Some (length (sub_channels x)))
      else if length (sub_channels x) \<ge> AR_PUBSUB_MAX then (x, None)
      else if \<not> a then (x, None)
      else let x = x\<lparr> sub_channels := sub_channels x @ [ch], pubsub_mode := True \<rparr>
           in (x, Some (length (sub_channels x))))"

definition conn_del_sub :: "conn \<Rightarrow> bytes \<Rightarrow> conn \<times> nat" where
  "conn_del_sub x ch =
     (if ch \<in> set (sub_channels x)
      then let x = x\<lparr> sub_channels := remove1 ch (sub_channels x) \<rparr>;
               x = (if sub_channels x = [] then x\<lparr> pubsub_mode := False \<rparr> else x)
           in (x, length (sub_channels x))
      else (x, length (sub_channels x)))"

definition reply_pubsub_msg :: "bytes \<Rightarrow> bytes \<Rightarrow> nat \<Rightarrow> bytes" where
  "reply_pubsub_msg kind ch n = resp_append_array_hdr 3 @ resp_append_bulk kind @ resp_append_bulk ch @ reply_int (int n)"

definition pubsub_message :: "bytes \<Rightarrow> bytes \<Rightarrow> bytes" where
  "pubsub_message ch msg =
     resp_append_array_hdr 3 @ resp_append_bulk ''message'' @ resp_append_bulk ch @ resp_append_bulk msg"

definition receives :: "bytes \<Rightarrow> conn \<Rightarrow> bool" where
  "receives ch x = (in_use x \<and> pubsub_mode x \<and> conn_subscribed x ch)"

definition publish_local :: "core \<Rightarrow> bytes \<Rightarrow> bytes \<Rightarrow> core \<times> nat" where
  "publish_local c ch msg =
     (c\<lparr> conns := map (\<lambda>x. if receives ch x then put_out (pubsub_message ch msg) x else x) (conns c) \<rparr>,
      length (filter (receives ch) (conns c)))"

fun subscribe_loop :: "nat \<Rightarrow> core \<Rightarrow> bytes list \<Rightarrow> core" where
  "subscribe_loop i c [] = c"
| "subscribe_loop i c (ch # chs) =
     (case conn_add_sub (alloc_ok c) (conns c ! i) ch of
        (x, None) \<Rightarrow> reply i (reply_err ''ERR subscribe failed'') c
      | (x, Some n) \<Rightarrow> subscribe_loop i (reply i (reply_pubsub_msg ''subscribe'' ch n) (upd_conn i (\<lambda>_. x) c)) chs)"

fun unsubscribe_loop :: "nat \<Rightarrow> core \<Rightarrow> bytes list \<Rightarrow> core" where
  "unsubscribe_loop i c [] = c"
| "unsubscribe_loop i c (ch # chs) =
     (case conn_del_sub (conns c ! i) ch of
        (x, n) \<Rightarrow> unsubscribe_loop i (reply i (reply_pubsub_msg ''unsubscribe'' ch n) (upd_conn i (\<lambda>_. x) c)) chs)"

text \<open>UNSUBSCRIBE of everything takes the first channel until none is left; the name in the reply is a copy
  that is empty when it cannot be allocated.\<close>

fun unsubscribe_all :: "nat \<Rightarrow> nat \<Rightarrow> core \<Rightarrow> core" where
  "unsubscribe_all 0 i c = c"
| "unsubscribe_all (Suc fuel) i c =
     (case sub_channels (conns c ! i) of
        [] \<Rightarrow> c
      | ch # _ \<Rightarrow>
          (case conn_del_sub (conns c ! i) ch of
             (x, n) \<Rightarrow> unsubscribe_all fuel i
               (reply i (reply_pubsub_msg ''unsubscribe'' (if alloc_ok c then ch else []) n) (upd_conn i (\<lambda>_. x) c))))"


section \<open>Replication\<close>

text \<open>A command that changed the store goes to every replica in the encoding of a client.\<close>

definition repl_propagate :: "core \<Rightarrow> bytes list \<Rightarrow> core" where
  "repl_propagate c argv =
     (if argv = [] then c
      else if repl_readonly (srv c) \<or> repl_applying (srv c) then c
      else c\<lparr> conns := map (\<lambda>x. if in_use x \<and> is_replica x then put_out (resp_array argv) x else x) (conns c) \<rparr>)"

definition ttl_seconds :: "nat \<Rightarrow> nat \<Rightarrow> nat" where
  "ttl_seconds x now = u64 (u64_sub x now + 999) div 1000"

definition repl_emit_expire :: "entry \<Rightarrow> nat \<Rightarrow> bytes" where
  "repl_emit_expire e now =
     (if expire_at e = 0 then []
      else let t = ttl_seconds (expire_at e) now
           in if t = 0 then []
              else resp_append_array_hdr 3 @ resp_append_bulk ''EXPIRE'' @ resp_append_bulk (ekey e) @
                   resp_append_bulk (show_nat t))"

definition repl_sync_string :: "entry \<Rightarrow> bytes \<Rightarrow> nat \<Rightarrow> bytes" where
  "repl_sync_string e v now =
     (if expire_at e \<noteq> 0 \<and> ttl_seconds (expire_at e) now = 0 then []
      else if expire_at e \<noteq> 0 then
        resp_append_array_hdr 5 @ resp_append_bulk ''SET'' @ resp_append_bulk (ekey e) @ resp_append_bulk v @
        resp_append_bulk ''EX'' @ resp_append_bulk (show_nat (ttl_seconds (expire_at e) now))
      else resp_append_array_hdr 3 @ resp_append_bulk ''SET'' @ resp_append_bulk (ekey e) @ resp_append_bulk v)"

definition repl_sync_hash :: "entry \<Rightarrow> arhash \<Rightarrow> nat \<Rightarrow> bytes" where
  "repl_sync_hash e h now =
     (if h_nfields h = 0 then []
      else resp_append_array_hdr (s32 (2 + s32 (int (h_nfields h)) * 2)) @ resp_append_bulk ''HSET'' @ resp_append_bulk (ekey e) @
           concat (map (\<lambda>f. resp_append_bulk (hf_field f) @ resp_append_bulk (hf_val f)) (concat (h_buckets h))) @
           repl_emit_expire e now)"

definition repl_sync_list :: "entry \<Rightarrow> bytes list \<Rightarrow> nat \<Rightarrow> bytes" where
  "repl_sync_list e l now =
     (if l = [] then []
      else resp_append_array_hdr (s32 (2 + s32 (int (length l)))) @ resp_append_bulk ''RPUSH'' @ resp_append_bulk (ekey e) @
           concat (map resp_append_bulk l) @ repl_emit_expire e now)"

definition repl_sync_zset :: "libc \<Rightarrow> entry \<Rightarrow> arzset \<Rightarrow> nat \<Rightarrow> bytes" where
  "repl_sync_zset lib e z now =
     (if z_arr z = [] then []
      else resp_append_array_hdr (s32 (2 + s32 (int (length (z_arr z))) * 2)) @ resp_append_bulk ''ZADD'' @ resp_append_bulk (ekey e) @
           concat (map (\<lambda>x. resp_append_bulk (snd lib (z_score x)) @ resp_append_bulk (z_member x)) (z_arr z)) @
           repl_emit_expire e now)"

definition repl_sync_entry :: "libc \<Rightarrow> nat \<Rightarrow> entry \<Rightarrow> bytes" where
  "repl_sync_entry lib now e =
     (if expire_at e \<noteq> 0 \<and> now \<ge> expire_at e then []
      else case epay e of
             PStr v \<Rightarrow> repl_sync_string e v now
           | PHash h \<Rightarrow> repl_sync_hash e h now
           | PList l \<Rightarrow> repl_sync_list e l now
           | PZset z \<Rightarrow> repl_sync_zset lib e z now)"

definition repl_fullsync :: "libc \<Rightarrow> core \<Rightarrow> nat \<Rightarrow> core" where
  "repl_fullsync lib c i =
     reply i (concat (map (repl_sync_entry lib (now_ms c)) (concat (buckets c) @ concat (cold_buckets c)))) c"

definition repl_close_master_links :: "core \<Rightarrow> core" where
  "repl_close_master_links c =
     c\<lparr> conns := map (\<lambda>x. if in_use x \<and> is_master_link x then conn_reset x else x) (conns c) \<rparr>"


section \<open>The slow log\<close>

definition slowlog_push :: "nat \<Rightarrow> nat \<Rightarrow> bytes list \<Rightarrow> server \<Rightarrow> server" where
  "slowlog_push unix us argv s =
     (if slowlog_max_len s = 0 then s
      else let maxl = (if slowlog_max_len s > AR_SLOWLOG_MAX then AR_SLOWLOG_MAX else slowlog_max_len s);
               e = \<lparr> sl_id = slowlog_next_id s, sl_unix_ts = unix, sl_duration_us = us,
                     sl_args = map (take (AR_SLOWLOG_ARG_LEN - 1)) (take AR_SLOWLOG_ARGV argv) \<rparr>
           in s\<lparr> slowlog := (slowlog s)[slowlog_head s := e], slowlog_next_id := u64 (slowlog_next_id s + 1),
                 slowlog_head := (slowlog_head s + 1) mod maxl,
                 slowlog_len := (if slowlog_len s < maxl then slowlog_len s + 1 else slowlog_len s) \<rparr>)"

definition note_cmd_latency :: "nat \<Rightarrow> nat \<Rightarrow> bytes list \<Rightarrow> server \<Rightarrow> server" where
  "note_cmd_latency unix us argv s =
     (let s = s\<lparr> cmd_latency_sum_us := cmd_latency_sum_us s + us, cmd_latency_samples := cmd_latency_samples s + 1 \<rparr>;
          s = (if us < 1000 then s\<lparr> cmd_lt_1ms := cmd_lt_1ms s + 1 \<rparr>
               else if us < 10000 then s\<lparr> cmd_lt_10ms := cmd_lt_10ms s + 1 \<rparr>
               else if us < 100000 then s\<lparr> cmd_lt_100ms := cmd_lt_100ms s + 1 \<rparr>
               else s\<lparr> cmd_ge_100ms := cmd_ge_100ms s + 1 \<rparr>)
      in if slowlog_slower_than_us s \<ge> 0 \<and> us \<ge> nat (slowlog_slower_than_us s) then
           let s = s\<lparr> slowlog_count := slowlog_count s + 1 \<rparr>
           in if argv \<noteq> [] \<and> \<not> cmd_eq (argv ! 0) ''slowlog'' then slowlog_push unix us argv s else s
         else s)"

text \<open>SLOWLOG GET reads the ring backwards from the head.\<close>

definition slowlog_entry :: "server \<Rightarrow> nat \<Rightarrow> slow_entry" where
  "slowlog_entry s i =
     (let maxl = (if slowlog_max_len s = 0 \<or> slowlog_max_len s > AR_SLOWLOG_MAX then AR_SLOWLOG_MAX else slowlog_max_len s);
          idx = (int (slowlog_head s) - 1 - int i) mod int maxl
      in slowlog s ! nat idx)"

definition slowlog_print :: "slow_entry \<Rightarrow> bytes" where
  "slowlog_print e =
     array_of 4 (reply_int (s64 (int (sl_id e))) @ reply_int (int (sl_unix_ts e)) @ reply_int (s64 (int (sl_duration_us e))) @
       array_of (length (sl_args e)) (bulks (sl_args e)))"

text \<open>\<open>strtoll\<close> with the end checked but not that it read anything, so that a leading NUL counts as 0.\<close>

definition want_arg :: "bytes \<Rightarrow> int option" where
  "want_arg p = (if p = [] \<or> length p \<ge> 32 then None
     else if cstr p = [] then Some 0
     else case strtoll_all p of None \<Rightarrow> None | Some v \<Rightarrow> if v < 0 then None else Some v)"

definition slowlog_get :: "server \<Rightarrow> nat \<Rightarrow> bytes" where
  "slowlog_get s want = array_of want (concat (map (\<lambda>i. slowlog_print (slowlog_entry s i)) [0..<want]))"

definition cmd_slowlog :: "nat \<Rightarrow> core \<Rightarrow> bytes list \<Rightarrow> core" where
  "cmd_slowlog i c argv =
     (if length argv < 2 then reply i (wrong_args ''slowlog'') c
      else if cmd_eq (argv ! 1) ''len'' then
        (if length argv \<noteq> 2 then reply i (wrong_args ''slowlog'') c
         else reply i (reply_int (int (slowlog_len (srv c)))) c)
      else if cmd_eq (argv ! 1) ''reset'' then
        (if length argv \<noteq> 2 then reply i (wrong_args ''slowlog'') c
         else reply i reply_ok (c\<lparr> srv := (srv c)\<lparr> slowlog_len := 0, slowlog_head := 0 \<rparr> \<rparr>))
      else if cmd_eq (argv ! 1) ''get'' then
        (if length argv = 3 then
           (case want_arg (argv ! 2) of
              None \<Rightarrow> reply i not_int c
            | Some n \<Rightarrow> reply i (slowlog_get (srv c) (min (nat n) (slowlog_len (srv c)))) c)
         else if length argv \<noteq> 2 then reply i (wrong_args ''slowlog'') c
         else reply i (slowlog_get (srv c) (slowlog_len (srv c))) c)
      else reply i (reply_err (''ERR unknown subcommand for '' @ quoted ''slowlog'')) c)"

end
