(* ===== verification/Control.thy ===== *)
theory Control
  imports Conns Rdb
begin

text \<open>
  The control commands of \<open>ar_server.c\<close> and the setters of \<open>ar_core.c\<close> they call: EVICT, LAYOUT, PIN,
  UNPIN, HOTCOLD, SHADOW, POLICY, CLIENT and REPLICAOF. What the server needs of the outside is in
  \<open>server_env\<close>: the C library, the descriptor numbers, whether a master can be reached, how calls on files,
  \<open>waitpid\<close>, \<open>fork\<close> and \<open>dlopen\<close> end at a point of the run (a plugin is one of the kernels of this repository),
  the variable AURA_REDIS_DENY_PLUGIN and the time a command takes.
\<close>

record server_env =
  lib :: libc
  fd_of :: "core \<Rightarrow> nat \<Rightarrow> int"
  connects :: "core \<Rightarrow> bytes \<Rightarrow> int \<Rightarrow> bool"
  machine :: "core \<Rightarrow> host"
  waited :: "core \<Rightarrow> wait_result"
  forked :: "core \<Rightarrow> fork_result"
  plugin_at :: "bytes \<Rightarrow> evict_ops option"
  deny_plugin :: "bytes option"
  took_us :: "core \<Rightarrow> bytes list \<Rightarrow> nat"

text \<open>An argument copied into a buffer of \<open>n\<close> bytes, refused or cut when it does not fit.\<close>

definition name_arg :: "nat \<Rightarrow> bytes \<Rightarrow> bytes option" where
  "name_arg n p = (if p = [] \<or> length p \<ge> n then None else Some (cstr p))"

definition cut_arg :: "nat \<Rightarrow> bytes \<Rightarrow> bytes" where
  "cut_arg n p = cstr (take (n - 1) p)"


section \<open>Eviction, layout and pins\<close>

definition ar_core_evict_name :: "core \<Rightarrow> bytes" where
  "ar_core_evict_name c =
     (case evict c of EvNoop \<Rightarrow> ''noop'' | EvLru \<Rightarrow> ''lru'' | EvLfu \<Rightarrow> ''lfu'' | EvTtl \<Rightarrow> ''ttl_aware''
      | EvSlru \<Rightarrow> ''slru'' | EvTinylfu \<Rightarrow> ''tinylfu'' | EvRandom \<Rightarrow> ''random'' | EvRr \<Rightarrow> ''rr'')"

definition bad_evict :: bytes where
  "bad_evict = reply_err ''ERR bad evict (want noop|lru|lfu|ttl_aware|slru|tinylfu)''"

definition cmd_evict :: "nat \<Rightarrow> core \<Rightarrow> bytes list \<Rightarrow> core" where
  "cmd_evict i c argv =
     (if length argv = 1 then reply i (reply_bulk (ar_core_evict_name c)) c
      else if length argv = 2 then
        (case name_arg 64 (argv ! 1) of
           None \<Rightarrow> reply i bad_evict c
         | Some nm \<Rightarrow>
             (case ar_core_set_evict_by_name c nm of
                (c, ok) \<Rightarrow> reply i (if ok then reply_ok else bad_evict) c))
      else if length argv = 3 \<and> cmd_eq (argv ! 1) ''samples'' then
        (case name_arg 32 (argv ! 2) of
           None \<Rightarrow> reply i (reply_err ''ERR bad samples'') c
         | Some n \<Rightarrow> reply i reply_ok (ar_core_set_evict_samples c (atoi n)))
      else reply i (wrong_args ''evict'') c)"

definition bad_layout :: bytes where
  "bad_layout = reply_err ''ERR bad layout (want flat|hot_cold)''"

definition layout_status :: "core \<Rightarrow> bytes" where
  "layout_status c =
     ar_core_layout_name c @ '' gen='' @ show_nat (layout_gen c) @ '' hot='' @ show_nat (ar_core_hot_keys c) @
     '' cold='' @ show_nat (ar_core_cold_keys c) @ '' promo='' @ show_nat (promotions c) @
     '' demo='' @ show_nat (demotions c)"

definition cmd_layout :: "nat \<Rightarrow> core \<Rightarrow> bytes list \<Rightarrow> core" where
  "cmd_layout i c argv =
     (if length argv = 1 then reply i (reply_bulk (layout_status c)) c
      else if length argv = 2 then
        (case name_arg 64 (argv ! 1) of
           None \<Rightarrow> reply i bad_layout c
         | Some nm \<Rightarrow>
             (case ar_core_set_layout c nm of (c, ok) \<Rightarrow> reply i (if ok then reply_ok else bad_layout) c))
      else reply i (wrong_args ''layout'') c)"

definition cmd_pin :: "nat \<Rightarrow> core \<Rightarrow> bytes list \<Rightarrow> core" where
  "cmd_pin i c argv =
     (if length argv = 1 then
        (let ks = ar_core_list_pinned c 256 in reply i (array_of (length ks) (bulks (map cstr ks))) c)
      else if length argv = 2 then
        (case ar_core_pin c (argv ! 1) of
           (c, ok) \<Rightarrow> reply i (if ok then reply_ok else reply_err ''ERR pin failed (missing key?)'') c)
      else reply i (wrong_args ''pin'') c)"

definition cmd_unpin :: "nat \<Rightarrow> core \<Rightarrow> bytes list \<Rightarrow> core" where
  "cmd_unpin i c argv =
     (if length argv \<noteq> 2 then reply i (wrong_args ''unpin'') c
      else case ar_core_unpin c (argv ! 1) of (c, ok) \<Rightarrow> reply i (reply_int (of_bool ok)) c)"


section \<open>HOTCOLD, SHADOW and POLICY\<close>

definition ar_core_hot_soft_cap_pct :: "core \<Rightarrow> int" where
  "ar_core_hot_soft_cap_pct c = (if hot_soft_cap_pct c > 0 then hot_soft_cap_pct c else 25)"

definition hotcold_status :: "core \<Rightarrow> bytes" where
  "hotcold_status c =
     ''soft_cap_pct:'' @ show_int (ar_core_hot_soft_cap_pct c) @
     '' soft_cap_min:'' @ show_int (hot_soft_cap_min c) @
     '' promote_on_get:'' @ (if hot_promote_on_get c then ''yes'' else ''no'') @
     '' soft_cap:'' @ show_nat (hot_soft_cap c) @ '' hot_keys:'' @ show_nat (ar_core_hot_keys c) @
     '' cold_keys:'' @ show_nat (ar_core_cold_keys c) @ '' demotions:'' @ show_nat (demotions c) @
     '' promotions:'' @ show_nat (promotions c) @ [CHR 0x0A]"

definition cmd_hotcold :: "nat \<Rightarrow> core \<Rightarrow> bytes list \<Rightarrow> core" where
  "cmd_hotcold i c argv =
     (let sub = (\<lambda>a b. length argv = 3 \<and> (cmd_eq (argv ! 1) a \<or> cmd_eq (argv ! 1) b))
      in if length argv = 1 then reply i (reply_bulk (hotcold_status c)) c
         else if sub ''soft-cap-pct'' ''soft_cap_pct'' then
           (case name_arg 32 (argv ! 2) of
              None \<Rightarrow> reply i (reply_err ''ERR bad soft-cap-pct'') c
            | Some n \<Rightarrow> reply i reply_ok (ar_core_set_hot_soft_cap_pct c (atoi n)))
         else if sub ''soft-cap-min'' ''soft_cap_min'' then
           (case name_arg 32 (argv ! 2) of
              None \<Rightarrow> reply i (reply_err ''ERR bad soft-cap-min'') c
            | Some n \<Rightarrow> reply i reply_ok (ar_core_set_hot_soft_cap_min c (atoi n)))
         else if sub ''promote-on-get'' ''promote_on_get'' then
           (if length (argv ! 2) \<ge> 16 then reply i (reply_err ''ERR bad promote-on-get'') c
            else reply i reply_ok
              (ar_core_set_hot_promote_on_get c (cstr (argv ! 2) \<notin> {''no'', ''0'', ''false''})))
         else reply i (wrong_args ''hotcold'') c)"

definition ar_core_set_shadow_policy :: "core \<Rightarrow> bytes \<Rightarrow> core \<times> bool" where
  "ar_core_set_shadow_policy c name =
     (if length name \<ge> 32 then (c, False) else (c\<lparr> srv := (srv c)\<lparr> shadow_policy := name \<rparr> \<rparr>, True))"

definition ar_core_set_shadow_sample_pct :: "core \<Rightarrow> int \<Rightarrow> core" where
  "ar_core_set_shadow_sample_pct c pct =
     (let pct = (if pct < 0 then 0 else pct); pct = (if pct > 100 then 100 else pct)
      in c\<lparr> shadow_sample_pct := pct \<rparr>)"

definition ar_core_shadow_reset :: "core \<Rightarrow> core" where
  "ar_core_shadow_reset c = c\<lparr> shadow_samples := 0, shadow_hits := 0, shadow_misses := 0, shadow_diverges := 0 \<rparr>"

definition ar_core_shadow_note_diverge :: "core \<Rightarrow> core" where
  "ar_core_shadow_note_diverge c = c\<lparr> shadow_diverges := shadow_diverges c + 1 \<rparr>"

definition shadow_status :: "core \<Rightarrow> bytes" where
  "shadow_status c =
     ''policy:'' @ shadow_policy (srv c) @ '' sample_pct:'' @ show_int (shadow_sample_pct c) @
     '' samples:'' @ show_nat (shadow_samples c) @ '' hits:'' @ show_nat (shadow_hits c) @
     '' misses:'' @ show_nat (shadow_misses c) @ '' diverges:'' @ show_nat (shadow_diverges c) @ [CHR 0x0A]"

definition cmd_shadow :: "nat \<Rightarrow> core \<Rightarrow> bytes list \<Rightarrow> core" where
  "cmd_shadow i c argv =
     (if length argv = 1 then reply i (reply_bulk (shadow_status c)) c
      else if length argv = 2 \<and> cmd_eq (argv ! 1) ''reset'' then reply i reply_ok (ar_core_shadow_reset c)
      else if length argv = 2 \<and> cmd_eq (argv ! 1) ''diverge'' then reply i reply_ok (ar_core_shadow_note_diverge c)
      else if length argv = 3 \<and> cmd_eq (argv ! 1) ''policy'' then
        (if length (argv ! 2) \<ge> 64 then reply i (reply_err ''ERR bad shadow policy'') c
         else case ar_core_set_shadow_policy c (cstr (argv ! 2)) of
                (c, ok) \<Rightarrow> reply i (if ok then reply_ok else reply_err ''ERR bad shadow policy'') c)
      else if length argv = 3 \<and> (cmd_eq (argv ! 1) ''sample-pct'' \<or> cmd_eq (argv ! 1) ''sample_pct'') then
        (case name_arg 32 (argv ! 2) of
           None \<Rightarrow> reply i (reply_err ''ERR bad sample-pct'') c
         | Some n \<Rightarrow> reply i reply_ok (ar_core_set_shadow_sample_pct c (atoi n)))
      else reply i (wrong_args ''shadow'') c)"

text \<open>The slots of the prefix policies: a prefix is compared with 16 bytes of the argument, and stored cut to 15.\<close>

fun policy_put :: "bytes \<Rightarrow> bytes \<Rightarrow> (bytes \<times> bytes) list \<Rightarrow> (bytes \<times> bytes) list option" where
  "policy_put p v [] = None"
| "policy_put p v ((q, w) # ps) =
     (if q = take 16 p then Some ((q, take 31 v) # ps)
      else map_option (\<lambda>qs. (q, w) # qs) (policy_put p v ps))"

definition ar_core_policy_set :: "server \<Rightarrow> bytes \<Rightarrow> bytes \<Rightarrow> server \<times> bool" where
  "ar_core_policy_set s prefix profile =
     (if prefix = [] \<or> profile = [] then (s, False)
      else case policy_put prefix profile (policy s) of
             Some ps \<Rightarrow> (s\<lparr> policy := ps \<rparr>, True)
           | None \<Rightarrow>
               if length (policy s) \<ge> 4 then (s, False)
               else (s\<lparr> policy := policy s @ [(take 15 prefix, take 31 profile)] \<rparr>, True))"

fun policy_hints :: "nat \<Rightarrow> bytes \<Rightarrow> (bytes \<times> bytes) list \<Rightarrow> bytes" where
  "policy_hints cap used [] = used"
| "policy_hints cap used ((p, v) # ps) =
     (let piece = (if used \<noteq> [] then '';'' else []) @ p @ ''='' @ v
      in if length used + length piece + 1 > cap then used
         else policy_hints cap (used @ take 63 piece) ps)"

definition ar_core_set_explain :: "server \<Rightarrow> bytes \<Rightarrow> bytes \<Rightarrow> bytes \<Rightarrow> bytes \<Rightarrow> bytes \<Rightarrow> server" where
  "ar_core_set_explain s mid reason op ev ly =
     (let mid = take 31 mid; reason = take 63 reason; op = take 31 op; ev = take 15 ev; ly = take 15 ly;
          dash = (\<lambda>x d. if x = [] then d else x)
      in s\<lparr> explain_mid := mid, explain_reason := reason, explain_op := op, explain_evict := ev, explain_layout := ly,
            explain_join := take 191
              (''mid='' @ dash mid ''0'' @ ''|'' @ dash op ''-'' @ '':'' @ dash reason ''-'' @ ''|evict='' @ dash ev ''-'' @
               ''|layout='' @ dash ly ''-'') \<rparr>)"

definition cmd_policy :: "nat \<Rightarrow> core \<Rightarrow> bytes list \<Rightarrow> core" where
  "cmd_policy i c argv =
     (if length argv \<ge> 2 \<and> cmd_eq (argv ! 1) ''explain'' then
        (if length argv = 2 then reply i (reply_bulk (explain_join (srv c))) c
         else if length argv \<ge> 7 then
           reply i reply_ok (c\<lparr> srv := ar_core_set_explain (srv c) (cut_arg 32 (argv ! 2)) (cut_arg 64 (argv ! 3))
             (cut_arg 32 (argv ! 4)) (cut_arg 16 (argv ! 5)) (cut_arg 16 (argv ! 6)) \<rparr>)
         else reply i (wrong_args ''policy explain'') c)
      else if length argv = 1 then reply i (reply_bulk (policy_hints 160 [] (policy (srv c)))) c
      else if length argv = 3 then
        (case ar_core_policy_set (srv c) (cut_arg 16 (argv ! 1)) (cut_arg 32 (argv ! 2)) of
           (s, ok) \<Rightarrow> reply i (if ok then reply_ok else reply_err ''ERR policy'') (c\<lparr> srv := s \<rparr>))
      else reply i (wrong_args ''policy'') c)"


section \<open>CLIENT\<close>

definition client_flags :: "conn \<Rightarrow> bytes" where
  "client_flags x =
     (let f = (if is_replica x then ''S'' else []) @ (if is_master_link x then ''M'' else []) @
              (if pubsub_mode x then ''P'' else []) @ (if in_multi x then ''x'' else [])
      in if f = [] then ''N'' else f)"

definition seconds_since :: "nat \<Rightarrow> nat \<Rightarrow> nat" where
  "seconds_since t now = (if t \<noteq> 0 \<and> now \<ge> t then (now - t) div 1000 else 0)"

definition client_line :: "nat \<Rightarrow> int \<Rightarrow> conn \<Rightarrow> bytes" where
  "client_line now fd x =
     take 383 (''id='' @ show_nat (client_id x) @ '' addr='' @ (if peer_addr x = [] then ''unknown'' else peer_addr x) @
       '' fd='' @ show_int fd @ '' name='' @ conn_name x @ '' age='' @ show_nat (seconds_since (ctime_ms x) now) @
       '' idle='' @ show_nat (seconds_since (last_active_ms x) now) @ '' flags='' @ client_flags x @ '' db=0 cmd='' @
       cstr (last_cmd x) @ [CHR 0x0A])"

definition client_list :: "server_env \<Rightarrow> core \<Rightarrow> bytes" where
  "client_list env c =
     concat (map (\<lambda>i. client_line (now_ms c) (fd_of env c i) (conns c ! i))
       (filter (\<lambda>i. in_use (conns c ! i)) [0..<length (conns c)]))"

text \<open>CLIENT KILL takes the first client that fits; the caller itself is only marked.\<close>

definition client_kill :: "(conn \<Rightarrow> bool) \<Rightarrow> nat \<Rightarrow> core \<Rightarrow> core" where
  "client_kill P i c =
     (case find (\<lambda>j. in_use (conns c ! j) \<and> P (conns c ! j)) [0..<length (conns c)] of
        None \<Rightarrow> reply i (reply_err ''ERR No such client'') c
      | Some j \<Rightarrow>
          reply i reply_ok (if j = i then upd_conn i (\<lambda>x. x\<lparr> should_close := True \<rparr>) c else conn_close j c))"

definition cmd_client :: "server_env \<Rightarrow> nat \<Rightarrow> core \<Rightarrow> bytes list \<Rightarrow> core" where
  "cmd_client env i c argv =
     (if length argv < 2 then reply i (wrong_args ''client'') c
      else if cmd_eq (argv ! 1) ''list'' then
        (if length argv \<noteq> 2 then reply i (wrong_args ''client|list'') c
         else if \<not> alloc_ok c \<and> client_list env c \<noteq> [] then reply i (reply_err ''ERR out of memory'') c
         else reply i (reply_bulk (client_list env c)) c)
      else if cmd_eq (argv ! 1) ''id'' then
        (if length argv \<noteq> 2 then reply i (wrong_args ''client|id'') c
         else reply i (reply_int (s64 (int (client_id (conns c ! i))))) c)
      else if cmd_eq (argv ! 1) ''setname'' then
        (if length argv \<noteq> 3 then reply i (wrong_args ''client|setname'') c
         else reply i reply_ok (upd_conn i (\<lambda>x. x\<lparr> conn_name := cut_arg 64 (argv ! 2) \<rparr>) c))
      else if cmd_eq (argv ! 1) ''kill'' then
        (if length argv = 3 then client_kill (\<lambda>x. peer_addr x = cut_arg 64 (argv ! 2)) i c
         else if length argv = 4 \<and> cmd_eq (argv ! 2) ''id'' then
           client_kill (\<lambda>x. client_id x = fst (strtoull (cut_arg 32 (argv ! 3)))) i c
         else reply i syntax_error c)
      else reply i (reply_err (''ERR Unknown subcommand or wrong number of arguments for '' @ quoted ''client'')) c)"


section \<open>REPLICAOF\<close>

definition link_up :: "conn \<Rightarrow> conn" where
  "link_up x = x\<lparr> is_master_link := True, authenticated := True \<rparr>"

text \<open>The new link sends SYNC as soon as it is up.\<close>

definition repl_connect_master :: "server_env \<Rightarrow> core \<Rightarrow> bytes \<Rightarrow> int \<Rightarrow> core \<times> bool" where
  "repl_connect_master env c host port =
     (if port \<le> 0 \<or> port > 65535 then (c, False)
      else let c = repl_close_master_links c
           in if \<not> connects env c host port then (c, False)
              else case conn_alloc c of
                     (c, None) \<Rightarrow> (c, False)
                   | (c, Some j) \<Rightarrow>
                       (let c = upd_conn j link_up c
                        in c\<lparr> srv := (srv c)\<lparr> master_host := take 63 host, master_port := port, repl_readonly := True \<rparr> \<rparr>,
                        True))"

definition cmd_replicaof :: "server_env \<Rightarrow> nat \<Rightarrow> core \<Rightarrow> bytes list \<Rightarrow> core" where
  "cmd_replicaof env i c argv =
     (if length argv = 3 \<and> cmd_eq (argv ! 1) ''no'' \<and> cmd_eq (argv ! 2) ''one'' then
        (let c = repl_close_master_links c
         in reply i reply_ok (c\<lparr> srv := (srv c)\<lparr> repl_readonly := False, master_host := [], master_port := 0 \<rparr> \<rparr>))
      else if length argv \<noteq> 3 then reply i (wrong_args ''replicaof'') c
      else let port = atoi (cut_arg 16 (argv ! 2))
           in if port \<le> 0 then reply i (reply_err ''ERR invalid port'') c
              else case repl_connect_master env c (cut_arg 64 (argv ! 1)) port of
                     (c, ok) \<Rightarrow> reply i (if ok then reply_ok else reply_err ''ERR replicaof connect failed'') c)"

end
