(* ===== verification/Config.thy ===== *)
theory Config
  imports Control
begin

text \<open>
  The configuration: the setters of \<open>ar_core.c\<close>, the file of \<open>ar_config.c\<close> (loaded at the start, rewritten
  by CONFIG SET and CONFIG REWRITE) and the CONFIG command of \<open>ar_server.c\<close>. A file is read in the pieces
  \<open>fgets\<close> gives, of at most 511 bytes; a name or a value is a C string. That what is written is read back is shown in
  \<open>ConfigSpec\<close>, that no setting leaves its range in \<open>Serving\<close>.
\<close>


section \<open>The setters\<close>

definition upd_srv :: "(server \<Rightarrow> server) \<Rightarrow> core \<Rightarrow> core" where
  "upd_srv f c = c\<lparr> srv := f (srv c) \<rparr>"

definition ar_core_set_requirepass :: "core \<Rightarrow> bytes \<Rightarrow> core \<times> bool" where
  "ar_core_set_requirepass c pass =
     (let c = upd_srv (\<lambda>s. s\<lparr> requirepass := None \<rparr>) c
      in if pass = [] then (c, True)
         else if \<not> alloc_ok c then (c, False)
         else (upd_srv (\<lambda>s. s\<lparr> requirepass := Some pass \<rparr>) c, True))"

definition ar_core_set_bind :: "core \<Rightarrow> bytes \<Rightarrow> core \<times> bool" where
  "ar_core_set_bind c addr =
     (if addr = [] then (c, False)
      else if length addr \<ge> 64 then (c, False)
      else (upd_srv (\<lambda>s. s\<lparr> bind_addr := addr \<rparr>) c, True))"

definition ar_core_set_protected_mode :: "core \<Rightarrow> bool \<Rightarrow> core" where
  "ar_core_set_protected_mode c on = upd_srv (\<lambda>s. s\<lparr> protected_mode := on \<rparr>) c"

definition ar_core_set_maxclients :: "core \<Rightarrow> int \<Rightarrow> core \<times> bool" where
  "ar_core_set_maxclients c n =
     (if n < 1 \<or> n > int AR_MAX_CONN then (c, False) else (upd_srv (\<lambda>s. s\<lparr> maxclients := n \<rparr>) c, True))"

definition ar_core_set_timeout :: "core \<Rightarrow> int \<Rightarrow> core \<times> bool" where
  "ar_core_set_timeout c sec = (if sec < 0 then (c, False) else (upd_srv (\<lambda>s. s\<lparr> timeout_sec := sec \<rparr>) c, True))"

definition ar_core_set_tcp_backlog :: "core \<Rightarrow> int \<Rightarrow> core \<times> bool" where
  "ar_core_set_tcp_backlog c n = (if n < 1 then (c, False) else (upd_srv (\<lambda>s. s\<lparr> tcp_backlog := n \<rparr>) c, True))"

definition ar_core_set_slowlog_slower_than :: "core \<Rightarrow> int \<Rightarrow> core \<times> bool" where
  "ar_core_set_slowlog_slower_than c us =
     (if us < 0 then (c, False) else (upd_srv (\<lambda>s. s\<lparr> slowlog_slower_than_us := us \<rparr>) c, True))"

definition ar_core_request_shutdown :: "core \<Rightarrow> core" where
  "ar_core_request_shutdown c = upd_srv (\<lambda>s. s\<lparr> quit := True, shutting_down := True \<rparr>) c"

definition ar_core_evict_samples :: "core \<Rightarrow> int" where
  "ar_core_evict_samples c = (if evict_samples c > 0 then evict_samples c else 16)"

text \<open>\<open>snprintf\<close> of the two names of the snapshot file into the fields of the core.\<close>

definition set_persist :: "(rdb \<Rightarrow> bytes \<Rightarrow> rdb \<times> bool) \<Rightarrow> core \<Rightarrow> bytes \<Rightarrow> core \<times> bool" where
  "set_persist f c v = (case f (persist (srv c)) v of (r, ok) \<Rightarrow> (upd_srv (\<lambda>s. s\<lparr> persist := r \<rparr>) c, ok))"

definition clamp_slowlog :: "int \<Rightarrow> nat" where
  "clamp_slowlog n =
     (let n = (if n < 0 then 0 else n); n = (if n > int AR_SLOWLOG_MAX then int AR_SLOWLOG_MAX else n) in nat n)"

definition ar_core_set_config_file :: "core \<Rightarrow> bytes \<Rightarrow> core \<times> bool" where
  "ar_core_set_config_file c path =
     (if path = [] then (upd_srv (\<lambda>s. s\<lparr> config_path := [] \<rparr>) c, True)
      else if length path \<ge> 512 then (c, False)
      else (upd_srv (\<lambda>s. s\<lparr> config_path := path \<rparr>) c, True))"


section \<open>Reading the file\<close>

fun conf_key_eq :: "bytes \<Rightarrow> bytes \<Rightarrow> bool" where
  "conf_key_eq (a # as) (l # ls) = (lower a = lower l \<and> conf_key_eq as ls)"
| "conf_key_eq [] [] = True"
| "conf_key_eq _ _ = False"

text \<open>Names as literals.\<close>

lemma lower_letters [simp]:
  "lower CHR ''a'' = CHR ''a''" "lower CHR ''A'' = CHR ''a''" "lower CHR ''b'' = CHR ''b''" "lower CHR ''B'' = CHR ''b''"
  "lower CHR ''c'' = CHR ''c''" "lower CHR ''C'' = CHR ''c''" "lower CHR ''d'' = CHR ''d''" "lower CHR ''D'' = CHR ''d''"
  "lower CHR ''e'' = CHR ''e''" "lower CHR ''E'' = CHR ''e''" "lower CHR ''f'' = CHR ''f''" "lower CHR ''F'' = CHR ''f''"
  "lower CHR ''g'' = CHR ''g''" "lower CHR ''G'' = CHR ''g''" "lower CHR ''h'' = CHR ''h''" "lower CHR ''H'' = CHR ''h''"
  "lower CHR ''i'' = CHR ''i''" "lower CHR ''I'' = CHR ''i''" "lower CHR ''j'' = CHR ''j''" "lower CHR ''J'' = CHR ''j''"
  "lower CHR ''k'' = CHR ''k''" "lower CHR ''K'' = CHR ''k''" "lower CHR ''l'' = CHR ''l''" "lower CHR ''L'' = CHR ''l''"
  "lower CHR ''m'' = CHR ''m''" "lower CHR ''M'' = CHR ''m''" "lower CHR ''n'' = CHR ''n''" "lower CHR ''N'' = CHR ''n''"
  "lower CHR ''o'' = CHR ''o''" "lower CHR ''O'' = CHR ''o''" "lower CHR ''p'' = CHR ''p''" "lower CHR ''P'' = CHR ''p''"
  "lower CHR ''q'' = CHR ''q''" "lower CHR ''Q'' = CHR ''q''" "lower CHR ''r'' = CHR ''r''" "lower CHR ''R'' = CHR ''r''"
  "lower CHR ''s'' = CHR ''s''" "lower CHR ''S'' = CHR ''s''" "lower CHR ''t'' = CHR ''t''" "lower CHR ''T'' = CHR ''t''"
  "lower CHR ''u'' = CHR ''u''" "lower CHR ''U'' = CHR ''u''" "lower CHR ''v'' = CHR ''v''" "lower CHR ''V'' = CHR ''v''"
  "lower CHR ''w'' = CHR ''w''" "lower CHR ''W'' = CHR ''w''" "lower CHR ''x'' = CHR ''x''" "lower CHR ''X'' = CHR ''x''"
  "lower CHR ''y'' = CHR ''y''" "lower CHR ''Y'' = CHR ''y''" "lower CHR ''z'' = CHR ''z''" "lower CHR ''Z'' = CHR ''z''"
  "lower CHR ''-'' = CHR ''-''" "lower CHR ''_'' = CHR ''_''"
  by (simp_all add: lower_def char_of_eq_iff)

lemma conf_key_eq_iff: "conf_key_eq k n = (map lower k = map lower n)"
  by (induction k n rule: conf_key_eq.induct) auto

definition conf_on :: "bytes \<Rightarrow> bool" where
  "conf_on v = (v \<notin> {''no'', ''0'', ''false'', ''off''})"

text \<open>The settings of a file, in the order of \<open>apply_kv\<close>.\<close>

definition conf_table :: "(bytes \<times> (core \<Rightarrow> bytes \<Rightarrow> core \<times> bool)) list" where
  "conf_table =
     [(''maxmemory'', \<lambda>c v. (ar_core_set_maxmemory c (fst (strtoull v)), True)),
      (''requirepass'', ar_core_set_requirepass),
      (''protected-mode'', \<lambda>c v. (ar_core_set_protected_mode c (conf_on v), True)),
      (''evict-samples'', \<lambda>c v. (ar_core_set_evict_samples c (atoi v), True)),
      (''samples'', \<lambda>c v. (ar_core_set_evict_samples c (atoi v), True)),
      (''maxclients'', \<lambda>c v. ar_core_set_maxclients c (atoi v)),
      (''timeout'', \<lambda>c v. ar_core_set_timeout c (atoi v)),
      (''tcp-backlog'', \<lambda>c v. ar_core_set_tcp_backlog c (atoi v)),
      (''slowlog-log-slower-than'', \<lambda>c v. ar_core_set_slowlog_slower_than c (atoi v)),
      (''slowlog-max-len'', \<lambda>c v. (upd_srv (\<lambda>s. s\<lparr> slowlog_max_len := clamp_slowlog (atoi v) \<rparr>) c, True)),
      (''dir'', set_persist ar_core_set_rdb_dir),
      (''dbfilename'', set_persist ar_core_set_rdb_filename),
      (''bind'', ar_core_set_bind),
      (''shadow-policy'', ar_core_set_shadow_policy),
      (''shadow-sample-pct'', \<lambda>c v. (ar_core_set_shadow_sample_pct c (atoi v), True)),
      (''hot-soft-cap-pct'', \<lambda>c v. (ar_core_set_hot_soft_cap_pct c (atoi v), True)),
      (''hot-soft-cap-min'', \<lambda>c v. (ar_core_set_hot_soft_cap_min c (atoi v), True)),
      (''hot-promote-on-get'', \<lambda>c v. (ar_core_set_hot_promote_on_get c (conf_on v), True))]"

text \<open>A name that is not in the table is skipped.\<close>

definition apply_kv :: "core \<Rightarrow> bytes \<Rightarrow> bytes \<Rightarrow> core \<times> bool" where
  "apply_kv c k v =
     (case find (\<lambda>(n, f). conf_key_eq k n) conf_table of None \<Rightarrow> (c, True) | Some (n, f) \<Rightarrow> f c v)"

fun fgets :: "nat \<Rightarrow> bytes \<Rightarrow> bytes \<times> bytes" where
  "fgets 0 s = ([], s)"
| "fgets (Suc n) [] = ([], [])"
| "fgets (Suc n) (ch # s) =
     (if ch = CHR 0x0A then ([ch], s) else case fgets n s of (l, r) \<Rightarrow> (ch # l, r))"

lemma fgets_rest: "fgets n s = (l, r) \<Longrightarrow> s = l @ r \<and> (n \<noteq> 0 \<longrightarrow> s \<noteq> [] \<longrightarrow> l \<noteq> [])"
  by (induction n s arbitrary: l r rule: fgets.induct) (auto split: if_splits prod.splits)

definition LINE_MAX :: nat where "LINE_MAX = 511"

lemma fgets_shorter:
  assumes "s \<noteq> []" and "(l, r) = fgets LINE_MAX s"
  shows "length r < length s"
proof -
  have "s = l @ r" "l \<noteq> []" using fgets_rest [OF assms(2) [symmetric]] assms(1) by (auto simp: LINE_MAX_def)
  then show ?thesis by simp
qed

function file_lines :: "bytes \<Rightarrow> bytes list" where
  "file_lines s = (if s = [] then [] else case fgets LINE_MAX s of (l, r) \<Rightarrow> l # file_lines r)"
  by pat_completeness auto

termination
  by (relation "measure length") (auto intro: fgets_shorter)

declare file_lines.simps [simp del]

text \<open>A line without its end, its name and its value; \<open>None\<close> for a blank line or a comment.\<close>

definition strip_eol :: "bytes \<Rightarrow> bytes" where
  "strip_eol l = rev (dropWhile (\<lambda>ch. ch = CHR 0x0A \<or> ch = CHR 0x0D) (rev (cstr l)))"

definition conf_line :: "bytes \<Rightarrow> (bytes \<times> bytes) option" where
  "conf_line l =
     (let p = dropWhile is_space (strip_eol l)
      in if p = [] \<or> hd p = CHR ''#'' then None
         else Some (takeWhile (\<lambda>ch. \<not> is_space ch) p, dropWhile is_space (dropWhile (\<lambda>ch. \<not> is_space ch) p)))"

fun apply_lines :: "core \<Rightarrow> bytes list \<Rightarrow> core \<times> bool" where
  "apply_lines c [] = (c, True)"
| "apply_lines c (l # ls) =
     (case conf_line l of
        None \<Rightarrow> apply_lines c ls
      | Some (k, v) \<Rightarrow> (case apply_kv c k v of (c, ok) \<Rightarrow> if ok then apply_lines c ls else (c, False)))"

definition ar_config_load :: "host \<Rightarrow> core \<Rightarrow> core \<times> bool" where
  "ar_config_load h c =
     (if config_path (srv c) = [] then (c, True)
      else case disk (srv c) (config_path (srv c)) of
             None \<Rightarrow> (c, True)
           | Some s \<Rightarrow> if \<not> open_ok h then (c, False) else apply_lines c (file_lines s))"


section \<open>Writing the file\<close>

definition yes_no :: "bool \<Rightarrow> bytes" where
  "yes_no b = (if b then ''yes'' else ''no'')"

definition bind_name :: "server \<Rightarrow> bytes" where
  "bind_name s = (if bind_addr s \<noteq> [] then bind_addr s else ''127.0.0.1'')"

definition pass_text :: "server \<Rightarrow> bytes" where
  "pass_text s = (case requirepass s of None \<Rightarrow> [] | Some p \<Rightarrow> p)"

definition config_comments :: "bytes list" where
  "config_comments =
     [''# aura-redis.conf '' @ [CHR 0xE2, CHR 0x80, CHR 0x94] @ '' written by CONFIG SET / CONFIG REWRITE'',
      ''# Path override: --config / AURA_REDIS_CONFIG'']"

definition config_pairs :: "core \<Rightarrow> (bytes \<times> bytes) list" where
  "config_pairs c =
     [(''maxmemory'', show_nat (maxmemory c)),
      (''requirepass'', pass_text (srv c)),
      (''protected-mode'', yes_no (protected_mode (srv c))),
      (''evict-samples'', show_int (ar_core_evict_samples c)),
      (''maxclients'', show_int (maxclients (srv c))),
      (''timeout'', show_int (timeout_sec (srv c))),
      (''tcp-backlog'', show_int (tcp_backlog (srv c))),
      (''slowlog-log-slower-than'', show_int (slowlog_slower_than_us (srv c))),
      (''slowlog-max-len'', show_nat (slowlog_max_len (srv c))),
      (''dir'', ar_core_rdb_dir (persist (srv c))),
      (''dbfilename'', ar_core_rdb_filename (persist (srv c))),
      (''bind'', bind_name (srv c)),
      (''shadow-policy'', shadow_policy (srv c)),
      (''shadow-sample-pct'', show_int (shadow_sample_pct c)),
      (''hot-soft-cap-pct'', show_int (ar_core_hot_soft_cap_pct c)),
      (''hot-soft-cap-min'', show_int (hot_soft_cap_min c)),
      (''hot-promote-on-get'', yes_no (hot_promote_on_get c))]"

definition config_image :: "core \<Rightarrow> bytes" where
  "config_image c =
     concat (map (\<lambda>l. l @ [CHR 0x0A]) (config_comments @ map (\<lambda>(k, v). k @ '' '' @ v) (config_pairs c)))"

text \<open>Written to a temporary file beside the configuration, which then takes its place.\<close>

definition ar_config_rewrite :: "host \<Rightarrow> core \<Rightarrow> core \<times> bool" where
  "ar_config_rewrite h c =
     (let path = config_path (srv c); tmp = path @ ''.tmp.'' @ show_nat (host_pid h);
          put = (\<lambda>m. upd_srv (\<lambda>s. s\<lparr> disk := m (disk s) \<rparr>) c)
      in if path = [] then (c, False)
         else if length tmp \<ge> 560 then (c, False)
         else if \<not> open_ok h then (c, False)
         else if \<not> write_ok h then (put (\<lambda>d. d(tmp := None)), False)
         else if \<not> rename_ok h then (put (\<lambda>d. d(tmp := None)), False)
         else (put (\<lambda>d. d(tmp := None, path \<mapsto> config_image c)), True))"


section \<open>The CONFIG command\<close>

text \<open>\<open>AR_CFG_ADD\<close>: a name and its value go into a buffer of 2048 bytes when they fit. The length of the bulk is
  that of the whole value, of which at most 255 bytes follow.\<close>

definition cfg_add :: "bytes \<Rightarrow> bytes \<times> nat \<Rightarrow> bytes \<times> bytes \<Rightarrow> bytes \<times> nat" where
  "cfg_add pat acc nv =
     (case (acc, nv) of ((pairs, n), (name, val)) \<Rightarrow>
        if pat \<noteq> ''*'' \<and> pat \<noteq> name then acc
        else let k = take 255 (resp_append_bulk name);
                 pairs = (if length pairs + length k < 2048 then pairs @ k else pairs);
                 v = CHR ''$'' # show_nat (length val) @ CRLF @ take 255 val @ CRLF
             in if length pairs + length v < 2048 then (pairs @ v, n + 2) else (pairs, n))"

definition config_values :: "core \<Rightarrow> (bytes \<times> bytes) list" where
  "config_values c =
     [(''maxmemory'', show_nat (maxmemory c)),
      (''requirepass'', pass_text (srv c)),
      (''protected-mode'', yes_no (protected_mode (srv c))),
      (''evict-samples'', show_int (ar_core_evict_samples c)),
      (''bind'', bind_name (srv c)),
      (''maxclients'', show_int (maxclients (srv c))),
      (''timeout'', show_int (timeout_sec (srv c))),
      (''tcp-backlog'', show_int (tcp_backlog (srv c))),
      (''slowlog-log-slower-than'', show_int (slowlog_slower_than_us (srv c))),
      (''slowlog-max-len'', show_nat (slowlog_max_len (srv c))),
      (''dir'', ar_core_rdb_dir (persist (srv c))),
      (''dbfilename'', ar_core_rdb_filename (persist (srv c))),
      (''shadow-policy'', shadow_policy (srv c)),
      (''shadow-sample-pct'', show_int (shadow_sample_pct c)),
      (''hot-soft-cap-pct'', show_int (ar_core_hot_soft_cap_pct c)),
      (''hot-soft-cap-min'', show_int (hot_soft_cap_min c)),
      (''hot-promote-on-get'', yes_no (hot_promote_on_get c)),
      (''config-file'', config_path (srv c))]"

definition config_get :: "core \<Rightarrow> bytes \<Rightarrow> bytes" where
  "config_get c pat =
     (case foldl (cfg_add pat) ([], 0) (config_values c) of (pairs, n) \<Rightarrow> CHR ''*'' # show_nat n @ CRLF @ pairs)"

definition set_on :: "bytes \<Rightarrow> bool" where
  "set_on v = (v \<notin> {''no'', ''0'', ''false''})"

text \<open>A shorter slow log keeps its first slots.\<close>

definition set_slowlog_max :: "int \<Rightarrow> server \<Rightarrow> server" where
  "set_slowlog_max m s =
     (let n = clamp_slowlog m; s = s\<lparr> slowlog_max_len := n \<rparr>
      in if slowlog_len s > n then s\<lparr> slowlog_len := n \<rparr> else s)"

text \<open>The settings of CONFIG SET, each with the name in its error message.\<close>

definition set_table :: "(bytes \<times> bytes \<times> (core \<Rightarrow> bytes \<Rightarrow> core \<times> bool)) list" where
  "set_table =
     [(''maxmemory'', [], \<lambda>c v. (ar_core_set_maxmemory c (fst (strtoull v)), True)),
      (''requirepass'', ''requirepass'', ar_core_set_requirepass),
      (''protected-mode'', [], \<lambda>c v. (ar_core_set_protected_mode c (set_on v), True)),
      (''evict-samples'', ''evict-samples'', \<lambda>c v. (ar_core_set_evict_samples c (atoi v), True)),
      (''samples'', ''evict-samples'', \<lambda>c v. (ar_core_set_evict_samples c (atoi v), True)),
      (''maxclients'', ''maxclients'', \<lambda>c v. ar_core_set_maxclients c (atoi v)),
      (''timeout'', ''timeout'', \<lambda>c v. ar_core_set_timeout c (atoi v)),
      (''tcp-backlog'', ''tcp-backlog'', \<lambda>c v. ar_core_set_tcp_backlog c (atoi v)),
      (''slowlog-log-slower-than'', ''slowlog-log-slower-than'', \<lambda>c v. ar_core_set_slowlog_slower_than c (atoi v)),
      (''slowlog-max-len'', [], \<lambda>c v. (upd_srv (set_slowlog_max (atoi v)) c, True)),
      (''dir'', ''dir'', set_persist ar_core_set_rdb_dir),
      (''dbfilename'', ''dbfilename'', set_persist ar_core_set_rdb_filename),
      (''shadow-policy'', ''shadow-policy'', ar_core_set_shadow_policy),
      (''shadow-sample-pct'', ''shadow-sample-pct'', \<lambda>c v. (ar_core_set_shadow_sample_pct c (atoi v), True)),
      (''hot-soft-cap-pct'', ''hot-soft-cap-pct'', \<lambda>c v. (ar_core_set_hot_soft_cap_pct c (atoi v), True)),
      (''hot-soft-cap-min'', ''hot-soft-cap-min'', \<lambda>c v. (ar_core_set_hot_soft_cap_min c (atoi v), True)),
      (''hot-promote-on-get'', ''hot-promote-on-get'', \<lambda>c v. (ar_core_set_hot_promote_on_get c (set_on v), True))]"

definition host_at :: "server_env \<Rightarrow> core \<Rightarrow> host" where
  "host_at env c = (machine env c)\<lparr> files := disk (srv c) \<rparr>"

definition config_set_ok :: "server_env \<Rightarrow> nat \<Rightarrow> core \<Rightarrow> core" where
  "config_set_ok env i c =
     reply i reply_ok (if config_path (srv c) \<noteq> [] then fst (ar_config_rewrite (host_at env c) c) else c)"

definition config_set :: "server_env \<Rightarrow> nat \<Rightarrow> core \<Rightarrow> bytes \<Rightarrow> bytes \<Rightarrow> core" where
  "config_set env i c key val =
     (case find (\<lambda>(n, e). cmd_eq key n) set_table of
        None \<Rightarrow> reply i (reply_err ''ERR Unknown option or number of arguments for CONFIG SET'') c
      | Some (n, e, f) \<Rightarrow>
          (case f c (cut_arg 256 val) of
             (c, ok) \<Rightarrow> if ok then config_set_ok env i c else reply i (reply_err (''ERR config set '' @ e)) c))"

definition config_rewrite :: "server_env \<Rightarrow> nat \<Rightarrow> core \<Rightarrow> core" where
  "config_rewrite env i c =
     (if config_path (srv c) = [] then
        reply i (reply_err ''ERR CONFIG REWRITE disabled (empty config-file; set --config / AURA_REDIS_CONFIG)'') c
      else case ar_config_rewrite (host_at env c) c of
             (c, ok) \<Rightarrow> reply i (if ok then reply_ok else reply_err ''ERR CONFIG REWRITE failed'') c)"

definition cmd_config :: "server_env \<Rightarrow> nat \<Rightarrow> core \<Rightarrow> bytes list \<Rightarrow> core" where
  "cmd_config env i c argv =
     (if length argv < 2 then reply i (wrong_args ''config'') c
      else if cmd_eq (argv ! 1) ''get'' then
        (if length argv \<noteq> 3 then reply i (wrong_args ''config|get'') c
         else reply i (config_get c (cut_arg 64 (argv ! 2))) c)
      else if cmd_eq (argv ! 1) ''set'' then
        (if length argv \<noteq> 4 then reply i (wrong_args ''config|set'') c
         else config_set env i c (argv ! 2) (argv ! 3))
      else if cmd_eq (argv ! 1) ''rewrite'' then
        (if length argv \<noteq> 2 then reply i (wrong_args ''config|rewrite'') c
         else config_rewrite env i c)
      else reply i (reply_err ''ERR CONFIG subcommand must be GET, SET or REWRITE'') c)"

end
