(* ===== verification/Admin.thy ===== *)
theory Admin
  imports Config
begin

text \<open>
  The commands that act on the host: SAVE, BGSAVE and PLUGIN, and the INFO report. A plugin is a library
  the loader finds at a path; the model knows those whose kernels this repository holds. SAVE and the file of a
  BGSAVE that could not fork go to \<open>disk\<close>; what a forked child writes is a change of \<open>disk\<close> from outside.
\<close>


section \<open>SAVE and BGSAVE\<close>

definition put_saved :: "host \<times> rdb \<Rightarrow> core \<Rightarrow> core" where
  "put_saved hr c = (case hr of (h, r) \<Rightarrow> upd_srv (\<lambda>s. s\<lparr> persist := r, disk := files h \<rparr>) c)"

definition cmd_save :: "server_env \<Rightarrow> nat \<Rightarrow> core \<Rightarrow> bytes list \<Rightarrow> core" where
  "cmd_save env i c argv =
     (if length argv \<noteq> 1 then reply i (wrong_args ''save'') c
      else case ar_rdb_save (host_at env c) (persist (srv c)) c of
             (h, r, ok) \<Rightarrow> reply i (if ok then reply_ok else reply_err ''ERR save failed'') (put_saved (h, r) c))"

definition cmd_bgsave :: "server_env \<Rightarrow> nat \<Rightarrow> core \<Rightarrow> bytes list \<Rightarrow> core" where
  "cmd_bgsave env i c argv =
     (if length argv \<noteq> 1 then reply i (wrong_args ''bgsave'') c
      else case ar_rdb_bgsave (waited env c) (forked env c) (host_at env c) (persist (srv c)) c of
             (h, r, rc) \<Rightarrow>
               reply i (if rc < 0 then reply_err ''ERR Background save already in progress''
                        else if rc = 0 then reply_err ''ERR bgsave failed'' else reply_ok) (put_saved (h, r) c))"


section \<open>PLUGIN\<close>

definition ar_core_load_evict_plugin :: "server_env \<Rightarrow> core \<Rightarrow> bytes \<Rightarrow> core \<times> bool" where
  "ar_core_load_evict_plugin env c path =
     (if path = [] then (c, False)
      else case plugin_at env path of
             None \<Rightarrow> (c, False)
           | Some k \<Rightarrow>
               (maybe_evict (c\<lparr> evict := k, evict_plugin := True, plugin_reloads := plugin_reloads c + 1 \<rparr>), True))"

definition plugin_denied :: "server_env \<Rightarrow> bool" where
  "plugin_denied env =
     (case deny_plugin env of
        None \<Rightarrow> False
      | Some d \<Rightarrow> d \<notin> {'''', ''0'', ''false'', ''off'', ''FALSE'', ''OFF''})"

definition plugin_status :: "core \<Rightarrow> bytes" where
  "plugin_status c =
     ar_core_evict_name c @ '' plugin='' @ (if evict_plugin c then ''1'' else ''0'') @
     '' reloads='' @ show_nat (plugin_reloads c)"

definition cmd_plugin :: "server_env \<Rightarrow> nat \<Rightarrow> core \<Rightarrow> bytes list \<Rightarrow> core" where
  "cmd_plugin env i c argv =
     (if length argv = 1 then reply i (reply_bulk (plugin_status c)) c
      else if length argv = 2 then
        (case name_arg 1024 (argv ! 1) of
           None \<Rightarrow> reply i (reply_err ''ERR bad plugin path'') c
         | Some path \<Rightarrow>
             if plugin_denied env then
               reply i (reply_err ''ERR PLUGIN denied (AURA_REDIS_DENY_PLUGIN; Aura-native path)'') c
             else case ar_core_load_evict_plugin env c path of
                    (c, ok) \<Rightarrow> reply i (if ok then reply_ok else reply_err ''ERR plugin load failed'') c)
      else reply i (wrong_args ''plugin'') c)"


section \<open>INFO\<close>

definition flag :: "bool \<Rightarrow> bytes" where
  "flag b = (if b then ''1'' else ''0'')"

definition connected_slaves :: "core \<Rightarrow> nat" where
  "connected_slaves c = length (filter (\<lambda>x. in_use x \<and> is_replica x) (conns c))"

definition avg_us :: "server \<Rightarrow> nat" where
  "avg_us s = (if cmd_latency_samples s \<noteq> 0 then cmd_latency_sum_us s div cmd_latency_samples s else 0)"

definition info_server :: "core \<Rightarrow> bytes list" where
  "info_server c =
     (let s = srv c
      in [''# Server'', ''aura_redis_version:0.1'', ''tcp_port:'' @ show_int (tcp_port s),
          ''tls_port:'' @ show_int (tls_port s), ''tls_enabled:'' @ yes_no (tls_listen_open s),
          ''binding:'' @ bind_name s, ''protected_mode:'' @ yes_no (protected_mode s),
          ''requirepass:'' @ yes_no (has_pass s), ''role:'' @ (if repl_readonly s then ''slave'' else ''master''),
          ''master_host:'' @ master_host s, ''master_port:'' @ show_int (master_port s),
          ''connected_slaves:'' @ show_nat (connected_slaves c),
          ''# Clients'', ''connected_clients:'' @ show_nat (connected_clients c),
          ''maxclients:'' @ show_int (maxclients s), ''timeout:'' @ show_int (timeout_sec s),
          ''tcp_backlog:'' @ show_int (tcp_backlog s)])"

definition info_stats :: "core \<Rightarrow> bytes list" where
  "info_stats c =
     (let s = srv c
      in [''# Memory'', ''used_memory:'' @ show_nat (used_memory c), ''maxmemory:'' @ show_nat (maxmemory c),
          ''# Stats'', ''ops:'' @ show_nat (ops c), ''cmd_lt_1ms:'' @ show_nat (cmd_lt_1ms s),
          ''cmd_lt_10ms:'' @ show_nat (cmd_lt_10ms s), ''cmd_lt_100ms:'' @ show_nat (cmd_lt_100ms s),
          ''cmd_ge_100ms:'' @ show_nat (cmd_ge_100ms s), ''cmd_avg_us:'' @ show_nat (avg_us s),
          ''slowlog_count:'' @ show_nat (slowlog_count s),
          ''slowlog_log_slower_than:'' @ show_int (slowlog_slower_than_us s),
          ''gets:'' @ show_nat (gets c), ''sets:'' @ show_nat (sets c), ''hits:'' @ show_nat (hits c),
          ''misses:'' @ show_nat (misses c), ''evicted:'' @ show_nat (evicted c), ''expired:'' @ show_nat (expired c)])"

definition info_persistence :: "core \<Rightarrow> bytes list" where
  "info_persistence c =
     (let r = persist (srv c)
      in [''# Keyspace'', ''keys:'' @ show_nat (nkeys c), ''keys_with_ttl:'' @ show_nat (keys_with_ttl c),
          ''avg_ttl_ms:'' @ show_nat (ar_core_avg_ttl_ms c),
          ''# Persistence'', ''loading:'' @ flag (rdb_loading r), ''aof_enabled:0'',
          ''rdb_bgsave_in_progress:'' @ flag (rdb_bgsave_pid r > 0),
          ''rdb_last_save_time:'' @ show_nat (rdb_last_save_time r),
          ''rdb_last_bgsave_status:'' @ (if rdb_last_bgsave_ok r then ''ok'' else ''err''),
          ''dir:'' @ ar_core_rdb_dir r, ''dbfilename:'' @ ar_core_rdb_filename r, ''aura_rdb:2''])"

definition info_aura :: "core \<Rightarrow> bytes list" where
  "info_aura c =
     [''# Aura'', ''evict:'' @ ar_core_evict_name c, ''layout:'' @ ar_core_layout_name c,
      ''samples:'' @ show_int (ar_core_evict_samples c), ''pinned:'' @ show_nat (pinned_keys c),
      ''plugin:'' @ flag (evict_plugin c), ''plugin_reloads:'' @ show_nat (plugin_reloads c),
      ''layout_gen:'' @ show_nat (layout_gen c), ''hot_keys:'' @ show_nat (ar_core_hot_keys c),
      ''cold_keys:'' @ show_nat (ar_core_cold_keys c), ''policy_hints:'' @ policy_hints 160 [] (policy (srv c)),
      ''keys_string:'' @ show_nat (type_nkeys c TString), ''keys_hash:'' @ show_nat (type_nkeys c THash),
      ''keys_list:'' @ show_nat (type_nkeys c TList), ''keys_zset:'' @ show_nat (type_nkeys c TZset),
      ''mem_string:'' @ show_nat (type_bytes c TString), ''mem_hash:'' @ show_nat (type_bytes c THash),
      ''mem_list:'' @ show_nat (type_bytes c TList), ''mem_zset:'' @ show_nat (type_bytes c TZset),
      ''bigkey_bytes:'' @ show_nat (bigkey_bytes c), ''bigkey_type:'' @ ar_type_name (bigkey_type c)]"

definition info_policy :: "core \<Rightarrow> bytes list" where
  "info_policy c =
     (let s = srv c
      in [''hot_soft_cap_pct:'' @ show_int (ar_core_hot_soft_cap_pct c), ''hot_soft_cap_min:'' @ show_int (hot_soft_cap_min c),
          ''hot_promote_on_get:'' @ yes_no (hot_promote_on_get c), ''hot_soft_cap:'' @ show_nat (hot_soft_cap c),
          ''shadow_policy:'' @ shadow_policy s, ''shadow_sample_pct:'' @ show_int (shadow_sample_pct c),
          ''shadow_samples:'' @ show_nat (shadow_samples c), ''shadow_hits:'' @ show_nat (shadow_hits c),
          ''shadow_misses:'' @ show_nat (shadow_misses c), ''shadow_diverges:'' @ show_nat (shadow_diverges c),
          ''explain_mid:'' @ explain_mid s, ''explain_reason:'' @ explain_reason s, ''explain_op:'' @ explain_op s,
          ''explain_evict:'' @ explain_evict s, ''explain_layout:'' @ explain_layout s, ''explain:'' @ explain_join s,
          ''unique_sets:'' @ show_nat (unique_sets c)])"

definition info_text :: "core \<Rightarrow> bytes" where
  "info_text c =
     concat (map (\<lambda>l. l @ [CHR 0x0A])
       (info_server c @ info_stats c @ info_persistence c @ info_aura c @ info_policy c))"

definition INFO_MAX :: nat where "INFO_MAX = 5120"

text \<open>The report is formatted into a buffer of \<open>INFO_MAX\<close> bytes and sent with the length \<open>snprintf\<close> returns.\<close>

definition cmd_info :: "nat \<Rightarrow> core \<Rightarrow> bytes list \<Rightarrow> core" where
  "cmd_info i c argv = reply i (reply_bulk (info_text c)) c"

end
