(* ===== verification/Dispatch.thy ===== *)
theory Dispatch
  imports Admin
begin

text \<open>
  \<open>dispatch\<close> and \<open>process_reads\<close> of \<open>ar_server.c\<close>: the checks every command passes, transactions
  (WATCH, MULTI, EXEC, DISCARD), authentication, publish and subscribe, the command tables, the loop
  over the input of a connection, and the events of the server: a client is accepted, a connection
  has input or room for output, the timer runs. EXEC calls \<open>dispatch\<close> again; the model counts the
  nesting.
\<close>


section \<open>Which commands may run\<close>

definition write_names :: "bytes list" where
  "write_names =
     [''set'', ''setnx'', ''setex'', ''psetex'', ''getset'', ''del'', ''unlink'', ''append'', ''rename'',
      ''renamenx'', ''expire'', ''pexpire'', ''expireat'', ''pexpireat'', ''flushdb'', ''mset'', ''incr'',
      ''decr'', ''incrby'', ''decrby'', ''pin'', ''unpin'', ''policy'', ''evict'', ''layout'', ''plugin'',
      ''save'', ''bgsave'', ''hset'', ''hdel'', ''hincrby'', ''lpush'', ''rpush'', ''lpop'', ''rpop'',
      ''lrem'', ''ltrim'', ''zadd'', ''zrem'', ''publish'']"

definition cmd_is_write :: "bytes \<Rightarrow> bool" where
  "cmd_is_write cmd = list_ex (cmd_eq cmd) write_names"

definition pass_eq :: "bytes \<Rightarrow> bytes option \<Rightarrow> bool" where
  "pass_eq a p = (case p of None \<Rightarrow> False | Some p \<Rightarrow> a = p)"

definition cmd_allowed_unauth :: "bytes \<Rightarrow> bool" where
  "cmd_allowed_unauth cmd = list_ex (cmd_eq cmd) [''auth'', ''ping'', ''quit'', ''hello'']"

definition pubsub_is_allowed :: "bytes \<Rightarrow> bool" where
  "pubsub_is_allowed cmd =
     list_ex (cmd_eq cmd) [''subscribe'', ''unsubscribe'', ''psubscribe'', ''punsubscribe'', ''ping'', ''quit'', ''reset'']"

definition readonly_err :: bytes where
  "readonly_err = reply_err (''READONLY You can'' @ [CHR 0x27] @ ''t write against a read only replica.'')"

text \<open>The reply of the first check that a command fails.\<close>

definition refused :: "server \<Rightarrow> conn \<Rightarrow> bytes list \<Rightarrow> bytes option" where
  "refused s x argv =
     (let cmd = argv ! 0
      in if has_pass s \<and> \<not> authenticated x \<and> \<not> cmd_allowed_unauth cmd then
           Some (reply_err ''NOAUTH Authentication required.'')
         else if repl_readonly s \<and> cmd_is_write cmd \<and> \<not> is_master_link x then Some readonly_err
         else if repl_readonly s \<and> \<not> is_master_link x \<and> cmd_eq cmd ''config'' \<and> length argv \<ge> 2 \<and>
                 (cmd_eq (argv ! 1) ''set'' \<or> cmd_eq (argv ! 1) ''rewrite'') then Some readonly_err
         else if pubsub_mode x \<and> \<not> pubsub_is_allowed cmd then
           Some (reply_err ''ERR only (P)SUBSCRIBE / (P)UNSUBSCRIBE / PING / QUIT allowed in this context'')
         else None)"


section \<open>Transactions\<close>

fun watch_loop :: "bool \<Rightarrow> conn \<Rightarrow> bytes list \<Rightarrow> conn \<times> bytes" where
  "watch_loop a x [] = (x, reply_ok)"
| "watch_loop a x (k # ks) =
     (if k \<in> set (watch_keys x) then watch_loop a x ks
      else if length (watch_keys x) \<ge> AR_WATCH_MAX then (x, reply_err ''ERR WATCH key limit exceeded'')
      else if \<not> a then (x, oom)
      else watch_loop a (x\<lparr> watch_keys := watch_keys x @ [k] \<rparr>) ks)"

definition cmd_watch :: "nat \<Rightarrow> core \<Rightarrow> bytes list \<Rightarrow> core" where
  "cmd_watch i c argv =
     (if length argv < 2 then reply i (wrong_args ''watch'') c
      else if in_multi (conns c ! i) then reply i (reply_err ''ERR WATCH inside MULTI is not allowed'') c
      else case watch_loop (alloc_ok c) (conns c ! i) (tl argv) of
             (x, r) \<Rightarrow> reply i r (upd_conn i (\<lambda>_. x) c))"

definition cmd_unwatch :: "nat \<Rightarrow> core \<Rightarrow> bytes list \<Rightarrow> core" where
  "cmd_unwatch i c argv =
     (if length argv \<noteq> 1 then reply i (wrong_args ''unwatch'') c
      else reply i reply_ok (upd_conn i watch_clear c))"

definition cmd_multi :: "nat \<Rightarrow> core \<Rightarrow> bytes list \<Rightarrow> core" where
  "cmd_multi i c argv =
     (if length argv \<noteq> 1 then reply i (wrong_args ''multi'') c
      else if in_multi (conns c ! i) then reply i (reply_err ''ERR MULTI calls can not be nested'') c
      else reply i reply_ok (upd_conn i (\<lambda>x. x\<lparr> in_multi := True, multi_q := [] \<rparr>) c))"

definition end_multi :: "nat \<Rightarrow> core \<Rightarrow> core" where
  "end_multi i c = upd_conn i (\<lambda>x. watch_clear (multi_clear x)) c"

definition cmd_discard :: "nat \<Rightarrow> core \<Rightarrow> bytes list \<Rightarrow> core" where
  "cmd_discard i c argv =
     (if length argv \<noteq> 1 then reply i (wrong_args ''discard'') c
      else if \<not> in_multi (conns c ! i) then reply i (reply_err ''ERR DISCARD without MULTI'') c
      else reply i reply_ok (end_multi i c))"

text \<open>EXEC calls \<open>dispatch\<close> for each queued command; \<open>run\<close> is that call.\<close>

definition cmd_exec :: "(nat \<Rightarrow> core \<Rightarrow> bytes list \<Rightarrow> core) \<Rightarrow> nat \<Rightarrow> core \<Rightarrow> bytes list \<Rightarrow> core" where
  "cmd_exec run i c argv =
     (if length argv \<noteq> 1 then reply i (wrong_args ''exec'') c
      else if \<not> in_multi (conns c ! i) then reply i (reply_err ''ERR EXEC without MULTI'') c
      else if watch_dirty (conns c ! i) then reply i reply_null_array (end_multi i c)
      else let q = multi_q (conns c ! i);
               c = upd_conn i (\<lambda>x. x\<lparr> in_multi := False \<rparr>) c;
               c = reply i (CHR ''*'' # show_nat (length q) @ CRLF) c
           in end_multi i (foldl (run i) c q))"

definition queue_cmd :: "nat \<Rightarrow> core \<Rightarrow> bytes list \<Rightarrow> core" where
  "queue_cmd i c argv =
     (if length (multi_q (conns c ! i)) \<ge> AR_MULTI_MAX then reply i (reply_err ''ERR MULTI queue is full'') c
      else if length argv > AR_MULTI_ARGV then reply i (reply_err ''ERR too many arguments to queue'') c
      else if \<not> alloc_ok c then reply i oom c
      else reply i (''+QUEUED'' @ CRLF) (upd_conn i (\<lambda>x. x\<lparr> multi_q := multi_q x @ [argv] \<rparr>) c))"


section \<open>Commands on the connection\<close>

definition cmd_sync :: "libc \<Rightarrow> nat \<Rightarrow> core \<Rightarrow> bytes list \<Rightarrow> core" where
  "cmd_sync libc i c argv =
     (if length argv \<noteq> 1 then reply i (wrong_args ''sync'') c
      else if repl_readonly (srv c) then reply i (reply_err ''ERR SYNC against a replica'') c
      else repl_fullsync libc (upd_conn i (\<lambda>x. x\<lparr> is_replica := True \<rparr>) c) i)"

definition wrong_pass :: bytes where
  "wrong_pass = reply_err ''WRONGPASS invalid username-password pair''"

definition cmd_auth :: "nat \<Rightarrow> core \<Rightarrow> bytes list \<Rightarrow> core" where
  "cmd_auth i c argv =
     (if \<not> has_pass (srv c) then
        reply i (reply_err ''ERR AUTH called without any password configured for the default user. Are you sure your configuration is correct?'') c
      else if length argv \<noteq> 2 \<and> length argv \<noteq> 3 then reply i (wrong_args ''auth'') c
      else if pass_eq (last argv) (requirepass (srv c)) then
        reply i reply_ok (upd_conn i (\<lambda>x. x\<lparr> authenticated := True \<rparr>) c)
      else reply i wrong_pass c)"

definition hello_reply :: bytes where
  "hello_reply = array_of 4 (bulks [''server'', ''aura-redis'', ''version'', ''0.1''])"

text \<open>The scan of HELLO for AUTH: each occurrence that has an argument behind it checks a password, with a user name
  in between when there are two.\<close>

fun hello_auth :: "bytes option \<Rightarrow> bool \<Rightarrow> bytes list \<Rightarrow> bool \<times> bool" where
  "hello_auth p ok (a # b # rest) =
     (if cmd_eq a ''auth'' then
        (let pw = (case rest of [] \<Rightarrow> b | x # _ \<Rightarrow> x)
         in case p of
              None \<Rightarrow> hello_auth p ok (b # rest)
            | Some q \<Rightarrow> if q = [] then hello_auth p ok (b # rest)
                        else if pw = q then hello_auth p True (b # rest) else (ok, False))
      else hello_auth p ok (b # rest))"
| "hello_auth p ok xs = (ok, True)"

definition cmd_hello :: "nat \<Rightarrow> core \<Rightarrow> bytes list \<Rightarrow> core" where
  "cmd_hello i c argv =
     (case hello_auth (requirepass (srv c)) (authenticated (conns c ! i)) (tl argv) of
        (ok, fine) \<Rightarrow>
          reply i (if fine then hello_reply else wrong_pass) (upd_conn i (\<lambda>x. x\<lparr> authenticated := ok \<rparr>) c))"

definition cmd_ping :: "nat \<Rightarrow> core \<Rightarrow> bytes list \<Rightarrow> core" where
  "cmd_ping i c argv =
     (if length argv = 1 then reply i reply_pong c
      else if length argv = 2 then reply i (reply_bulk (argv ! 1)) c
      else reply i (wrong_args ''ping'') c)"

definition cmd_quit :: "nat \<Rightarrow> core \<Rightarrow> bytes list \<Rightarrow> core" where
  "cmd_quit i c argv = upd_conn i (\<lambda>x. x\<lparr> should_close := True \<rparr>) (reply i reply_ok c)"

definition cmd_shutdown :: "nat \<Rightarrow> core \<Rightarrow> bytes list \<Rightarrow> core" where
  "cmd_shutdown i c argv =
     (if length argv > 2 then reply i (wrong_args ''shutdown'') c
      else let c = upd_conn i (\<lambda>x. x\<lparr> should_close := True \<rparr>) (reply i reply_ok c)
           in c\<lparr> srv := (srv c)\<lparr> quit := True, shutting_down := True \<rparr> \<rparr>)"

definition cmd_subscribe :: "nat \<Rightarrow> core \<Rightarrow> bytes list \<Rightarrow> core" where
  "cmd_subscribe i c argv =
     (if length argv < 2 then reply i (wrong_args ''subscribe'') c else subscribe_loop i c (tl argv))"

definition cmd_unsubscribe :: "nat \<Rightarrow> core \<Rightarrow> bytes list \<Rightarrow> core" where
  "cmd_unsubscribe i c argv =
     (if length argv = 1 then unsubscribe_all (length (sub_channels (conns c ! i))) i c
      else unsubscribe_loop i c (tl argv))"

definition cmd_publish :: "nat \<Rightarrow> core \<Rightarrow> bytes list \<Rightarrow> core" where
  "cmd_publish i c argv =
     (if length argv \<noteq> 3 then reply i (wrong_args ''publish'') c
      else case publish_local c (argv ! 1) (argv ! 2) of (c, n) \<Rightarrow> reply i (reply_int (int n)) c)"


section \<open>The command tables\<close>

text \<open>The commands on connections and configuration, in the order of \<open>dispatch\<close>.\<close>

definition conn_commands :: "server_env \<Rightarrow> (bytes \<times> (nat \<Rightarrow> core \<Rightarrow> bytes list \<Rightarrow> core)) list" where
  "conn_commands env =
     [(''sync'', cmd_sync (lib env)), (''replicaof'', cmd_replicaof env), (''slaveof'', cmd_replicaof env),
      (''auth'', cmd_auth), (''hello'', cmd_hello), (''ping'', cmd_ping), (''quit'', cmd_quit),
      (''shutdown'', cmd_shutdown), (''save'', cmd_save env), (''bgsave'', cmd_bgsave env),
      (''command'', \<lambda>i c argv. reply i (array_of 0 []) c), (''evict'', cmd_evict), (''client'', cmd_client env),
      (''config'', cmd_config env), (''info'', cmd_info), (''shadow'', cmd_shadow), (''hotcold'', cmd_hotcold),
      (''hot_cold'', cmd_hotcold), (''policy'', cmd_policy), (''pin'', cmd_pin), (''unpin'', cmd_unpin),
      (''layout'', cmd_layout), (''plugin'', cmd_plugin env), (''subscribe'', cmd_subscribe),
      (''unsubscribe'', cmd_unsubscribe), (''publish'', cmd_publish), (''slowlog'', cmd_slowlog)]"

text \<open>A data command: what changed goes to the replicas before the reply is queued.\<close>

definition run_data :: "(core \<Rightarrow> bytes list \<Rightarrow> result) \<Rightarrow> nat \<Rightarrow> core \<Rightarrow> bytes list \<Rightarrow> core" where
  "run_data h i c argv =
     (case h c argv of (c, r, p) \<Rightarrow> reply i r (if p then repl_propagate c argv else c))"

definition run_command :: "server_env \<Rightarrow> nat \<Rightarrow> core \<Rightarrow> bytes list \<Rightarrow> core" where
  "run_command env i c argv =
     (case find_handler (argv ! 0) (conn_commands env) of
        Some h \<Rightarrow> h i c argv
      | None \<Rightarrow>
          (case find_handler (argv ! 0) (data_commands (lib env)) of
             Some h \<Rightarrow> run_data h i c argv
           | None \<Rightarrow> reply i (reply_err ''ERR unknown command'') c))"

definition dispatch_with :: "server_env \<Rightarrow> (nat \<Rightarrow> core \<Rightarrow> bytes list \<Rightarrow> core) \<Rightarrow> nat \<Rightarrow> core \<Rightarrow> bytes list \<Rightarrow> core" where
  "dispatch_with env run i c argv =
     (if argv = [] then reply i (reply_err ''ERR empty command'') c
      else let cmd = argv ! 0; c = upd_conn i (note_last_cmd cmd) c
           in case refused (srv c) (conns c ! i) argv of
                Some r \<Rightarrow> reply i r c
              | None \<Rightarrow>
                  if cmd_eq cmd ''watch'' then cmd_watch i c argv
                  else if cmd_eq cmd ''unwatch'' then cmd_unwatch i c argv
                  else if cmd_eq cmd ''multi'' then cmd_multi i c argv
                  else if cmd_eq cmd ''discard'' then cmd_discard i c argv
                  else if cmd_eq cmd ''exec'' then cmd_exec run i c argv
                  else if in_multi (conns c ! i) then queue_cmd i c argv
                  else run_command env i c argv)"

fun dispatch :: "server_env \<Rightarrow> nat \<Rightarrow> nat \<Rightarrow> core \<Rightarrow> bytes list \<Rightarrow> core" where
  "dispatch env 0 i c argv = c"
| "dispatch env (Suc n) i c argv = dispatch_with env (dispatch env n) i c argv"


section \<open>The input of a connection\<close>

definition serve_command :: "server_env \<Rightarrow> nat \<Rightarrow> core \<Rightarrow> bytes list \<Rightarrow> core" where
  "serve_command env i c argv =
     (let c1 = (if is_master_link (conns c ! i) then c\<lparr> srv := (srv c)\<lparr> repl_applying := True \<rparr> \<rparr> else c);
          c2 = dispatch env 2 i c1 argv;
          c3 = (if is_master_link (conns c2 ! i)
                then upd_conn i (\<lambda>x. x\<lparr> wbuf := [] \<rparr>) (c2\<lparr> srv := (srv c2)\<lparr> repl_applying := False \<rparr> \<rparr>) else c2);
          c4 = c3\<lparr> srv := note_cmd_latency (now_ms c div 1000) (took_us env c argv) argv (srv c3) \<rparr>
      in upd_conn i (\<lambda>x. x\<lparr> last_active_ms := now_ms c \<rparr>) c4)"

function process_loop :: "server_env \<Rightarrow> nat \<Rightarrow> core \<Rightarrow> bytes \<Rightarrow> core \<times> bytes" where
  "process_loop env i c s =
     (if s = [] then (c, [])
      else case parse_command s of
             Incomplete \<Rightarrow> (c, s)
           | Malformed \<Rightarrow>
               (upd_conn i (\<lambda>x. x\<lparr> should_close := True \<rparr>) (reply i (reply_err ''ERR Protocol error'') c), s)
           | Parsed argv r \<Rightarrow>
               let c = serve_command env i c argv
               in if should_close (conns c ! i) then (c, r) else process_loop env i c r)"
  by pat_completeness auto

termination
  by (relation "measure (\<lambda>(env, i, c, s). length s)") (auto dest: parse_command_Parsed(2))

declare process_loop.simps [simp del]

section \<open>Sockets\<close>

text \<open>
  What a socket answers: \<open>ssl\<close> to a step of the TLS handshake, \<open>input\<close> the bytes that can be read now and \<open>final\<close>
  the answer after them, \<open>sent\<close> the number of bytes it takes, \<open>None\<close> for an error. The answers of \<open>read\<close> and \<open>write\<close>
  and those of OpenSSL are the same here: \<open>WantRead\<close> is EAGAIN, \<open>Closed\<close> the end of the stream.
\<close>

datatype io_answer = Done | WantRead | WantWrite | Closed | Failed

record sock =
  ssl :: io_answer
  input :: bytes
  final :: io_answer
  sent :: "nat option"

definition ar_tls_handshake :: "io_answer \<Rightarrow> conn \<Rightarrow> conn \<times> int" where
  "ar_tls_handshake a x =
     (if \<not> is_tls x then (x, - 1)
      else if ssl_hs_done x then (x, 1)
      else case a of
             Done \<Rightarrow> (x\<lparr> ssl_hs_done := True \<rparr>, 1)
           | WantRead \<Rightarrow> (x, 0)
           | WantWrite \<Rightarrow> (x, 0)
           | _ \<Rightarrow> (x, - 1))"

text \<open>The handshake comes first: \<open>k\<close> runs once it is done. A failure closes the connection (the caller does).\<close>

definition after_handshake :: "io_answer \<Rightarrow> nat \<Rightarrow> (core \<Rightarrow> core \<times> bytes) \<Rightarrow> core \<Rightarrow> core \<times> bytes" where
  "after_handshake a i k c =
     (if is_tls (conns c ! i) \<and> \<not> ssl_hs_done (conns c ! i) then
        (case ar_tls_handshake a (conns c ! i) of
           (x, r) \<Rightarrow>
             (let c = upd_conn i (\<lambda>_. x) c
              in if r < 0 then (conn_close i c, []) else if r = 0 then (c, []) else k c))
      else k c)"

definition send_out :: "nat option \<Rightarrow> nat \<Rightarrow> core \<Rightarrow> core \<times> bytes" where
  "send_out r i c =
     (case r of
        None \<Rightarrow> (conn_close i c, [])
      | Some n \<Rightarrow>
          (let out = take n (wbuf (conns c ! i));
               c = upd_conn i (\<lambda>x. x\<lparr> wbuf := drop n (wbuf x) \<rparr>) c
           in (if wbuf (conns c ! i) = [] \<and> should_close (conns c ! i) then conn_close i c else c, out)))"

text \<open>The bytes sent come back.\<close>

definition flush_writes :: "sock \<Rightarrow> nat \<Rightarrow> core \<Rightarrow> core \<times> bytes" where
  "flush_writes so i c =
     (if wbuf (conns c ! i) = [] then (if should_close (conns c ! i) then conn_close i c else c, [])
      else after_handshake (ssl so) i (send_out (sent so) i) c)"

definition process_reads :: "server_env \<Rightarrow> sock \<Rightarrow> nat \<Rightarrow> core \<Rightarrow> core \<times> bytes" where
  "process_reads env so i c =
     (if is_replica (conns c ! i) then flush_writes so i (upd_conn i (\<lambda>x. x\<lparr> rbuf := [] \<rparr>) c)
      else case process_loop env i c (rbuf (conns c ! i)) of
             (c, rest) \<Rightarrow> flush_writes so i (upd_conn i (\<lambda>x. x\<lparr> rbuf := rest \<rparr>) c))"

text \<open>At the end of the stream or an error the connection is closed at once, whatever was read before.\<close>

definition RBUF_MAX :: nat where "RBUF_MAX = 16777216"

definition ar_tls_read :: "io_answer \<Rightarrow> nat \<Rightarrow> conn \<Rightarrow> int" where
  "ar_tls_read a n x =
     (if \<not> is_tls x \<or> \<not> ssl_hs_done x then - 1
      else case a of Done \<Rightarrow> int n | WantRead \<Rightarrow> 0 | WantWrite \<Rightarrow> 0 | Closed \<Rightarrow> - 2 | Failed \<Rightarrow> - 1)"

definition input_ended :: "io_answer \<Rightarrow> conn \<Rightarrow> bool" where
  "input_ended a x = (if is_tls x then ar_tls_read a 0 x < 0 else a = Closed \<or> a = Failed)"

definition read_in :: "server_env \<Rightarrow> sock \<Rightarrow> nat \<Rightarrow> core \<Rightarrow> core \<times> bytes" where
  "read_in env so i c =
     (if length (rbuf (conns c ! i) @ input so) \<ge> RBUF_MAX then (conn_close i c, [])
      else let c = upd_conn i (\<lambda>x. x\<lparr> rbuf := rbuf x @ input so \<rparr>) c
           in if input_ended (final so) (conns c ! i) then (conn_close i c, []) else process_reads env so i c)"

definition handle_read :: "server_env \<Rightarrow> sock \<Rightarrow> nat \<Rightarrow> core \<Rightarrow> core \<times> bytes" where
  "handle_read env so i c = after_handshake (ssl so) i (read_in env so i) c"


section \<open>The events\<close>

text \<open>\<open>accept_clients_on\<close> for one client; a refused one gets a message, which is not kept.\<close>

definition accept_client :: "bool \<Rightarrow> bytes \<Rightarrow> core \<Rightarrow> core \<times> nat option" where
  "accept_client loopback addr c =
     (if shutting_down (srv c) then (c, None)
      else if protected_mode (srv c) \<and> \<not> has_pass (srv c) \<and> \<not> loopback then (c, None)
      else if int (connected_clients c) \<ge> maxclients (srv c) then (c, None)
      else case conn_alloc c of
             (c, None) \<Rightarrow> (c, None)
           | (c, Some i) \<Rightarrow>
               (let id = next_client_id (srv c); n = u64 (id + 1);
                    c = upd_conn i (\<lambda>x. x\<lparr> peer_addr := take 47 addr, client_id := id, ctime_ms := now_ms c, conn_name := [], last_cmd := [] \<rparr>) c
                in (c\<lparr> srv := (srv c)\<lparr> next_client_id := (if n = 0 then 1 else n) \<rparr> \<rparr>, Some i)))"

text \<open>On the TLS port: \<open>SSL_new\<close> may fail, and the handshake begins at once.\<close>

definition ar_tls_accept_setup :: "bool \<Rightarrow> nat \<Rightarrow> core \<Rightarrow> core \<times> bool" where
  "ar_tls_accept_setup made i c =
     (if \<not> ssl_ctx (srv c) \<or> \<not> made then (c, False)
      else (upd_conn i (\<lambda>x. x\<lparr> is_tls := True, ssl_hs_done := False \<rparr>) c, True))"

definition accept_tls_client :: "bool \<Rightarrow> io_answer \<Rightarrow> bool \<Rightarrow> bytes \<Rightarrow> core \<Rightarrow> core \<times> nat option" where
  "accept_tls_client made a loopback addr c =
     (case accept_client loopback addr c of
        (c, None) \<Rightarrow> (c, None)
      | (c, Some i) \<Rightarrow>
          (case ar_tls_accept_setup made i c of
             (c, False) \<Rightarrow> (conn_close i c, None)
           | (c, True) \<Rightarrow>
               (case ar_tls_handshake a (conns c ! i) of
                  (x, r) \<Rightarrow>
                    (let c = upd_conn i (\<lambda>_. x) c in if r < 0 then (conn_close i c, None) else (c, Some i)))))"

text \<open>What \<open>serve_once\<close> does before it waits for events.\<close>

definition serve_timer :: "server_env \<Rightarrow> core \<Rightarrow> core" where
  "serve_timer env c =
     (let c = (if keys_with_ttl c \<noteq> 0 then fst (ar_core_active_expire c 16) else c);
          c = upd_srv (\<lambda>s. s\<lparr> persist := ar_rdb_poll_bgsave (waited env c) (unix_now (machine env c)) (persist s) \<rparr>) c
      in close_idle_clients c)"

end
