(* ===== verification/Serving.thy ===== *)
theory Serving
  imports Dispatch "HOL-Library.Sublist"
begin

text \<open>
  What a command does to the clients that did not send it: their sessions go on with more output and
  possibly dirty watches, or are closed; a key whose contents changed has made its watchers dirty; and
  the store and the bounds of every connection stay in order. The contract of one command is the locale
  \<open>command\<close>, discharged for every command of \<open>dispatch\<close>.
\<close>


section \<open>Sessions\<close>

definition session :: "conn \<Rightarrow> conn \<Rightarrow> bool" where
  "session x y \<longleftrightarrow> (watch_dirty x \<longrightarrow> watch_dirty y) \<and> prefix (wbuf x) (wbuf y) \<and>
     y = x\<lparr> wbuf := wbuf y, watch_dirty := watch_dirty y \<rparr>"

text \<open>A closed connection and a link to a master have the number 0.\<close>

definition peer :: "conn \<Rightarrow> conn \<Rightarrow> bool" where
  "peer x y \<longleftrightarrow> client_id y = 0 \<or> session x y"

lemma session_refl [simp]: "session x x"
  by (simp add: session_def)

lemma session_same:
  assumes "session x y"
  shows "client_id y = client_id x" "in_use y = in_use x" "watch_keys y = watch_keys x"
    "multi_q y = multi_q x" "in_multi y = in_multi x" "sub_channels y = sub_channels x" "pubsub_mode y = pubsub_mode x"
    "authenticated y = authenticated x" "is_master_link y = is_master_link x" "watch_dirty x \<Longrightarrow> watch_dirty y"
  using assms unfolding session_def by (cases x; cases y; simp)+

lemma session_trans: "session x y \<Longrightarrow> session y z \<Longrightarrow> session x z"
  unfolding session_def by (cases x; cases y; cases z) (auto intro: prefix_order.trans)

lemma peer_refl [simp]: "peer x x"
  by (simp add: peer_def)

lemma peer_trans: "peer x y \<Longrightarrow> peer y z \<Longrightarrow> peer x z"
  unfolding peer_def by (metis session_same(1) session_trans)

lemma conn_mono_session: "conn_mono x y \<Longrightarrow> session x y"
  unfolding conn_mono_def session_def by (cases x; cases y) auto

lemma session_put_out [simp]: "session x (put_out b x)"
  by (cases x) (simp add: session_def put_out_def)


section \<open>Bounds\<close>

definition transaction_names :: "bytes list" where
  "transaction_names = [''watch'', ''unwatch'', ''multi'', ''discard'', ''exec'']"

definition queued_ok :: "bytes list \<Rightarrow> bool" where
  "queued_ok q \<longleftrightarrow> q \<noteq> [] \<and> length q \<le> AR_MULTI_ARGV \<and> \<not> list_ex (cmd_eq (q ! 0)) transaction_names"

definition conn_ok :: "conn \<Rightarrow> bool" where
  "conn_ok x \<longleftrightarrow> length (watch_keys x) \<le> AR_WATCH_MAX \<and> distinct (watch_keys x) \<and>
     length (sub_channels x) \<le> AR_PUBSUB_MAX \<and> distinct (sub_channels x) \<and> pubsub_mode x = (sub_channels x \<noteq> []) \<and>
     length (multi_q x) \<le> AR_MULTI_MAX \<and> list_all queued_ok (multi_q x)"

text \<open>The ranges of the settings and the sizes of the texts the server keeps, and the ring of the slow log.\<close>

definition texts_ok :: "server \<Rightarrow> bool" where
  "texts_ok s \<longleftrightarrow> length (bind_addr s) < 64 \<and> length (rdb_dir (persist s)) < 256 \<and> length (rdb_filename (persist s)) < 128 \<and>
     length (config_path s) < 512 \<and> length (master_host s) < 64 \<and> length (shadow_policy s) < 32 \<and>
     length (explain_mid s) < 32 \<and> length (explain_reason s) < 64 \<and> length (explain_op s) < 32 \<and>
     length (explain_evict s) < 16 \<and> length (explain_layout s) < 16 \<and> length (explain_join s) < 192"

definition server_ok :: "server \<Rightarrow> bool" where
  "server_ok s \<longleftrightarrow> length (slowlog s) = AR_SLOWLOG_MAX \<and> slowlog_len s \<le> AR_SLOWLOG_MAX \<and> slowlog_head s < AR_SLOWLOG_MAX \<and>
     slowlog_max_len s \<le> AR_SLOWLOG_MAX \<and> 1 \<le> maxclients s \<and> maxclients s \<le> int AR_MAX_CONN \<and> 0 \<le> timeout_sec s \<and>
     1 \<le> tcp_backlog s \<and> 0 \<le> slowlog_slower_than_us s \<and> texts_ok s"

lemmas server_oks = server_ok_def texts_ok_def

definition tidy :: "core \<Rightarrow> bool" where
  "tidy c \<longleftrightarrow> list_all conn_ok (conns c) \<and> server_ok (srv c)"

lemma conn_ok_session: "session x y \<Longrightarrow> conn_ok y = conn_ok x"
  by (simp add: conn_ok_def session_same)

lemma conn_ok_reset [simp]: "conn_ok (conn_reset x)"
  by (simp add: conn_ok_def conn_reset_def pubsub_clear_def watch_clear_def multi_clear_def)

lemma conn_ok_fields:
  "conn_ok (put_out b x) = conn_ok x" "conn_ok (note_last_cmd n x) = conn_ok x"
  "conn_ok (x\<lparr> should_close := a \<rparr>) = conn_ok x" "conn_ok (x\<lparr> authenticated := a \<rparr>) = conn_ok x"
  "conn_ok (x\<lparr> is_replica := a \<rparr>) = conn_ok x" "conn_ok (x\<lparr> conn_name := n \<rparr>) = conn_ok x"
  "conn_ok (x\<lparr> in_multi := a \<rparr>) = conn_ok x" "conn_ok (x\<lparr> last_active_ms := t \<rparr>) = conn_ok x"
  "conn_ok (x\<lparr> rbuf := b \<rparr>) = conn_ok x" "conn_ok (x\<lparr> wbuf := b \<rparr>) = conn_ok x"
  "conn_ok (link_up x) = conn_ok x" "conn_ok (x\<lparr> in_use := a \<rparr>) = conn_ok x"
  by (simp_all add: conn_ok_def put_out_def note_last_cmd_def link_up_def)

declare conn_ok_fields [simp]

lemma conn_ok_clears [simp]:
  "conn_ok x \<Longrightarrow> conn_ok (watch_clear x)" "conn_ok x \<Longrightarrow> conn_ok (multi_clear x)" "conn_ok x \<Longrightarrow> conn_ok (x\<lparr> in_multi := a, multi_q := [] \<rparr>)"
  by (simp_all add: conn_ok_def watch_clear_def multi_clear_def)


section \<open>The contract\<close>

text \<open>What a watcher is told: the key with its deadline, not the pin.\<close>

definition worth :: "core \<Rightarrow> bytes \<Rightarrow> obs option" where
  "worth c k = map_option (\<lambda>v. v\<lparr> o_pin := False \<rparr>) (view c k)"

definition told :: "nat \<Rightarrow> core \<Rightarrow> bytes \<Rightarrow> bool" where
  "told i c k \<longleftrightarrow> (\<forall>j < length (conns c). j \<noteq> i \<and> in_use (conns c ! j) \<and> client_id (conns c ! j) \<noteq> 0 \<and>
     k \<in> set (watch_keys (conns c ! j)) \<longrightarrow> watch_dirty (conns c ! j))"

definition serves :: "nat \<Rightarrow> core \<Rightarrow> core \<Rightarrow> bool" where
  "serves i c c' \<longleftrightarrow> sound c' \<and> length (conns c') = length (conns c) \<and> now_ms c' = now_ms c \<and>
     (\<forall>j < length (conns c). j \<noteq> i \<longrightarrow> peer (conns c ! j) (conns c' ! j)) \<and>
     (\<forall>k. worth c' k = worth c k \<or> told i c' k) \<and> (tidy c \<longrightarrow> tidy c')"

lemma serves_refl [simp]: "sound c \<Longrightarrow> serves i c c"
  by (simp add: serves_def)

lemma told_peers:
  assumes "told i c k" and "length (conns c') = length (conns c)"
    and "\<And>j. j < length (conns c) \<Longrightarrow> j \<noteq> i \<Longrightarrow> peer (conns c ! j) (conns c' ! j)"
  shows "told i c' k"
  unfolding told_def
proof (intro allI impI)
  fix j assume j: "j < length (conns c')"
    and w: "j \<noteq> i \<and> in_use (conns c' ! j) \<and> client_id (conns c' ! j) \<noteq> 0 \<and> k \<in> set (watch_keys (conns c' ! j))"
  have s: "session (conns c ! j) (conns c' ! j)" using assms(2) assms(3) [of j] j w by (auto simp: peer_def)
  show "watch_dirty (conns c' ! j)"
    using assms(1,2) j w session_same [OF s] by (auto simp: told_def)
qed

lemma serves_trans:
  assumes "serves i a b" and "serves i b d"
  shows "serves i a d"
proof -
  have "worth d k = worth a k \<or> told i d k" for k
    using assms told_peers [of i b k d] by (auto simp: serves_def) metis+
  moreover have "peer (conns a ! j) (conns d ! j)" if "j < length (conns a)" "j \<noteq> i" for j
    using assms that by (auto simp: serves_def intro: peer_trans)
  ultimately show ?thesis using assms by (simp add: serves_def)
qed

lemma serves_sound: "serves i c c' \<Longrightarrow> sound c'"
  by (simp add: serves_def)

lemma serves_length: "serves i c c' \<Longrightarrow> length (conns c') = length (conns c)"
  by (simp add: serves_def)

locale command =
  fixes h :: "nat \<Rightarrow> core \<Rightarrow> bytes list \<Rightarrow> core"
  assumes serves: "sound c \<Longrightarrow> serves i c (h i c argv)"
begin

lemma stays_sound: "sound c \<Longrightarrow> sound (h i c argv)"
  using serves serves_sound by blast

lemma stays_tidy: "sound c \<Longrightarrow> tidy c \<Longrightarrow> tidy (h i c argv)"
  using serves [of c i argv] by (simp add: serves_def)

text \<open>A client that watches, is still served and was not told has what it watches unchanged.\<close>

lemma watched_unchanged:
  assumes "sound c" and "w \<noteq> i" and "w < length (conns c)"
    and "in_use (conns c ! w)" and "client_id (conns (h i c argv) ! w) \<noteq> 0"
    and "k \<in> set (watch_keys (conns c ! w))" and "\<not> watch_dirty (conns (h i c argv) ! w)"
  shows "worth (h i c argv) k = worth c k"
proof -
  note s = serves [OF assms(1), of i argv]
  have p: "session (conns c ! w) (conns (h i c argv) ! w)" using s assms(2,3,5) by (auto simp: serves_def peer_def)
  show ?thesis using s assms session_same [OF p] by (auto simp: serves_def told_def)
qed

end


section \<open>The state changes of the commands\<close>

lemma sound_core:
  assumes "sound c" and "dict_of c' = dict_of c" and "alloc_ok c' = alloc_ok c"
  shows "sound c'"
proof -
  obtain s where w: "wf s c" "alloc_ok c" using assms(1) by (auto simp: sound_def)
  have "wf s c'" by (rule wf_same [OF w(1) assms(2)])
  then show ?thesis using w(2) assms(3) by (auto simp: sound_def)
qed

lemma worth_core: "dict_of c' = dict_of c \<Longrightarrow> worth c' k = worth c k"
  by (simp add: worth_def view_cong [of c' c])

lemma conns_upd_conn [simp]: "conns (upd_conn i f c) = (conns c)[i := f (conns c ! i)]"
  by (simp add: upd_conn_def)

lemma upd_conn_same [simp]:
  "dict_of (upd_conn i f c) = dict_of c" "alloc_ok (upd_conn i f c) = alloc_ok c" "now_ms (upd_conn i f c) = now_ms c"
  "srv (upd_conn i f c) = srv c" "env_of (upd_conn i f c) = env_of c"
  by (simp_all add: upd_conn_def dict_of_def env_of_def)

lemma dict_of_other [simp]: "dict_of (c\<lparr> srv := s \<rparr>) = dict_of c" "dict_of (c\<lparr> conns := xs \<rparr>) = dict_of c"
  by (simp_all add: dict_of_def)

lemma reply_same [simp]:
  "dict_of (reply i b c) = dict_of c" "alloc_ok (reply i b c) = alloc_ok c" "now_ms (reply i b c) = now_ms c"
  "srv (reply i b c) = srv c" "env_of (reply i b c) = env_of c"
  by (simp_all add: reply_def)

lemma propagate_same [simp]:
  "dict_of (repl_propagate c argv) = dict_of c" "alloc_ok (repl_propagate c argv) = alloc_ok c"
  "now_ms (repl_propagate c argv) = now_ms c" "srv (repl_propagate c argv) = srv c" "env_of (repl_propagate c argv) = env_of c"
  by (simp_all add: repl_propagate_def dict_of_def env_of_def)

text \<open>A step that leaves the dictionary alone: every slot but \<open>i\<close> goes on, every slot keeps its bounds.\<close>

lemma serves_conns:
  assumes "sound c" and "dict_of c' = dict_of c" "alloc_ok c' = alloc_ok c" "now_ms c' = now_ms c"
    and "length (conns c') = length (conns c)"
    and "\<And>j. j < length (conns c) \<Longrightarrow> j \<noteq> i \<Longrightarrow> peer (conns c ! j) (conns c' ! j)"
    and "\<And>j. j < length (conns c) \<Longrightarrow> conn_ok (conns c ! j) \<Longrightarrow> conn_ok (conns c' ! j)"
    and "server_ok (srv c) \<Longrightarrow> server_ok (srv c')"
  shows "serves i c c'"
  unfolding serves_def worth_core [OF assms(2)]
  using assms sound_core [OF assms(1-3)] by (simp add: tidy_def list_all_length)

lemma nth_updated: "j < length xs \<Longrightarrow> xs[i := y] ! j = (if i = j then y else xs ! j)"
  by simp

lemma serves_upd:
  assumes "sound c" and "i < length (conns c) \<Longrightarrow> conn_ok (conns c ! i) \<Longrightarrow> conn_ok (f (conns c ! i))"
  shows "serves i c (upd_conn i f c)"
  by (rule serves_conns) (use assms in \<open>auto simp: nth_updated\<close>)

lemma serves_reply [simp]: "sound c \<Longrightarrow> serves i c (reply i b c)"
  unfolding reply_def by (rule serves_upd) simp_all

lemma serves_srv:
  assumes "sound c" and "server_ok (srv c) \<Longrightarrow> server_ok s"
  shows "serves i c (c\<lparr> srv := s \<rparr>)"
  by (rule serves_conns) (use assms in \<open>auto simp: dict_of_def\<close>)

text \<open>Any function of the connections at once.\<close>

lemma serves_map:
  assumes "sound c" and "\<And>x. peer x (f x)" and "\<And>x. conn_ok x \<Longrightarrow> conn_ok (f x)"
  shows "serves i c (c\<lparr> conns := map f (conns c) \<rparr>)"
  by (rule serves_conns) (use assms in \<open>auto simp: dict_of_def\<close>)

lemma peer_reset [simp]: "peer x (conn_reset x)"
  by (simp add: peer_def conn_reset_def)

lemma serves_close [simp]: "sound c \<Longrightarrow> serves i c (conn_close j c)"
  unfolding conn_close_def by (auto intro!: serves_conns simp: nth_updated)

text \<open>A data operation: it heeds the watchers of every key.\<close>

lemma serves_heeds:
  assumes s: "sound c" and h: "heeds c c'"
  shows "serves i c c'"
proof -
  have m: "list_all2 conn_mono (conns c) (conns c')" and e: "env_of c' = env_of c"
    using h by (auto simp: heeds_def conns_mono_def)
  have p: "session (conns c ! j) (conns c' ! j)" if "j < length (conns c)" for j
    using m that by (auto simp: list_all2_conv_all_nth intro: conn_mono_session)
  have "told i c' k" if "touched c' k" for k using that by (auto simp: told_def touched_def)
  then have "worth c' k = worth c k \<or> told i c' k" for k using h unfolding heeds_def worth_def by metis
  moreover have "tidy c \<Longrightarrow> tidy c'"
    using e list_all2_lengthD [OF m] conn_ok_session [OF p] by (simp add: tidy_def list_all_length env_of_def)
  ultimately show ?thesis
    using s sound_heeds [OF s h] e list_all2_lengthD [OF m] p by (simp add: serves_def peer_def env_of_def)
qed

text \<open>A change of the books or the tiers.\<close>

lemma serves_steps:
  assumes "sound c" and "wf s c'" and "view c' = view c" and "alloc_ok c' = alloc_ok c" "now_ms c' = now_ms c"
    and "conns c' = conns c" and "server_ok (srv c) \<Longrightarrow> server_ok (srv c')"
  shows "serves i c c'"
  using assms by (auto simp: serves_def worth_def tidy_def sound_def)

lemma sound_reply [simp]: "sound c \<Longrightarrow> sound (reply i b c)"
  by (rule serves_sound) (rule serves_reply)

lemma sound_upd [simp]: "sound c \<Longrightarrow> sound (upd_conn i f c)"
  by (erule sound_core) simp_all

lemma serves_then: "serves i c c1 \<Longrightarrow> serves i c (reply i b c1)"
  by (rule serves_trans, assumption, rule serves_reply, erule serves_sound)


section \<open>The commands\<close>

lemma serves_upd_reply:
  assumes "sound c" and "i < length (conns c) \<Longrightarrow> conn_ok (conns c ! i) \<Longrightarrow> conn_ok (f (conns c ! i))"
  shows "serves i c (reply i b (upd_conn i f c))"
  by (rule serves_then) (use assms serves_upd in auto)

lemma serves_srv_reply:
  assumes "sound c" and "server_ok (srv c) \<Longrightarrow> server_ok s"
  shows "serves i c (reply i b (c\<lparr> srv := s \<rparr>))"
  by (rule serves_then) (use assms serves_srv in auto)

interpretation c_unwatch: command cmd_unwatch
  by unfold_locales (simp add: cmd_unwatch_def serves_upd_reply)

interpretation c_multi: command cmd_multi
  by unfold_locales (simp add: cmd_multi_def serves_upd_reply)

interpretation c_discard: command cmd_discard
  by unfold_locales (simp add: cmd_discard_def end_multi_def serves_upd_reply)

interpretation c_auth: command cmd_auth
  by unfold_locales (simp add: cmd_auth_def serves_upd_reply)

interpretation c_hello: command cmd_hello
  by unfold_locales (simp add: cmd_hello_def serves_upd_reply split: prod.splits)

interpretation c_ping: command cmd_ping
  by unfold_locales (simp add: cmd_ping_def)

interpretation c_slowlog: command cmd_slowlog
  by unfold_locales (auto simp: cmd_slowlog_def server_oks AR_SLOWLOG_MAX_def intro!: serves_srv_reply split: option.splits)

lemma watch_loop_ok: "conn_ok x \<Longrightarrow> watch_loop a x ks = (y, r) \<Longrightarrow> conn_ok y"
  by (induction a x ks rule: watch_loop.induct) (auto split: if_splits simp: conn_ok_def)

interpretation c_watch: command cmd_watch
  by unfold_locales (auto simp: cmd_watch_def intro!: serves_upd_reply split: prod.splits dest: watch_loop_ok)

lemma serves_quit: "sound c \<Longrightarrow> serves i c (upd_conn i (\<lambda>x. x\<lparr> should_close := True \<rparr>) (reply i b c))"
  by (rule serves_trans, erule serves_reply, rule serves_upd) simp_all

interpretation c_quit: command cmd_quit
  by unfold_locales (simp add: cmd_quit_def serves_quit)

interpretation c_shutdown: command cmd_shutdown
  by unfold_locales (auto simp: cmd_shutdown_def Let_def server_oks
      intro!: serves_trans [OF serves_quit serves_srv])

lemma serves_wf_steps:
  assumes "sound c" and "\<And>s P K W. wf s c \<Longrightarrow> steps s P K W c c'"
  shows "serves i c c'"
proof -
  obtain s where "wf s c" using assms(1) by (auto simp: sound_def)
  then show ?thesis by (intro serves_heeds [OF assms(1)] heeds_steps assms(2))
qed

lemma serves_upd_pin:
  assumes "sound c" and cu: "cursor s c e N" and u: "upd s N c e c' (e\<lparr> pinned := b \<rparr>)" and s: "srv c' = srv c"
  shows "serves i c c'"
proof -
  have w: "wf s c'" using u wf_of_cursor upd_cursor by blast
  have v: "view c' k = view c k" if "k \<noteq> ekey e" for k
  proof -
    have "view c' = (view c)(ekey e \<mapsto> obs_of (e\<lparr> pinned := b \<rparr>))"
      by (rule tabs_view_put [of c e N]) (use cu upd_cursor [OF u] in \<open>auto simp: cursor_def\<close>)
    then show ?thesis using that by simp
  qed
  have "worth c' k = worth c k" for k
  proof (cases "k = ekey e")
    case True
    then show ?thesis using cursor_view [OF cu] cursor_view [OF upd_cursor [OF u]] by (simp add: worth_def obs_of_pin)
  qed (simp add: worth_def v)
  then show ?thesis using w u assms(1) s by (auto simp: serves_def upd_def env_of_def sound_def tidy_def)
qed

lemma serves_pin:
  assumes s: "sound c" and r: "ar_core_pin c k = (c', ok)"
  shows "serves i c c'"
proof -
  obtain sl where w: "wf sl c" using s by (auto simp: sound_def)
  show ?thesis using w
  proof (cases rule: find_cases [of sl c k])
    case (found e b tr N)
    show ?thesis
    proof (cases "pinned e")
      case False
      then have c': "c' = entry_put (c\<lparr> pinned_keys := pinned_keys c + 1 \<rparr>) (e\<lparr> pinned := True \<rparr>)"
        using r found(1) by (simp add: ar_core_pin_def)
      show ?thesis unfolding c'
        by (rule serves_upd_pin [OF s found(4) repin_upd [OF found(4)]]) (simp_all add: False)
    qed (use r found(1) s in \<open>simp add: ar_core_pin_def\<close>)
  next
    case (missing c0)
    then have "c' = c0" using r by (simp add: ar_core_pin_def)
    then show ?thesis using serves_heeds [OF s heeds_steps [OF missing(2)]] by simp
  qed
qed

lemma serves_unpin:
  assumes s: "sound c" and r: "ar_core_unpin c k = (c', ok)"
  shows "serves i c c'"
proof -
  obtain sl where w: "wf sl c" using s by (auto simp: sound_def)
  show ?thesis using w
  proof (cases rule: find_cases [of sl c k])
    case (found e b tr N)
    show ?thesis
    proof (cases "pinned e")
      case True
      then have c': "c' = entry_put (c\<lparr> pinned_keys := sat_sub (pinned_keys c) 1 \<rparr>) (e\<lparr> pinned := False \<rparr>)"
        using r found(1) by (simp add: ar_core_unpin_def)
      have "sat_sub (pinned_keys c) 1 + 1 = pinned_keys c" using found(4) True by (auto simp: cursor_def balanced_def)
      then show ?thesis unfolding c'
        by (intro serves_upd_pin [OF s found(4) repin_upd [OF found(4)]]) (simp_all add: True)
    qed (use r found(1) s in \<open>simp add: ar_core_unpin_def\<close>)
  next
    case (missing c0)
    then have "c' = c0" using r by (simp add: ar_core_unpin_def)
    then show ?thesis using serves_heeds [OF s heeds_steps [OF missing(2)]] by simp
  qed
qed

interpretation c_pin: command cmd_pin
  by unfold_locales (auto simp: cmd_pin_def Let_def intro: serves_then serves_pin split: prod.splits)

interpretation c_unpin: command cmd_unpin
  by unfold_locales (auto simp: cmd_unpin_def intro: serves_then serves_unpin split: prod.splits)

lemma serves_set_layout: "sound c \<Longrightarrow> ar_core_set_layout c n = (c', ok) \<Longrightarrow> serves i c c'"
  by (erule serves_wf_steps) (blast intro: relays_steps(1) set_layout_relays(1))

interpretation c_layout: command cmd_layout
  by unfold_locales (auto simp: cmd_layout_def intro: serves_then serves_set_layout split: prod.splits option.splits)

text \<open>A change of configuration that the dictionary and the connections do not see.\<close>

lemma serves_fields:
  assumes "sound c" and "dict_of c' = dict_of c" "alloc_ok c' = alloc_ok c" "now_ms c' = now_ms c" "conns c' = conns c"
    and "server_ok (srv c) \<Longrightarrow> server_ok (srv c')"
  shows "serves i c c'"
  by (rule serves_conns) (use assms in auto)

lemma serves_set_evict:
  assumes "sound c" and "ar_core_set_evict_by_name c n = (c', ok)"
  shows "serves i c c'"
  by (rule serves_fields) (use assms in \<open>auto simp: ar_core_set_evict_by_name_def dict_of_def Let_def split: option.splits\<close>)

lemma serves_set_samples: "sound c \<Longrightarrow> serves i c (ar_core_set_evict_samples c n)"
  by (rule serves_fields) (auto simp: ar_core_set_evict_samples_def dict_of_def Let_def)

interpretation c_evict: command cmd_evict
  by unfold_locales (auto simp: cmd_evict_def intro: serves_then serves_set_evict serves_set_samples split: prod.splits option.splits)

lemma serves_promote: "sound c \<Longrightarrow> serves i c (ar_core_set_hot_promote_on_get c b)"
  by (rule serves_fields) (auto simp: ar_core_set_hot_promote_on_get_def dict_of_def)

lemma serves_caps:
  "sound c \<Longrightarrow> serves i c (ar_core_set_hot_soft_cap_pct c n)" "sound c \<Longrightarrow> serves i c (ar_core_set_hot_soft_cap_min c n)"
  by (erule serves_wf_steps, erule soft_cap_pct_steps, erule serves_wf_steps, erule soft_cap_min_steps)

interpretation c_hotcold: command cmd_hotcold
  by unfold_locales (auto simp: cmd_hotcold_def Let_def intro: serves_then serves_promote serves_caps split: option.splits)

lemma serves_shadow:
  "sound c \<Longrightarrow> serves i c (ar_core_shadow_reset c)" "sound c \<Longrightarrow> serves i c (ar_core_shadow_note_diverge c)"
  "sound c \<Longrightarrow> serves i c (ar_core_set_shadow_sample_pct c n)"
  by (rule serves_fields; simp add: ar_core_shadow_reset_def ar_core_shadow_note_diverge_def
      ar_core_set_shadow_sample_pct_def dict_of_def Let_def)+

lemma serves_shadow_policy: "sound c \<Longrightarrow> ar_core_set_shadow_policy c n = (c', ok) \<Longrightarrow> serves i c c'"
  by (auto simp: ar_core_set_shadow_policy_def server_oks intro!: serves_srv split: if_splits)

interpretation c_shadow: command cmd_shadow
  by unfold_locales (auto simp: cmd_shadow_def intro: serves_then serves_shadow serves_shadow_policy
      split: option.splits prod.splits)

lemma server_ok_policy: "ar_core_policy_set s p v = (s', ok) \<Longrightarrow> server_ok s \<Longrightarrow> server_ok s'"
  by (auto simp: ar_core_policy_set_def server_oks split: if_splits option.splits)

lemma explain_shape: "\<exists>j. ar_core_set_explain s a b d e f = s\<lparr> explain_mid := take 31 a, explain_reason := take 63 b,
    explain_op := take 31 d, explain_evict := take 15 e, explain_layout := take 15 f, explain_join := take 191 j \<rparr>"
  unfolding ar_core_set_explain_def Let_def by (rule exI, rule refl)

lemma server_ok_explain: "server_ok s \<Longrightarrow> server_ok (ar_core_set_explain s a b d e f)"
  using explain_shape [of s a b d e f] by (elim exE) (auto simp: server_oks min_less_iff_disj)

interpretation c_policy: command cmd_policy
  by unfold_locales (auto simp: cmd_policy_def intro!: serves_srv_reply dest: server_ok_policy server_ok_explain split: prod.splits)

lemma serves_kill: "sound c \<Longrightarrow> serves i c (client_kill P i c)"
  by (auto simp: client_kill_def intro: serves_then serves_upd_reply serves_close split: option.splits)

interpretation c_client: command "cmd_client env" for env
  by unfold_locales (auto simp: cmd_client_def intro!: serves_upd_reply serves_kill)

lemma sound_close [simp]: "sound c \<Longrightarrow> sound (conn_close j c)"
  by (rule serves_sound) (rule serves_close)

lemma serves_links [simp]: "sound c \<Longrightarrow> serves i c (repl_close_master_links c)"
  unfolding repl_close_master_links_def by (rule serves_map) auto

lemma serves_new_conn:
  assumes s: "sound c" and f: "\<And>x. client_id (f x) = 0" "\<And>x. conn_ok (f x)"
  shows "serves i c (upd_conn j f c)"
  by (rule serves_conns) (use assms in \<open>auto simp: nth_updated peer_def\<close>)

lemma client_id_reset [simp]: "client_id (conn_reset x) = 0"
  by (simp add: conn_reset_def)

lemma serves_alloc:
  assumes "sound c" and "conn_alloc c = (c', r)"
  shows "serves i c c'"
  using assms by (auto simp: conn_alloc_def Let_def intro!: serves_new_conn split: option.splits if_splits)

lemma alloc_Some:
  assumes "conn_alloc c = (c', Some j)"
  shows "j < length (conns c)" "client_id (conns c' ! j) = 0" "\<not> in_use (conns c ! j)"
  using assms by (auto simp: conn_alloc_def Let_def find_Some_iff split: option.splits if_splits)

lemma serves_link_up:
  assumes "sound c" and "client_id (conns c ! j) = 0"
  shows "serves i c (upd_conn j link_up c)"
  by (rule serves_conns) (use assms in \<open>auto simp: nth_updated peer_def link_up_def conn_ok_def\<close>)

lemma serves_connect:
  assumes s: "sound c" and r: "repl_connect_master env c host port = (c', ok)"
  shows "serves i c c'"
proof (cases "port \<le> 0 \<or> port > 65535 \<or> \<not> connects env (repl_close_master_links c) host port")
  case True
  then show ?thesis using r s by (auto simp: repl_connect_master_def Let_def split: if_splits)
next
  case False
  let ?c = "repl_close_master_links c"
  obtain c1 q where 1: "conn_alloc ?c = (c1, q)" by fastforce
  have s1: "serves i c ?c" using s by simp
  then have s2: "serves i c c1" using serves_alloc [OF serves_sound 1] serves_trans by blast
  show ?thesis
  proof (cases q)
    case None
    then show ?thesis using r False 1 s2 by (simp add: repl_connect_master_def)
  next
    case (Some j)
    let ?c2 = "upd_conn j link_up c1"
    have 2: "serves i c1 ?c2" using serves_sound [OF s2] alloc_Some(2) 1 Some by (intro serves_link_up) auto
    have "serves i ?c2 c'"
      using r False 1 Some serves_sound [OF 2]
      by (auto simp: repl_connect_master_def Let_def server_oks intro!: serves_srv)
    then show ?thesis using s2 2 serves_trans by blast
  qed
qed

lemma serves_alone:
  assumes "sound c"
  shows "serves i c ((repl_close_master_links c)\<lparr> srv := (srv (repl_close_master_links c))
    \<lparr> repl_readonly := False, master_host := [], master_port := 0 \<rparr> \<rparr>)"
  by (rule serves_trans [OF serves_links serves_srv]) (use assms in \<open>auto simp: server_oks intro: serves_sound [OF serves_links]\<close>)

interpretation c_replicaof: command "cmd_replicaof env" for env
  by unfold_locales (auto simp: cmd_replicaof_def Let_def intro: serves_then serves_alone serves_connect split: prod.splits)

interpretation c_sync: command "cmd_sync lc" for lc
  by unfold_locales (auto simp: cmd_sync_def repl_fullsync_def intro!: serves_upd_reply)

lemma add_sub_ok: "conn_ok x \<Longrightarrow> conn_add_sub a x ch = (y, r) \<Longrightarrow> conn_ok y"
  by (auto simp: conn_add_sub_def conn_subscribed_def conn_ok_def Let_def split: if_splits)

lemma del_sub_ok: "conn_ok x \<Longrightarrow> conn_del_sub x ch = (y, n) \<Longrightarrow> conn_ok y"
  by (auto simp: conn_del_sub_def conn_ok_def Let_def length_remove1 split: if_splits)

lemma subscribe_step:
  "sound c \<Longrightarrow> conn_add_sub a (conns c ! i) ch = (x, r) \<Longrightarrow> serves i c (reply i b (upd_conn i (\<lambda>_. x) c))"
  using add_sub_ok by (blast intro: serves_upd_reply)

lemma unsubscribe_step:
  "sound c \<Longrightarrow> conn_del_sub (conns c ! i) ch = (x, n) \<Longrightarrow> serves i c (reply i b (upd_conn i (\<lambda>_. x) c))"
  using del_sub_ok by (blast intro: serves_upd_reply)

lemma subscribe_loop_serves: "sound c \<Longrightarrow> serves i c (subscribe_loop i c chs)"
proof (induction i c chs rule: subscribe_loop.induct)
  case (2 i c ch chs)
  obtain x r where e: "conn_add_sub (alloc_ok c) (conns c ! i) ch = (x, r)" by fastforce
  then show ?case using 2 serves_trans [OF subscribe_step [OF 2(2) e]] by (cases r) auto
qed simp

lemma unsubscribe_loop_serves: "sound c \<Longrightarrow> serves i c (unsubscribe_loop i c chs)"
proof (induction i c chs rule: unsubscribe_loop.induct)
  case (2 i c ch chs)
  obtain x n where e: "conn_del_sub (conns c ! i) ch = (x, n)" by fastforce
  then show ?case using 2 serves_trans [OF unsubscribe_step [OF 2(2) e]] by auto
qed simp

lemma unsubscribe_all_serves: "sound c \<Longrightarrow> serves i c (unsubscribe_all n i c)"
proof (induction n i c rule: unsubscribe_all.induct)
  case (2 n i c)
  show ?case
  proof (cases "sub_channels (conns c ! i)")
    case (Cons ch chs)
    obtain x m where e: "conn_del_sub (conns c ! i) ch = (x, m)" by fastforce
    show ?thesis using 2(1) [OF Cons e [symmetric]] 2(2) Cons e serves_trans [OF unsubscribe_step [OF 2(2) e]] by auto
  qed (use 2(2) in simp)
qed simp

interpretation c_subscribe: command cmd_subscribe
  by unfold_locales (simp add: cmd_subscribe_def subscribe_loop_serves)

interpretation c_unsubscribe: command cmd_unsubscribe
  by unfold_locales (simp add: cmd_unsubscribe_def unsubscribe_loop_serves unsubscribe_all_serves)

lemma peer_put_out [simp]: "peer x (put_out b x)"
  by (simp add: peer_def)

interpretation c_publish: command cmd_publish
  by unfold_locales (auto simp: cmd_publish_def publish_local_def intro!: serves_then serves_map)


text \<open>Configuration and the host.\<close>

lemma serves_upd_srv:
  assumes "sound c" and "server_ok (srv c) \<Longrightarrow> server_ok (f (srv c))"
  shows "serves i c (upd_srv f c)"
  unfolding upd_srv_def by (rule serves_srv) (use assms in auto)

lemma serves_evict:
  assumes "sound c" and "dict_of c1 = dict_of c" "alloc_ok c1 = alloc_ok c" "now_ms c1 = now_ms c" "conns c1 = conns c" "srv c1 = srv c"
  shows "serves i c (maybe_evict c1)"
proof -
  have 1: "serves i c c1" by (rule serves_fields [OF assms(1-5)]) (simp add: assms(6))
  obtain s where "wf s c1" using serves_sound [OF 1] by (auto simp: sound_def)
  then have "heeds c1 (maybe_evict c1)" by (rule heeds_steps [OF maybe_evict_steps])
  then show ?thesis using 1 serves_heeds [OF serves_sound [OF 1]] serves_trans by blast
qed

lemma serves_maxmemory: "sound c \<Longrightarrow> serves i c (ar_core_set_maxmemory c n)"
  unfolding ar_core_set_maxmemory_def by (rule serves_evict) (simp_all add: dict_of_def)

lemma serves_plugin: "sound c \<Longrightarrow> ar_core_load_evict_plugin env c p = (c', ok) \<Longrightarrow> serves i c c'"
  by (auto simp: ar_core_load_evict_plugin_def dict_of_def intro!: serves_evict split: if_splits option.splits)

interpretation c_plugin: command "cmd_plugin env" for env
  by unfold_locales (auto simp: cmd_plugin_def intro: serves_then serves_plugin split: option.splits prod.splits)

interpretation c_info: command cmd_info
  by unfold_locales (simp add: cmd_info_def)

text \<open>The snapshots leave the names of their file alone.\<close>

lemma poll_names: "rdb_dir (ar_rdb_poll_bgsave w t r) = rdb_dir r" "rdb_filename (ar_rdb_poll_bgsave w t r) = rdb_filename r"
  by (simp_all add: ar_rdb_poll_bgsave_def reaped_def Let_def split: wait_result.split)

lemma save_names: "ar_rdb_save h r c = (h', r', ok) \<Longrightarrow> rdb_dir r' = rdb_dir r \<and> rdb_filename r' = rdb_filename r"
  by (auto simp: ar_rdb_save_def split: option.splits prod.splits bool.splits)

lemma bgsave_names: "ar_rdb_bgsave w f h r c = (h', r', n) \<Longrightarrow> rdb_dir r' = rdb_dir r \<and> rdb_filename r' = rdb_filename r"
  using poll_names by (auto simp: ar_rdb_bgsave_def Let_def dest!: save_names split: if_splits option.splits fork_result.splits prod.splits)

interpretation c_save: command "cmd_save env" for env
  by unfold_locales (auto simp: cmd_save_def put_saved_def server_oks dest: save_names intro!: serves_then serves_upd_srv split: prod.splits)

interpretation c_bgsave: command "cmd_bgsave env" for env
  by unfold_locales (auto simp: cmd_bgsave_def put_saved_def server_oks dest: bgsave_names intro!: serves_then serves_upd_srv split: prod.splits)

text \<open>A setting, whether the file or the CONFIG command makes it.\<close>

definition setter :: "(core \<Rightarrow> bytes \<Rightarrow> core \<times> bool) \<Rightarrow> bool" where
  "setter f \<longleftrightarrow> (\<forall>i c v c' ok. sound c \<longrightarrow> f c v = (c', ok) \<longrightarrow> serves i c c')"

lemma setter_pass: "setter ar_core_set_requirepass"
  by (auto simp: setter_def ar_core_set_requirepass_def Let_def server_oks
      intro!: serves_upd_srv serves_trans [OF serves_upd_srv serves_upd_srv] serves_sound [OF serves_upd_srv] split: if_splits)

lemma setter_numbers:
  "setter (\<lambda>c v. ar_core_set_maxclients c (atoi v))" "setter (\<lambda>c v. ar_core_set_timeout c (atoi v))"
  "setter (\<lambda>c v. ar_core_set_tcp_backlog c (atoi v))" "setter (\<lambda>c v. ar_core_set_slowlog_slower_than c (atoi v))"
  "setter ar_core_set_bind" "setter (set_persist ar_core_set_rdb_dir)" "setter (set_persist ar_core_set_rdb_filename)"
  by (auto simp: setter_def ar_core_set_maxclients_def ar_core_set_timeout_def ar_core_set_tcp_backlog_def
      ar_core_set_slowlog_slower_than_def ar_core_set_bind_def set_persist_def server_oks ar_core_set_rdb_dir_def
      ar_core_set_rdb_filename_def
      intro!: serves_upd_srv split: if_splits prod.splits)

lemma clamp_slowlog_le [simp]: "clamp_slowlog n \<le> AR_SLOWLOG_MAX"
  by (auto simp: clamp_slowlog_def Let_def)

lemma setter_flags:
  "setter (\<lambda>c v. (ar_core_set_maxmemory c (fst (strtoull v)), True))" "setter (\<lambda>c v. (ar_core_set_protected_mode c (g v), True))"
  "setter (\<lambda>c v. (ar_core_set_evict_samples c (atoi v), True))" "setter (\<lambda>c v. (ar_core_set_shadow_sample_pct c (atoi v), True))"
  "setter (\<lambda>c v. (ar_core_set_hot_soft_cap_pct c (atoi v), True))" "setter (\<lambda>c v. (ar_core_set_hot_soft_cap_min c (atoi v), True))"
  "setter (\<lambda>c v. (ar_core_set_hot_promote_on_get c (g v), True))"
  "setter (\<lambda>c v. (upd_srv (\<lambda>s. s\<lparr> slowlog_max_len := clamp_slowlog (atoi v) \<rparr>) c, True))" "setter (\<lambda>c v. (upd_srv (set_slowlog_max (atoi v)) c, True))"
  by (auto simp: setter_def ar_core_set_protected_mode_def server_oks set_slowlog_max_def Let_def
      intro!: serves_upd_srv serves_maxmemory serves_set_samples serves_shadow serves_caps serves_promote)

lemma setter_shadow: "setter ar_core_set_shadow_policy"
  by (auto simp: setter_def intro: serves_shadow_policy)

lemma setter_tables:
  "(n, f) \<in> set conf_table \<Longrightarrow> setter f" "(n, e, f) \<in> set set_table \<Longrightarrow> setter f"
  unfolding conf_table_def set_table_def by (elim set_ConsD [elim_format] disjE; simp add: setter_pass setter_numbers setter_flags setter_shadow)+

lemma serves_rewrite: "sound c \<Longrightarrow> ar_config_rewrite h c = (c', ok) \<Longrightarrow> serves i c c'"
  by (auto simp: ar_config_rewrite_def Let_def server_oks intro!: serves_upd_srv split: if_splits)

lemma serves_set_ok: "sound c \<Longrightarrow> serves i c (config_set_ok env i c)"
  using serves_rewrite [of c "host_at env c" "fst (ar_config_rewrite (host_at env c) c)" "snd (ar_config_rewrite (host_at env c) c)"]
  by (auto simp: config_set_ok_def intro: serves_then)

lemma serves_config_set:
  assumes s: "sound c"
  shows "serves i c (config_set env i c k v)"
proof (cases "find (\<lambda>(n, e). cmd_eq k n) set_table")
  case (Some x)
  obtain n e f where x: "x = (n, e, f)" by (cases x) auto
  have f: "setter f" using Some x by (intro setter_tables(2) [of n e]) (auto simp: find_Some_iff dest: nth_mem)
  obtain c1 ok where 1: "f c (cut_arg 256 v) = (c1, ok)" by fastforce
  have sv: "serves i c c1" using f s 1 unfolding setter_def by blast
  show ?thesis using Some x 1 sv serves_trans [OF sv serves_set_ok [OF serves_sound [OF sv]]] by (simp add: config_set_def serves_then)
qed (use s in \<open>simp add: config_set_def\<close>)

interpretation c_config: command "cmd_config env" for env
  by unfold_locales (auto simp: cmd_config_def config_rewrite_def intro: serves_config_set serves_then serves_rewrite split: prod.splits)


section \<open>The dispatcher\<close>

interpretation c_command: command "\<lambda>i c argv. reply i b c" for b
  by unfold_locales simp

lemma all_commands:
  assumes "(n, h) \<in> set (conn_commands env)"
  shows "command h"
  using assms unfolding conn_commands_def
  by (elim set_ConsD [elim_format] disjE; simp add: c_save.command_axioms c_bgsave.command_axioms
      c_config.command_axioms c_info.command_axioms c_plugin.command_axioms c_sync.command_axioms
      c_replicaof.command_axioms c_auth.command_axioms c_hello.command_axioms c_ping.command_axioms
      c_quit.command_axioms c_shutdown.command_axioms c_command.command_axioms c_evict.command_axioms
      c_client.command_axioms c_shadow.command_axioms c_hotcold.command_axioms c_policy.command_axioms
      c_pin.command_axioms c_unpin.command_axioms c_layout.command_axioms c_subscribe.command_axioms
      c_unsubscribe.command_axioms c_publish.command_axioms c_slowlog.command_axioms)

lemma found_entry:
  assumes "find_handler name tbl = Some h"
  obtains n where "(n, h) \<in> set tbl" "cmd_eq name n"
  using assms by (auto simp: find_handler_def find_Some_iff) (metis nth_mem)

lemma serves_propagate: "sound c \<Longrightarrow> serves i c (repl_propagate c argv)"
  by (auto simp: repl_propagate_def intro!: serves_map)

lemma data_command:
  assumes "handler h"
  shows "command (run_data h)"
proof
  fix c argv i assume s: "sound c"
  obtain c1 r p where h: "h c argv = (c1, r, p)" using prod_cases3 by blast
  have 1: "serves i c c1" using s handler.keeps [OF assms s h] by (rule serves_heeds)
  then have "serves i c (if p then repl_propagate c1 argv else c1)"
    using serves_propagate serves_trans serves_sound by auto
  then show "serves i c (run_data h i c argv)" by (simp add: run_data_def h serves_then)
qed

lemma run_command_command: "command (run_command env)"
proof
  fix c argv i assume s: "sound c"
  show "serves i c (run_command env i c argv)"
  proof (cases "find_handler (argv ! 0) (conn_commands env)")
    case (Some h)
    then have "command h" using all_commands by (blast elim: found_entry)
    then show ?thesis using Some command.serves [OF _ s] by (simp add: run_command_def)
  next
    case None
    show ?thesis
    proof (cases "find_handler (argv ! 0) (data_commands (lib env))")
      case (Some h)
      then have "command (run_data h)" using found_handler data_command by blast
      then show ?thesis using None Some command.serves [OF _ s] by (simp add: run_command_def)
    qed (use None s in \<open>simp add: run_command_def\<close>)
  qed
qed

lemma serves_queue:
  assumes "sound c" and "argv \<noteq> []" and "\<not> list_ex (cmd_eq (argv ! 0)) transaction_names"
  shows "serves i c (queue_cmd i c argv)"
  using assms by (auto simp: queue_cmd_def intro!: serves_upd_reply)
    (auto simp: conn_ok_def queued_ok_def)

lemma serves_end_multi: "sound c \<Longrightarrow> serves i c (end_multi i c)"
  unfolding end_multi_def by (rule serves_upd) simp_all

lemma serves_foldl:
  "command run \<Longrightarrow> sound c \<Longrightarrow> serves i c (foldl (run i) c q)"
  by (induction q arbitrary: c) (auto intro: serves_trans command.serves serves_sound)

lemma exec_command:
  assumes run: "command run"
  shows "command (cmd_exec run)"
proof
  fix c argv i assume s: "sound c"
  define c1 where "c1 = reply i (CHR ''*'' # show_nat (length (multi_q (conns c ! i))) @ CRLF)
    (upd_conn i (\<lambda>x. x\<lparr> in_multi := False \<rparr>) c)"
  have 1: "serves i c c1" unfolding c1_def using s by (rule serves_upd_reply) simp
  have 2: "serves i c (foldl (run i) c1 q)" for q
    using 1 serves_foldl [OF run serves_sound [OF 1]] by (rule serves_trans)
  have 3: "serves i c (end_multi i (foldl (run i) c1 q))" for q
    using 2 serves_end_multi [OF serves_sound [OF 2]] by (rule serves_trans)
  have "serves i c (reply i b (end_multi i c))" for b
    using serves_end_multi [OF s] by (rule serves_then)
  then show "serves i c (cmd_exec run i c argv)" using 3 s by (simp add: cmd_exec_def Let_def c1_def)
qed

lemma dispatch_with_command:
  assumes run: "command run"
  shows "command (dispatch_with env run)"
proof
  fix c argv i assume s: "sound c"
  show "serves i c (dispatch_with env run i c argv)"
  proof (cases "argv = []")
    case False
    define c1 where "c1 = upd_conn i (note_last_cmd (argv ! 0)) c"
    have 1: "serves i c c1" unfolding c1_def using s by (rule serves_upd) simp
    note s1 = serves_sound [OF 1]
    have "serves i c1 (dispatch_with env run i c argv)"
      unfolding dispatch_with_def Let_def c1_def [symmetric]
      using False s1 command.serves [OF exec_command [OF run] s1] command.serves [OF run_command_command s1]
        c_watch.serves [OF s1] c_unwatch.serves [OF s1] c_multi.serves [OF s1] c_discard.serves [OF s1]
        serves_queue [OF s1 False]
      by (auto simp: transaction_names_def split: option.splits)
    with 1 show ?thesis by (rule serves_trans)
  qed (use s in \<open>simp add: dispatch_with_def\<close>)
qed

lemma dispatch_command: "command (dispatch env n)"
proof (induction n)
  case 0
  then show ?case by unfold_locales simp
next
  case (Suc n)
  have "dispatch env (Suc n) = dispatch_with env (dispatch env n)" by (intro ext) simp
  then show ?case using dispatch_with_command Suc by simp
qed

end
