(* ===== verification/Events.thy ===== *)
theory Events
  imports Serving
begin

text \<open>
  The server as a transition system: a client is accepted, a connection has input, room for output or a
  hang-up, the timer runs, a signal asks for the shutdown, another process changes a file, the clock goes on. Whatever the
  clients send, the store stays well formed and every connection and the slow log stay within their bounds.
\<close>


section \<open>Transitions\<close>

inductive server_step :: "server_env \<Rightarrow> core \<Rightarrow> core \<Rightarrow> bool" for env where
  accepted: "server_step env c (fst (accept_client loopback addr c))"
| accepted_tls: "server_step env c (fst (accept_tls_client made a loopback addr c))"
| readable: "in_use (conns c ! i) \<Longrightarrow> server_step env c (fst (handle_read env so i c))"
| writable: "in_use (conns c ! i) \<Longrightarrow> server_step env c (fst (flush_writes so i c))"
| hung_up: "server_step env c (conn_close i c)"
| timer: "server_step env c (serve_timer env c)"
| interrupted: "server_step env c (ar_core_request_shutdown c)"
| files_changed: "server_step env c (upd_srv (\<lambda>s. s\<lparr> disk := d \<rparr>) c)"
| clock: "now_ms c \<le> t \<Longrightarrow> server_step env c (c\<lparr> now_ms := t \<rparr>)"

inductive served :: "server_env \<Rightarrow> core \<Rightarrow> core \<Rightarrow> bool" for env where
  start: "served env c c"
| event: "served env c c' \<Longrightarrow> server_step env c' c'' \<Longrightarrow> served env c c''"

inductive_cases server_stepE: "server_step env c c'"

definition orderly :: "core \<Rightarrow> bool" where
  "orderly c \<longleftrightarrow> sound c \<and> tidy c \<and> length (conns c) = AR_MAX_CONN"

lemma orderly_serves: "orderly c \<Longrightarrow> serves i c c' \<Longrightarrow> orderly c'"
  by (simp add: orderly_def serves_def)

lemma orderly_sound: "orderly c \<Longrightarrow> sound c"
  by (simp add: orderly_def)


section \<open>Every event keeps the server in order\<close>

lemma orderly_upd: "orderly c \<Longrightarrow> (\<And>x. conn_ok x \<Longrightarrow> conn_ok (f x)) \<Longrightarrow> orderly (upd_conn i f c)"
  using orderly_serves [of c i] serves_upd [of c i f] orderly_sound by blast

lemma orderly_reply: "orderly c \<Longrightarrow> orderly (reply i b c)"
  using orderly_serves [of c i] serves_reply orderly_sound by blast

lemma orderly_close: "orderly c \<Longrightarrow> orderly (conn_close i c)"
  using orderly_serves [of c i] serves_close orderly_sound by blast

lemma orderly_srv: "orderly c \<Longrightarrow> (server_ok (srv c) \<Longrightarrow> server_ok s) \<Longrightarrow> orderly (c\<lparr> srv := s \<rparr>)"
  using orderly_serves [of c 0] serves_srv orderly_sound by blast

lemma server_ok_push: "server_ok s \<Longrightarrow> server_ok (slowlog_push t us argv s)"
  by (auto simp: slowlog_push_def server_oks Let_def AR_SLOWLOG_MAX_def intro: less_le_trans [OF mod_less_divisor])

lemma server_ok_counters:
  "server_ok (s\<lparr> cmd_latency_sum_us := a, cmd_latency_samples := b \<rparr>) = server_ok s"
  "server_ok (s\<lparr> cmd_lt_1ms := a \<rparr>) = server_ok s" "server_ok (s\<lparr> cmd_lt_10ms := a \<rparr>) = server_ok s"
  "server_ok (s\<lparr> cmd_lt_100ms := a \<rparr>) = server_ok s" "server_ok (s\<lparr> cmd_ge_100ms := a \<rparr>) = server_ok s"
  "server_ok (s\<lparr> slowlog_count := a \<rparr>) = server_ok s"
  by (simp_all add: server_oks)

lemma server_ok_latency: "server_ok s \<Longrightarrow> server_ok (note_cmd_latency t us argv s)"
  unfolding note_cmd_latency_def Let_def by (auto simp only: server_ok_counters split: if_split intro!: server_ok_push)

lemma command_serves:
  assumes "sound c"
  shows "serves i c (serve_command env i c argv)"
proof -
  define c1 where "c1 = (if is_master_link (conns c ! i) then c\<lparr> srv := (srv c)\<lparr> repl_applying := True \<rparr> \<rparr> else c)"
  define c2 where "c2 = dispatch env 2 i c1 argv"
  define c3 where "c3 = (if is_master_link (conns c2 ! i)
    then upd_conn i (\<lambda>x. x\<lparr> wbuf := [] \<rparr>) (c2\<lparr> srv := (srv c2)\<lparr> repl_applying := False \<rparr> \<rparr>) else c2)"
  define c4 where "c4 = c3\<lparr> srv := note_cmd_latency (now_ms c div 1000) (took_us env c argv) argv (srv c3) \<rparr>"
  have 1: "serves i c c1" unfolding c1_def using assms by (auto intro!: serves_srv simp: server_oks)
  have 2: "serves i c1 c2" unfolding c2_def by (rule command.serves [OF dispatch_command serves_sound [OF 1]])
  have s: "serves i c2 (c2\<lparr> srv := (srv c2)\<lparr> repl_applying := False \<rparr> \<rparr>)"
    by (rule serves_srv [OF serves_sound [OF 2]]) (simp add: server_oks)
  have 3: "serves i c2 c3"
    unfolding c3_def using serves_trans [OF s serves_upd [OF serves_sound [OF s]]] serves_sound [OF 2] by auto
  have 4: "serves i c3 c4" unfolding c4_def by (rule serves_srv [OF serves_sound [OF 3] server_ok_latency])
  have "serves i c4 (upd_conn i (\<lambda>x. x\<lparr> last_active_ms := now_ms c \<rparr>) c4)"
    by (rule serves_upd [OF serves_sound [OF 4]]) simp
  with 1 2 3 4 have "serves i c (upd_conn i (\<lambda>x. x\<lparr> last_active_ms := now_ms c \<rparr>) c4)" by (blast intro: serves_trans)
  then show ?thesis by (simp only: serve_command_def Let_def c1_def [symmetric] c2_def [symmetric] c3_def [symmetric] c4_def [symmetric])
qed

lemma orderly_command: "orderly c \<Longrightarrow> orderly (serve_command env i c argv)"
  using orderly_serves command_serves orderly_sound by blast

lemma orderly_loop:
  "orderly c \<Longrightarrow> process_loop env i c s = (c', r) \<Longrightarrow> orderly c'"
proof (induction env i c s rule: process_loop.induct)
  case (1 env i c s)
  show ?case
  proof (cases "parse_command s")
    case (Parsed argv r')
    have o: "orderly (serve_command env i c argv)" using 1(2) by (rule orderly_command)
    show ?thesis
    proof (cases "s = [] \<or> should_close (conns (serve_command env i c argv) ! i)")
      case True
      then show ?thesis using 1(2,3) o Parsed by (auto simp: process_loop.simps [of env i c s] Let_def split: if_splits)
    next
      case False
      then have "process_loop env i (serve_command env i c argv) r' = (c', r)"
        using 1(3) Parsed by (simp add: process_loop.simps [of env i c s] Let_def)
      then show ?thesis using 1(1) [OF _ Parsed refl] o False by blast
    qed
  qed (use 1(2,3) in \<open>auto simp: process_loop.simps [of env i c s] intro: orderly_upd orderly_reply split: if_splits\<close>)
qed

lemma conn_ok_tls [simp]: "conn_ok (x\<lparr> is_tls := a, ssl_hs_done := b \<rparr>) = conn_ok x" "conn_ok (x\<lparr> ssl_hs_done := b \<rparr>) = conn_ok x"
  "conn_ok (x\<lparr> is_tls := a \<rparr>) = conn_ok x"
  by (simp_all add: conn_ok_def)

lemma handshake_ok: "ar_tls_handshake a x = (y, r) \<Longrightarrow> conn_ok x \<Longrightarrow> conn_ok y"
  by (auto simp: ar_tls_handshake_def split: if_splits io_answer.splits)

lemma orderly_put:
  assumes "orderly c" and "i < length (conns c) \<Longrightarrow> conn_ok (conns c ! i) \<Longrightarrow> conn_ok x"
  shows "orderly (upd_conn i (\<lambda>_. x) c)"
  using assms orderly_serves [of c i] serves_upd [of c i "\<lambda>_. x"] orderly_sound by blast

lemma orderly_shaken: "orderly c \<Longrightarrow> ar_tls_handshake a (conns c ! i) = (x, r) \<Longrightarrow> orderly (upd_conn i (\<lambda>_. x) c)"
  by (rule orderly_put) (auto dest: handshake_ok)

lemma orderly_after:
  assumes "orderly c" and k: "\<And>c. orderly c \<Longrightarrow> orderly (fst (k c))"
  shows "orderly (fst (after_handshake a i k c))"
proof -
  obtain x r where h: "ar_tls_handshake a (conns c ! i) = (x, r)" by fastforce
  show ?thesis using orderly_shaken [OF assms(1) h] assms(1)
    by (auto simp: after_handshake_def h Let_def simp del: conns_upd_conn intro: k orderly_close)
qed

lemma orderly_send: "orderly c \<Longrightarrow> orderly (fst (send_out r i c))"
  by (auto simp: send_out_def Let_def simp del: conns_upd_conn intro!: orderly_close orderly_upd split: option.splits)

lemma orderly_flush: "orderly c \<Longrightarrow> orderly (fst (flush_writes so i c))"
  by (auto simp: flush_writes_def intro: orderly_close orderly_after orderly_send)

lemma orderly_reads:
  assumes "orderly c"
  shows "orderly (fst (process_reads env so i c))"
proof (cases "is_replica (conns c ! i)")
  case True
  then show ?thesis unfolding process_reads_def if_P [OF True] by (intro orderly_flush orderly_upd assms) simp
next
  case False
  obtain c1 r where 1: "process_loop env i c (rbuf (conns c ! i)) = (c1, r)" by fastforce
  have "orderly c1" using assms 1 by (rule orderly_loop)
  then show ?thesis unfolding process_reads_def if_not_P [OF False] 1 by (auto intro!: orderly_flush orderly_upd)
qed

lemma orderly_read_in: "orderly c \<Longrightarrow> orderly (fst (read_in env so i c))"
  by (auto simp: read_in_def Let_def simp del: conns_upd_conn intro!: orderly_close orderly_reads orderly_upd)

lemma orderly_read: "orderly c \<Longrightarrow> orderly (fst (handle_read env so i c))"
  by (auto simp: handle_read_def intro: orderly_after orderly_read_in)

lemma orderly_alloc: "orderly c \<Longrightarrow> conn_alloc c = (c', r) \<Longrightarrow> orderly c'"
  using orderly_serves [of c 0] serves_alloc orderly_sound by blast

lemma orderly_accept: "orderly c \<Longrightarrow> orderly (fst (accept_client loopback addr c))"
  by (auto simp: accept_client_def Let_def server_oks conn_ok_def intro!: orderly_srv orderly_upd
      dest: orderly_alloc split: prod.splits option.splits)

lemma orderly_accept_tls: "orderly c \<Longrightarrow> orderly (fst (accept_tls_client made a loopback addr c))"
  using orderly_accept [of c loopback addr]
  by (auto simp: accept_tls_client_def ar_tls_accept_setup_def Let_def simp del: conns_upd_conn
      intro!: orderly_close orderly_upd orderly_shaken split: prod.splits option.splits bool.splits if_splits)

lemma orderly_upd_srv: "orderly c \<Longrightarrow> (\<And>s. server_ok s \<Longrightarrow> server_ok (f s)) \<Longrightarrow> orderly (upd_srv f c)"
  unfolding upd_srv_def by (rule orderly_srv) auto

lemma orderly_idle: "orderly c \<Longrightarrow> orderly (close_idle_clients c)"
proof -
  have "orderly (foldl (\<lambda>c i. if idle c (conns c ! i) then conn_close i c else c) d xs)" if "orderly d" for d xs
    using that by (induction xs arbitrary: d) (auto intro: orderly_close)
  then show "orderly c \<Longrightarrow> orderly (close_idle_clients c)" by (simp add: close_idle_clients_def)
qed

lemma orderly_expire:
  assumes "orderly c"
  shows "orderly (fst (ar_core_active_expire c n))"
proof -
  obtain s where w: "wf s c" using assms by (auto simp: orderly_def sound_def)
  obtain c1 m where r: "ar_core_active_expire c n = (c1, m)" by fastforce
  have "heeds c c1" using swept_heeds [OF active_expire_swept(1) [OF w, of n]] by (simp add: r)
  then have "serves 0 c c1" using orderly_sound [OF assms] by (intro serves_heeds)
  then show ?thesis using assms r orderly_serves by simp
qed

lemma orderly_timer: "orderly c \<Longrightarrow> orderly (serve_timer env c)"
  by (auto simp: serve_timer_def Let_def server_oks poll_names intro!: orderly_idle orderly_upd_srv orderly_expire)

lemma orderly_clock:
  assumes "orderly c"
  shows "orderly (c\<lparr> now_ms := t \<rparr>)"
proof -
  have "sound (c\<lparr> now_ms := t \<rparr>)" by (rule sound_core [OF orderly_sound [OF assms]]) (simp_all add: dict_of_def)
  then show ?thesis using assms by (simp add: orderly_def tidy_def)
qed

lemma orderly_step:
  assumes "orderly c" and "server_step env c c'"
  shows "orderly c'"
  using assms(2,1) by induction
    (auto simp: ar_core_request_shutdown_def server_oks intro!: orderly_upd_srv
      intro: orderly_accept orderly_accept_tls orderly_read orderly_flush orderly_close orderly_timer orderly_clock)

lemma orderly_served: "served env c c' \<Longrightarrow> orderly c \<Longrightarrow> orderly c'"
  by (induction rule: served.induct) (auto intro: orderly_step)

lemma orderly_create: "orderly (ar_core_create now rnd)"
proof -
  have "sound (ar_core_create now rnd)"
    unfolding sound_def ar_core_create_def using wf_core_with [of 1024 now rnd] by (auto simp: core_with_def)
  then show ?thesis
    by (auto simp: orderly_def tidy_def ar_core_create_def core_with_def server_oks server0_def list_all_iff
        conn_ok_def conn0_def AR_SLOWLOG_MAX_def AR_MAX_CONN_def rdb0_def)
qed

end
