(* ===== verification/Loop.thy ===== *)
theory Loop
  imports Events
begin

text \<open>
  The sockets and the event loop of \<open>ar_server.c\<close> and the TLS context of \<open>ar_tls.c\<close>: listening on the two ports, one
  turn of \<open>epoll_wait\<close>, the loop until the server is asked to quit, and the shutdown that drains the output. What the
  kernel answers is given: \<open>net\<close> for the calls that set up a socket, \<open>poll\<close> for one \<open>epoll_wait\<close>, \<open>sock\<close> for
  one connection; a run is a list of such answers, each with the time at which it comes. The bytes sent are returned,
  by connection. The last section is about the shutdown.
\<close>


section \<open>Listening\<close>

record net =
  socket_ok :: bool
  address_ok :: "bytes \<Rightarrow> bool"
  bind_ok :: "bytes \<Rightarrow> int \<Rightarrow> bool"
  epoll_ok :: bool
  tls_built :: bool
  ctx_made :: bool
  cert_ok :: "bytes \<Rightarrow> bool"
  key_ok :: "bytes \<Rightarrow> bool"
  pair_ok :: bool
  ca_ok :: "bytes \<Rightarrow> bool"

text \<open>Both ports bind the same address; an empty one becomes the default even when the call fails later.\<close>

definition open_port :: "net \<Rightarrow> int \<Rightarrow> core \<Rightarrow> core \<times> bool" where
  "open_port w port c =
     (if \<not> socket_ok w then (c, False)
      else let c = upd_srv (\<lambda>s. s\<lparr> bind_addr := bind_name s \<rparr>) c
           in (c, address_ok w (bind_addr (srv c)) \<and> bind_ok w (bind_addr (srv c)) port \<and> epoll_ok w))"

definition ar_core_listen :: "net \<Rightarrow> core \<Rightarrow> int \<Rightarrow> core \<times> bool" where
  "ar_core_listen w c port =
     (if port \<le> 0 \<or> port > 65535 then (c, False)
      else if listen_open (srv c) then (c, False)
      else case open_port w port c of
             (c, False) \<Rightarrow> (c, False)
           | (c, True) \<Rightarrow>
               (upd_srv (\<lambda>s. s\<lparr> quit := False, shutting_down := False, listen_open := True, epoll_open := True,
                               tcp_port := port \<rparr>) c, True))"

definition ar_tls_setup_ctx :: "net \<Rightarrow> core \<Rightarrow> core \<times> bool" where
  "ar_tls_setup_ctx w c =
     (let s = srv c
      in if ssl_ctx s then (c, True)
         else if tls_cert_file s = [] \<or> tls_key_file s = [] then (c, False)
         else if \<not> ctx_made w then (c, False)
         else if \<not> cert_ok w (tls_cert_file s) then (c, False)
         else if \<not> key_ok w (tls_key_file s) then (c, False)
         else if \<not> pair_ok w then (c, False)
         else if tls_ca_file s \<noteq> [] \<and> \<not> ca_ok w (tls_ca_file s) then (c, False)
         else (upd_srv (\<lambda>s. s\<lparr> ssl_ctx := True \<rparr>) c, True))"

definition ar_core_listen_tls :: "net \<Rightarrow> core \<Rightarrow> int \<Rightarrow> core \<times> bool" where
  "ar_core_listen_tls w c port =
     (if port \<le> 0 \<or> port > 65535 then (c, False)
      else if \<not> tls_built w then (c, False)
      else if \<not> epoll_open (srv c) then (c, False)
      else if tls_listen_open (srv c) then (c, False)
      else case ar_tls_setup_ctx w c of
             (c, False) \<Rightarrow> (c, False)
           | (c, True) \<Rightarrow>
               (case open_port w port c of
                  (c, False) \<Rightarrow> (c, False)
                | (c, True) \<Rightarrow> (upd_srv (\<lambda>s. s\<lparr> tls_listen_open := True, tls_port := port \<rparr>) c, True)))"

text \<open>The paths of the certificate and of the key must fit a field of 512 bytes.\<close>

definition copy_path :: "net \<Rightarrow> bytes \<Rightarrow> bytes option" where
  "copy_path w path = (if \<not> tls_built w \<or> path = [] \<or> length path \<ge> 512 then None else Some path)"

definition ar_core_set_tls_cert_file :: "net \<Rightarrow> core \<Rightarrow> bytes \<Rightarrow> core \<times> bool" where
  "ar_core_set_tls_cert_file w c path =
     (case copy_path w path of None \<Rightarrow> (c, False) | Some p \<Rightarrow> (upd_srv (\<lambda>s. s\<lparr> tls_cert_file := p \<rparr>) c, True))"

definition ar_core_set_tls_key_file :: "net \<Rightarrow> core \<Rightarrow> bytes \<Rightarrow> core \<times> bool" where
  "ar_core_set_tls_key_file w c path =
     (case copy_path w path of None \<Rightarrow> (c, False) | Some p \<Rightarrow> (upd_srv (\<lambda>s. s\<lparr> tls_key_file := p \<rparr>) c, True))"

definition ar_core_set_tls_ca_file :: "net \<Rightarrow> core \<Rightarrow> bytes \<Rightarrow> core \<times> bool" where
  "ar_core_set_tls_ca_file w c path =
     (if tls_built w \<and> path = [] then (upd_srv (\<lambda>s. s\<lparr> tls_ca_file := [] \<rparr>) c, True)
      else case copy_path w path of None \<Rightarrow> (c, False) | Some p \<Rightarrow> (upd_srv (\<lambda>s. s\<lparr> tls_ca_file := p \<rparr>) c, True))"


section \<open>One turn\<close>

datatype io_event =
    Incoming bool bytes
  | IncomingTls bool io_answer bool bytes
  | HangUp nat
  | Ready nat "sock option" "sock option"

datatype poll = PollFailed | Interrupted bool | Occurred "io_event list"

type_synonym sent_log = "(nat \<times> bytes) list"

text \<open>Reading comes before writing; a connection closed by the reading is not written to.\<close>

fun serve_event :: "server_env \<Rightarrow> io_event \<Rightarrow> core \<Rightarrow> core \<times> sent_log" where
  "serve_event env (Incoming lo addr) c = (if listen_open (srv c) then fst (accept_client lo addr c) else c, [])"
| "serve_event env (IncomingTls made a lo addr) c =
     (if tls_listen_open (srv c) then fst (accept_tls_client made a lo addr c) else c, [])"
| "serve_event env (HangUp i) c = (conn_close i c, [])"
| "serve_event env (Ready i rd wr) c =
     (if \<not> in_use (conns c ! i) then (c, [])
      else case (case rd of None \<Rightarrow> (c, []) | Some so \<Rightarrow> handle_read env so i c) of
             (c, a) \<Rightarrow>
               (case (if in_use (conns c ! i) then (case wr of None \<Rightarrow> (c, []) | Some so \<Rightarrow> flush_writes so i c) else (c, [])) of
                  (c, b) \<Rightarrow> (c, [(i, a @ b)])))"

fun serve_events :: "server_env \<Rightarrow> io_event list \<Rightarrow> core \<Rightarrow> core \<times> sent_log" where
  "serve_events env [] c = (c, [])"
| "serve_events env (e # es) c =
     (case serve_event env e c of (c, a) \<Rightarrow> (case serve_events env es c of (c, b) \<Rightarrow> (c, a @ b)))"

text \<open>A signal interrupts the wait; its handler may ask for the shutdown.\<close>

definition serve_once :: "server_env \<Rightarrow> poll \<Rightarrow> core \<Rightarrow> core \<times> sent_log \<times> bool" where
  "serve_once env p c =
     (let c = serve_timer env c
      in case p of
           PollFailed \<Rightarrow> (c, [], False)
         | Interrupted stop \<Rightarrow> (if stop then ar_core_request_shutdown c else c, [], True)
         | Occurred es \<Rightarrow> (case serve_events env es c of (c, a) \<Rightarrow> (c, a, True)))"

definition ar_core_serve_ms :: "server_env \<Rightarrow> poll \<Rightarrow> core \<Rightarrow> core \<times> sent_log \<times> int" where
  "ar_core_serve_ms env p c =
     (let s = srv c
      in if \<not> listen_open s \<and> \<not> tls_listen_open s \<and> \<not> shutting_down s then (c, [], - 1)
         else if quit s \<and> \<not> shutting_down s then (c, [], 1)
         else if \<not> epoll_open s then (c, [], if quit s then 1 else - 1)
         else case serve_once env p c of
                (c, a, ok) \<Rightarrow> (c, a, if \<not> ok then - 1 else if quit (srv c) then 1 else 0))"


section \<open>The loop and the shutdown\<close>

definition at_time :: "nat \<Rightarrow> core \<Rightarrow> core" where
  "at_time t c = c\<lparr> now_ms := max t (now_ms c) \<rparr>"

datatype loop_end = QuitAsked | PollBroke | StillServing

fun serve_while :: "server_env \<Rightarrow> (nat \<times> poll) list \<Rightarrow> core \<Rightarrow> core \<times> sent_log \<times> loop_end" where
  "serve_while env [] c = (c, [], if quit (srv c) then QuitAsked else StillServing)"
| "serve_while env ((t, p) # turns) c =
     (if quit (srv c) then (c, [], QuitAsked)
      else case serve_once env p (at_time t c) of
             (c, a, False) \<Rightarrow> (c, a, PollBroke)
           | (c, a, True) \<Rightarrow> (case serve_while env turns c of (c, b, e) \<Rightarrow> (c, a @ b, e)))"

definition stop_accepting :: "core \<Rightarrow> core" where
  "stop_accepting c = upd_srv (\<lambda>s. s\<lparr> listen_open := False, tls_listen_open := False \<rparr>) c"

text \<open>One pass over the slots: output that waits is sent, a connection without any is closed.\<close>

fun drain_slots :: "(nat \<Rightarrow> sock) \<Rightarrow> nat list \<Rightarrow> core \<Rightarrow> core \<times> sent_log \<times> bool" where
  "drain_slots so [] c = (c, [], False)"
| "drain_slots so (i # is) c =
     (if \<not> in_use (conns c ! i) then drain_slots so is c
      else if wbuf (conns c ! i) \<noteq> [] then
        (case flush_writes (so i) i c of
           (c, a) \<Rightarrow> (case drain_slots so is c of (c, b, w) \<Rightarrow> (c, (i, a) # b, True)))
      else drain_slots so is (conn_close i c))"

text \<open>A round has the answers of the sockets, the time after its pass and what \<open>epoll_wait\<close> gives then.\<close>

type_synonym drain_round = "(nat \<Rightarrow> sock) \<times> nat \<times> poll"

fun drain_rounds :: "server_env \<Rightarrow> nat \<Rightarrow> bool \<Rightarrow> drain_round list \<Rightarrow> core \<Rightarrow> core \<times> sent_log" where
  "drain_rounds env deadline waits [] c = (c, [])"
| "drain_rounds env deadline waits ((so, t, p) # rounds) c =
     (case drain_slots so [0..<length (conns c)] c of
        (c, a, pending) \<Rightarrow>
          if \<not> pending \<or> \<not> waits \<or> t \<ge> deadline then (c, a)
          else let c = at_time t c
               in case (if epoll_open (srv c) then (case serve_once env p c of (c, b, ok) \<Rightarrow> (c, b)) else (c, [])) of
                    (c, b) \<Rightarrow> (case drain_rounds env deadline waits rounds c of (c, d) \<Rightarrow> (c, a @ b @ d)))"

definition close_all :: "core \<Rightarrow> core" where
  "close_all c = foldl (\<lambda>c i. conn_close i c) c [0..<length (conns c)]"

definition drain_clients :: "server_env \<Rightarrow> int \<Rightarrow> drain_round list \<Rightarrow> core \<Rightarrow> core \<times> sent_log" where
  "drain_clients env ms rounds c =
     (case drain_rounds env (now_ms c + nat ms) (ms > 0) rounds c of (c, a) \<Rightarrow> (close_all c, a))"

text \<open>\<open>None\<close>: the answers end before the server does.\<close>

definition ar_core_serve_forever ::
  "server_env \<Rightarrow> (nat \<times> poll) list \<Rightarrow> drain_round list \<Rightarrow> core \<Rightarrow> core \<times> sent_log \<times> int option" where
  "ar_core_serve_forever env turns rounds c =
     (if \<not> listen_open (srv c) then (c, [], Some (- 1))
      else case serve_while env turns c of
             (c, a, PollBroke) \<Rightarrow> (c, a, Some (- 1))
           | (c, a, StillServing) \<Rightarrow> (c, a, None)
           | (c, a, QuitAsked) \<Rightarrow>
               (case drain_clients env 2000 rounds (stop_accepting (upd_srv (\<lambda>s. s\<lparr> shutting_down := True \<rparr>) c)) of
                  (c, b) \<Rightarrow> (c, a @ b, Some 0)))"

definition ar_net_shutdown :: "core \<Rightarrow> core" where
  "ar_net_shutdown c =
     upd_srv (\<lambda>s. s\<lparr> listen_open := False, tls_listen_open := False, ssl_ctx := False, epoll_open := False \<rparr>) (close_all c)"


section \<open>The loop is a run of the transition system\<close>

lemma served_trans:
  assumes "served env a b" and "served env b c"
  shows "served env a c"
  using assms(2,1) by induction (auto intro: served.event)

lemma served_step: "server_step env c c' \<Longrightarrow> served env c c'"
  by (rule served.event [OF served.start])

lemma served_same [simp]: "served env c c"
  by (rule served.start)

lemma served_read: "in_use (conns c ! i) \<Longrightarrow> handle_read env so i c = (c', a) \<Longrightarrow> served env c c'"
  using served_step [OF server_step.readable, of c i env so] by simp

lemma served_flush: "in_use (conns c ! i) \<Longrightarrow> flush_writes so i c = (c', a) \<Longrightarrow> served env c c'"
  using served_step [OF server_step.writable, of c i env so] by simp

lemma served_event: "served env c (fst (serve_event env e c))"
proof (cases e)
  case (Ready i rd wr)
  have r: "served env c c1" if "(case rd of None \<Rightarrow> (c, []) | Some so \<Rightarrow> handle_read env so i c) = (c1, a)" "in_use (conns c ! i)" for c1 a
    using that served_read by (cases rd) auto
  have w: "served env d c1"
    if "(if in_use (conns d ! i) then (case wr of None \<Rightarrow> (d, []) | Some so \<Rightarrow> flush_writes so i d) else (d, [])) = (c1, a)" for d c1 a
    using that served_flush by (cases wr) (auto split: if_splits)
  show ?thesis using Ready r w by (auto split: prod.splits intro: served_trans)
qed (auto intro: served_step server_step.intros)

lemma served_events: "served env c (fst (serve_events env es c))"
proof (induction es arbitrary: c)
  case (Cons e es)
  then show ?case using served_trans [OF served_event [of env c e]] by (simp split: prod.splits) (metis fst_conv)
qed simp

lemma served_once:
  assumes "serve_once env p c = (c', a, ok)"
  shows "served env c c'"
proof -
  have 1: "served env c (serve_timer env c)" by (rule served_step [OF server_step.timer])
  have "served env (serve_timer env c) c'"
    using assms served_events [of env "serve_timer env c"] served_step [OF server_step.interrupted]
    by (auto simp: serve_once_def Let_def split: poll.splits prod.splits if_splits) (metis fst_conv)
  with 1 show ?thesis by (rule served_trans)
qed

lemma served_time: "served env c (at_time t c)"
  unfolding at_time_def by (rule served_step [OF server_step.clock]) simp

lemma served_while: "serve_while env turns c = (c', a, e) \<Longrightarrow> served env c c'"
proof (induction turns arbitrary: c c' a e)
  case (Cons x turns)
  obtain t p where x: "x = (t, p)" by (cases x)
  obtain c1 a1 ok where 1: "serve_once env p (at_time t c) = (c1, a1, ok)" using prod_cases3 by blast
  have s: "served env c c1" using served_trans [OF served_time served_once [OF 1]] .
  obtain c2 a2 e2 where 2: "serve_while env turns c1 = (c2, a2, e2)" using prod_cases3 by blast
  show ?case using Cons(2) x 1 2 s served_trans [OF s Cons(1) [OF 2]] by (cases ok) (auto split: if_splits)
qed simp


section \<open>The shutdown\<close>

lemma in_use_reset [simp]: "\<not> in_use (conn_reset x)"
  by (simp add: conn_reset_def)

lemma conns_close: "conns (conn_close i c) = (if in_use (conns c ! i) then (conns c)[i := conn_reset (conns c ! i)] else conns c)"
  by (simp add: conn_close_def)

lemma close_others: "j \<noteq> i \<Longrightarrow> conns (conn_close i c) ! j = conns c ! j" "length (conns (conn_close i c)) = length (conns c)"
  "srv (conn_close i c) = srv c" "i < length (conns c) \<Longrightarrow> \<not> in_use (conns (conn_close i c) ! i)"
  by (auto simp: conn_close_def)

lemma close_keeps: "\<not> in_use (conns c ! j) \<Longrightarrow> \<not> in_use (conns (conn_close i c) ! j)"
  by (cases "j = i") (auto simp: close_others conn_close_def)

lemma close_slots:
  "length (conns (foldl (\<lambda>c i. conn_close i c) c is)) = length (conns c)"
  "j \<in> set is \<Longrightarrow> j < length (conns c) \<Longrightarrow> \<not> in_use (conns (foldl (\<lambda>c i. conn_close i c) c is) ! j)"
  "\<not> in_use (conns c ! j) \<Longrightarrow> \<not> in_use (conns (foldl (\<lambda>c i. conn_close i c) c is) ! j)"
  "srv (foldl (\<lambda>c i. conn_close i c) c is) = srv c"
proof (induction "is" arbitrary: c)
  case (Cons i "is")
  { case 1 show ?case using Cons(1) [of "conn_close i c"] by (simp add: close_others) }
  { case 2 then show ?case using Cons(2,3) [of "conn_close i c"] by (cases "j = i") (auto simp: close_others) }
  { case 3 show ?case using Cons(3) [OF close_keeps [OF 3]] by simp }
  { case 4 show ?case using Cons(4) [of "conn_close i c"] by (simp add: close_others) }
qed simp_all

lemma close_all_closes:
  "length (conns (close_all c)) = length (conns c)" "i < length (conns c) \<Longrightarrow> \<not> in_use (conns (close_all c) ! i)" "srv (close_all c) = srv c"
  unfolding close_all_def by (simp_all add: close_slots)

text \<open>A socket that takes all the output of a connection.\<close>

definition takes_all :: "sock \<Rightarrow> conn \<Rightarrow> bool" where
  "takes_all so x \<longleftrightarrow> (is_tls x \<longrightarrow> ssl_hs_done x \<or> ssl so = Done) \<and> (\<exists>n \<ge> length (wbuf x). sent so = Some n)"

lemma flush_takes_all:
  assumes "takes_all so (conns c ! i)" and "i < length (conns c)" and "wbuf (conns c ! i) \<noteq> []" and "flush_writes so i c = (c', a)"
  shows "a = wbuf (conns c ! i)" "j \<noteq> i \<Longrightarrow> conns c' ! j = conns c ! j" "length (conns c') = length (conns c)"
proof -
  have t: "(is_tls (conns c ! i) \<longrightarrow> ssl_hs_done (conns c ! i) \<or> ssl so = Done)" "\<exists>n \<ge> length (wbuf (conns c ! i)). sent so = Some n"
    using assms(1) by (auto simp: takes_all_def)
  then show "a = wbuf (conns c ! i)" "j \<noteq> i \<Longrightarrow> conns c' ! j = conns c ! j" "length (conns c') = length (conns c)"
    using assms(2-4) by (auto simp: flush_writes_def after_handshake_def send_out_def ar_tls_handshake_def Let_def conn_close_def split: if_splits)
qed

lemma drain_slots_sends:
  assumes "drain_slots so is c = (c', a, w)" and "distinct is" and "\<forall>i \<in> set is. i < length (conns c)"
    and "\<forall>i \<in> set is. in_use (conns c ! i) \<longrightarrow> takes_all (so i) (conns c ! i)"
    and "i \<in> set is" and "in_use (conns c ! i)" and "wbuf (conns c ! i) \<noteq> []"
  shows "(i, wbuf (conns c ! i)) \<in> set a"
  using assms
proof (induction "is" arbitrary: c c' a w)
  case (Cons k ks)
  obtain d x where f: "flush_writes (so k) k c = (d, x)" by fastforce
  obtain e y v where r: "drain_slots so ks d = (e, y, v)" using prod_cases3 by blast
  consider (skip) "\<not> in_use (conns c ! k)" | (send) "in_use (conns c ! k)" "wbuf (conns c ! k) \<noteq> []" | (close) "in_use (conns c ! k)" "wbuf (conns c ! k) = []"
    by blast
  then show ?case
  proof cases
    case skip
    then have "i \<in> set ks" using Cons.prems by auto
    then show ?thesis using Cons.IH [of c c' a w] Cons.prems skip by simp
  next
    case send
    have k: "k < length (conns c)" "takes_all (so k) (conns c ! k)" using Cons.prems(3,4) send(1) by auto
    note ft = flush_takes_all [OF k(2,1) send(2) f]
    have a: "a = (k, x) # y" using Cons.prems(1) send f r by simp
    show ?thesis
    proof (cases "i = k")
      case True
      then show ?thesis using ft(1) a by simp
    next
      case False
      then have i: "i \<in> set ks" using Cons.prems(5) by simp
      have ne: "j \<noteq> k" if "j \<in> set ks" for j using Cons.prems(2) that by auto
      have "(i, wbuf (conns d ! i)) \<in> set y"
        using Cons.IH [OF r] Cons.prems(2-4,6,7) i ne ft(2,3) by simp
      then show ?thesis using a ft(2) [OF False] by simp
    qed
  next
    case close
    let ?d = "conn_close k c"
    have ne: "j \<noteq> k" if "j \<in> set ks" for j using Cons.prems(2) that by auto
    have i: "i \<in> set ks" using Cons.prems(5,7) close(2) by auto
    have "(i, wbuf (conns ?d ! i)) \<in> set a"
      using Cons.IH [of ?d c' a w] Cons.prems(1-4,6,7) close i ne by (simp add: close_others)
    then show ?thesis using close_others(1) [OF ne [OF i]] by simp
  qed
qed simp

lemma drain_rounds_sends:
  assumes "\<forall>i < length (conns c). in_use (conns c ! i) \<longrightarrow> takes_all (so i) (conns c ! i)"
    and "drain_rounds env d w ((so, t, p) # rounds) c = (c', a)"
    and "i < length (conns c)" and "in_use (conns c ! i)" and "wbuf (conns c ! i) \<noteq> []"
  shows "(i, wbuf (conns c ! i)) \<in> set a"
proof -
  obtain c1 a1 v where 1: "drain_slots so [0..<length (conns c)] c = (c1, a1, v)" using prod_cases3 by blast
  have "(i, wbuf (conns c ! i)) \<in> set a1"
    by (rule drain_slots_sends [OF 1]) (use assms in auto)
  then show ?thesis using assms(2) 1 by (auto simp: Let_def split: if_splits prod.splits)
qed

text \<open>What comes after the deadline does not matter, so the drain ends.\<close>

lemma drain_ends:
  assumes "\<exists>(so, t, p) \<in> set rounds. t \<ge> d"
  shows "drain_rounds env d w (rounds @ later) c = drain_rounds env d w rounds c"
  using assms
proof (induction rounds arbitrary: c)
  case (Cons r rounds)
  obtain so t p where r: "r = (so, t, p)" by (cases r)
  show ?case using Cons by (cases "t \<ge> d") (auto simp: r Let_def split: prod.splits)
qed simp

end
