(* ===== verification/Readers.thy ===== *)
theory Readers
  imports Handlers
begin

text \<open>
  The commands that only read: they keep every live key with its value, deadline and pin, and are never
  sent to the replicas. The locale \<open>reader\<close> extends the contract \<open>handler\<close>; every command of the data
  table that is not in the list of write commands satisfies it.
\<close>

definition reads :: "core \<Rightarrow> core \<Rightarrow> bool" where
  "reads c c' \<longleftrightarrow> heeds c c' \<and> live c' = live c"

lemma reads_heeds: "reads c c' \<Longrightarrow> heeds c c'"
  by (simp add: reads_def)

lemma reads_refl: "sound c \<Longrightarrow> reads c c"
  by (simp add: reads_def sound_refl)

lemma reads_trans: "reads a b \<Longrightarrow> reads b d \<Longrightarrow> reads a d"
  by (auto simp: reads_def intro: heeds_trans)

lemma sound_reads: "sound c \<Longrightarrow> reads c c' \<Longrightarrow> sound c'"
  by (auto simp: reads_def intro: sound_heeds)

lemma reads_by:
  assumes "sound c" and "\<And>s P K W. wf s c \<Longrightarrow> alloc_ok c \<Longrightarrow> steps s P K W c c'"
  shows "reads c c'"
proof -
  obtain s where w: "wf s c" "alloc_ok c" using assms(1) by (auto simp: sound_def)
  have "live c' = live c" using read_kept [OF w(1) assms(2) [OF w]] by simp
  then show ?thesis using heeds_steps [OF assms(2) [OF w, of "\<lambda>_. False" "{}" "{}"]] by (simp add: reads_def)
qed

lemma swept_reads: "swept s c c' \<Longrightarrow> reads c c'"
  by (simp add: reads_def swept_heeds swept_live fun_eq_iff)

lemma reads_counted: "reads c c' \<Longrightarrow> reads c (c'\<lparr> ops := n \<rparr>)"
  by (auto simp: reads_def heeds_bump live_same [of "c'\<lparr> ops := n \<rparr>" c'])

lemma counted_reads: "reads (c\<lparr> ops := n \<rparr>) c' \<Longrightarrow> reads c c'"
  by (auto simp: reads_def live_same [of "c\<lparr> ops := n \<rparr>" c] intro: heeds_from [of "c\<lparr> ops := n \<rparr>"])

lemma find_reads: "sound c \<Longrightarrow> ar_find_entry_ex c k = (c', r) \<Longrightarrow> reads c c'"
  by (erule reads_by) (rule find_steps(1))

lemma exists_reads: "sound c \<Longrightarrow> ar_exists_bin c k = (c', b) \<Longrightarrow> reads c c'"
  by (auto simp: ar_exists_bin_def split: prod.splits dest: find_reads)

lemma ttl_reads: "sound c \<Longrightarrow> ar_ttl c k = (c', t) \<Longrightarrow> reads c c'"
  by (erule reads_by) (rule ttl_ok(1))

lemma pttl_reads: "sound c \<Longrightarrow> ar_pttl c k = (c', t) \<Longrightarrow> reads c c'"
  by (erule reads_by) (rule pttl_ok(1))

lemma get_ptr_reads: "sound c \<Longrightarrow> get_ptr c k = (c', g) \<Longrightarrow> reads c c'"
  by (erule reads_by) (rule get_ptr_ok(1))

lemma strlen_reads:
  assumes s: "sound c" and r: "ar_strlen c k = (c', n, wt)"
  shows "reads c c'"
proof -
  obtain q where "ar_find_entry_ex (c\<lparr> ops := ops c + 1 \<rparr>) k = (c', q)"
    using r by (auto simp: ar_strlen_def Let_def split: prod.splits option.splits if_splits)
  then have "reads (c\<lparr> ops := ops c + 1 \<rparr>) c'" using sound_same [OF s] by (intro find_reads) simp_all
  then show ?thesis by (rule counted_reads)
qed

lemma typed_reads: "sound c \<Longrightarrow> ar_entry_get_typed c k t = (c', r, wt) \<Longrightarrow> reads c c'"
  by (erule reads_by) (rule typed_read(1))

lemma hget_reads: "sound c \<Longrightarrow> ar_hash_hget c k f = (c', v, wt) \<Longrightarrow> reads c c'"
  by (erule reads_by) (rule hget_ok(1))

lemma hexists_reads: "sound c \<Longrightarrow> ar_hash_hexists c k f = (c', n, wt) \<Longrightarrow> reads c c'"
  by (erule reads_by) (rule hexists_ok(1))

lemma hlen_reads: "sound c \<Longrightarrow> ar_hash_hlen c k = (c', n, wt) \<Longrightarrow> reads c c'"
  by (erule reads_by) (rule hlen_ok(1))

lemma hscan_reads:
  assumes "sound c" and "ar_hscan c k cur pat cnt = (c', els, nxt, wt)"
  shows "reads c c'"
proof -
  obtain r w where t: "ar_entry_get_typed c k THash = (c', r, w)"
    using assms(2) by (auto simp: ar_hscan_def Let_def split: prod.splits option.splits if_splits)
  show ?thesis by (rule typed_reads [OF assms(1) t])
qed

lemma llen_reads: "sound c \<Longrightarrow> ar_list_llen c k = (c', n, wt) \<Longrightarrow> reads c c'"
  by (erule reads_by) (rule llen_ok(1))

lemma lindex_reads: "sound c \<Longrightarrow> ar_list_lindex c k i = (c', v, wt) \<Longrightarrow> reads c c'"
  by (erule reads_by) (rule lindex_ok(1))

lemma list_get_reads: "sound c \<Longrightarrow> ar_list_get c k = (c', v, wt) \<Longrightarrow> reads c c'"
  by (auto simp: ar_list_get_def split: prod.splits option.splits dest: typed_reads)

lemma zscore_reads: "sound c \<Longrightarrow> ar_zset_zscore fmt c k m = (c', v, wt) \<Longrightarrow> reads c c'"
  by (erule reads_by) (rule zscore_ok(1))

lemma zcard_reads: "sound c \<Longrightarrow> ar_zset_zcard c k = (c', n, wt) \<Longrightarrow> reads c c'"
  by (erule reads_by) (rule zcard_ok(1))

lemma zset_get_reads: "sound c \<Longrightarrow> ar_zset_get c k = (c', v, wt) \<Longrightarrow> reads c c'"
  by (auto simp: ar_zset_get_def split: prod.splits option.splits dest: typed_reads)

lemma scan_reads:
  assumes "sound c" and "ar_scan c cur pat cnt = (c', ks, nxt)"
  shows "reads c c'"
proof (cases "cur < scan_total_buckets c")
  case True
  obtain s where w: "wf s c" "alloc_ok c" using assms(1) by (auto simp: sound_def)
  show ?thesis by (rule swept_reads [OF ar_scan_ok(1) [OF w True assms(2)]])
next
  case False
  then show ?thesis using assms by (auto simp: ar_scan_def Let_def reads_refl split: if_splits)
qed

lemma keys_reads:
  assumes "sound c" and "ar_keys c pat = (c', ks)"
  shows "reads c c'"
proof -
  obtain s where w: "wf s c" "alloc_ok c" using assms(1) by (auto simp: sound_def)
  show ?thesis by (rule swept_reads [OF ar_keys_list(1) [OF w assms(2)]])
qed

lemma dbsize_reads:
  assumes "sound c" and "ar_dbsize c = (c', n)"
  shows "reads c c'"
proof -
  obtain s where w: "wf s c" using assms(1) by (auto simp: sound_def)
  show ?thesis by (rule swept_reads [OF ar_dbsize_list(1) [OF w assms(2)]])
qed

lemma exists_all_reads: "sound c \<Longrightarrow> count_keys ar_exists_bin c ks n = (c', m) \<Longrightarrow> reads c c'"
proof (induction ks arbitrary: c n)
  case (Cons k ks)
  obtain c1 ok where 1: "ar_exists_bin c k = (c1, ok)" by fastforce
  have h: "reads c c1" by (rule exists_reads [OF Cons.prems(1) 1])
  have "reads c1 c'" using Cons.prems(2) 1 by (intro Cons.IH [OF sound_reads [OF Cons.prems(1) h]]) simp
  with h show ?case by (rule reads_trans)
qed (simp add: reads_refl)

lemma mget_loop_reads: "sound c \<Longrightarrow> mget_loop c ks out = (c', out') \<Longrightarrow> reads c c'"
proof (induction ks arbitrary: c out)
  case (Cons k ks)
  obtain c1 g where 1: "get_ptr c k = (c1, g)" by fastforce
  have h: "reads c c1" by (rule get_ptr_reads [OF Cons.prems(1) 1])
  obtain o1 where "mget_loop c1 ks o1 = (c', out')" using Cons.prems(2) 1 by (auto split: got.splits)
  with h show ?case by (rule reads_trans [OF _ Cons.IH [OF sound_reads [OF Cons.prems(1) h]]])
qed (simp add: reads_refl)

lemma hmget_loop_reads: "sound c \<Longrightarrow> hmget_loop c k fs out = (c', out') \<Longrightarrow> reads c c'"
proof (induction fs arbitrary: c out)
  case (Cons f fs)
  obtain c1 v wt where 1: "ar_hash_hget c k f = (c1, v, wt)" using prod_cases3 by blast
  have h: "reads c c1" by (rule hget_reads [OF Cons.prems(1) 1])
  have "hmget_loop c1 k fs (out @ bulk_or_null v) = (c', out')" using Cons.prems(2) 1 by simp
  with h show ?case by (rule reads_trans [OF _ Cons.IH [OF sound_reads [OF Cons.prems(1) h]]])
qed (simp add: reads_refl)


section \<open>The contract of a reader\<close>

locale reader = handler h for h :: "core \<Rightarrow> bytes list \<Rightarrow> result" +
  assumes only_reads: "sound c \<Longrightarrow> h c argv = (c', r, p) \<Longrightarrow> live c' = live c \<and> \<not> p"

lemma readerI:
  assumes "\<And>c argv c' r p. sound c \<Longrightarrow> h c argv = (c', r, p) \<Longrightarrow> reads c c' \<and> \<not> p"
  shows "reader h"
proof unfold_locales
  fix c argv c' r p assume s: "sound c" and r: "h c argv = (c', r, p)"
  show "heeds c c'" "live c' = live c \<and> \<not> p" using assms [OF s r] by (simp_all add: reads_def)
qed

lemma reader_ttl:
  assumes "\<And>c k c' t. sound c \<Longrightarrow> op c k = (c', t) \<Longrightarrow> reads c c'"
  shows "reader (cmd_ttl op name)"
  by (rule readerI) (auto simp: cmd_ttl_def reads_refl split: if_splits prod.splits dest!: assms intro: reads_counted)

interpretation r_get: reader cmd_get
  by (rule readerI) (auto simp: cmd_get_def reads_refl split: branches dest: get_ptr_reads)

interpretation r_ttl: reader "cmd_ttl ar_ttl ''ttl''"
  by (rule reader_ttl) (rule ttl_reads)

interpretation r_pttl: reader "cmd_ttl ar_pttl ''pttl''"
  by (rule reader_ttl) (rule pttl_reads)

interpretation r_exists: reader cmd_exists
  by (rule readerI) (auto simp: cmd_exists_def reads_refl split: branches intro: reads_counted dest: exists_all_reads)

interpretation r_strlen: reader cmd_strlen
  by (rule readerI) (auto simp: cmd_strlen_def reads_refl split: branches dest: strlen_reads)

interpretation r_mget: reader cmd_mget
  by (rule readerI) (auto simp: cmd_mget_def reads_refl split: branches dest: mget_loop_reads)

interpretation r_dbsize: reader cmd_dbsize
  by (rule readerI) (auto simp: cmd_dbsize_def reads_refl split: branches dest: dbsize_reads)

interpretation r_type: reader cmd_type
  by (rule readerI) (auto simp: cmd_type_def reads_refl split: branches dest: find_reads)

interpretation r_hget: reader cmd_hget
  by (rule readerI) (auto simp: cmd_hget_def reads_refl split: branches dest: hget_reads)

interpretation r_hmget: reader cmd_hmget
proof (rule readerI)
  fix c argv c' r p assume s: "sound c" and r: "cmd_hmget c argv = (c', r, p)"
  obtain c1 q wt where 1: "ar_entry_get_typed c (argv ! 1) THash = (c1, q, wt)" using prod_cases3 by blast
  have h: "reads c c1" by (rule typed_reads [OF s 1])
  obtain c2 out where 2: "hmget_loop c1 (argv ! 1) (drop 2 argv) [] = (c2, out)" by fastforce
  have "reads c c2" using h by (rule reads_trans) (rule hmget_loop_reads [OF sound_reads [OF s h] 2])
  then show "reads c c' \<and> \<not> p" using r 1 2 h s by (auto simp: cmd_hmget_def reads_refl split: if_splits)
qed

interpretation r_hgetall: reader cmd_hgetall
  by (rule readerI) (auto simp: cmd_hgetall_def Let_def reads_refl split: branches dest: typed_reads)

interpretation r_hexists: reader cmd_hexists
  by (rule readerI) (auto simp: cmd_hexists_def reply_defs reads_refl split: branches dest: hexists_reads)

interpretation r_hlen: reader cmd_hlen
  by (rule readerI) (auto simp: cmd_hlen_def reply_defs reads_refl split: branches dest: hlen_reads)

interpretation r_hscan: reader cmd_hscan
  by (rule readerI) (auto simp: cmd_hscan_def reads_refl split: branches dest: hscan_reads)

interpretation r_scan: reader cmd_scan
  by (rule readerI) (auto simp: cmd_scan_def reads_refl split: branches dest: scan_reads)

interpretation r_keys: reader cmd_keys
  by (rule readerI) (auto simp: cmd_keys_def reads_refl split: branches dest: keys_reads)

interpretation r_llen: reader cmd_llen
  by (rule readerI) (auto simp: cmd_llen_def reply_defs reads_refl split: branches dest: llen_reads)

interpretation r_lindex: reader cmd_lindex
  by (rule readerI) (auto simp: cmd_lindex_def reads_refl split: branches dest: lindex_reads)

interpretation r_lrange: reader cmd_lrange
  by (rule readerI) (auto simp: cmd_lrange_def Let_def reads_refl split: branches dest: list_get_reads)

interpretation r_zscore: reader "cmd_zscore lib" for lib
  by (rule readerI) (auto simp: cmd_zscore_def reads_refl split: branches dest: zscore_reads)

interpretation r_zcard: reader cmd_zcard
  by (rule readerI) (auto simp: cmd_zcard_def reply_defs reads_refl split: branches dest: zcard_reads)

interpretation r_zrange: reader "cmd_zrange lib" for lib
  by (rule readerI) (auto simp: cmd_zrange_def Let_def reads_refl split: branches dest: zset_get_reads)

interpretation r_zrangebyscore: reader "cmd_zrangebyscore lib" for lib
  by (rule readerI) (auto simp: cmd_zrangebyscore_def Let_def reads_refl split: branches dest: zset_get_reads)

lemmas reader_axioms =
  r_get.reader_axioms r_ttl.reader_axioms r_pttl.reader_axioms r_exists.reader_axioms r_strlen.reader_axioms
  r_mget.reader_axioms r_dbsize.reader_axioms r_type.reader_axioms r_hget.reader_axioms r_hmget.reader_axioms
  r_hgetall.reader_axioms r_hexists.reader_axioms r_hlen.reader_axioms r_hscan.reader_axioms r_scan.reader_axioms
  r_keys.reader_axioms r_llen.reader_axioms r_lindex.reader_axioms r_lrange.reader_axioms r_zscore.reader_axioms
  r_zcard.reader_axioms r_zrange.reader_axioms r_zrangebyscore.reader_axioms

end
