(* ===== verification/ServerSpec.thy ===== *)
theory ServerSpec
  imports Events Readers Sample
begin

text \<open>
  The promises of the server to its clients: transactions, watched keys, authentication, read-only
  replicas, publish and subscribe, the slow log, and the treatment of the input stream.
\<close>


section \<open>Command names\<close>

text \<open>The tables by name in lower case.\<close>

lemma find_lower:
  assumes "list_all (\<lambda>(n, h). map lower n = n) tbl"
  shows "find_handler name tbl = map_of tbl (map lower name)"
  using assms by (induction tbl) (auto simp: find_handler_def cmd_eq_iff)

lemma conn_lookup: "find_handler name (conn_commands env) = map_of (conn_commands env) (map lower name)"
  by (rule find_lower) (simp add: conn_commands_def)

lemma data_lookup: "find_handler name (data_commands l) = map_of (data_commands l) (map lower name)"
  by (rule find_lower) (simp add: data_commands_def)


section \<open>A server of two clients\<close>

definition client :: "nat \<Rightarrow> conn" where
  "client n = conn0\<lparr> in_use := True, authenticated := True, client_id := n \<rparr>"

definition duo :: core where
  "duo = tiny\<lparr> conns := [client 1, client 2] \<rparr>"

definition plain_env :: server_env where
  "plain_env = \<lparr> lib = (\<lambda>_. None, \<lambda>_. []), fd_of = (\<lambda>_ _. 7), connects = (\<lambda>_ _ _. False),
     machine = (\<lambda>_. \<lparr> files = Map.empty, open_ok = True, write_ok = True, rename_ok = True, host_pid = 7, unix_now = 5 \<rparr>),
     waited = (\<lambda>_. StillRunning), forked = (\<lambda>_. ForkFailed), plugin_at = Map.empty, deny_plugin = None, took_us = (\<lambda>_ _. 20) \<rparr>"

lemma took_plain [simp]: "took_us plain_env c argv = 20"
  by (simp add: plain_env_def)

lemma conn_ok_client [simp]: "conn_ok (client n)"
  by (simp add: conn_ok_def client_def conn0_def)

lemma duo_fields [simp]:
  "conns duo = [client 1, client 2]" "srv duo = server0" "sound duo" "tidy duo" "dict_of duo = dict_of tiny" "alloc_ok duo"
proof -
  show "srv duo = server0" by (simp add: duo_def tiny_def core_with_def)
  show "conns duo = [client 1, client 2]" "alloc_ok duo" by (simp_all add: duo_def)
  show d: "dict_of duo = dict_of tiny" by (simp add: duo_def dict_of_def)
  have "sound tiny" by (auto simp: sound_def intro: tiny_wf)
  then show "sound duo" by (rule sound_core [OF _ d]) (simp add: duo_def)
  show "tidy duo" by (simp add: tidy_def duo_def server_oks server0_def tiny_def core_with_def AR_SLOWLOG_MAX_def AR_MAX_CONN_def rdb0_def)
qed


section \<open>Nesting\<close>

lemma dispatch_with_cong:
  assumes "\<not> cmd_eq (argv ! 0) ''exec''"
  shows "dispatch_with env run i c argv = dispatch_with env run' i c argv"
proof -
  have e: "cmd_eq (argv ! 0) ''exec'' = False" using assms by simp
  show ?thesis by (unfold dispatch_with_def Let_def e if_False) (rule refl)
qed

lemma dispatch_with_exec:
  assumes "cmd_exec run i (upd_conn i (note_last_cmd (argv ! 0)) c) argv = cmd_exec run' i (upd_conn i (note_last_cmd (argv ! 0)) c) argv"
  shows "dispatch_with env run i c argv = dispatch_with env run' i c argv"
  by (unfold dispatch_with_def Let_def assms) (rule refl)

lemma foldl_queued:
  assumes "list_all queued_ok q"
  shows "foldl (dispatch env (Suc n) i) c q = foldl (dispatch env (Suc 0) i) c q"
  using assms
proof (induction q arbitrary: c)
  case (Cons a q)
  have "dispatch env (Suc n) i c a = dispatch env (Suc 0) i c a"
    using Cons.prems dispatch_with_cong [of a env "dispatch env n" i c "dispatch env 0"]
    by (simp add: queued_ok_def transaction_names_def)
  then show ?case using Cons by simp
qed simp




section \<open>The input stream\<close>


lemma client_simps [simp]:
  "in_use (client n)" "wbuf (client n) = []" "\<not> should_close (client n)" "authenticated (client n)" "\<not> is_replica (client n)"
  "\<not> is_master_link (client n)" "\<not> in_multi (client n)" "multi_q (client n) = []" "\<not> watch_dirty (client n)"
  "watch_keys (client n) = []" "\<not> pubsub_mode (client n)" "sub_channels (client n) = []" "client_id (client n) = n"
  by (simp_all add: client_def conn0_def)

lemma server0_simps [simp]: "\<not> has_pass server0" "\<not> repl_readonly server0" "\<not> repl_applying server0"
  by (simp_all add: server0_def has_pass_def)

lemma run_ping: "run_command env i c [''PING''] = reply i reply_pong c"
  unfolding run_command_def conn_lookup by (simp add: conn_commands_def cmd_ping_def)

lemma duo_noted:
  "upd_conn 0 (note_last_cmd (''PING'')) duo = duo\<lparr> conns := [(client 1)\<lparr> last_cmd := ''ping'' \<rparr>, client 2] \<rparr>"
  by (simp add: upd_conn_def note_last_cmd_def)

lemma ping_dispatched:
  "dispatch plain_env 2 0 duo [''PING''] =
     duo\<lparr> conns := [(client 1)\<lparr> wbuf := reply_pong, last_cmd := ''ping'' \<rparr>, client 2] \<rparr>"
proof -
  have "dispatch_with plain_env run 0 duo [''PING''] = reply 0 reply_pong (duo\<lparr> conns := [(client 1)\<lparr> last_cmd := ''ping'' \<rparr>, client 2] \<rparr>)" for run
    unfolding dispatch_with_def Let_def duo_noted [simplified] by (simp add: duo_noted refused_def cmd_eq_iff run_ping)
  then show ?thesis by (simp add: numeral_2_eq_2 reply_def upd_conn_def put_out_def)
qed

lemma ping_served:
  "should_close (conns (serve_command plain_env 0 duo [''PING'']) ! 0) = False"
  by (simp add: serve_command_def ping_dispatched)


text \<open>C20. Pipelined commands are served one after the other, in the order sent, as long as none of them closes the connection.\<close>

fun all_served :: "server_env \<Rightarrow> nat \<Rightarrow> core \<Rightarrow> bytes list list \<Rightarrow> bool" where
  "all_served env i c [] = True"
| "all_served env i c (argv # cmds) =
     (\<not> should_close (conns (serve_command env i c argv) ! i) \<and> all_served env i (serve_command env i c argv) cmds)"

theorem pipeline_in_order:
  assumes "list_all sendable cmds" and "all_served env i c cmds"
  shows "process_loop env i c (concat (map resp_array cmds)) = (foldl (serve_command env i) c cmds, [])"
  using assms
proof (induction cmds arbitrary: c)
  case (Cons argv cmds)
  have p: "parse_command (resp_array argv @ s) = Parsed argv s" for s
    using Cons.prems by (intro parse_command_print) (simp_all add: sendable_def)
  have ne: "resp_array argv \<noteq> []" by (simp add: resp_array_def resp_append_array_hdr_def)
  show ?case
    using Cons.prems Cons.IH [of "serve_command env i c argv"] p ne by (simp add: process_loop.simps [of env i c] Let_def)
qed (simp add: process_loop.simps)

theorem pipeline_in_order_witness:
  "process_loop plain_env 0 duo (resp_array [''PING'']) = (serve_command plain_env 0 duo [''PING''], [])"
  using pipeline_in_order [of "[[''PING'']]" plain_env 0 duo] ping_served
  by (simp add: sendable_def AR_MAX_ARGV_def BULK_MAX_def)


section \<open>Order in every reachable state\<close>

text \<open>C2. Whatever the clients send and whenever the timer runs: starting from a fresh server the store stays well formed,
  the number of connection slots is fixed, every connection keeps at most 64 distinct watched keys, 64 distinct
  channels (and is in subscriber mode exactly when it has one) and 128 queued commands, none of them a transaction
  command, and the slow log stays within its ring.\<close>

theorem server_stays_in_order:
  assumes "served env (ar_core_create now rnd) c"
  shows "sound c \<and> length (conns c) = AR_MAX_CONN \<and> list_all conn_ok (conns c) \<and> server_ok (srv c)"
  using orderly_served [OF assms orderly_create] by (simp add: orderly_def tidy_def)

theorem server_stays_in_order_witness:
  "sound (fst (accept_client True ''127.0.0.1:5000'' (ar_core_create 1000 (\<lambda>_. 0))))"
  using server_stays_in_order [OF served.event [OF served.start server_step.accepted]] by blast


section \<open>Watched keys\<close>

text \<open>What may happen to the server between two commands of client \<open>w\<close>.\<close>

inductive traffic :: "server_env \<Rightarrow> nat \<Rightarrow> core \<Rightarrow> core \<Rightarrow> bool" for env w where
  quiet: "traffic env w c c"
| other_client: "traffic env w c c' \<Longrightarrow> i \<noteq> w \<Longrightarrow> traffic env w c (serve_command env i c' argv)"
| expiry: "traffic env w c c' \<Longrightarrow> traffic env w c (fst (ar_core_active_expire c' effort))"

text \<open>The part of \<open>serves\<close> that concerns one watcher.\<close>

definition watched_by :: "nat \<Rightarrow> core \<Rightarrow> core \<Rightarrow> bool" where
  "watched_by w c c' \<longleftrightarrow> sound c' \<and> length (conns c') = length (conns c) \<and> peer (conns c ! w) (conns c' ! w) \<and>
     (\<forall>k \<in> set (watch_keys (conns c ! w)). in_use (conns c ! w) \<and> client_id (conns c' ! w) \<noteq> 0 \<and>
       \<not> watch_dirty (conns c' ! w) \<longrightarrow> worth c' k = worth c k)"

lemma watched_by_trans:
  assumes "watched_by w a b" and "watched_by w b d"
  shows "watched_by w a d"
proof -
  have p: "peer (conns a ! w) (conns b ! w)" "peer (conns b ! w) (conns d ! w)" using assms by (simp_all add: watched_by_def)
  have "worth d k = worth a k"
    if "k \<in> set (watch_keys (conns a ! w))" "client_id (conns d ! w) \<noteq> 0" "\<not> watch_dirty (conns d ! w)" "in_use (conns a ! w)" for k
  proof -
    have s2: "session (conns b ! w) (conns d ! w)" using p(2) that(2) by (simp add: peer_def)
    note b = session_same [OF s2]
    have s1: "session (conns a ! w) (conns b ! w)" using p(1) b(1) that(2) by (simp add: peer_def)
    show ?thesis using assms that b session_same [OF s1] by (auto simp: watched_by_def)
  qed
  then show ?thesis using assms peer_trans [OF p] by (auto simp: watched_by_def)
qed

lemma watched_by_serves:
  assumes s: "serves i c c'" and "i \<noteq> w" "w < length (conns c)"
  shows "watched_by w c c'"
proof -
  have p: "peer (conns c ! w) (conns c' ! w)" using assms by (auto simp: serves_def)
  have "worth c' k = worth c k"
    if "k \<in> set (watch_keys (conns c ! w))" "in_use (conns c ! w)" "client_id (conns c' ! w) \<noteq> 0" "\<not> watch_dirty (conns c' ! w)" for k
  proof -
    have "session (conns c ! w) (conns c' ! w)" using p that(3) by (simp add: peer_def)
    then show ?thesis using s that assms(2-) session_same by (auto simp: serves_def told_def)
  qed
  then show ?thesis using s p by (simp add: watched_by_def serves_def)
qed

lemma traffic_watched:
  assumes "traffic env w c c'" and "sound c" and "w < length (conns c)"
  shows "watched_by w c c'"
  using assms
proof induction
  case quiet
  then show ?case by (simp add: watched_by_def)
next
  case (other_client c c' i argv)
  then have 1: "watched_by w c c'" by simp
  have "serves i c' (serve_command env i c' argv)" using 1 by (intro command_serves) (simp add: watched_by_def)
  then have "watched_by w c' (serve_command env i c' argv)"
    using 1 other_client(2,5) by (intro watched_by_serves) (simp_all add: watched_by_def)
  with 1 show ?case by (rule watched_by_trans)
next
  case (expiry c c' effort)
  then have 1: "watched_by w c c'" by simp
  then obtain s where w: "wf s c'" and "sound c'" by (auto simp: watched_by_def sound_def)
  then have "serves (Suc w) c' (fst (ar_core_active_expire c' effort))"
    using swept_heeds [OF active_expire_swept(1) [OF w, of effort]] by (intro serves_heeds)
  then have "watched_by w c' (fst (ar_core_active_expire c' effort))"
    by (rule watched_by_serves) (use 1 expiry(4) in \<open>auto simp: watched_by_def\<close>)
  with 1 show ?case by (rule watched_by_trans)
qed

lemma refused_srv_only: "refused s (x\<lparr> last_cmd := n \<rparr>) argv = refused s x argv"
  by (simp add: refused_def Let_def cong: if_cong)

lemma refused_noted [simp]: "refused s (note_last_cmd n x) argv = refused s x argv"
  by (simp add: note_last_cmd_def refused_srv_only)


definition watching :: core where
  "watching = duo\<lparr> conns := [(client 1)\<lparr> watch_keys := [''h''], in_multi := True, multi_q := [[''GET'', ''h'']] \<rparr>, client 2] \<rparr>"

lemma watching_fields [simp]:
  "sound watching" "conns watching = [(client 1)\<lparr> watch_keys := [''h''], in_multi := True, multi_q := [[''GET'', ''h'']] \<rparr>, client 2]"
  "srv watching = server0" "worth watching ''h'' = worth tiny ''h''"
proof -
  have d: "dict_of watching = dict_of tiny" by (simp add: watching_def)
  show "sound watching" by (rule sound_core [OF duo_fields(3)]) (simp_all add: d watching_def)
  show "worth watching ''h'' = worth tiny ''h''" by (rule worth_core [OF d])
qed (simp_all add: watching_def)

lemma run_flushdb: "run_command env i c [''FLUSHDB''] = reply i reply_ok (repl_propagate (ar_flushdb c) [''FLUSHDB''])"
  unfolding run_command_def conn_lookup data_lookup by (simp add: conn_commands_def data_commands_def run_data_def cmd_flushdb_def)

lemma dispatch_plain:
  assumes "argv \<noteq> []" and "refused (srv c) (conns c ! i) argv = None" and "\<not> list_ex (cmd_eq (argv ! 0)) transaction_names"
    and "i < length (conns c)"
  shows "dispatch env (Suc n) i c argv = (let c' = upd_conn i (note_last_cmd (argv ! 0)) c
    in if in_multi (conns c ! i) then queue_cmd i c' argv else run_command env i c' argv)"
  using assms by (simp add: dispatch_with_def Let_def transaction_names_def note_last_cmd_def refused_srv_only)

lemma dispatch_refused:
  assumes "argv \<noteq> []" and "refused (srv c) (conns c ! i) argv = Some r" and "i < length (conns c)"
  shows "dispatch env (Suc n) i c argv = reply i r (upd_conn i (note_last_cmd (argv ! 0)) c)"
  using assms by (simp add: dispatch_with_def Let_def note_last_cmd_def refused_srv_only)

lemma serve_plain:
  assumes "\<not> is_master_link (conns c ! i)" and "\<not> is_master_link (conns (dispatch env 2 i c argv) ! i)"
  shows "serve_command env i c argv = upd_conn i (\<lambda>x. x\<lparr> last_active_ms := now_ms c \<rparr>)
    ((dispatch env 2 i c argv)\<lparr> srv := note_cmd_latency (now_ms c div 1000) (took_us env c argv) argv (srv (dispatch env 2 i c argv)) \<rparr>)"
  using assms by (simp add: serve_command_def Let_def)

lemma latency_fields [simp]:
  "requirepass (note_cmd_latency t us argv s) = requirepass s" "repl_readonly (note_cmd_latency t us argv s) = repl_readonly s"
  by (simp_all add: note_cmd_latency_def slowlog_push_def Let_def)

lemma worth_flushed: "worth (ar_flushdb c) k = None"
  by (simp add: worth_def view_None_iff ents_def flush_fields)

lemma flushdb_served:
  assumes "c = serve_command plain_env (Suc 0) watching [''FLUSHDB'']"
  shows "conns c ! 0 = (client 1)\<lparr> watch_keys := [''h''], watch_dirty := True, in_multi := True, multi_q := [[''GET'', ''h'']] \<rparr>"
    "worth c ''h'' = None" "srv c = note_cmd_latency (now_ms watching div 1000) 20 [''FLUSHDB''] server0"
proof -
  let ?c = "upd_conn (Suc 0) (note_last_cmd ''FLUSHDB'') watching"
  let ?d = "dispatch plain_env 2 (Suc 0) watching [''FLUSHDB'']"
  have d: "?d = reply (Suc 0) reply_ok (repl_propagate (ar_flushdb ?c) [''FLUSHDB''])"
    using dispatch_plain [of "[''FLUSHDB'']" watching "Suc 0" plain_env 1]
    by (simp add: refused_def numeral_2_eq_2 cmd_eq_iff transaction_names_def run_flushdb Let_def)
  have s: "srv (ar_flushdb ?c) = server0"
    using flush_fields(12) [of ?c] by (simp add: env_of_def)
  have n: "conns ?d = [(client 1)\<lparr> watch_keys := [''h''], watch_dirty := True, in_multi := True, multi_q := [[''GET'', ''h'']] \<rparr>,
      (client 2)\<lparr> last_cmd := ''flushdb'', wbuf := reply_ok \<rparr>]"
    unfolding d by (simp add: reply_def repl_propagate_def s flush_conns note_last_cmd_def put_out_def)
  have v: "dict_of ?d = dict_of (ar_flushdb ?c)" unfolding d by simp
  have c: "c = upd_conn (Suc 0) (\<lambda>x. x\<lparr> last_active_ms := now_ms watching \<rparr>)
      (?d\<lparr> srv := note_cmd_latency (now_ms watching div 1000) 20 [''FLUSHDB''] (srv ?d) \<rparr>)"
    unfolding assms by (subst serve_plain) (simp_all add: n)
  show "conns c ! 0 = (client 1)\<lparr> watch_keys := [''h''], watch_dirty := True, in_multi := True, multi_q := [[''GET'', ''h'']] \<rparr>"
    unfolding c by (simp add: n)
  show "srv c = note_cmd_latency (now_ms watching div 1000) 20 [''FLUSHDB''] server0"
    unfolding c d by (simp add: s)
  have "dict_of c = dict_of ?d" unfolding c by simp
  then show "worth c ''h'' = None" using worth_core [of c "ar_flushdb ?c" "''h''"] v worth_flushed by simp
qed



section \<open>Authentication\<close>

text \<open>A step that changes connection \<open>i\<close> alone and does not authenticate it.\<close>

definition locked_out :: "nat \<Rightarrow> core \<Rightarrow> core \<Rightarrow> bool" where
  "locked_out i c c' \<longleftrightarrow> (\<exists>x. c' = c\<lparr> conns := (conns c)[i := x] \<rparr> \<and> \<not> authenticated x)"

lemma locked_out_upd:
  assumes "locked_out i c c'" and "i < length (conns c)" and "\<And>x. authenticated (f x) = authenticated x"
  shows "locked_out i c (upd_conn i f c')"
proof -
  obtain x where "c' = c\<lparr> conns := (conns c)[i := x] \<rparr>" "\<not> authenticated x" using assms(1) by (auto simp: locked_out_def)
  then show ?thesis using assms(2,3) by (auto simp: locked_out_def upd_conn_def intro!: exI [of _ "f x"])
qed

lemma locked_out_reply: "locked_out i c c' \<Longrightarrow> i < length (conns c) \<Longrightarrow> locked_out i c (reply i b c')"
  unfolding reply_def by (erule locked_out_upd) (simp_all add: put_out_def)

lemma hello_auth_wrong:
  "p \<noteq> [] \<Longrightarrow> p \<notin> set xs \<Longrightarrow> q = Some p \<Longrightarrow> fst (hello_auth q ok xs) = ok"
proof (induction q ok xs rule: hello_auth.induct)
  case (1 q ok a b rest)
  have "(case rest of [] \<Rightarrow> b | x # _ \<Rightarrow> x) \<noteq> p" using "1.prems"(2) by (auto split: list.splits)
  then show ?case using 1 by (simp add: Let_def)
qed simp_all

lemma locked_out_run:
  assumes "requirepass (srv c) = Some p" and "p \<noteq> []" and "i < length (conns c)"
    and "\<not> authenticated (conns c ! i)" and "p \<notin> set (tl argv)"
    and "map lower (argv ! 0) \<in> {''auth'', ''ping'', ''quit'', ''hello''}"
  shows "locked_out i c (run_command env i (upd_conn i (note_last_cmd (argv ! 0)) c) argv)"
proof -
  let ?c = "upd_conn i (note_last_cmd (argv ! 0)) c"
  have "locked_out i c c" using assms(4) by (auto simp: locked_out_def intro!: exI [of _ "conns c ! i"])
  then have l: "locked_out i c ?c" by (rule locked_out_upd) (simp_all add: assms(3) note_last_cmd_def)
  note r = locked_out_reply [OF l assms(3)]
  have "pass_eq (last argv) (requirepass (srv c)) = False" if "length argv = 2 \<or> length argv = 3"
    using that assms(1,5) last_in_set [of "tl argv"] by (cases argv) (auto simp: pass_eq_def split: if_splits)
  then have "locked_out i c (cmd_auth i ?c argv)" using r assms(1,2) by (auto simp: cmd_auth_def has_pass_def)
  moreover have "locked_out i c (cmd_hello i ?c argv)"
  proof -
    obtain ok fine where h: "hello_auth (requirepass (srv c)) (authenticated (conns ?c ! i)) (tl argv) = (ok, fine)" by fastforce
    have "authenticated (conns ?c ! i) = False" using assms(3,4) by (simp add: note_last_cmd_def)
    then have "\<not> ok" using hello_auth_wrong [OF assms(2,5,1), of "authenticated (conns ?c ! i)"] h by simp
    moreover have "locked_out i c (upd_conn i (\<lambda>x. x\<lparr> authenticated := False \<rparr>) ?c)"
      using assms(3) by (auto simp: locked_out_def upd_conn_def)
    ultimately show ?thesis using h assms(3) by (simp add: cmd_hello_def locked_out_reply del: conns_upd_conn)
  qed
  moreover have "locked_out i c (cmd_ping i ?c argv)" using r by (simp add: cmd_ping_def)
  moreover have "locked_out i c (cmd_quit i ?c argv)"
    unfolding cmd_quit_def by (rule locked_out_upd [OF r assms(3)]) simp
  ultimately show ?thesis
    using assms(6) unfolding run_command_def conn_lookup by (elim insertE emptyE) (simp_all add: conn_commands_def)
qed

text \<open>C3. With a password set, a client that has not authenticated and does not send the password cannot touch the store, the
  configuration or any other client, and stays unauthenticated, whatever it sends.\<close>

theorem unauthenticated_locked_out:
  assumes "requirepass (srv c) = Some p" and "p \<noteq> []" and "i < length (conns c)"
    and "\<not> authenticated (conns c ! i)" and "p \<notin> set (tl argv)"
  shows "\<exists>x. dispatch env (Suc n) i c argv = c\<lparr> conns := (conns c)[i := x] \<rparr> \<and> \<not> authenticated x"
proof -
  let ?c = "upd_conn i (note_last_cmd (argv ! 0)) c"
  have l0: "locked_out i c c" using assms(4) by (auto simp: locked_out_def intro!: exI [of _ "conns c ! i"])
  then have l: "locked_out i c ?c" by (rule locked_out_upd) (simp_all add: assms(3) note_last_cmd_def)
  note r = locked_out_reply [OF l assms(3)] locked_out_reply [OF l0 assms(3)]
  have pw: "has_pass (srv c)" using assms(1,2) by (simp add: has_pass_def)
  have "locked_out i c (dispatch env (Suc n) i c argv)"
  proof (cases "argv = [] \<or> \<not> cmd_allowed_unauth (argv ! 0)")
    case True
    then have "argv = [] \<or> refused (srv c) (conns c ! i) argv = Some (reply_err ''NOAUTH Authentication required.'')"
      using pw assms(4) by (auto simp: refused_def)
    then show ?thesis using r dispatch_refused [OF _ _ assms(3)] by (cases "argv = []") (simp_all add: dispatch_with_def)
  next
    case False
    then have names: "map lower (argv ! 0) \<in> {''auth'', ''ping'', ''quit'', ''hello''}"
      by (auto simp: cmd_allowed_unauth_def cmd_eq_iff)
    have q: "locked_out i c (queue_cmd i ?c argv)"
      using r locked_out_reply [OF locked_out_upd [OF l assms(3)] assms(3), of "\<lambda>x. x\<lparr> multi_q := multi_q x @ [argv] \<rparr>"]
      by (simp add: queue_cmd_def del: conns_upd_conn)
    have run: "locked_out i c (run_command env i ?c argv)" by (rule locked_out_run [OF assms names])
    have "\<not> list_ex (cmd_eq (argv ! 0)) transaction_names" using names by (auto simp: transaction_names_def cmd_eq_iff)
    then show ?thesis
      using False q run r(1) dispatch_plain [of argv c i env n] dispatch_refused [of argv c i _ env n] assms(3)
      by (cases "refused (srv c) (conns c ! i) argv") (simp_all add: Let_def del: dispatch.simps)
  qed
  then show ?thesis by (simp add: locked_out_def)
qed

definition locked_duo :: core where
  "locked_duo = duo\<lparr> srv := server0\<lparr> requirepass := Some ''secret'' \<rparr>, conns := [(client 1)\<lparr> authenticated := False \<rparr>, client 2] \<rparr>"

theorem unauthenticated_locked_out_witness:
  "\<exists>x. dispatch plain_env (Suc 1) 0 locked_duo [''FLUSHDB''] = locked_duo\<lparr> conns := (conns locked_duo)[0 := x] \<rparr> \<and> \<not> authenticated x"
  by (rule unauthenticated_locked_out [where p = "''secret''"]) (simp_all add: locked_duo_def)


section \<open>Transactions\<close>

lemma upd_conn_conn [simp]: "upd_conn i f (upd_conn i g c) = upd_conn i (\<lambda>x. f (g x)) c"
  by (cases "i < length (conns c)") (simp_all add: upd_conn_def not_less list_update_beyond)

definition queued_reply :: bytes where
  "queued_reply = ''+QUEUED'' @ CRLF"

lemma queue_phase:
  assumes "i < length (conns c)" and "alloc_ok c" and "in_multi x" and "length (multi_q x @ qs) \<le> AR_MULTI_MAX"
    and "list_all queued_ok qs" and "\<forall>q \<in> set qs. refused (srv c) x q = None"
  shows "\<exists>l. foldl (dispatch env (Suc n) i) (upd_conn i (\<lambda>_. x) c) qs =
    upd_conn i (\<lambda>_. x\<lparr> multi_q := multi_q x @ qs, wbuf := wbuf x @ concat (replicate (length qs) queued_reply), last_cmd := l \<rparr>) c"
  using assms
proof (induction qs arbitrary: x)
  case Nil
  then show ?case by (intro exI [of _ "last_cmd x"]) simp
next
  case (Cons q qs)
  let ?c = "upd_conn i (\<lambda>_. x) c"
  let ?x = "x\<lparr> last_cmd := map lower (take 47 (q ! 0)), multi_q := multi_q x @ [q], wbuf := wbuf x @ queued_reply \<rparr>"
  have "dispatch env (Suc n) i ?c q = queue_cmd i (upd_conn i (note_last_cmd (q ! 0)) ?c) q"
    using Cons.prems dispatch_plain [of q ?c i env n] by (simp add: queued_ok_def del: dispatch.simps)
  also have "\<dots> = upd_conn i (\<lambda>_. ?x) c"
    using Cons.prems by (simp add: queue_cmd_def queued_ok_def note_last_cmd_def reply_def put_out_def queued_reply_def)
  finally have 1: "dispatch env (Suc n) i ?c q = upd_conn i (\<lambda>_. ?x) c" .
  have r: "refused (srv c) ?x a = refused (srv c) x a" for a by (simp add: refused_def Let_def cong: if_cong)
  obtain l where "foldl (dispatch env (Suc n) i) (upd_conn i (\<lambda>_. ?x) c) qs =
    upd_conn i (\<lambda>_. ?x\<lparr> multi_q := multi_q ?x @ qs, wbuf := wbuf ?x @ concat (replicate (length qs) queued_reply), last_cmd := l \<rparr>) c"
    using Cons.IH [of ?x] Cons.prems r by (auto simp del: dispatch.simps)
  then show ?case using 1 by (intro exI [of _ l]) (simp del: dispatch.simps)
qed

lemma dispatch_multi:
  assumes "refused (srv c) (conns c ! i) [''MULTI''] = None" and "\<not> in_multi (conns c ! i)" and "i < length (conns c)"
  shows "dispatch env (Suc n) i c [''MULTI''] =
    upd_conn i (\<lambda>x. x\<lparr> last_cmd := ''multi'', in_multi := True, multi_q := [], wbuf := wbuf x @ reply_ok \<rparr>) c"
  using assms by (simp add: dispatch_with_def Let_def cmd_eq_iff cmd_multi_def reply_def)
    (simp add: upd_conn_def put_out_def note_last_cmd_def)

lemma dispatch_exec:
  assumes "refused (srv c) (conns c ! i) [''EXEC''] = None" and "in_multi (conns c ! i)" and "\<not> watch_dirty (conns c ! i)"
    and "i < length (conns c)"
  shows "dispatch env (Suc n) i c [''EXEC''] = end_multi i (foldl (dispatch env n i)
    (upd_conn i (\<lambda>x. x\<lparr> last_cmd := ''exec'', in_multi := False, wbuf := wbuf x @ array_of (length (multi_q x)) [] \<rparr>) c)
    (multi_q (conns c ! i)))"
  using assms by (simp add: dispatch_with_def Let_def cmd_eq_iff cmd_exec_def reply_def note_last_cmd_def array_of_def refused_srv_only)
    (simp add: upd_conn_def put_out_def note_last_cmd_def)

text \<open>C4. A transaction. Between MULTI and EXEC commands are only queued: nothing but the client's own output and queue changes. EXEC then
  runs all of them, in order and with nothing in between, and the client gets \<open>+OK\<close>, one \<open>+QUEUED\<close> per command and an array
  header before their replies.\<close>

theorem transaction_runs_queue:
  assumes "i < length (conns c)" and "alloc_ok c" and "\<not> in_multi (conns c ! i)" and "\<not> watch_dirty (conns c ! i)"
    and "list_all queued_ok qs" and "length qs \<le> AR_MULTI_MAX"
    and "\<forall>q \<in> set ([''MULTI''] # [''EXEC''] # qs). refused (srv c) (conns c ! i) q = None"
  shows "foldl (dispatch env (Suc n) i) c ([''MULTI''] # qs @ [[''EXEC'']]) = end_multi i (foldl (dispatch env n i)
    (upd_conn i (\<lambda>x. x\<lparr> multi_q := qs, last_cmd := ''exec'', in_multi := False,
       wbuf := wbuf x @ reply_ok @ concat (replicate (length qs) queued_reply) @ array_of (length qs) [] \<rparr>) c) qs)"
proof -
  let ?x = "(conns c ! i)\<lparr> last_cmd := ''multi'', in_multi := True, multi_q := [], wbuf := wbuf (conns c ! i) @ reply_ok \<rparr>"
  have r: "refused (srv c) ?x a = refused (srv c) (conns c ! i) a" for a by (simp add: refused_def Let_def cong: if_cong)
  have "dispatch env (Suc n) i c [''MULTI''] = upd_conn i (\<lambda>_. ?x) c"
    using assms dispatch_multi [of c i env n] by (simp add: upd_conn_def del: dispatch.simps)
  moreover obtain l where "foldl (dispatch env (Suc n) i) (upd_conn i (\<lambda>_. ?x) c) qs = upd_conn i (\<lambda>_. ?x\<lparr> multi_q := multi_q ?x @ qs,
      wbuf := wbuf ?x @ concat (replicate (length qs) queued_reply), last_cmd := l \<rparr>) c" (is "_ = upd_conn i (\<lambda>_. ?y l) c")
    using queue_phase [of i c ?x qs env n] assms r by (auto simp del: dispatch.simps)
  moreover have "refused (srv c) (?y l) a = refused (srv c) (conns c ! i) a" for a l by (simp add: refused_def Let_def cong: if_cong)
  ultimately show ?thesis
    using assms dispatch_exec [of "upd_conn i (\<lambda>_. ?y l) c" i env n]
    by (simp add: upd_conn_def del: dispatch.simps)
qed

theorem transaction_runs_queue_witness:
  "foldl (dispatch plain_env 2 0) duo [[''MULTI''], [''PING''], [''EXEC'']] = end_multi 0 (reply 0 reply_pong
    (upd_conn 0 (\<lambda>x. x\<lparr> multi_q := [[''PING'']], in_multi := False,
       wbuf := wbuf x @ reply_ok @ queued_reply @ array_of 1 [], last_cmd := ''ping'' \<rparr>) duo))"
proof -
  let ?d = "upd_conn 0 (\<lambda>x. x\<lparr> multi_q := [[''PING'']], last_cmd := ''exec'', in_multi := False,
     wbuf := wbuf x @ reply_ok @ queued_reply @ array_of 1 [] \<rparr>) duo"
  have q: "queued_ok [''PING'']" by (simp add: queued_ok_def transaction_names_def cmd_eq_iff AR_MULTI_ARGV_def)
  have n: "refused server0 x argv = None" if "\<not> pubsub_mode x" for x argv using that by (simp add: refused_def)
  have "dispatch plain_env (Suc 0) 0 ?d [''PING''] = reply 0 reply_pong (upd_conn 0 (note_last_cmd ''PING'') ?d)"
    using dispatch_plain [of "[''PING'']" ?d 0 plain_env 0] q n by (simp add: queued_ok_def run_ping Let_def del: dispatch.simps)
  moreover have "foldl (dispatch plain_env (Suc (Suc 0)) 0) duo ([''MULTI''] # [[''PING'']] @ [[''EXEC'']]) =
      end_multi 0 (foldl (dispatch plain_env (Suc 0) 0) ?d [[''PING'']])"
    by (subst transaction_runs_queue) (use q n in \<open>simp_all add: AR_MULTI_MAX_def del: dispatch.simps\<close>)
  ultimately show ?thesis by (simp add: numeral_2_eq_2 note_last_cmd_def del: dispatch.simps)
qed


section \<open>The slow log\<close>

text \<open>The ring read as the list of its entries, newest first.\<close>

definition slow_list :: "server \<Rightarrow> slow_entry list" where
  "slow_list s = map (slowlog_entry s) [0..<slowlog_len s]"

definition slow_ring :: "server \<Rightarrow> bool" where
  "slow_ring s \<longleftrightarrow> 0 < slowlog_max_len s \<and> slowlog_max_len s \<le> AR_SLOWLOG_MAX \<and> length (slowlog s) = AR_SLOWLOG_MAX \<and>
     slowlog_len s \<le> slowlog_max_len s \<and> slowlog_head s < slowlog_max_len s \<and>
     (slowlog_len s < slowlog_max_len s \<longrightarrow> slowlog_head s = slowlog_len s)"

definition slow_entry_of :: "server \<Rightarrow> nat \<Rightarrow> nat \<Rightarrow> bytes list \<Rightarrow> slow_entry" where
  "slow_entry_of s unix us argv = \<lparr> sl_id = slowlog_next_id s, sl_unix_ts = unix, sl_duration_us = us,
     sl_args = map (take 47) (take 8 argv) \<rparr>"

lemma ring_index:
  assumes "h < m" and "i < m"
  shows "nat ((int ((h + 1) mod m) - 1 - int (Suc i)) mod int m) = nat ((int h - 1 - int i) mod int m)"
proof -
  have "(int ((h + 1) mod m) - 1 - int (Suc i)) mod int m = (int (h + 1) mod int m - (1 + int (Suc i))) mod int m"
    by (simp add: zmod_int algebra_simps)
  also have "\<dots> = (int (h + 1) - (1 + int (Suc i))) mod int m" by (rule mod_diff_left_eq)
  finally show ?thesis by (simp add: algebra_simps)
qed

lemma ring_other:
  assumes "h < m" and "Suc i < m"
  shows "nat ((int h - 1 - int i) mod int m) \<noteq> h"
proof -
  let ?j = "(int h - 1 - int i) mod int m"
  have "?j \<noteq> int h"
  proof
    assume "?j = int h"
    then have "(int h - 1 - int i) mod int m = int h mod int m" using assms(1) by simp
    then have "int m dvd (int h - 1 - int i - int h)" by (simp only: mod_eq_dvd_iff)
    then have "int m dvd - (1 + int i)" by (simp add: algebra_simps)
    then have "int m dvd 1 + int i" by (simp only: dvd_minus_iff)
    then show False using assms(2) zdvd_imp_le [of "int m" "1 + int i"] by simp
  qed
  moreover have "0 \<le> ?j" using assms(1) by simp
  ultimately show ?thesis by (auto simp: nat_eq_iff)
qed

lemma map_shifted:
  assumes "f 0 = e" and "\<And>i. i < k \<Longrightarrow> f (Suc i) = g i"
  shows "map f [0..<Suc k] = e # map g [0..<k]"
proof -
  have "map f [0..<Suc k] = f 0 # map (\<lambda>i. f (Suc i)) [0..<k]"
    by (simp add: upt_conv_Cons map_Suc_upt [symmetric] comp_def del: upt_Suc map_Suc_upt)
  then show ?thesis using assms by simp
qed

text \<open>C24. The slow log is a bounded list: in a ring of \<open>n\<close> slots (the configured length), SLOWLOG GET finds the latest \<open>n\<close> slow
  commands, newest first, each cut to 8 arguments of 47 bytes.\<close>

theorem slow_log_keeps_latest:
  assumes "slow_ring s"
  shows "slow_ring (slowlog_push unix us argv s) \<and>
    slow_list (slowlog_push unix us argv s) = take (slowlog_max_len s) (slow_entry_of s unix us argv # slow_list s)"
proof -
  let ?s = "slowlog_push unix us argv s" and ?e = "slow_entry_of s unix us argv"
  let ?m = "slowlog_max_len s" and ?h = "slowlog_head s" and ?n = "slowlog_len s"
  have m: "0 < ?m" "?m \<le> AR_SLOWLOG_MAX" "?h < ?m" "?n \<le> ?m" and l: "length (slowlog s) = AR_SLOWLOG_MAX"
    using assms by (auto simp: slow_ring_def)
  have f: "slowlog ?s = (slowlog s)[?h := ?e]" "slowlog_head ?s = (?h + 1) mod ?m" "slowlog_max_len ?s = ?m"
      "slowlog_len ?s = (if ?n < ?m then ?n + 1 else ?n)"
    using m by (simp_all add: slowlog_push_def Let_def slow_entry_of_def AR_SLOWLOG_ARG_LEN_def AR_SLOWLOG_ARGV_def)
  have entry: "slowlog_entry r i = slowlog r ! nat ((int (slowlog_head r) - 1 - int i) mod int ?m)"
    if "slowlog_max_len r = ?m" for r i using that m by (simp add: slowlog_entry_def Let_def)
  have "slowlog_entry ?s 0 = ?e"
  proof -
    have "nat ((int ((?h + 1) mod ?m) - 1) mod int ?m) = ?h"
      using m(3) by (simp add: zmod_int mod_diff_left_eq)
    then show ?thesis using entry [OF f(3), of 0] m l by (simp add: f)
  qed
  moreover have "slowlog_entry ?s (Suc i) = slowlog_entry s i" if "Suc i < ?m" for i
  proof -
    let ?j = "(int ?h - 1 - int i) mod int ?m"
    have "nat ?j \<noteq> ?h" using m(3) that by (rule ring_other)
    then show ?thesis
      using entry [OF f(3), of "Suc i"] entry [OF refl, of i] ring_index [OF m(3), of i] that by (simp add: f)
  qed
  ultimately have "slow_list ?s = ?e # map (slowlog_entry s) [0..<slowlog_len ?s - 1]"
  proof -
    assume 0: "slowlog_entry ?s 0 = ?e" and S: "\<And>i. Suc i < ?m \<Longrightarrow> slowlog_entry ?s (Suc i) = slowlog_entry s i"
    obtain k where k: "slowlog_len ?s = Suc k" "k < ?m" using m by (cases "slowlog_len ?s") (auto simp: f split: if_splits)
    have "map (slowlog_entry ?s) [0..<Suc k] = ?e # map (slowlog_entry s) [0..<k]"
      using map_shifted [of "slowlog_entry ?s" ?e k "slowlog_entry s"] 0 S k(2) by simp
    then show ?thesis by (simp add: slow_list_def k(1))
  qed
  moreover have "slow_ring ?s" using assms m l by (auto simp: slow_ring_def f)
  ultimately show ?thesis using m by (auto simp: slow_list_def f take_map take_Cons')
qed

definition slow_server :: server where
  "slow_server = server0\<lparr> slowlog_max_len := 2 \<rparr>"

theorem slow_log_keeps_latest_witness:
  "slow_list (slowlog_push 1 20000 [''KEYS'', ''*''] slow_server) = [slow_entry_of slow_server 1 20000 [''KEYS'', ''*'']]"
  using slow_log_keeps_latest [of slow_server 1 20000 "[''KEYS'', ''*'']"]
  by (simp add: slow_ring_def slow_server_def server0_def AR_SLOWLOG_MAX_def slow_list_def)


section \<open>Read-only replicas\<close>

text \<open>Commands that do not reach the dictionary.\<close>

definition aside :: "core \<Rightarrow> core \<Rightarrow> bool" where
  "aside c c' \<longleftrightarrow> dict_of c' = dict_of c \<and> now_ms c' = now_ms c"

lemma aside_refl [simp]: "aside c c"
  by (simp add: aside_def)

lemma aside_steps [simp]:
  "aside c (reply i b c') = aside c c'" "aside c (upd_conn i f c') = aside c c'"
  "aside c (c'\<lparr> srv := s \<rparr>) = aside c c'" "aside c (c'\<lparr> conns := xs \<rparr>) = aside c c'"
  "aside c (conn_close i c') = aside c c'" "aside c (end_multi i c') = aside c c'" "aside c (repl_close_master_links c') = aside c c'"
  by (simp_all add: aside_def conn_close_def end_multi_def repl_close_master_links_def)

lemma aside_live: "aside c c' \<Longrightarrow> live c' = live c"
  using view_cong [of c' c] by (simp add: aside_def live_def fun_eq_iff)

lemma aside_alloc: "conn_alloc c = (c', r) \<Longrightarrow> aside d c' = aside d c"
  by (auto simp: conn_alloc_def Let_def split: option.splits if_splits)

lemma aside_connect: "repl_connect_master env c h p = (c', ok) \<Longrightarrow> aside c c'"
  by (auto simp: repl_connect_master_def Let_def aside_alloc split: if_splits prod.splits option.splits)

lemma aside_subscribe: "aside d (subscribe_loop i c chs) = aside d c"
  by (induction i c chs rule: subscribe_loop.induct) (auto split: prod.splits option.splits)

lemma aside_unsubscribe_loop: "aside d (unsubscribe_loop i c chs) = aside d c"
  by (induction i c chs rule: unsubscribe_loop.induct) (auto split: prod.splits)

lemma aside_unsubscribe_all: "aside d (unsubscribe_all n i c) = aside d c"
  by (induction n i c rule: unsubscribe_all.induct) (auto split: prod.splits list.splits)

lemma aside_replicaof: "aside c (cmd_replicaof env i c argv)"
  by (auto simp: cmd_replicaof_def Let_def dest: aside_connect split: prod.splits)

lemma aside_client: "aside c (cmd_client env i c argv)"
  by (auto simp: cmd_client_def client_kill_def split: option.splits)

lemma aside_commands:
  "aside c (cmd_auth i c argv)" "aside c (cmd_hello i c argv)" "aside c (cmd_ping i c argv)"
  "aside c (cmd_quit i c argv)" "aside c (cmd_shutdown i c argv)"
  "aside c (cmd_subscribe i c argv)" "aside c (cmd_unsubscribe i c argv)"
  "repl_readonly (srv c) \<Longrightarrow> aside c (cmd_sync lc i c argv)" "aside c (cmd_watch i c argv)" "aside c (cmd_unwatch i c argv)"
  "aside c (cmd_multi i c argv)" "aside c (cmd_discard i c argv)" "aside c (queue_cmd i c argv)"
  by (simp_all add: cmd_auth_def cmd_hello_def cmd_ping_def cmd_quit_def cmd_shutdown_def
      cmd_subscribe_def cmd_unsubscribe_def cmd_sync_def cmd_watch_def cmd_unwatch_def
      cmd_multi_def cmd_discard_def queue_cmd_def aside_subscribe aside_unsubscribe_loop aside_unsubscribe_all
      split: prod.splits)

lemma aside_slowlog: "aside c (cmd_slowlog i c argv)"
  by (simp add: cmd_slowlog_def split: option.splits)

lemma live_reply [simp]: "live (reply i b c) = live c"
  by (rule aside_live) simp

lemma live_counted [simp]: "live (upd_conn i f c) = live c"
  by (rule aside_live) simp

lemma live_caps:
  assumes "sound c"
  shows "live (ar_core_set_hot_soft_cap_pct c n) = live c" "live (ar_core_set_hot_soft_cap_min c n) = live c"
  using reads_by [OF assms soft_cap_pct_steps] reads_by [OF assms soft_cap_min_steps] by (simp_all add: reads_def)

lemma live_promote: "live (ar_core_set_hot_promote_on_get c b) = live c"
  by (rule live_same) (simp_all add: ar_core_set_hot_promote_on_get_def dict_of_def env_of_def)

lemma hotcold_live: "sound c \<Longrightarrow> live (cmd_hotcold i c argv) = live c"
  by (simp add: cmd_hotcold_def Let_def live_caps live_promote split: option.splits)

lemma live_shadow:
  "live (ar_core_shadow_reset c) = live c" "live (ar_core_shadow_note_diverge c) = live c" "live (ar_core_set_shadow_sample_pct c n) = live c"
  by (rule live_same; simp add: ar_core_shadow_reset_def ar_core_shadow_note_diverge_def ar_core_set_shadow_sample_pct_def
      dict_of_def env_of_def Let_def)+

lemma live_shadow_policy: "ar_core_set_shadow_policy c n = (c', ok) \<Longrightarrow> live c' = live c"
  by (rule aside_live) (auto simp: ar_core_set_shadow_policy_def split: if_splits)

lemma shadow_live: "live (cmd_shadow i c argv) = live c"
  by (auto simp: cmd_shadow_def live_shadow dest: live_shadow_policy split: option.splits prod.splits)

lemma is_write_iff: "cmd_is_write cmd \<longleftrightarrow> map lower cmd \<in> set write_names"
  by (simp add: cmd_is_write_def write_names_def cmd_eq_iff)

lemma unwritten_reader: "(n, h) \<in> set (data_commands l) \<Longrightarrow> n \<notin> set write_names \<Longrightarrow> reader h"
  unfolding data_commands_def by (elim set_ConsD [elim_format] disjE; simp add: write_names_def reader_axioms)

definition config_writes :: "bytes list \<Rightarrow> bool" where
  "config_writes argv \<longleftrightarrow> length argv \<ge> 2 \<and> (cmd_eq (argv ! 1) ''set'' \<or> cmd_eq (argv ! 1) ''rewrite'')"

lemma aside_config: "\<not> config_writes argv \<Longrightarrow> aside c (cmd_config env i c argv)"
  by (auto simp: cmd_config_def config_writes_def)

lemma aside_info: "aside c (cmd_info i c argv)"
  by (simp add: cmd_info_def)

lemma unwritten_conn:
  assumes s: "sound c" and ro: "repl_readonly (srv c)" and e: "(n, h) \<in> set (conn_commands env)"
    and w: "n \<notin> set write_names" "n = ''config'' \<Longrightarrow> \<not> config_writes argv"
  shows "live (h i c argv) = live c"
  using e w unfolding conn_commands_def
  by (elim set_ConsD [elim_format] disjE;
      simp add: write_names_def aside_live aside_commands aside_replicaof aside_client aside_slowlog aside_config aside_info hotcold_live [OF s] shadow_live ro)

lemma unwritten_run:
  assumes s: "sound c" and "map lower (argv ! 0) \<notin> set write_names" and "repl_readonly (srv c)"
    and "map lower (argv ! 0) = ''config'' \<Longrightarrow> \<not> config_writes argv"
  shows "live (run_command env i c argv) = live c"
proof (cases "find_handler (argv ! 0) (conn_commands env)")
  case (Some h)
  then have "(map lower (argv ! 0), h) \<in> set (conn_commands env)" unfolding conn_lookup by (rule map_of_SomeD)
  then have "live (h i c argv) = live c" using assms(2-4) by (intro unwritten_conn [OF s]) auto
  then show ?thesis using Some by (simp add: run_command_def)
next
  case no: None
  show ?thesis
  proof (cases "find_handler (argv ! 0) (data_commands (lib env))")
    case (Some h)
    then have "(map lower (argv ! 0), h) \<in> set (data_commands (lib env))" unfolding data_lookup by (rule map_of_SomeD)
    then have h: "reader h" using assms(2) by (rule unwritten_reader)
    obtain c1 r p where r: "h c argv = (c1, r, p)" using prod_cases3 by blast
    show ?thesis using reader.only_reads [OF h s r] Some no r by (simp add: run_command_def run_data_def)
  qed (use no in \<open>simp add: run_command_def\<close>)
qed


definition replica_duo :: core where
  "replica_duo = duo\<lparr> srv := server0\<lparr> repl_readonly := True \<rparr> \<rparr>"


end
