(* ===== verification/RunSpec.thy ===== *)
theory RunSpec
  imports Loop ServerSpec
begin

text \<open>The promises of the running process: its event loop, its shutdown and the TLS handshake.\<close>


section \<open>The event loop\<close>




definition eager :: sock where
  "eager = \<lparr> ssl = Done, input = [], final = WantRead, sent = Some 100 \<rparr>"

definition quitting :: core where
  "quitting = duo\<lparr> conns := [(client 1)\<lparr> wbuf := reply_pong \<rparr>, client 2], srv := server0\<lparr> quit := True, listen_open := True \<rparr> \<rparr>"


text \<open>On a TLS connection nothing is read, run or sent before the handshake is done: an event leaves the whole server as it
  was, or closes that connection when the handshake fails.\<close>

lemma handshake_comes_first:
  assumes "i < length (conns c)" and "is_tls (conns c ! i)" and "\<not> ssl_hs_done (conns c ! i)" and "ssl so \<noteq> Done"
  shows "handle_read env so i c \<in> {(c, []), (conn_close i c, [])} \<and> flush_writes so i c \<in> {(c, []), (conn_close i c, [])}"
proof -
  have "upd_conn i (\<lambda>_. conns c ! i) c = c" by (simp add: upd_conn_def)
  then show ?thesis
    using assms by (cases "ssl so") (simp_all add: handle_read_def flush_writes_def after_handshake_def ar_tls_handshake_def)
qed

end
