(* ===== verification/ConfigSpec.thy ===== *)
theory ConfigSpec
  imports Config
begin

text \<open>
  The configuration file read back: a line carries a plain text unharmed, and the file that is written sets every knob to
  the value it had.
\<close>


section \<open>Configuration\<close>

text \<open>Texts that a line of the file carries unharmed.\<close>

definition plain_text :: "nat \<Rightarrow> bytes \<Rightarrow> bool" where
  "plain_text n v \<longleftrightarrow> length v < n \<and> CHR 0x00 \<notin> set v \<and> CHR 0x0A \<notin> set v \<and>
     (v \<noteq> [] \<longrightarrow> \<not> is_space (hd v) \<and> last v \<noteq> CHR 0x0D)"

definition conf_name :: "bytes \<Rightarrow> bool" where
  "conf_name k \<longleftrightarrow> k \<noteq> [] \<and> length k < 64 \<and> hd k \<noteq> CHR ''#'' \<and> list_all (\<lambda>ch. \<not> is_space ch \<and> ch \<noteq> CHR 0x00) k"

lemma fgets_line:
  assumes "CHR 0x0A \<notin> set l" and "length l < n"
  shows "fgets n (l @ CHR 0x0A # r) = (l @ [CHR 0x0A], r)"
  using assms by (induction l arbitrary: n) (auto split: prod.splits, (case_tac n; simp)+)

lemma file_lines_cons:
  assumes "CHR 0x0A \<notin> set l" and "length l < LINE_MAX"
  shows "file_lines (l @ CHR 0x0A # r) = (l @ [CHR 0x0A]) # file_lines r"
  using fgets_line [OF assms] by (subst file_lines.simps) simp

lemma file_lines_concat:
  assumes "list_all (\<lambda>l. CHR 0x0A \<notin> set l \<and> length l < LINE_MAX) ls"
  shows "file_lines (concat (map (\<lambda>l. l @ [CHR 0x0A]) ls)) = map (\<lambda>l. l @ [CHR 0x0A]) ls"
  using assms by (induction ls) (simp_all add: file_lines_cons file_lines.simps [of "[]"])

lemma space_chars [simp]: "is_space CHR '' ''" "is_space CHR 0x0A"
  by (simp_all add: is_space_def)

lemma strip_line:
  assumes "CHR 0x00 \<notin> set l" and "l \<noteq> [] \<Longrightarrow> last l \<noteq> CHR 0x0A \<and> last l \<noteq> CHR 0x0D"
  shows "strip_eol (l @ [CHR 0x0A]) = l"
proof -
  have "cstr (l @ [CHR 0x0A]) = l @ [CHR 0x0A]" using assms(1) by (auto simp: cstr_def takeWhile_eq_all_conv)
  then show ?thesis using assms(2) by (cases l rule: rev_cases) (auto simp: strip_eol_def)
qed

lemma takeWhile_name: "list_all P k \<Longrightarrow> \<not> P ch \<Longrightarrow> takeWhile P (k @ ch # r) = k" "list_all P k \<Longrightarrow> \<not> P ch \<Longrightarrow> dropWhile P (k @ ch # r) = ch # r"
  by (induction k) auto

lemma conf_line_pair:
  assumes k: "conf_name k" and v: "plain_text n v"
  shows "conf_line (k @ '' '' @ v @ [CHR 0x0A]) = Some (k, v)"
proof -
  let ?l = "k @ '' '' @ v"
  have n: "list_all (\<lambda>ch. \<not> is_space ch) k" "CHR 0x00 \<notin> set k" "k \<noteq> []" "hd k \<noteq> CHR ''#''"
    using k by (auto simp: conf_name_def list_all_iff)
  have s: "strip_eol (?l @ [CHR 0x0A]) = ?l"
    by (rule strip_line) (use n v in \<open>auto simp: plain_text_def last_append dest: last_in_set\<close>)
  have d: "dropWhile is_space ?l = ?l" using n(1,3) by (cases k) auto
  have t: "dropWhile is_space v = v" using v by (cases v) (auto simp: plain_text_def)
  have w: "takeWhile (\<lambda>ch. \<not> is_space ch) ?l = k" "dropWhile (\<lambda>ch. \<not> is_space ch) ?l = CHR '' '' # v"
    using takeWhile_name [OF n(1), of "CHR '' ''" v] by simp_all
  have "?l \<noteq> []" "hd ?l = hd k" using n(3) by simp_all
  then show ?thesis using s d w t n(4) by (simp add: conf_line_def Let_def)
qed


fun apply_pairs :: "core \<Rightarrow> (bytes \<times> bytes) list \<Rightarrow> core \<times> bool" where
  "apply_pairs c [] = (c, True)"
| "apply_pairs c ((k, v) # ps) = (case apply_kv c k v of (c, ok) \<Rightarrow> if ok then apply_pairs c ps else (c, False))"

lemma apply_lines_pairs:
  assumes "list_all (\<lambda>(k, v). conf_name k \<and> plain_text 400 v) ps"
  shows "apply_lines c (map (\<lambda>l. l @ [CHR 0x0A]) (map (\<lambda>(k, v). k @ '' '' @ v) ps)) = apply_pairs c ps"
  using assms
proof (induction ps arbitrary: c)
  case (Cons p ps)
  obtain k v where p: "p = (k, v)" by (cases p)
  have "conf_line (k @ '' '' @ v @ [CHR 0x0A]) = Some (k, v)" using Cons.prems p conf_line_pair [of k 400 v] by simp
  then show ?case using Cons p by (auto split: prod.splits)
qed simp

lemma comments_skipped: "apply_lines c (map (\<lambda>l. l @ [CHR 0x0A]) config_comments @ ls) = apply_lines c ls"
proof -
  have "map (\<lambda>l. conf_line (l @ [CHR 0x0A])) config_comments = [None, None]" by code_simp
  then show ?thesis by (simp add: config_comments_def)
qed

lemma comments_fit: "list_all (\<lambda>l. CHR 0x0A \<notin> set l \<and> length l < LINE_MAX) config_comments"
  by code_simp

lemma pair_fits:
  assumes "conf_name k" and "plain_text 400 v"
  shows "CHR 0x0A \<notin> set (k @ '' '' @ v) \<and> length (k @ '' '' @ v) < LINE_MAX"
proof -
  have "CHR 0x0A \<notin> set k" using assms(1) space_chars(2) unfolding conf_name_def list_all_iff by blast
  then show ?thesis using assms by (simp add: conf_name_def plain_text_def LINE_MAX_def)
qed

lemma image_applied:
  assumes "list_all (\<lambda>(k, v). conf_name k \<and> plain_text 400 v) (config_pairs c)"
  shows "apply_lines c0 (file_lines (config_image c)) = apply_pairs c0 (config_pairs c)"
proof -
  let ?ls = "map (\<lambda>(k, v). k @ '' '' @ v) (config_pairs c)"
  have "list_all (\<lambda>l. CHR 0x0A \<notin> set l \<and> length l < LINE_MAX) ?ls"
    unfolding list_all_iff set_map using assms pair_fits by (force simp only: list_all_iff split: prod.splits)
  then have "file_lines (config_image c) = map (\<lambda>l. l @ [CHR 0x0A]) (config_comments @ ?ls)"
    unfolding config_image_def using comments_fit by (intro file_lines_concat) simp
  then show ?thesis using comments_skipped apply_lines_pairs [OF assms, of c0] by (simp only: map_append)
qed


section \<open>Every knob is read back\<close>

lemma conf_lookup: "apply_kv c k v = (case map_of conf_table (map lower k) of None \<Rightarrow> (c, True) | Some f \<Rightarrow> f c v)"
proof -
  have "find (\<lambda>(n, f). conf_key_eq k n) tbl = (case map_of tbl (map lower k) of None \<Rightarrow> None | Some f \<Rightarrow> Some (map lower k, f))"
    if "list_all (\<lambda>(n, f). map lower n = n) tbl" for tbl :: "(bytes \<times> (core \<Rightarrow> bytes \<Rightarrow> core \<times> bool)) list"
    using that by (induction tbl) (auto simp: conf_key_eq_iff)
  moreover have "list_all (\<lambda>(n, f). map lower n = n) conf_table" by (simp add: conf_table_def)
  ultimately show ?thesis unfolding apply_kv_def by (auto split: option.splits)
qed

lemma atoi_show_int:
  assumes "- (2 ^ 31) \<le> n" and "n < 2 ^ 31"
  shows "atoi (show_int n) = n"
  using assms strtoll_show_int [of n] by (simp add: atoi_def atoll_def s32_def LLONG_MIN_def LLONG_MAX_def)

lemma strtoull_show_nat:
  assumes "n \<le> UINT64_MAX"
  shows "fst (strtoull (show_nat n)) = n"
proof -
  have h: "is_digit (hd (show_nat n))" by (rule hd_show_nat)
  have d: "dropWhile is_space (show_nat n) = show_nat n"
    using is_digit_not_space [OF h] by (cases "show_nat n") auto
  show ?thesis using d h is_digit_not_sign [OF h] read_digits_show_nat [of n] assms by (simp add: strtoull_def Let_def)
qed

lemma upd_srv_fields [simp]:
  "srv (upd_srv f c) = f (srv c)" "maxmemory (upd_srv f c) = maxmemory c" "evict_samples (upd_srv f c) = evict_samples c"
  "hot_soft_cap_pct (upd_srv f c) = hot_soft_cap_pct c" "hot_soft_cap_min (upd_srv f c) = hot_soft_cap_min c"
  "hot_promote_on_get (upd_srv f c) = hot_promote_on_get c" "shadow_sample_pct (upd_srv f c) = shadow_sample_pct c"
  "layout (upd_srv f c) = layout c" "evict (upd_srv f c) = evict c" "alloc_ok (upd_srv f c) = alloc_ok c"
  by (simp_all add: upd_srv_def)

text \<open>On a flat store without an eviction kernel a setting moves and evicts nothing.\<close>

definition idle_store :: "core \<Rightarrow> bool" where
  "idle_store c \<longleftrightarrow> evict c = EvNoop \<and> layout c = Flat \<and> alloc_ok c"

lemma idle_settings:
  assumes "idle_store c"
  shows "ar_core_set_maxmemory c n = c\<lparr> maxmemory := n \<rparr>"
    "ar_core_set_hot_soft_cap_pct c p = c\<lparr> hot_soft_cap_pct := (if p < 1 then 1 else if p > 100 then 100 else p) \<rparr>"
    "ar_core_set_hot_soft_cap_min c m = c\<lparr> hot_soft_cap_min := (if m < 0 then 0 else if m > 1000000 then 1000000 else m) \<rparr>"
proof -
  have "evict_rounds should_evict evict_one k d = d" if "evict d = EvNoop" for k d
    using that by (cases k) (simp_all add: should_evict_def)
  then show "ar_core_set_maxmemory c n = c\<lparr> maxmemory := n \<rparr>"
    using assms by (simp add: ar_core_set_maxmemory_def maybe_evict_def idle_store_def)
qed (use assms in \<open>auto simp: ar_core_set_hot_soft_cap_pct_def ar_core_set_hot_soft_cap_min_def maybe_demote_hot_def idle_store_def Let_def\<close>)

definition knobs_ok :: "core \<Rightarrow> bool" where
  "knobs_ok c \<longleftrightarrow> (let s = srv c in maxmemory c \<le> UINT64_MAX \<and> plain_text 400 (pass_text s) \<and>
     1 \<le> ar_core_evict_samples c \<and> ar_core_evict_samples c \<le> 256 \<and> 1 \<le> maxclients s \<and> maxclients s \<le> int AR_MAX_CONN \<and>
     0 \<le> timeout_sec s \<and> timeout_sec s < 2 ^ 31 \<and> 1 \<le> tcp_backlog s \<and> tcp_backlog s < 2 ^ 31 \<and>
     0 \<le> slowlog_slower_than_us s \<and> slowlog_slower_than_us s < 2 ^ 31 \<and> slowlog_max_len s \<le> AR_SLOWLOG_MAX \<and>
     plain_text 256 (rdb_dir (persist s)) \<and> plain_text 128 (rdb_filename (persist s)) \<and>
     CHR ''/'' \<notin> set (rdb_filename (persist s)) \<and> CHR 0x5C \<notin> set (rdb_filename (persist s)) \<and>
     plain_text 64 (bind_addr s) \<and> plain_text 32 (shadow_policy s) \<and>
     0 \<le> shadow_sample_pct c \<and> shadow_sample_pct c \<le> 100 \<and> 1 \<le> ar_core_hot_soft_cap_pct c \<and> ar_core_hot_soft_cap_pct c \<le> 100 \<and>
     0 \<le> hot_soft_cap_min c \<and> hot_soft_cap_min c \<le> 1000000)"

definition same_knobs :: "core \<Rightarrow> core \<Rightarrow> bool" where
  "same_knobs c d \<longleftrightarrow> (let s = srv c; r = srv d in maxmemory c = maxmemory d \<and> pass_text s = pass_text r \<and>
     protected_mode s = protected_mode r \<and> ar_core_evict_samples c = ar_core_evict_samples d \<and> maxclients s = maxclients r \<and>
     timeout_sec s = timeout_sec r \<and> tcp_backlog s = tcp_backlog r \<and> slowlog_slower_than_us s = slowlog_slower_than_us r \<and>
     slowlog_max_len s = slowlog_max_len r \<and> ar_core_rdb_dir (persist s) = ar_core_rdb_dir (persist r) \<and>
     ar_core_rdb_filename (persist s) = ar_core_rdb_filename (persist r) \<and> bind_name s = bind_name r \<and>
     shadow_policy s = shadow_policy r \<and> shadow_sample_pct c = shadow_sample_pct d \<and>
     ar_core_hot_soft_cap_pct c = ar_core_hot_soft_cap_pct d \<and> hot_soft_cap_min c = hot_soft_cap_min d \<and>
     hot_promote_on_get c = hot_promote_on_get d)"

lemma plain_digits: "length (show_nat n) < k \<Longrightarrow> plain_text k (show_nat n)"
proof -
  have h: "is_digit ch" if "ch \<in> set (show_nat n)" for ch using show_nat_digits [of n] that by blast
  have "\<not> is_digit CHR 0x00" "\<not> is_digit CHR 0x0A" "\<not> is_digit CHR 0x0D" by (simp_all add: is_digit_def)
  then have "CHR 0x00 \<notin> set (show_nat n)" "CHR 0x0A \<notin> set (show_nat n)" "last (show_nat n) \<noteq> CHR 0x0D"
    using h last_in_set [OF show_nat_not_Nil] by metis+
  moreover have "\<not> is_space (hd (show_nat n))" by (rule is_digit_not_space [OF hd_show_nat])
  ultimately show "length (show_nat n) < k \<Longrightarrow> plain_text k (show_nat n)" by (simp add: plain_text_def)
qed

lemma plain_nat: "n \<le> UINT64_MAX \<Longrightarrow> plain_text 400 (show_nat n)"
  using length_show_nat [of n 20] by (intro plain_digits) (simp add: UINT64_MAX_def)

lemma plain_int: "0 \<le> n \<Longrightarrow> n < 2 ^ 31 \<Longrightarrow> plain_text 400 (show_int n)"
  using plain_nat [of "nat n"] by (simp add: show_int_def UINT64_MAX_def)

lemma plain_mono: "plain_text m v \<Longrightarrow> m \<le> n \<Longrightarrow> plain_text n v"
  by (auto simp: plain_text_def)

lemma plain_words [simp]: "plain_text 400 (yes_no b)" "plain_text 400 ''.''" "plain_text 400 ''dump.aura-rdb''" "plain_text 400 ''127.0.0.1''"
  by (simp_all add: plain_text_def yes_no_def is_space_def)

lemma names_fit [simp]: "list_all conf_name (map fst (config_pairs c))"
proof -
  have "list_all conf_name [''maxmemory'', ''requirepass'', ''protected-mode'', ''evict-samples'', ''maxclients'', ''timeout'',
    ''tcp-backlog'', ''slowlog-log-slower-than'', ''slowlog-max-len'', ''dir'', ''dbfilename'', ''bind'', ''shadow-policy'',
    ''shadow-sample-pct'', ''hot-soft-cap-pct'', ''hot-soft-cap-min'', ''hot-promote-on-get'']" by code_simp
  then show ?thesis by (simp only: config_pairs_def list.map fst_conv)
qed

lemma values_fit:
  assumes "knobs_ok c"
  shows "list_all (\<lambda>(k, v). conf_name k \<and> plain_text 400 v) (config_pairs c)"
proof -
  have "list_all (plain_text 400) (map snd (config_pairs c))"
    using assms plain_mono [of 256 _ 400] plain_mono [of 128 _ 400] plain_mono [of 64 _ 400] plain_mono [of 32 _ 400]
    by (simp add: knobs_ok_def config_pairs_def Let_def plain_nat plain_int ar_core_rdb_dir_def ar_core_rdb_filename_def bind_name_def
        AR_SLOWLOG_MAX_def UINT64_MAX_def AR_MAX_CONN_def)
  then show ?thesis using names_fit [of c] by (auto simp: list_all_iff)
qed

lemma atoi_show_nat: "n < 2 ^ 31 \<Longrightarrow> atoi (show_nat n) = int n"
  using atoi_show_int [of "int n"] by simp

lemma conf_on_yes_no [simp]: "conf_on (yes_no b) = b"
  by (simp add: conf_on_def yes_no_def)

lemma idle_updates [simp]:
  "idle_store (upd_srv f c) = idle_store c" "idle_store (c\<lparr> maxmemory := n \<rparr>) = idle_store c"
  "idle_store (c\<lparr> evict_samples := k \<rparr>) = idle_store c" "idle_store (c\<lparr> shadow_sample_pct := k \<rparr>) = idle_store c"
  "idle_store (c\<lparr> hot_soft_cap_pct := k \<rparr>) = idle_store c" "idle_store (c\<lparr> hot_soft_cap_min := k \<rparr>) = idle_store c"
  by (simp_all add: idle_store_def)

lemma applied_numbers:
  "idle_store c \<Longrightarrow> n \<le> UINT64_MAX \<Longrightarrow> apply_kv c ''maxmemory'' (show_nat n) = (c\<lparr> maxmemory := n \<rparr>, True)"
  "1 \<le> k \<Longrightarrow> k \<le> 256 \<Longrightarrow> apply_kv c ''evict-samples'' (show_int k) = (c\<lparr> evict_samples := k \<rparr>, True)"
  "1 \<le> k \<Longrightarrow> k \<le> int AR_MAX_CONN \<Longrightarrow> apply_kv c ''maxclients'' (show_int k) = (upd_srv (\<lambda>s. s\<lparr> maxclients := k \<rparr>) c, True)"
  "0 \<le> k \<Longrightarrow> k < 2 ^ 31 \<Longrightarrow> apply_kv c ''timeout'' (show_int k) = (upd_srv (\<lambda>s. s\<lparr> timeout_sec := k \<rparr>) c, True)"
  "1 \<le> k \<Longrightarrow> k < 2 ^ 31 \<Longrightarrow> apply_kv c ''tcp-backlog'' (show_int k) = (upd_srv (\<lambda>s. s\<lparr> tcp_backlog := k \<rparr>) c, True)"
  "0 \<le> k \<Longrightarrow> k < 2 ^ 31 \<Longrightarrow> apply_kv c ''slowlog-log-slower-than'' (show_int k) = (upd_srv (\<lambda>s. s\<lparr> slowlog_slower_than_us := k \<rparr>) c, True)"
  "n \<le> AR_SLOWLOG_MAX \<Longrightarrow> apply_kv c ''slowlog-max-len'' (show_nat n) = (upd_srv (\<lambda>s. s\<lparr> slowlog_max_len := n \<rparr>) c, True)"
  "0 \<le> k \<Longrightarrow> k \<le> 100 \<Longrightarrow> apply_kv c ''shadow-sample-pct'' (show_int k) = (c\<lparr> shadow_sample_pct := k \<rparr>, True)"
  "idle_store c \<Longrightarrow> 1 \<le> k \<Longrightarrow> k \<le> 100 \<Longrightarrow> apply_kv c ''hot-soft-cap-pct'' (show_int k) = (c\<lparr> hot_soft_cap_pct := k \<rparr>, True)"
  "idle_store c \<Longrightarrow> 0 \<le> k \<Longrightarrow> k \<le> 1000000 \<Longrightarrow> apply_kv c ''hot-soft-cap-min'' (show_int k) = (c\<lparr> hot_soft_cap_min := k \<rparr>, True)"
  unfolding conf_lookup by (simp_all add: conf_table_def idle_settings strtoull_show_nat atoi_show_int atoi_show_nat
      ar_core_set_evict_samples_def ar_core_set_maxclients_def ar_core_set_timeout_def ar_core_set_tcp_backlog_def
      ar_core_set_slowlog_slower_than_def ar_core_set_shadow_sample_pct_def clamp_slowlog_def AR_SLOWLOG_MAX_def AR_MAX_CONN_def)

lemma applied_texts:
  "alloc_ok c \<Longrightarrow> apply_kv c ''requirepass'' v = (upd_srv (\<lambda>s. s\<lparr> requirepass := (if v = [] then None else Some v) \<rparr>) c, True)"
  "apply_kv c ''protected-mode'' (yes_no b) = (upd_srv (\<lambda>s. s\<lparr> protected_mode := b \<rparr>) c, True)"
  "apply_kv c ''hot-promote-on-get'' (yes_no b) = (c\<lparr> hot_promote_on_get := b \<rparr>, True)"
  "v \<noteq> [] \<Longrightarrow> length v < 256 \<Longrightarrow> apply_kv c ''dir'' v = (upd_srv (\<lambda>s. s\<lparr> persist := (persist (srv c))\<lparr> rdb_dir := v \<rparr> \<rparr>) c, True)"
  "v \<noteq> [] \<Longrightarrow> length v < 128 \<Longrightarrow> CHR ''/'' \<notin> set v \<Longrightarrow> CHR 0x5C \<notin> set v \<Longrightarrow>
     apply_kv c ''dbfilename'' v = (upd_srv (\<lambda>s. s\<lparr> persist := (persist (srv c))\<lparr> rdb_filename := v \<rparr> \<rparr>) c, True)"
  "v \<noteq> [] \<Longrightarrow> length v < 64 \<Longrightarrow> apply_kv c ''bind'' v = (upd_srv (\<lambda>s. s\<lparr> bind_addr := v \<rparr>) c, True)"
  "length v < 32 \<Longrightarrow> apply_kv c ''shadow-policy'' v = (upd_srv (\<lambda>s. s\<lparr> shadow_policy := v \<rparr>) c, True)"
  unfolding conf_lookup by (simp_all add: conf_table_def ar_core_set_requirepass_def ar_core_set_protected_mode_def set_persist_def
      ar_core_set_hot_promote_on_get_def ar_core_set_rdb_dir_def ar_core_set_rdb_filename_def ar_core_set_bind_def
      ar_core_set_shadow_policy_def upd_srv_def Let_def)

lemma pairs_applied:
  assumes k: "knobs_ok c" and i: "idle_store c0"
  shows "\<exists>c'. apply_pairs c0 (config_pairs c) = (c', True) \<and> same_knobs c' c"
proof -
  note ok = k [unfolded knobs_ok_def Let_def]
  have a: "alloc_ok (upd_srv f c1) = alloc_ok c1" "idle_store c1 \<Longrightarrow> alloc_ok c1" for f c1 by (simp_all add: idle_store_def)
  have d: "ar_core_rdb_dir (persist (srv c)) \<noteq> []" "length (ar_core_rdb_dir (persist (srv c))) < 256"
    using ok by (auto simp: ar_core_rdb_dir_def plain_text_def)
  have f: "ar_core_rdb_filename (persist (srv c)) \<noteq> []" "length (ar_core_rdb_filename (persist (srv c))) < 128"
    "CHR ''/'' \<notin> set (ar_core_rdb_filename (persist (srv c)))" "CHR 0x5C \<notin> set (ar_core_rdb_filename (persist (srv c)))"
    using ok by (auto simp: ar_core_rdb_filename_def plain_text_def)
  have b: "bind_name (srv c) \<noteq> []" "length (bind_name (srv c)) < 64" using ok by (auto simp: bind_name_def plain_text_def)
  have s: "length (shadow_policy (srv c)) < 32" using ok by (simp add: plain_text_def)
  show ?thesis
    using ok i d f b s
    by (simp add: config_pairs_def applied_numbers applied_texts a same_knobs_def Let_def pass_text_def bind_name_def
        ar_core_evict_samples_def ar_core_hot_soft_cap_pct_def ar_core_rdb_dir_def ar_core_rdb_filename_def split: option.split)
qed


section \<open>Properties\<close>


definition plain_host :: host where
  "plain_host = \<lparr> files = Map.empty, open_ok = True, write_ok = True, rename_ok = True, host_pid = 7, unix_now = 5 \<rparr>"

definition configured :: core where
  "configured = upd_srv (\<lambda>s. s\<lparr> config_path := ''c'', requirepass := Some ''pw'', maxclients := 9 \<rparr>) (core_with 1 1000 (\<lambda>_. 0))"

lemma configured_ok: "knobs_ok configured" "idle_store configured" "config_path (srv configured) = ''c''" "maxclients (srv configured) = 9"
  by (simp_all add: knobs_ok_def idle_store_def configured_def core_with_def server0_def rdb0_def plain_text_def pass_text_def
      ar_core_evict_samples_def ar_core_hot_soft_cap_pct_def UINT64_MAX_def AR_MAX_CONN_def AR_SLOWLOG_MAX_def is_space_def)


end
