(* ===== verification/InfoSpec.thy ===== *)
theory InfoSpec
  imports Events
begin

text \<open>
  The INFO report fits its buffer. The report is formatted with \<open>snprintf\<close> into \<open>INFO_MAX\<close> bytes and sent with the length that
  \<open>snprintf\<close> returns, so a longer report would read past the end. The sizes of the texts are invariants of the
  server (\<open>texts_ok\<close>); the numbers are bounded by their C types, stated as \<open>machine_ranges\<close>.
\<close>

text \<open>The values printed with \<open>%llu\<close> and those printed with \<open>%d\<close>.\<close>

definition counters :: "core \<Rightarrow> nat list" where
  "counters c =
     (let s = srv c
      in [used_memory c, maxmemory c, ops c, cmd_lt_1ms s, cmd_lt_10ms s, cmd_lt_100ms s, cmd_ge_100ms s, avg_us s, slowlog_count s,
          gets c, sets c, hits c, misses c, evicted c, expired c, nkeys c, keys_with_ttl c, ar_core_avg_ttl_ms c,
          rdb_last_save_time (persist s), pinned_keys c, plugin_reloads c, layout_gen c, ar_core_hot_keys c, ar_core_cold_keys c,
          type_nkeys c TString, type_nkeys c THash, type_nkeys c TList, type_nkeys c TZset,
          type_bytes c TString, type_bytes c THash, type_bytes c TList, type_bytes c TZset, bigkey_bytes c,
          hot_soft_cap c, shadow_samples c, shadow_hits c, shadow_misses c, shadow_diverges c, unique_sets c,
          connected_slaves c, connected_clients c])"

definition small_ints :: "core \<Rightarrow> int list" where
  "small_ints c =
     (let s = srv c
      in [tcp_port s, tls_port s, master_port s, maxclients s, timeout_sec s, tcp_backlog s, slowlog_slower_than_us s,
          ar_core_evict_samples c, ar_core_hot_soft_cap_pct c, hot_soft_cap_min c, shadow_sample_pct c])"

definition machine_ranges :: "core \<Rightarrow> bool" where
  "machine_ranges c \<longleftrightarrow> list_all (\<lambda>n. n < 2 ^ 64) (counters c) \<and> list_all (\<lambda>n. - (2 ^ 31) \<le> n \<and> n < 2 ^ 31) (small_ints c)"

lemma number_widths:
  "n < 2 ^ 64 \<Longrightarrow> length (show_nat n) \<le> 20" "- (2 ^ 31) \<le> k \<Longrightarrow> k < 2 ^ 31 \<Longrightarrow> length (show_int k) \<le> 11"
proof -
  show "n < 2 ^ 64 \<Longrightarrow> length (show_nat n) \<le> 20" by (rule length_show_nat) simp_all
  show "- (2 ^ 31) \<le> k \<Longrightarrow> k < 2 ^ 31 \<Longrightarrow> length (show_int k) \<le> 11"
    using length_show_nat [of "nat k" 11] length_show_nat [of "nat (- k)" 10] by (auto simp: show_int_def)
qed

lemma widths:
  assumes "machine_ranges c"
  shows "list_all (\<lambda>n. length (show_nat n) \<le> 20) (counters c)" "list_all (\<lambda>n. length (show_int n) \<le> 11) (small_ints c)"
  using assms number_widths unfolding machine_ranges_def list_all_iff by blast+

lemma word_widths:
  "length (yes_no b) \<le> 3" "length (flag b) = 1" "length (ar_core_evict_name c) \<le> 9" "length (ar_core_layout_name c) \<le> 8"
  "length (ar_type_name t) \<le> 6"
  by (auto simp: yes_no_def flag_def ar_core_evict_name_def ar_core_layout_name_def ar_type_name_def split: evict_ops.split layout.split artype.split)

lemma hints_width: "length used < cap \<Longrightarrow> length (policy_hints cap used ps) < cap"
  by (induction cap used ps rule: policy_hints.induct) (auto simp: Let_def min_def)

definition width :: "bytes list \<Rightarrow> nat" where
  "width ls = sum_list (map (\<lambda>l. length l + 1) ls)"

lemma width_simps [simp]: "width [] = 0" "width (l # ls) = length l + 1 + width ls"
  by (simp_all add: width_def)

lemma width_append: "width (a @ b) = width a + width b"
  by (simp add: width_def)

lemma length_lines: "length (concat (map (\<lambda>l. l @ [CHR 0x0A]) ls)) = width ls"
  by (induction ls) simp_all

lemma server_width:
  assumes "machine_ranges c" and "texts_ok (srv c)"
  shows "width (info_server c) \<le> 700"
proof -
  have b: "length (bind_name (srv c)) < 64" using assms(2) by (simp add: bind_name_def texts_ok_def)
  show ?thesis
    using widths [OF assms(1)] b assms(2) word_widths(1) [of "tls_listen_open (srv c)"] word_widths(1) [of "protected_mode (srv c)"]
      word_widths(1) [of "has_pass (srv c)"]
    by (simp add: info_server_def Let_def counters_def small_ints_def texts_ok_def)
qed

lemma stats_width: "machine_ranges c \<Longrightarrow> width (info_stats c) \<le> 700"
  using widths [of c] by (simp add: info_stats_def Let_def counters_def small_ints_def)

lemma persistence_width:
  assumes "machine_ranges c" and "texts_ok (srv c)"
  shows "width (info_persistence c) \<le> 800"
proof -
  have "length (ar_core_rdb_dir (persist (srv c))) < 256" "length (ar_core_rdb_filename (persist (srv c))) < 128"
    using assms(2) by (simp_all add: ar_core_rdb_dir_def ar_core_rdb_filename_def texts_ok_def)
  then show ?thesis using widths [OF assms(1)] by (simp add: info_persistence_def Let_def counters_def small_ints_def word_widths(2))
qed

lemma aura_width: "machine_ranges c \<Longrightarrow> width (info_aura c) \<le> 1100"
  using widths [of c] hints_width [of "[]" 160 "policy (srv c)"] word_widths(3,4) [of c] word_widths(5) [of "bigkey_type c"]
  by (simp add: info_aura_def Let_def counters_def small_ints_def word_widths(2))

lemma policy_width: "machine_ranges c \<Longrightarrow> texts_ok (srv c) \<Longrightarrow> width (info_policy c) \<le> 1000"
  using widths [of c] word_widths(1) [of "hot_promote_on_get c"]
  by (simp add: info_policy_def Let_def counters_def small_ints_def texts_ok_def)

lemma info_width: "machine_ranges c \<Longrightarrow> texts_ok (srv c) \<Longrightarrow> length (info_text c) < INFO_MAX"
  using server_width [of c] stats_width [of c] persistence_width [of c] aura_width [of c] policy_width [of c]
  by (simp add: info_text_def length_lines width_append INFO_MAX_def del: map_append concat_append)



end
