(* ===== verification/Boot.thy ===== *)
theory Boot
  imports Loop
begin

text \<open>
  The process of \<open>ar_main.c\<close>: the command line, the environment variables that stand in for what it leaves out, the
  stages of the start in their order with the error each may end with, and the exit code. A string that C keeps as a pointer
  is an option. The second half shows what the loader does with any file and that every start leaves the server in order.
\<close>


section \<open>The command line\<close>

record options =
  port_opt :: int
  evict_opt :: bytes
  plugin_opt :: "bytes option"
  layout_opt :: "bytes option"
  requirepass_opt :: "bytes option"
  bind_opt :: "bytes option"
  protected_opt :: int
  maxclients_opt :: int
  timeout_opt :: int
  backlog_opt :: int
  maxmem_opt :: nat
  dir_opt :: "bytes option"
  dbfilename_opt :: "bytes option"
  config_opt :: "bytes option"
  tls_port_opt :: int
  tls_yes_opt :: bool
  tls_cert_opt :: "bytes option"
  tls_key_opt :: "bytes option"
  tls_ca_opt :: "bytes option"

definition options0 :: options where
  "options0 = \<lparr> port_opt = 6379, evict_opt = ''noop'', plugin_opt = None, layout_opt = None, requirepass_opt = None,
     bind_opt = None, protected_opt = - 1, maxclients_opt = - 1, timeout_opt = - 1, backlog_opt = - 1, maxmem_opt = 0,
     dir_opt = None, dbfilename_opt = None, config_opt = None, tls_port_opt = 0, tls_yes_opt = False,
     tls_cert_opt = None, tls_key_opt = None, tls_ca_opt = None \<rparr>"

definition off_word :: "bytes \<Rightarrow> bool" where
  "off_word v = (v \<in> {''no'', ''0'', ''false''})"

definition on_word :: "bytes \<Rightarrow> bool" where
  "on_word v = (v \<in> {''yes'', ''1'', ''on''})"

definition option_table :: "(bytes \<times> (bytes \<Rightarrow> options \<Rightarrow> options)) list" where
  "option_table =
     [(''--port'', \<lambda>v q. q\<lparr> port_opt := atoi v \<rparr>),
      (''--evict'', \<lambda>v q. q\<lparr> evict_opt := v \<rparr>),
      (''--maxmemory'', \<lambda>v q. q\<lparr> maxmem_opt := fst (strtoull v) \<rparr>),
      (''--plugin'', \<lambda>v q. q\<lparr> plugin_opt := Some v \<rparr>),
      (''--layout'', \<lambda>v q. q\<lparr> layout_opt := Some v \<rparr>),
      (''--requirepass'', \<lambda>v q. q\<lparr> requirepass_opt := Some v \<rparr>),
      (''--bind'', \<lambda>v q. q\<lparr> bind_opt := Some v \<rparr>),
      (''--protected-mode'', \<lambda>v q. q\<lparr> protected_opt := (if off_word v then 0 else 1) \<rparr>),
      (''--maxclients'', \<lambda>v q. q\<lparr> maxclients_opt := atoi v \<rparr>),
      (''--timeout'', \<lambda>v q. q\<lparr> timeout_opt := atoi v \<rparr>),
      (''--tcp-backlog'', \<lambda>v q. q\<lparr> backlog_opt := atoi v \<rparr>),
      (''--config'', \<lambda>v q. q\<lparr> config_opt := Some v \<rparr>),
      (''--dir'', \<lambda>v q. q\<lparr> dir_opt := Some v \<rparr>),
      (''--dbfilename'', \<lambda>v q. q\<lparr> dbfilename_opt := Some v \<rparr>),
      (''--tls-port'', \<lambda>v q. q\<lparr> tls_port_opt := atoi v \<rparr>),
      (''--tls'', \<lambda>v q. q\<lparr> tls_yes_opt := on_word v \<rparr>),
      (''--tls-cert-file'', \<lambda>v q. q\<lparr> tls_cert_opt := Some v \<rparr>),
      (''--tls-key-file'', \<lambda>v q. q\<lparr> tls_key_opt := Some v \<rparr>),
      (''--tls-ca-file'', \<lambda>v q. q\<lparr> tls_ca_opt := Some v \<rparr>)]"

text \<open>An argument that is no option, or is the last one, is skipped.\<close>

fun parse_argv :: "bytes list \<Rightarrow> options \<Rightarrow> options" where
  "parse_argv (a # v # rest) q =
     (case map_of option_table a of None \<Rightarrow> parse_argv (v # rest) q | Some f \<Rightarrow> parse_argv rest (f v q))"
| "parse_argv _ q = q"


section \<open>The environment variables\<close>

type_synonym getenv = "bytes \<Rightarrow> bytes option"

definition given :: "bytes option \<Rightarrow> bool" where
  "given x = (case x of None \<Rightarrow> False | Some v \<Rightarrow> v \<noteq> [])"

definition env_or :: "getenv \<Rightarrow> bytes \<Rightarrow> bytes option \<Rightarrow> bytes option" where
  "env_or g n x = (if \<not> given x \<and> given (g n) then g n else x)"

definition env_num :: "getenv \<Rightarrow> bytes \<Rightarrow> int \<Rightarrow> int" where
  "env_num g n x = (if x < 0 \<and> given (g n) then atoi (the (g n)) else x)"

definition env_protected :: "getenv \<Rightarrow> int \<Rightarrow> int" where
  "env_protected g x =
     (if x < 0 then
        (if given (g ''AURA_REDIS_PROTECTED_MODE'') then
           (let v = the (g ''AURA_REDIS_PROTECTED_MODE'') in if off_word v \<or> v = ''off'' then 0 else 1)
         else 1)
      else x)"

definition env_fallbacks :: "getenv \<Rightarrow> options \<Rightarrow> options" where
  "env_fallbacks g q = q\<lparr>
     layout_opt := env_or g ''AURA_REDIS_LAYOUT'' (layout_opt q),
     evict_opt := (if given (g ''AURA_REDIS_EVICT'') \<and> evict_opt q = ''noop'' then the (g ''AURA_REDIS_EVICT'') else evict_opt q),
     plugin_opt := (if given (g ''AURA_REDIS_EVICT_SO'') \<and> plugin_opt q = None then g ''AURA_REDIS_EVICT_SO'' else plugin_opt q),
     maxmem_opt := (if given (g ''AURA_REDIS_MAXMEMORY'') \<and> maxmem_opt q = 0
                    then fst (strtoull (the (g ''AURA_REDIS_MAXMEMORY''))) else maxmem_opt q),
     requirepass_opt := env_or g ''AURA_REDIS_REQUIREPASS'' (requirepass_opt q),
     bind_opt := env_or g ''AURA_REDIS_BIND'' (bind_opt q),
     protected_opt := env_protected g (protected_opt q),
     maxclients_opt := env_num g ''AURA_REDIS_MAXCLIENTS'' (maxclients_opt q),
     timeout_opt := env_num g ''AURA_REDIS_TIMEOUT'' (timeout_opt q),
     backlog_opt := env_num g ''AURA_REDIS_TCP_BACKLOG'' (backlog_opt q),
     config_opt := (if config_opt q = None then g ''AURA_REDIS_CONFIG'' else config_opt q),
     dir_opt := env_or g ''AURA_REDIS_DIR'' (dir_opt q),
     dbfilename_opt := env_or g ''AURA_REDIS_DBFILENAME'' (dbfilename_opt q),
     tls_port_opt := (if tls_port_opt q \<le> 0 \<and> given (g ''AURA_REDIS_TLS_PORT'')
                      then atoi (the (g ''AURA_REDIS_TLS_PORT'')) else tls_port_opt q),
     tls_yes_opt := (tls_yes_opt q \<or> (case g ''AURA_REDIS_TLS'' of None \<Rightarrow> False | Some v \<Rightarrow> on_word v)),
     tls_cert_opt := env_or g ''AURA_REDIS_TLS_CERT_FILE'' (tls_cert_opt q),
     tls_key_opt := env_or g ''AURA_REDIS_TLS_KEY_FILE'' (tls_key_opt q),
     tls_ca_opt := env_or g ''AURA_REDIS_TLS_CA_FILE'' (tls_ca_opt q) \<rparr>"

definition default_tls_port :: "options \<Rightarrow> options" where
  "default_tls_port q = (if tls_yes_opt q \<and> tls_port_opt q \<le> 0 then q\<lparr> tls_port_opt := 6380 \<rparr> else q)"

definition main_options :: "getenv \<Rightarrow> bytes list \<Rightarrow> options" where
  "main_options g argv = default_tls_port (env_fallbacks g (parse_argv argv options0))"


section \<open>The stages of the start\<close>

datatype boot_error =
    CreateFailed | BadConfigPath | ConfigLoadFailed bytes | BadBind bytes | BadLayout bytes | BadDir bytes | BadDbfilename bytes
  | RdbLoadFailed bytes bytes | BadTlsCert | BadTlsKey | BadTlsCa | ListenFailed int | TlsFilesMissing | TlsListenFailed int

type_synonym stage = "core \<Rightarrow> boot_error + core"

definition must :: "boot_error \<Rightarrow> core \<times> bool \<Rightarrow> boot_error + core" where
  "must e r = (case r of (c, ok) \<Rightarrow> if ok then Inr c else Inl e)"

definition when_given :: "bytes option \<Rightarrow> (bytes \<Rightarrow> stage) \<Rightarrow> stage" where
  "when_given x f c = (if given x then f (the x) c else Inr c)"

fun run_stages :: "stage list \<Rightarrow> stage" where
  "run_stages [] c = Inr c"
| "run_stages (f # fs) c = (case f c of Inl e \<Rightarrow> Inl e | Inr c \<Rightarrow> run_stages fs c)"

definition config_stages :: "server_env \<Rightarrow> options \<Rightarrow> stage list" where
  "config_stages env q =
     [\<lambda>c. case config_opt q of None \<Rightarrow> Inr c | Some p \<Rightarrow> must BadConfigPath (ar_core_set_config_file c p),
      \<lambda>c. must (ConfigLoadFailed (config_path (srv c))) (ar_config_load (host_at env c) c)]"

text \<open>The result of the setters of the numbers is not looked at.\<close>

definition network_stages :: "options \<Rightarrow> stage list" where
  "network_stages q =
     [when_given (bind_opt q) (\<lambda>a c. must (BadBind a) (ar_core_set_bind c a)),
      \<lambda>c. Inr (ar_core_set_protected_mode c (protected_opt q \<noteq> 0)),
      when_given (requirepass_opt q) (\<lambda>p c. Inr (fst (ar_core_set_requirepass c p))),
      \<lambda>c. Inr (if maxclients_opt q > 0 then fst (ar_core_set_maxclients c (maxclients_opt q)) else c),
      \<lambda>c. Inr (if timeout_opt q \<ge> 0 then fst (ar_core_set_timeout c (timeout_opt q)) else c),
      \<lambda>c. Inr (if backlog_opt q > 0 then fst (ar_core_set_tcp_backlog c (backlog_opt q)) else c)]"

definition load_rdb :: "server_env \<Rightarrow> core \<Rightarrow> core \<times> bool" where
  "load_rdb env c =
     (case ar_rdb_load (host_at env c) (persist (srv c)) c of (c, r, ok) \<Rightarrow> (upd_srv (\<lambda>s. s\<lparr> persist := r \<rparr>) c, ok))"

definition store_stages :: "server_env \<Rightarrow> options \<Rightarrow> stage list" where
  "store_stages env q =
     [when_given (layout_opt q) (\<lambda>l c. must (BadLayout l) (ar_core_set_layout c l)),
      \<lambda>c. Inr (if given (plugin_opt q) then fst (ar_core_load_evict_plugin env c (the (plugin_opt q)))
               else fst (ar_core_set_evict_by_name c (evict_opt q))),
      \<lambda>c. Inr (if maxmem_opt q \<noteq> 0 then ar_core_set_maxmemory c (maxmem_opt q) else c),
      when_given (dir_opt q) (\<lambda>d c. must (BadDir d) (set_persist ar_core_set_rdb_dir c d)),
      when_given (dbfilename_opt q) (\<lambda>f c. must (BadDbfilename f) (set_persist ar_core_set_rdb_filename c f)),
      \<lambda>c. must (RdbLoadFailed (ar_core_rdb_dir (persist (srv c))) (ar_core_rdb_filename (persist (srv c)))) (load_rdb env c)]"

definition listen_stages :: "net \<Rightarrow> options \<Rightarrow> stage list" where
  "listen_stages w q =
     [when_given (tls_cert_opt q) (\<lambda>p c. must BadTlsCert (ar_core_set_tls_cert_file w c p)),
      when_given (tls_key_opt q) (\<lambda>p c. must BadTlsKey (ar_core_set_tls_key_file w c p)),
      when_given (tls_ca_opt q) (\<lambda>p c. must BadTlsCa (ar_core_set_tls_ca_file w c p)),
      \<lambda>c. must (ListenFailed (port_opt q)) (ar_core_listen w c (port_opt q)),
      \<lambda>c. if tls_port_opt q > 0 \<or> tls_yes_opt q then
             (if \<not> given (tls_cert_opt q) \<or> \<not> given (tls_key_opt q) then Inl TlsFilesMissing
              else must (TlsListenFailed (tls_port_opt q)) (ar_core_listen_tls w c (tls_port_opt q)))
           else Inr c]"

definition boot_stages :: "server_env \<Rightarrow> net \<Rightarrow> options \<Rightarrow> stage list" where
  "boot_stages env w q = config_stages env q @ network_stages q @ store_stages env q @ listen_stages w q"

text \<open>\<open>made\<close> is what \<open>ar_core_create\<close> gives.\<close>

definition boot :: "server_env \<Rightarrow> net \<Rightarrow> core option \<Rightarrow> options \<Rightarrow> boot_error + core" where
  "boot env w made q = (case made of None \<Rightarrow> Inl CreateFailed | Some c \<Rightarrow> run_stages (boot_stages env w q) c)"

definition ar_main :: "server_env \<Rightarrow> net \<Rightarrow> core option \<Rightarrow> getenv \<Rightarrow> bytes list \<Rightarrow> (nat \<times> poll) list \<Rightarrow> drain_round list \<Rightarrow>
    sent_log \<times> int option" where
  "ar_main env w made g argv turns rounds =
     (case boot env w made (main_options g argv) of
        Inl e \<Rightarrow> ([], Some 1)
      | Inr c \<Rightarrow> (case ar_core_serve_forever env turns rounds c of
                   (c, a, rc) \<Rightarrow> (a, map_option (\<lambda>r. if r = 0 then 0 else 1) rc)))"


section \<open>Any snapshot file\<close>

text \<open>Whatever the bytes are, a load is a run of the commands that rebuild the values: the store stays sound.\<close>

lemma load_elems_heeds:
  assumes put: "\<And>c x c' ok. sound c \<Longrightarrow> put c x = (c', ok) \<Longrightarrow> heeds c c'"
  shows "sound c \<Longrightarrow> load_elems rd put n c s = (c', rest) \<Longrightarrow> heeds c c'"
proof (induction n arbitrary: c s)
  case (Suc n)
  show ?case
  proof (cases "rd s")
    case (Some y)
    obtain x r where y: "y = (x, r)" by (cases y)
    obtain c1 ok where 1: "put c x = (c1, ok)" by fastforce
    note h = put [OF Suc.prems(1) 1]
    show ?thesis
      using Suc.prems(2) Suc.IH [OF sound_heeds [OF Suc.prems(1) h], of r] h heeds_trans [OF h]
      by (cases ok) (auto simp: Some y 1)
  qed (use Suc.prems in \<open>simp add: sound_refl\<close>)
qed (simp add: sound_refl)

lemma put_heeds:
  "sound c \<Longrightarrow> put_field k c x = (c', ok) \<Longrightarrow> heeds c c'" "sound c \<Longrightarrow> put_item k c v = (c', ok) \<Longrightarrow> heeds c c'"
  "sound c \<Longrightarrow> put_member k c m = (c', ok) \<Longrightarrow> heeds c c'"
  using hset_heeds [of c k "[x]"] push_heeds [of c "[v]" k False] zadd_heeds [of c "[m]" k]
  by (auto simp: put_field_def put_item_def put_member_def split: prod.splits)

lemma apply_expire_heeds: "sound c \<Longrightarrow> apply_expire_abs c k x now = (c', ok) \<Longrightarrow> heeds c c'"
  by (auto simp: apply_expire_abs_def ar_expire_def Let_def sound_refl split: if_splits dest: expire_heeds)

lemma load_typed_heeds:
  assumes put: "\<And>c x c' ok. sound c \<Longrightarrow> put c x = (c', ok) \<Longrightarrow> heeds c c'"
    and s: "sound c" and r: "load_typed rd put k x now c b t = (c', t', rest)"
  shows "heeds c c'"
proof (cases "rd_count b")
  case (Some y)
  obtain n d where y: "y = (n, d)" by (cases y)
  obtain c1 q where 1: "load_elems rd put n c d = (c1, q)" by fastforce
  note h = load_elems_heeds [OF put s 1]
  obtain c2 ok where 2: "apply_expire_abs c1 k x now = (c2, ok)" by fastforce
  have "heeds c c2" using heeds_trans [OF h apply_expire_heeds [OF sound_heeds [OF s h] 2]] .
  then show ?thesis using r h by (auto simp: load_typed_def Some y 1 2 split: option.splits bool.splits)
qed (use r s in \<open>simp add: load_typed_def sound_refl\<close>)

lemma load_one_heeds:
  assumes "sound c"
  shows "load_one_v2 now c b t = (c', t', rest) \<Longrightarrow> heeds c c'" "load_one_v1 now c b t = (c', t', rest) \<Longrightarrow> heeds c c'"
  using assms
  by (auto simp: load_one_v2_def load_one_v1_def load_payload_def load_string_def Let_def sound_refl
      dest: set_ex_heeds load_typed_heeds [rotated 2, OF _ put_heeds(1)] load_typed_heeds [rotated 2, OF _ put_heeds(2)]
        load_typed_heeds [rotated 2, OF _ put_heeds(3)]
      split: option.splits prod.splits if_splits bool.splits)

lemma load_entries_heeds:
  assumes one: "\<And>c b t c' t' rest. sound c \<Longrightarrow> one c b t = (c', t', rest) \<Longrightarrow> heeds c c'"
  shows "sound c \<Longrightarrow> load_entries one n c b t = (c', t', rest) \<Longrightarrow> heeds c c'"
proof (induction n arbitrary: c b t)
  case (Suc n)
  obtain c1 t1 q where 1: "one c b t = (c1, t1, q)" using prod_cases3 by blast
  note h = one [OF Suc.prems(1) 1]
  show ?case
    using Suc.prems(2) Suc.IH [OF sound_heeds [OF Suc.prems(1) h]] h heeds_trans [OF h]
    by (cases q) (auto simp: 1)
qed (simp add: sound_refl)

lemma load_image_heeds:
  assumes "sound c" and "rdb_load_image c b = (c', t, ok)"
  shows "heeds c c'"
  using assms
  by (auto simp: rdb_load_image_def sound_refl
      dest: load_entries_heeds [rotated 2, OF _ load_one_heeds(1)] load_entries_heeds [rotated 2, OF _ load_one_heeds(2)]
      split: option.splits prod.splits if_splits)

lemma load_heeds: "sound c \<Longrightarrow> ar_rdb_load h r c = (c', r', ok) \<Longrightarrow> heeds c c' \<and> rdb_dir r' = rdb_dir r \<and> rdb_filename r' = rdb_filename r"
  by (auto simp: ar_rdb_load_def sound_refl dest: load_image_heeds split: option.splits prod.splits if_splits)


section \<open>Every start leaves the server in order\<close>

definition keeps_order :: "stage \<Rightarrow> bool" where
  "keeps_order f \<longleftrightarrow> (\<forall>c c'. orderly c \<longrightarrow> f c = Inr c' \<longrightarrow> orderly c')"

lemma run_stages_append: "run_stages (fs @ gs) c = (case run_stages fs c of Inl e \<Rightarrow> Inl e | Inr c \<Rightarrow> run_stages gs c)"
  by (induction fs arbitrary: c) (auto split: sum.splits)

lemma stages_order: "list_all keeps_order fs \<Longrightarrow> orderly c \<Longrightarrow> run_stages fs c = Inr c' \<Longrightarrow> orderly c'"
  by (induction fs arbitrary: c) (auto simp: keeps_order_def split: sum.splits)

lemma must_Inr [simp]: "must e r = Inr c \<longleftrightarrow> r = (c, True)"
  by (cases r) (simp add: must_def)

lemma order_Inr: "(\<And>c. orderly c \<Longrightarrow> orderly (f c)) \<Longrightarrow> keeps_order (\<lambda>c. Inr (f c))"
  by (auto simp: keeps_order_def)

lemma order_must: "(\<And>c c'. orderly c \<Longrightarrow> g c = (c', True) \<Longrightarrow> orderly c') \<Longrightarrow> keeps_order (\<lambda>c. must (e c) (g c))"
  by (auto simp: keeps_order_def)

lemma order_given: "(\<And>v. keeps_order (f v)) \<Longrightarrow> keeps_order (when_given x f)"
  by (auto simp: keeps_order_def when_given_def)

lemma order_setter:
  assumes "setter f" and "orderly c" and "f c v = (c', ok)"
  shows "orderly c'"
proof -
  have "serves 0 c c'" using assms orderly_sound unfolding setter_def by blast
  then show ?thesis by (rule orderly_serves [OF assms(2)])
qed

lemma order_stage: "setter f \<Longrightarrow> keeps_order (\<lambda>c. must e (f c v))"
  by (auto simp: keeps_order_def dest: order_setter)

lemma order_set: "setter f \<Longrightarrow> orderly c \<Longrightarrow> orderly (fst (f c v))"
  by (rule order_setter [where v = v and ok = "snd (f c v)"]) simp_all

lemma order_number:
  "orderly c \<Longrightarrow> orderly (fst (ar_core_set_maxclients c n))" "orderly c \<Longrightarrow> orderly (fst (ar_core_set_timeout c n))"
  "orderly c \<Longrightarrow> orderly (fst (ar_core_set_tcp_backlog c n))" "orderly c \<Longrightarrow> orderly (ar_core_set_protected_mode c b)"
  by (auto simp: ar_core_set_maxclients_def ar_core_set_timeout_def ar_core_set_tcp_backlog_def ar_core_set_protected_mode_def
      server_oks intro!: orderly_upd_srv)

lemma apply_kv_order:
  assumes "orderly c" and "apply_kv c k v = (c', ok)"
  shows "orderly c'"
proof (cases "find (\<lambda>(n, f). conf_key_eq k n) conf_table")
  case (Some y)
  then obtain n f where y: "y = (n, f)" "(n, f) \<in> set conf_table" by (cases y) (auto simp: find_Some_iff dest!: nth_mem)
  then show ?thesis using assms order_setter [OF setter_tables(1) [OF y(2)]] Some by (simp add: apply_kv_def)
qed (use assms in \<open>simp add: apply_kv_def\<close>)

lemma lines_order: "orderly c \<Longrightarrow> apply_lines c ls = (c', ok) \<Longrightarrow> orderly c'"
  by (induction ls arbitrary: c) (auto split: option.splits prod.splits if_splits dest: apply_kv_order)

lemma config_order: "list_all keeps_order (config_stages env q)"
  by (auto simp: config_stages_def keeps_order_def ar_core_set_config_file_def ar_config_load_def server_oks
      split: option.splits if_splits dest: lines_order intro!: orderly_upd_srv)

lemma network_order: "list_all keeps_order (network_stages q)"
  using order_stage [OF setter_numbers(5)] order_set [OF setter_pass] order_number
  by (simp add: network_stages_def order_given keeps_order_def when_given_def)

lemma load_order:
  assumes "orderly c" and "load_rdb env c = (c', ok)"
  shows "orderly c'"
proof -
  obtain c1 r ok1 where 1: "ar_rdb_load (host_at env c) (persist (srv c)) c = (c1, r, ok1)" using prod_cases3 by blast
  note h = load_heeds [OF orderly_sound [OF assms(1)] 1]
  have o1: "orderly c1" using assms(1) h orderly_serves serves_heeds [OF orderly_sound [OF assms(1)]] by blast
  have "srv c1 = srv c" using h by (simp add: heeds_def env_of_def)
  then show ?thesis
    using assms(2) 1 h o1 by (auto simp: load_rdb_def upd_srv_def server_oks intro!: orderly_srv)
qed

lemma store_order: "list_all keeps_order (store_stages env q)"
proof -
  have l: "keeps_order (\<lambda>c. must e (ar_core_set_layout c l))" for e l
    by (rule order_must) (blast intro: orderly_serves serves_set_layout orderly_sound)
  have p: "orderly (fst (ar_core_load_evict_plugin env c l))" if "orderly c" for c l
    using orderly_serves [OF that serves_plugin [OF orderly_sound [OF that]]] by (metis surjective_pairing)
  have v: "orderly (fst (ar_core_set_evict_by_name c l))" if "orderly c" for c l
    using orderly_serves [OF that serves_set_evict [OF orderly_sound [OF that]]] by (metis surjective_pairing)
  have m: "orderly (ar_core_set_maxmemory c n)" if "orderly c" for c n
    using orderly_serves [OF that serves_maxmemory [OF orderly_sound [OF that]]] .
  have r: "keeps_order (\<lambda>c. must (e c) (load_rdb env c))" for e
    by (rule order_must) (rule load_order)
  show ?thesis
    unfolding store_stages_def list.pred_inject
    by (intro conjI TrueI order_given order_Inr l r order_stage [OF setter_numbers(6)] order_stage [OF setter_numbers(7)])
      (simp_all add: p v m)
qed

lemma order_tls_files:
  "keeps_order (\<lambda>c. must e (ar_core_set_tls_cert_file w c p))" "keeps_order (\<lambda>c. must e (ar_core_set_tls_key_file w c p))"
  "keeps_order (\<lambda>c. must e (ar_core_set_tls_ca_file w c p))"
  by (auto simp: keeps_order_def ar_core_set_tls_cert_file_def ar_core_set_tls_key_file_def ar_core_set_tls_ca_file_def server_oks
      split: option.splits if_splits intro!: orderly_upd_srv)

lemma order_port: "orderly c \<Longrightarrow> open_port w port c = (c', ok) \<Longrightarrow> orderly c'"
  by (auto simp: open_port_def bind_name_def server_oks Let_def split: if_splits intro!: orderly_upd_srv)

lemma order_context: "orderly c \<Longrightarrow> ar_tls_setup_ctx w c = (c', ok) \<Longrightarrow> orderly c'"
  by (auto simp: ar_tls_setup_ctx_def Let_def server_oks split: if_splits intro!: orderly_upd_srv)

lemma order_listen: "orderly c \<Longrightarrow> ar_core_listen w c port = (c', ok) \<Longrightarrow> orderly c'"
  by (auto simp: ar_core_listen_def server_oks split: if_splits prod.splits bool.splits dest: order_port intro!: orderly_upd_srv)

lemma order_listen_tls:
  assumes "orderly c" and "ar_core_listen_tls w c port = (c', ok)"
  shows "orderly c'"
proof -
  obtain c1 a where 1: "ar_tls_setup_ctx w c = (c1, a)" by fastforce
  obtain c2 b where 2: "open_port w port c1 = (c2, b)" by fastforce
  have 3: "orderly c1" by (rule order_context [OF assms(1) 1])
  have 4: "orderly c2" by (rule order_port [OF 3 2])
  have 5: "orderly (upd_srv (\<lambda>s. s\<lparr> tls_listen_open := True, tls_port := port \<rparr>) c2)"
    by (rule orderly_upd_srv [OF 4]) (simp add: server_oks)
  show ?thesis
    using assms 3 4 5 by (cases a; cases b) (auto simp: ar_core_listen_tls_def 1 2 split: if_splits)
qed

lemma listen_order: "list_all keeps_order (listen_stages w q)"
proof -
  have t: "keeps_order (\<lambda>c. if b then (if m then Inl e else must e' (ar_core_listen_tls w c n)) else Inr c)" for b m e e' n
    by (auto simp: keeps_order_def dest: order_listen_tls)
  have p: "keeps_order (\<lambda>c. must e (ar_core_listen w c n))" for e n
    by (rule order_must) (rule order_listen)
  show ?thesis
    unfolding listen_stages_def list.pred_inject(2) by (intro conjI order_given order_tls_files t p) simp
qed

lemma boot_order: "orderly c0 \<Longrightarrow> run_stages (boot_stages env w q) c0 = Inr c \<Longrightarrow> orderly c"
  using stages_order [of "boot_stages env w q" c0 c] config_order network_order store_order listen_order
  by (simp add: boot_stages_def)

end
