(* ===== verification/BootSpec.thy ===== *)
theory BootSpec
  imports Boot ServerSpec ConfigSpec
begin

text \<open>
  What the start of the process promises: no snapshot file can corrupt the store, a start that succeeds leaves a server in
  order that listens where it was told to, and which of the command line, the environment and the file decides a setting.
\<close>


section \<open>What a stage changes\<close>

text \<open>The settings of the network, which the later stages leave alone.\<close>

definition net_knobs :: "server \<Rightarrow> _" where
  "net_knobs s = (bind_name s, protected_mode s, requirepass s, maxclients s, timeout_sec s, tcp_backlog s, config_path s)"

lemma Inr_case: "(case r of Inl e \<Rightarrow> Inl e | Inr c \<Rightarrow> f c) = Inr d \<longleftrightarrow> (\<exists>c. r = Inr c \<and> f c = Inr d)"
  by (cases r) simp_all

lemma stages_parts:
  "run_stages (boot_stages env w q) c0 = Inr c \<longleftrightarrow>
     (\<exists>f n s. run_stages (config_stages env q) c0 = Inr f \<and> run_stages (network_stages q) f = Inr n \<and>
        run_stages (store_stages env q) n = Inr s \<and> run_stages (listen_stages w q) s = Inr c)"
  by (auto simp: boot_stages_def run_stages_append Inr_case)

lemma network_settings:
  assumes "run_stages (network_stages q) f = Inr n" and "alloc_ok f"
  shows "srv n = (srv f)\<lparr> bind_addr := (if given (bind_opt q) then the (bind_opt q) else bind_addr (srv f)),
      protected_mode := (protected_opt q \<noteq> 0),
      requirepass := (if given (requirepass_opt q) then requirepass_opt q else requirepass (srv f)),
      maxclients := (if 1 \<le> maxclients_opt q \<and> maxclients_opt q \<le> int AR_MAX_CONN then maxclients_opt q else maxclients (srv f)),
      timeout_sec := (if 0 \<le> timeout_opt q then timeout_opt q else timeout_sec (srv f)),
      tcp_backlog := (if 1 \<le> backlog_opt q then backlog_opt q else tcp_backlog (srv f)) \<rparr>"
  using assms
  by (auto simp: network_stages_def when_given_def given_def Inr_case ar_core_set_bind_def ar_core_set_protected_mode_def
      ar_core_set_requirepass_def ar_core_set_maxclients_def ar_core_set_timeout_def ar_core_set_tcp_backlog_def upd_srv_def Let_def
      split: if_splits option.splits)

text \<open>A stage that leaves what \<open>v\<close> reads alone, on a server in order.\<close>

definition leaves :: "(server \<Rightarrow> 'a) \<Rightarrow> stage \<Rightarrow> bool" where
  "leaves v f \<longleftrightarrow> (\<forall>c c'. orderly c \<longrightarrow> f c = Inr c' \<longrightarrow> v (srv c') = v (srv c))"

lemma stages_leave:
  assumes "list_all keeps_order fs" and "list_all (leaves v) fs" and "orderly c" and "run_stages fs c = Inr c'"
  shows "v (srv c') = v (srv c)"
  using assms
proof (induction fs arbitrary: c)
  case (Cons f fs)
  obtain d where d: "f c = Inr d" "run_stages fs d = Inr c'" using Cons.prems(4) by (auto simp: Inr_case)
  have "orderly d" "v (srv d) = v (srv c)" using Cons.prems(1-3) d(1) by (auto simp: keeps_order_def leaves_def)
  then show ?case using Cons.IH [of d] Cons.prems(1,2) d(2) by simp
qed simp

lemma leaves_given: "(\<And>x. leaves v (f x)) \<Longrightarrow> leaves v (when_given y f)"
  by (auto simp: leaves_def when_given_def)

lemma leaves_Inr: "(\<And>c. orderly c \<Longrightarrow> v (srv (f c)) = v (srv c)) \<Longrightarrow> leaves v (\<lambda>c. Inr (f c))"
  by (auto simp: leaves_def)

lemma leaves_must: "(\<And>c c'. orderly c \<Longrightarrow> g c = (c', True) \<Longrightarrow> v (srv c') = v (srv c)) \<Longrightarrow> leaves v (\<lambda>c. must (e c) (g c))"
  by (auto simp: leaves_def)

lemma srv_steps: "steps s P K W c c' \<Longrightarrow> srv c' = srv c"
  by (auto dest!: steps_env simp: env_of_def)

lemma srv_evict: "sound c \<Longrightarrow> srv (maybe_evict c) = srv c"
  using srv_steps [OF maybe_evict_steps] by (auto simp: sound_def)

lemma srv_store:
  assumes s: "sound c"
  shows "srv (ar_core_set_maxmemory c n) = srv c" "srv (fst (ar_core_load_evict_plugin env c p)) = srv c"
    "srv (fst (ar_core_set_evict_by_name c nm)) = srv c" "ar_core_set_layout c l = (c', ok) \<Longrightarrow> srv c' = srv c"
proof -
  have sm: "sound c1" if "dict_of c1 = dict_of c" "alloc_ok c1 = alloc_ok c" "now_ms c1 = now_ms c" "conns c1 = conns c" "srv c1 = srv c" for c1
    using serves_sound [OF serves_fields [OF s that(1-4), of 0]] that(5) by simp
  show "srv (ar_core_set_maxmemory c n) = srv c"
    using srv_evict [OF sm [of "c\<lparr> maxmemory := n \<rparr>"]] by (simp add: ar_core_set_maxmemory_def dict_of_def)
  show "srv (fst (ar_core_load_evict_plugin env c p)) = srv c"
    using srv_evict [OF sm [of "c\<lparr> evict := k, evict_plugin := True, plugin_reloads := plugin_reloads c + 1 \<rparr>" for k]]
    by (simp add: ar_core_load_evict_plugin_def dict_of_def split: option.split)
  show "srv (fst (ar_core_set_evict_by_name c nm)) = srv c"
    by (simp add: ar_core_set_evict_by_name_def Let_def split: option.split)
  show "srv c' = srv c" if "ar_core_set_layout c l = (c', ok)"
    using s that srv_steps [OF relays_steps(1) [OF set_layout_relays(1)]] by (auto simp: sound_def)
qed

lemma load_srv:
  assumes "sound c" and "load_rdb env c = (c', ok)"
  shows "\<exists>r. srv c' = (srv c)\<lparr> persist := r \<rparr>"
proof -
  obtain c1 r ok1 where 1: "ar_rdb_load (host_at env c) (persist (srv c)) c = (c1, r, ok1)" using prod_cases3 by blast
  have "srv c1 = srv c" using load_heeds [OF assms(1) 1] by (simp add: heeds_def env_of_def)
  then show ?thesis using assms(2) 1 by (auto simp: load_rdb_def upd_srv_def)
qed

text \<open>The name of the address bound is the empty one's default.\<close>

lemma knobs_updates [simp]:
  "net_knobs (s\<lparr> persist := r \<rparr>) = net_knobs s" "net_knobs (s\<lparr> tls_cert_file := p \<rparr>) = net_knobs s"
  "net_knobs (s\<lparr> tls_key_file := p \<rparr>) = net_knobs s" "net_knobs (s\<lparr> tls_ca_file := p \<rparr>) = net_knobs s"
  "net_knobs (s\<lparr> ssl_ctx := b \<rparr>) = net_knobs s" "net_knobs (s\<lparr> tls_listen_open := b, tls_port := n \<rparr>) = net_knobs s"
  "net_knobs (s\<lparr> quit := a, shutting_down := b, listen_open := d, epoll_open := e, tcp_port := n \<rparr>) = net_knobs s"
  "net_knobs (s\<lparr> bind_addr := bind_name s \<rparr>) = net_knobs s"
  by (simp_all add: net_knobs_def bind_name_def)

lemma store_leaves: "list_all (leaves net_knobs) (store_stages env q)"
proof -
  have l: "leaves net_knobs (\<lambda>c. must e (ar_core_set_layout c l))" for e l
    by (rule leaves_must) (use srv_store(4) orderly_sound in fastforce)
  have p: "leaves net_knobs (\<lambda>c. must e (set_persist g c x))" for e g x
    by (rule leaves_must) (auto simp: set_persist_def upd_srv_def split: prod.splits)
  have r: "leaves net_knobs (\<lambda>c. must (e c) (load_rdb env c))" for e
    by (rule leaves_must) (use load_srv orderly_sound in fastforce)
  show ?thesis
    unfolding store_stages_def list.pred_inject
    by (intro conjI TrueI leaves_given leaves_Inr l p r) (simp_all add: srv_store orderly_sound)
qed

lemma open_port_knobs: "open_port w port c = (c', ok) \<Longrightarrow> net_knobs (srv c') = net_knobs (srv c)"
  by (auto simp: open_port_def upd_srv_def Let_def split: if_splits)

lemma tls_ctx_knobs: "ar_tls_setup_ctx w c = (c', ok) \<Longrightarrow> net_knobs (srv c') = net_knobs (srv c)"
  by (auto simp: ar_tls_setup_ctx_def upd_srv_def Let_def split: if_splits)

lemma listen_knobs: "ar_core_listen w c port = (c', ok) \<Longrightarrow> net_knobs (srv c') = net_knobs (srv c)"
  by (auto simp: ar_core_listen_def upd_srv_def dest: open_port_knobs split: if_splits prod.splits bool.splits)

lemma listen_tls_knobs:
  assumes "ar_core_listen_tls w c port = (c', ok)"
  shows "net_knobs (srv c') = net_knobs (srv c)"
proof -
  obtain c1 a where 1: "ar_tls_setup_ctx w c = (c1, a)" by fastforce
  obtain c2 b where 2: "open_port w port c1 = (c2, b)" by fastforce
  show ?thesis
    using assms tls_ctx_knobs [OF 1] open_port_knobs [OF 2]
    by (cases a; cases b) (auto simp: ar_core_listen_tls_def 1 2 upd_srv_def split: if_splits)
qed

lemma listen_leaves: "list_all (leaves net_knobs) (listen_stages w q)"
proof -
  have f: "leaves net_knobs (\<lambda>c. must e (ar_core_set_tls_cert_file w c p))" "leaves net_knobs (\<lambda>c. must e (ar_core_set_tls_key_file w c p))"
    "leaves net_knobs (\<lambda>c. must e (ar_core_set_tls_ca_file w c p))" for e p
    by (auto simp: leaves_def ar_core_set_tls_cert_file_def ar_core_set_tls_key_file_def ar_core_set_tls_ca_file_def upd_srv_def
        split: option.splits if_splits)
  have l: "leaves net_knobs (\<lambda>c. must e (ar_core_listen w c n))" for e n
    by (rule leaves_must) (rule listen_knobs)
  have t: "leaves net_knobs (\<lambda>c. if b then (if m then Inl e else must e' (ar_core_listen_tls w c n)) else Inr c)" for b m e e' n
    by (auto simp: leaves_def dest: listen_tls_knobs)
  show ?thesis
    unfolding listen_stages_def list.pred_inject(2) by (intro conjI leaves_given f l t) simp
qed

text \<open>Both ports are open at the end, the TLS one when it was asked for.\<close>

definition listening :: "options \<Rightarrow> server \<Rightarrow> bool" where
  "listening q s \<longleftrightarrow> listen_open s \<and> epoll_open s \<and> tcp_port s = port_opt q \<and> 1 \<le> tcp_port s \<and> tcp_port s \<le> 65535 \<and>
     \<not> quit s \<and> \<not> shutting_down s \<and>
     (if tls_port_opt q > 0 \<or> tls_yes_opt q then tls_listen_open s \<and> tls_port s = tls_port_opt q \<and> ssl_ctx s else True)"

lemma open_port_srv: "open_port w port c = (c', ok) \<Longrightarrow> \<exists>a. srv c' = (srv c)\<lparr> bind_addr := a \<rparr>"
proof (cases "socket_ok w")
  case False
  assume "open_port w port c = (c', ok)"
  then have "srv c' = (srv c)\<lparr> bind_addr := bind_addr (srv c) \<rparr>" using False by (simp add: open_port_def)
  then show ?thesis ..
qed (auto simp: open_port_def upd_srv_def Let_def)

lemma boot_listens:
  assumes "run_stages (listen_stages w q) s = Inr c"
  shows "listening q (srv c)"
proof -
  obtain s1 s2 where 1: "ar_core_listen w s1 (port_opt q) = (s2, True)"
    and 2: "(if tls_port_opt q > 0 \<or> tls_yes_opt q then
             (if \<not> given (tls_cert_opt q) \<or> \<not> given (tls_key_opt q) then Inl TlsFilesMissing
              else must (TlsListenFailed (tls_port_opt q)) (ar_core_listen_tls w s2 (tls_port_opt q)))
           else Inr s2) = Inr c"
    using assms by (auto simp: listen_stages_def Inr_case simp del: not_less)
  have "listen_open (srv s2) \<and> epoll_open (srv s2) \<and> tcp_port (srv s2) = port_opt q \<and> 1 \<le> port_opt q \<and> port_opt q \<le> 65535 \<and>
     \<not> quit (srv s2) \<and> \<not> shutting_down (srv s2)"
    using 1 by (auto simp: ar_core_listen_def upd_srv_def split: if_splits prod.splits bool.splits)
  moreover have "tls_listen_open (srv c) \<and> tls_port (srv c) = tls_port_opt q \<and> ssl_ctx (srv c) \<and> listen_open (srv c) = listen_open (srv s2) \<and>
      epoll_open (srv c) = epoll_open (srv s2) \<and> tcp_port (srv c) = tcp_port (srv s2) \<and> quit (srv c) = quit (srv s2) \<and>
      shutting_down (srv c) = shutting_down (srv s2)"
    if "ar_core_listen_tls w s2 (tls_port_opt q) = (c, True)"
    using that
    by (auto simp: ar_core_listen_tls_def ar_tls_setup_ctx_def upd_srv_def Let_def split: if_splits prod.splits bool.splits
        dest!: open_port_srv)
  ultimately show ?thesis using 2 by (auto simp: listening_def split: if_splits)
qed


section \<open>Properties\<close>

text \<open>C7. Loading is safe on any file: whatever bytes the snapshot file holds, the load ends, leaves a well-formed store with the
  books balanced, changes nothing of the server, and marks every watcher of a key it changes.\<close>

theorem any_file_loads_safely:
  assumes "sound c" and "rdb_load_image c b = (c', t, ok)"
  shows "sound c' \<and> srv c' = srv c \<and> now_ms c' = now_ms c \<and> (\<forall>k. view c' k = view c k \<or> touched c' k)"
  using load_image_heeds [OF assms] sound_heeds [OF assms(1)] by (simp add: heeds_def env_of_def)

theorem any_file_loads_safely_witness:
  "sound (fst (rdb_load_image sample (AURA_RDB_MAGIC @ [CHR 0x02, CHR 0x00, CHR 0x00, CHR 0x00] @ replicate 5000 CHR 0xFF)))"
  using any_file_loads_safely [OF sample_facts(3), of "AURA_RDB_MAGIC @ [CHR 0x02, CHR 0x00, CHR 0x00, CHR 0x00] @ replicate 5000 CHR 0xFF"]
  by (metis surjective_pairing)

text \<open>The process before its first stage: a fresh core on a machine whose files are \<open>d\<close>.\<close>

definition created :: "(bytes \<Rightarrow> bytes option) \<Rightarrow> nat \<Rightarrow> (nat \<Rightarrow> nat) \<Rightarrow> core" where
  "created d now rnd = upd_srv (\<lambda>s. s\<lparr> disk := d \<rparr>) (ar_core_create now rnd)"

lemma orderly_created: "orderly (created d now rnd)"
  unfolding created_def by (rule orderly_upd_srv [OF orderly_create]) (simp add: server_oks)

text \<open>C6. Every start that succeeds, whatever the command line, the environment, the configuration file and the snapshot file
  are, leaves a server in order, with an empty quit flag, that listens on the ports it was told.\<close>

theorem starts_in_order:
  assumes "boot env w (Some (created d now rnd)) (main_options g argv) = Inr c"
  shows "sound c \<and> list_all conn_ok (conns c) \<and> server_ok (srv c) \<and> listening (main_options g argv) (srv c)"
proof -
  have r: "run_stages (boot_stages env w (main_options g argv)) (created d now rnd) = Inr c" using assms by (simp add: boot_def)
  then have "listening (main_options g argv) (srv c)" using boot_listens by (auto simp: stages_parts)
  then show ?thesis using boot_order [OF orderly_created r] by (simp add: orderly_def tidy_def)
qed

text \<open>The first of some texts that is there and not empty.\<close>

fun first_given :: "bytes option list \<Rightarrow> bytes \<Rightarrow> bytes" where
  "first_given [] v = v"
| "first_given (x # xs) v = (if given x then the x else first_given xs v)"

lemma env_choice:
  "bind_opt (main_options g argv) = env_or g ''AURA_REDIS_BIND'' (bind_opt (parse_argv argv options0))"
  "requirepass_opt (main_options g argv) = env_or g ''AURA_REDIS_REQUIREPASS'' (requirepass_opt (parse_argv argv options0))"
  "maxclients_opt (main_options g argv) = env_num g ''AURA_REDIS_MAXCLIENTS'' (maxclients_opt (parse_argv argv options0))"
  "protected_opt (main_options g argv) = env_protected g (protected_opt (parse_argv argv options0))"
  by (simp_all add: main_options_def default_tls_port_def env_fallbacks_def)


text \<open>A start with a configuration file, an environment variable and two arguments.\<close>

definition conf_text :: bytes where
  "conf_text = ''protected-mode no'' @ [CHR 0x0A]"

definition files0 :: "bytes \<Rightarrow> bytes option" where
  "files0 = [''c'' \<mapsto> conf_text]"

definition env0 :: getenv where
  "env0 = [''AURA_REDIS_BIND'' \<mapsto> ''10.0.0.1'', ''AURA_REDIS_REQUIREPASS'' \<mapsto> ''pw'']"

definition args0 :: "bytes list" where
  "args0 = [''--bind'', ''127.0.0.2'', ''--config'', ''c'']"

definition net0 :: net where
  "net0 = \<lparr> socket_ok = True, address_ok = (\<lambda>_. True), bind_ok = (\<lambda>_ _. True), epoll_ok = True, tls_built = False, ctx_made = False,
     cert_ok = (\<lambda>_. False), key_ok = (\<lambda>_. False), pair_ok = False, ca_ok = (\<lambda>_. False) \<rparr>"

lemma args0_read:
  "parse_argv args0 options0 = options0\<lparr> bind_opt := Some ''127.0.0.2'', config_opt := Some ''c'' \<rparr>"
  by (simp add: args0_def option_table_def)

lemma options_read:
  "main_options env0 args0 = options0\<lparr> bind_opt := Some ''127.0.0.2'', config_opt := Some ''c'', requirepass_opt := Some ''pw'',
     protected_opt := 1 \<rparr>"
  unfolding main_options_def args0_read
  by (simp add: env_fallbacks_def env_or_def env_num_def env_protected_def given_def env0_def options0_def
      default_tls_port_def)

lemma conf_text_read: "file_lines conf_text = [conf_text]" "conf_line conf_text = Some (''protected-mode'', ''no'')"
  by code_simp+

lemma conf_text_applied: "apply_kv c ''protected-mode'' ''no'' = (upd_srv (\<lambda>s. s\<lparr> protected_mode := False \<rparr>) c, True)"
  using applied_texts(2) [of c False] by (simp add: yes_no_def)

lemma config_stage0:
  "run_stages (config_stages plain_env (main_options env0 args0)) (created files0 1000 (\<lambda>_. 0)) =
     Inr (upd_srv (\<lambda>s. s\<lparr> protected_mode := False \<rparr>) (upd_srv (\<lambda>s. s\<lparr> config_path := ''c'' \<rparr>) (created files0 1000 (\<lambda>_. 0))))"
  by (simp add: config_stages_def options_read must_def ar_core_set_config_file_def ar_config_load_def upd_srv_def created_def files0_def
      host_at_def plain_env_def conf_text_read conf_text_applied)

lemma boot0: "\<exists>c. boot plain_env net0 (Some (created files0 1000 (\<lambda>_. 0))) (main_options env0 args0) = Inr c"
proof -
  let ?q = "main_options env0 args0"
  define f where "f = upd_srv (\<lambda>s. s\<lparr> protected_mode := False \<rparr>) (upd_srv (\<lambda>s. s\<lparr> config_path := ''c'' \<rparr>) (created files0 1000 (\<lambda>_. 0)))"
  have q: "disk (srv f) = files0" "persist (srv f) = rdb0" "listen_open (srv f) = False" "alloc_ok f"
    by (simp_all add: f_def created_def upd_srv_def ar_core_create_def core_with_def server0_def)
  obtain n where n: "run_stages (network_stages ?q) f = Inr n" "disk (srv n) = files0" "persist (srv n) = rdb0" "listen_open (srv n) = False"
    by (simp add: network_stages_def options_read options0_def when_given_def given_def must_def ar_core_set_bind_def
        ar_core_set_protected_mode_def ar_core_set_requirepass_def upd_srv_def q)
  obtain s where s: "run_stages (store_stages plain_env ?q) n = Inr s" "listen_open (srv s) = False"
    by (simp add: store_stages_def options_read options0_def when_given_def given_def must_def ar_core_set_evict_by_name_def load_rdb_def
        ar_rdb_load_def host_at_def n upd_srv_def rdb0_def ar_rdb_build_path_def files0_def ar_core_rdb_dir_def
        ar_core_rdb_filename_def)
  obtain c where c: "run_stages (listen_stages net0 ?q) s = Inr c"
    by (simp add: listen_stages_def options_read options0_def when_given_def given_def must_def ar_core_listen_def open_port_def
        net0_def s upd_srv_def)
  show ?thesis
    using config_stage0 n(1) s(1) c by (auto simp: boot_def stages_parts f_def)
qed

theorem starts_in_order_witness:
  "\<exists>c. boot plain_env net0 (Some (created files0 1000 (\<lambda>_. 0))) (main_options env0 args0) = Inr c \<and> tcp_port (srv c) = 6379"
proof -
  obtain c where 1: "boot plain_env net0 (Some (created files0 1000 (\<lambda>_. 0))) (main_options env0 args0) = Inr c"
    using boot0 by blast
  then show ?thesis using starts_in_order [OF 1] by (simp add: listening_def options_read options0_def)
qed


end
