(* ===== verification/Ffi.thy ===== *)
theory Ffi
  imports Handlers Layout Sample
begin

text \<open>
  The interface a host language calls (\<open>ar_core.c\<close> and the thin wrappers of \<open>ar_types.c\<close>): strings are C strings, a null
  pointer is \<open>None\<close>, for the core as well as for an argument, and a result through a pointer is \<open>None\<close> where
  the call does not write it. A host run is a list of such calls; the last section shows that no run breaks the store.
\<close>


section \<open>Null pointers\<close>

text \<open>A call on a core and a key, and one on a core, a key and another text, with the answer to a null pointer.\<close>

definition on_key :: "'r \<Rightarrow> (core \<Rightarrow> bytes \<Rightarrow> core \<times> 'r) \<Rightarrow> core option \<Rightarrow> bytes option \<Rightarrow> core option \<times> 'r" where
  "on_key null f co key =
     (case (co, key) of (Some c, Some k) \<Rightarrow> (case f c (cstr k) of (c, r) \<Rightarrow> (Some c, r)) | _ \<Rightarrow> (co, null))"

definition on_pair :: "'r \<Rightarrow> (core \<Rightarrow> bytes \<Rightarrow> bytes \<Rightarrow> core \<times> 'r) \<Rightarrow> core option \<Rightarrow> bytes option \<Rightarrow> bytes option \<Rightarrow>
    core option \<times> 'r" where
  "on_pair null f co key arg =
     (case arg of None \<Rightarrow> (co, null) | Some a \<Rightarrow> on_key null (\<lambda>c k. f c k (cstr a)) co key)"

text \<open>The number returned and what is written through \<open>wrongtype\<close>.\<close>

type_synonym counted_wt = "int \<times> bool option"

definition minus_on_wrong :: "core \<times> int \<times> bool \<Rightarrow> core \<times> counted_wt" where
  "minus_on_wrong r = (case r of (c, n, wt) \<Rightarrow> (c, if wt then - 1 else n, Some wt))"

definition text_or_wrong :: "core \<times> bytes option \<times> bool \<Rightarrow> core \<times> (bytes option \<times> bool option)" where
  "text_or_wrong r = (case r of (c, v, wt) \<Rightarrow> (c, v, Some wt))"


section \<open>Strings\<close>

definition ar_set :: "core option \<Rightarrow> bytes option \<Rightarrow> bytes option \<Rightarrow> core option \<times> bool" where
  "ar_set = on_pair False ar_set_bin"

definition ar_get :: "core option \<Rightarrow> bytes option \<Rightarrow> core option \<times> bytes option" where
  "ar_get = on_key None ar_get_bin"

definition ar_del :: "core option \<Rightarrow> bytes option \<Rightarrow> core option \<times> bool" where
  "ar_del = on_key False ar_del_bin"

definition ar_exists :: "core option \<Rightarrow> bytes option \<Rightarrow> core option \<times> bool" where
  "ar_exists = on_key False ar_exists_bin"

definition ar_get_is :: "core option \<Rightarrow> bytes option \<Rightarrow> bytes option \<Rightarrow> core option \<times> bool" where
  "ar_get_is = on_pair False ar_get_eq"

definition ar_type_of :: "core option \<Rightarrow> bytes option \<Rightarrow> core option \<times> bytes" where
  "ar_type_of = on_key ''none'' ar_type"


section \<open>Hashes\<close>

definition ar_hset :: "core option \<Rightarrow> bytes option \<Rightarrow> bytes option \<Rightarrow> bytes option \<Rightarrow> core option \<times> counted_wt" where
  "ar_hset co key field val =
     (case val of None \<Rightarrow> (co, - 1, None)
      | Some v \<Rightarrow> on_pair (- 1, None) (\<lambda>c k f. minus_on_wrong (ar_hash_hset c k [(f, cstr v)])) co key field)"

definition ar_hget :: "core option \<Rightarrow> bytes option \<Rightarrow> bytes option \<Rightarrow> core option \<times> (bytes option \<times> bool option)" where
  "ar_hget = on_pair (None, Some False) (\<lambda>c k f. text_or_wrong (ar_hash_hget c k f))"

definition ar_hdel :: "core option \<Rightarrow> bytes option \<Rightarrow> bytes option \<Rightarrow> core option \<times> counted_wt" where
  "ar_hdel = on_pair (0, None) (\<lambda>c k f. minus_on_wrong (ar_hash_hdel c k [f]))"

definition ar_hexists :: "core option \<Rightarrow> bytes option \<Rightarrow> bytes option \<Rightarrow> core option \<times> counted_wt" where
  "ar_hexists = on_pair (0, None) (\<lambda>c k f. minus_on_wrong (ar_hash_hexists c k f))"

definition ar_hlen :: "core option \<Rightarrow> bytes option \<Rightarrow> core option \<times> counted_wt" where
  "ar_hlen = on_key (0, None) (\<lambda>c k. minus_on_wrong (ar_hash_hlen c k))"

text \<open>The value, what is written through \<open>wrongtype\<close> and through \<open>ok\<close>.\<close>

definition ar_hincrby :: "core option \<Rightarrow> bytes option \<Rightarrow> bytes option \<Rightarrow> int \<Rightarrow> core option \<times> (int \<times> bool \<times> bool)" where
  "ar_hincrby co key field incr =
     on_pair (0, False, False)
       (\<lambda>c k f. case ar_hash_hincrby c k f incr of (c, v, wt, ni) \<Rightarrow> (c, v, wt, \<not> (wt \<or> ni))) co key field"


section \<open>Lists\<close>

definition ar_push :: "bool \<Rightarrow> core option \<Rightarrow> bytes option \<Rightarrow> bytes option \<Rightarrow> core option \<times> counted_wt" where
  "ar_push left = on_pair (- 1, None) (\<lambda>c k v. minus_on_wrong (ar_list_push c k left [v]))"

definition ar_lpush :: "core option \<Rightarrow> bytes option \<Rightarrow> bytes option \<Rightarrow> core option \<times> counted_wt" where
  "ar_lpush = ar_push True"

definition ar_rpush :: "core option \<Rightarrow> bytes option \<Rightarrow> bytes option \<Rightarrow> core option \<times> counted_wt" where
  "ar_rpush = ar_push False"

definition ar_pop :: "bool \<Rightarrow> core option \<Rightarrow> bytes option \<Rightarrow> core option \<times> (bytes option \<times> bool option)" where
  "ar_pop left = on_key (None, Some False) (\<lambda>c k. text_or_wrong (ar_list_pop c k left))"

definition ar_lpop :: "core option \<Rightarrow> bytes option \<Rightarrow> core option \<times> (bytes option \<times> bool option)" where
  "ar_lpop = ar_pop True"

definition ar_rpop :: "core option \<Rightarrow> bytes option \<Rightarrow> core option \<times> (bytes option \<times> bool option)" where
  "ar_rpop = ar_pop False"

definition ar_llen :: "core option \<Rightarrow> bytes option \<Rightarrow> core option \<times> counted_wt" where
  "ar_llen = on_key (0, None) (\<lambda>c k. minus_on_wrong (ar_list_llen c k))"

definition ar_lindex :: "core option \<Rightarrow> bytes option \<Rightarrow> int \<Rightarrow> core option \<times> (bytes option \<times> bool option)" where
  "ar_lindex co key index = on_key (None, Some False) (\<lambda>c k. text_or_wrong (ar_list_lindex c k index)) co key"


section \<open>Sorted sets\<close>

fun log2 :: "nat \<Rightarrow> nat" where
  "log2 n = (if n < 2 then 0 else Suc (log2 (n div 2)))"

text \<open>The cast of an integer to a double, rounded to the nearest, ties to even, as a bit pattern.\<close>

definition f64_of_int :: "int \<Rightarrow> f64" where
  "f64_of_int n =
     (if n = 0 then 0
      else let m = nat \<bar>n\<bar>; e = log2 m;
               q = m div 2 ^ (e - 52); r = m mod 2 ^ (e - 52); h = 2 ^ (e - 53);
               d = (if e \<le> 52 then m * 2 ^ (52 - e) else if r > h \<or> r = h \<and> odd q then q + 1 else q)
           in (if n < 0 then 2 ^ 63 else 0) + (e + 1022) * 2 ^ 52 + d)"

definition ar_zadd :: "core option \<Rightarrow> bytes option \<Rightarrow> int \<Rightarrow> bytes option \<Rightarrow> core option \<times> counted_wt" where
  "ar_zadd co key score member =
     on_pair (- 1, None) (\<lambda>c k m. minus_on_wrong (ar_zset_zadd c k [(f64_of_int score, m)])) co key member"

definition ar_zscore :: "(f64 \<Rightarrow> bytes) \<Rightarrow> core option \<Rightarrow> bytes option \<Rightarrow> bytes option \<Rightarrow>
    core option \<times> (bytes option \<times> bool \<times> bool)" where
  "ar_zscore fmt = on_pair (None, False, False)
     (\<lambda>c k m. case ar_zset_zscore fmt c k m of (c, v, wt) \<Rightarrow> (c, v, wt, \<not> (wt \<or> v = None)))"

definition ar_zrem :: "core option \<Rightarrow> bytes option \<Rightarrow> bytes option \<Rightarrow> core option \<times> counted_wt" where
  "ar_zrem = on_pair (0, None) (\<lambda>c k m. minus_on_wrong (ar_zset_zrem c k [m]))"

definition ar_zcard :: "core option \<Rightarrow> bytes option \<Rightarrow> core option \<times> counted_wt" where
  "ar_zcard = on_key (0, None) (\<lambda>c k. minus_on_wrong (ar_zset_zcard c k))"


section \<open>Runs of the host\<close>

inductive host_step :: "(f64 \<Rightarrow> bytes) \<Rightarrow> core option \<Rightarrow> core option \<Rightarrow> bool" for fmt where
  host_set: "host_step fmt co (fst (ar_set co k v))"
| host_get: "host_step fmt co (fst (ar_get co k))"
| host_del: "host_step fmt co (fst (ar_del co k))"
| host_exists: "host_step fmt co (fst (ar_exists co k))"
| host_get_is: "host_step fmt co (fst (ar_get_is co k v))"
| host_type: "host_step fmt co (fst (ar_type_of co k))"
| host_hset: "host_step fmt co (fst (ar_hset co k f v))"
| host_hget: "host_step fmt co (fst (ar_hget co k f))"
| host_hdel: "host_step fmt co (fst (ar_hdel co k f))"
| host_hexists: "host_step fmt co (fst (ar_hexists co k f))"
| host_hlen: "host_step fmt co (fst (ar_hlen co k))"
| host_hincrby: "host_step fmt co (fst (ar_hincrby co k f n))"
| host_lpush: "host_step fmt co (fst (ar_lpush co k v))"
| host_rpush: "host_step fmt co (fst (ar_rpush co k v))"
| host_lpop: "host_step fmt co (fst (ar_lpop co k))"
| host_rpop: "host_step fmt co (fst (ar_rpop co k))"
| host_llen: "host_step fmt co (fst (ar_llen co k))"
| host_lindex: "host_step fmt co (fst (ar_lindex co k n))"
| host_zadd: "host_step fmt co (fst (ar_zadd co k n m))"
| host_zscore: "host_step fmt co (fst (ar_zscore fmt co k m))"
| host_zrem: "host_step fmt co (fst (ar_zrem co k m))"
| host_zcard: "host_step fmt co (fst (ar_zcard co k))"
| host_adapt: "host_step fmt (Some c) (Some (fst (ar_core_adapt_layout c)))"

definition host_ok :: "(core option \<Rightarrow> core option) \<Rightarrow> bool" where
  "host_ok call \<longleftrightarrow> (\<forall>c. sound c \<longrightarrow> (\<exists>c'. call (Some c) = Some c' \<and> heeds c c'))"

lemma host_key:
  assumes "\<And>c k c' r. sound c \<Longrightarrow> f c k = (c', r) \<Longrightarrow> heeds c c'"
  shows "host_ok (\<lambda>co. fst (on_key null f co key))"
  using assms by (fastforce simp: host_ok_def on_key_def sound_refl split: option.split prod.split)

lemma host_pair:
  assumes "\<And>c k a c' r. sound c \<Longrightarrow> f c k a = (c', r) \<Longrightarrow> heeds c c'"
  shows "host_ok (\<lambda>co. fst (on_pair null f co key arg))"
proof (cases arg)
  case (Some a)
  have "on_pair null f co key arg = on_key null (\<lambda>c k. f c k (cstr a)) co key" for co by (simp add: on_pair_def Some)
  then show ?thesis using host_key [of "\<lambda>c k. f c k (cstr a)"] assms by simp
qed (simp add: on_pair_def host_ok_def sound_refl)

lemma minus_wrong: "minus_on_wrong r = (c', a) \<Longrightarrow> \<exists>n wt. r = (c', n, wt)"
  by (cases r) (auto simp: minus_on_wrong_def)

lemma text_wrong: "text_or_wrong r = (c', a) \<Longrightarrow> \<exists>v wt. r = (c', v, wt)"
  by (cases r) (auto simp: text_or_wrong_def)

lemma set_bin_heeds:
  assumes s: "sound c" and r: "ar_set_bin c k v = (c', ok)"
  shows "heeds c c'"
proof -
  have 1: "ar_entry_set (counted c) k v = (c', ok)" using r by (simp add: ar_set_bin_def counted_def)
  have "heeds (counted c) c'" by (rule entry_set_heeds [OF _ 1]) (simp add: s)
  then show ?thesis by (rule heeds_counted)
qed

lemma get_bin_heeds: "sound c \<Longrightarrow> ar_get_bin c k = (c', v) \<Longrightarrow> heeds c c'"
  by (erule heeds_by) (rule get_bin_ok(1))

lemma get_eq_heeds:
  assumes s: "sound c" and r: "ar_get_eq c k v = (c', ok)"
  shows "heeds c c'"
proof -
  obtain u where w: "wf u c" using s by (auto simp: sound_def)
  show ?thesis
    using w
  proof (cases rule: find_cases [of u c k])
    case (found e b tr N)
    show ?thesis
    proof (cases "etype e = TString")
      case True
      let ?c = "c\<lparr> ops := ops c + 1, gets := gets c + 1, hits := hits c + 1 \<rparr>"
      obtain c2 e2 where 2: "(case ar_touch_get ?c e b tr of (c, e) \<Rightarrow> evict_on_get c e) = (c2, e2)" by fastforce
      have "steps u (\<lambda>_. False) {} {} c c2"
        by (rule get_found(1) [OF found(4,3) _ _ _ 2]) (simp_all add: dict_of_def env_of_def)
      moreover have "c' = c2" using r found(1) True 2 by (auto simp: ar_get_eq_def Let_def split: prod.splits)
      ultimately show ?thesis by (auto intro: heeds_steps)
    qed (use r found(1) s in \<open>simp add: ar_get_eq_def sound_refl\<close>)
  next
    case (missing c0)
    then show ?thesis using r heeds_steps [OF missing(2) [where P = "\<lambda>_. False" and K = "{}" and W = "{}"]] by (simp add: ar_get_eq_def)
  qed
qed

lemma type_heeds: "sound c \<Longrightarrow> ar_type c k = (c', n) \<Longrightarrow> heeds c c'"
  by (auto simp: ar_type_def split: prod.splits option.splits dest: find_heeds)

lemma adapt_heeds:
  assumes "sound c"
  shows "heeds c (fst (ar_core_adapt_layout c))"
proof -
  obtain u where w: "wf u c" using assms by (auto simp: sound_def)
  obtain c' ok where 1: "ar_core_adapt_layout c = (c', ok)" by fastforce
  show ?thesis using heeds_steps [OF relays_steps(1) [OF adapt_layout_relays [OF w 1] w]] 1 by simp
qed

lemma host_texts: "host_ok (\<lambda>co. fst (ar_set co k v))" "host_ok (\<lambda>co. fst (ar_get co k))" "host_ok (\<lambda>co. fst (ar_del co k))"
  "host_ok (\<lambda>co. fst (ar_exists co k))" "host_ok (\<lambda>co. fst (ar_get_is co k v))" "host_ok (\<lambda>co. fst (ar_type_of co k))"
  unfolding ar_set_def ar_get_def ar_del_def ar_exists_def ar_get_is_def ar_type_of_def
  by (intro host_key host_pair; erule (1) set_bin_heeds get_bin_heeds del_heeds exists_heeds get_eq_heeds type_heeds)+

lemma host_hashes: "host_ok (\<lambda>co. fst (ar_hset co k f v))" "host_ok (\<lambda>co. fst (ar_hget co k f))" "host_ok (\<lambda>co. fst (ar_hdel co k f))"
  "host_ok (\<lambda>co. fst (ar_hexists co k f))" "host_ok (\<lambda>co. fst (ar_hlen co k))" "host_ok (\<lambda>co. fst (ar_hincrby co k f n))"
proof -
  show "host_ok (\<lambda>co. fst (ar_hset co k f v))"
    by (cases v) (auto simp: ar_hset_def host_ok_def [of "\<lambda>co. co"] sound_refl dest!: minus_wrong intro!: host_pair hset_heeds)
  show "host_ok (\<lambda>co. fst (ar_hincrby co k f n))"
    unfolding ar_hincrby_def by (rule host_pair) (auto split: prod.splits dest: hincrby_heeds)
qed (auto simp: ar_hget_def ar_hdel_def ar_hexists_def ar_hlen_def
    intro!: host_key host_pair dest!: minus_wrong text_wrong dest: hget_heeds hdel_heeds hexists_heeds hlen_heeds)

lemma host_lists: "host_ok (\<lambda>co. fst (ar_lpush co k v))" "host_ok (\<lambda>co. fst (ar_rpush co k v))" "host_ok (\<lambda>co. fst (ar_lpop co k))"
  "host_ok (\<lambda>co. fst (ar_rpop co k))" "host_ok (\<lambda>co. fst (ar_llen co k))" "host_ok (\<lambda>co. fst (ar_lindex co k n))"
  unfolding ar_lpush_def ar_rpush_def ar_push_def ar_lpop_def ar_rpop_def ar_pop_def ar_llen_def ar_lindex_def
  by (auto intro!: host_key host_pair dest!: minus_wrong text_wrong
      dest: push_heeds [OF _ list.distinct(2)] pop_heeds llen_heeds lindex_heeds)

lemma zadd_single_heeds: "sound c \<Longrightarrow> ar_zset_zadd c k [x] = (c', n, wt) \<Longrightarrow> heeds c c'"
  by (rule zadd_heeds [of c "[x]"]) simp_all

lemma host_zsets: "host_ok (\<lambda>co. fst (ar_zadd co k n m))" "host_ok (\<lambda>co. fst (ar_zscore fmt co k m))"
  "host_ok (\<lambda>co. fst (ar_zrem co k m))" "host_ok (\<lambda>co. fst (ar_zcard co k))"
  unfolding ar_zadd_def ar_zscore_def ar_zrem_def ar_zcard_def
  by (auto intro!: host_key host_pair dest!: minus_wrong split: prod.splits
      dest: zadd_single_heeds zscore_heeds zrem_heeds zcard_heeds)

lemma host_step_ok:
  assumes "host_step fmt (Some c) co" and s: "sound c"
  shows "\<exists>c'. co = Some c' \<and> heeds c c'"
  using assms(1)
  by cases (use s adapt_heeds [OF s] in \<open>simp_all add: host_texts [unfolded host_ok_def, rule_format]
    host_hashes [unfolded host_ok_def, rule_format] host_lists [unfolded host_ok_def, rule_format] host_zsets [unfolded host_ok_def, rule_format]\<close>)

lemma host_run_ok: "(host_step fmt)\<^sup>*\<^sup>* co0 co \<Longrightarrow> co0 = Some c \<Longrightarrow> sound c \<Longrightarrow> \<exists>c'. co = Some c' \<and> heeds c c'"
proof (induction rule: rtranclp_induct)
  case base
  then show ?case by (simp add: sound_refl)
next
  case (step co1 co2)
  then obtain c1 where 1: "co1 = Some c1" "heeds c c1" by blast
  then obtain c2 where "co2 = Some c2" "heeds c1 c2" using host_step_ok [of fmt c1 co2] step sound_heeds by blast
  then show ?case using heeds_trans [OF 1(2)] by blast
qed


section \<open>Whole scores\<close>

declare log2.simps [simp del]

lemma log2_bounds: "0 < n \<Longrightarrow> 2 ^ log2 n \<le> n \<and> n < 2 ^ Suc (log2 n)"
proof (induction n rule: log2.induct)
  case (1 n)
  show ?case
  proof (cases "n < 2")
    case True
    then show ?thesis using 1(2) by (simp add: log2.simps)
  next
    case False
    then have i: "2 ^ log2 (n div 2) \<le> n div 2 \<and> n div 2 < 2 ^ Suc (log2 (n div 2))" using 1(1) by simp
    have "log2 n = Suc (log2 (n div 2))" using False by (simp add: log2.simps [of n])
    then show ?thesis using i by simp linarith
  qed
qed

lemma log2_less:
  assumes "0 < n" and "n < 2 ^ k"
  shows "log2 n < k"
proof -
  have "(2::nat) ^ log2 n < 2 ^ k" using log2_bounds [OF assms(1)] assms(2) by (blast intro: le_less_trans)
  then show ?thesis by simp
qed

lemma log2_mono: "0 < m \<Longrightarrow> m \<le> n \<Longrightarrow> log2 m \<le> log2 n"
  using log2_bounds [of m] log2_bounds [of n] log2_less [of m "Suc (log2 n)"] by simp

text \<open>The pattern of a positive integer below \<open>2 ^ 53\<close>, and that it grows with the integer.\<close>

definition pattern :: "nat \<Rightarrow> nat" where
  "pattern m = (log2 m + 1022) * 2 ^ 52 + m * 2 ^ (52 - log2 m)"

lemma pattern_range:
  assumes "0 < m" and "m < 2 ^ 53"
  shows "2 ^ 52 \<le> m * 2 ^ (52 - log2 m)" "m * 2 ^ (52 - log2 m) < 2 ^ 53" "log2 m \<le> 52"
proof -
  show l: "log2 m \<le> 52" using log2_less [OF assms] by simp
  have e: "(2::nat) ^ log2 m * 2 ^ (52 - log2 m) = 2 ^ 52" "(2::nat) ^ Suc (log2 m) * 2 ^ (52 - log2 m) = 2 ^ 53"
    using l by (simp_all flip: power_add)
  show "2 ^ 52 \<le> m * 2 ^ (52 - log2 m)" unfolding e(1) [symmetric] using log2_bounds [OF assms(1)] by (intro mult_le_mono1) simp
  show "m * 2 ^ (52 - log2 m) < 2 ^ 53" unfolding e(2) [symmetric] using log2_bounds [OF assms(1)] by (intro mult_less_mono1) simp_all
qed

lemma pattern_mono:
  assumes "0 < m" and "m < n" and "n < 2 ^ 53"
  shows "pattern m < pattern n"
proof (cases "log2 m = log2 n")
  case True
  then show ?thesis using assms by (simp add: pattern_def)
next
  case False
  then have "log2 m + 1 \<le> log2 n" using log2_mono [of m n] assms by simp
  then have "(log2 m + 1023) * 2 ^ 52 \<le> (log2 n + 1022) * (2::nat) ^ 52" by (intro mult_le_mono1) simp
  then show ?thesis using pattern_range [of m] pattern_range [of n] assms by (simp add: pattern_def)
qed

lemma pattern_bound: "0 < m \<Longrightarrow> m < 2 ^ 53 \<Longrightarrow> 0 < pattern m \<and> pattern m < 1076 * 2 ^ 52"
  using pattern_range [of m] by (simp add: pattern_def)

lemma f64_of_int_pattern:
  assumes "\<bar>n\<bar> < 2 ^ 53" and "n \<noteq> 0"
  shows "f64_of_int n = (if n < 0 then 2 ^ 63 else 0) + pattern (nat \<bar>n\<bar>)"
proof -
  have "nat \<bar>n\<bar> < 2 ^ 53" using assms by (simp add: nat_less_iff)
  then show ?thesis using pattern_range(3) [of "nat \<bar>n\<bar>"] assms by (simp add: f64_of_int_def Let_def pattern_def)
qed

lemma f64_key_of_int:
  assumes "\<bar>n\<bar> < 2 ^ 53"
  shows "f64_key (f64_of_int n) = (if n = 0 then 0 else sgn n * int (pattern (nat \<bar>n\<bar>)))" "\<not> f64_is_nan (f64_of_int n)"
proof -
  have b: "0 < pattern (nat \<bar>n\<bar>) \<and> pattern (nat \<bar>n\<bar>) < 1076 * 2 ^ 52" if "n \<noteq> 0"
    using that assms by (intro pattern_bound) (simp_all add: nat_less_iff)
  have z: "f64_of_int 0 = 0" by (simp add: f64_of_int_def)
  show "f64_key (f64_of_int n) = (if n = 0 then 0 else sgn n * int (pattern (nat \<bar>n\<bar>)))"
    using b f64_of_int_pattern [OF assms] by (cases "n = 0") (auto simp: f64_key_def z sgn_if)
  show "\<not> f64_is_nan (f64_of_int n)"
    using b f64_of_int_pattern [OF assms] by (cases "n = 0") (auto simp: f64_is_nan_def z)
qed

lemma key_less:
  assumes "\<bar>a\<bar> < 2 ^ 53" and "\<bar>b\<bar> < 2 ^ 53" and "a < b"
  shows "f64_key (f64_of_int a) < f64_key (f64_of_int b)"
proof -
  have p: "0 < int (pattern (nat \<bar>n\<bar>))" if "n \<noteq> 0" "\<bar>n\<bar> < 2 ^ 53" for n :: int
    using pattern_bound [of "nat \<bar>n\<bar>"] that by (simp add: nat_less_iff)
  have m: "pattern (nat x) < pattern (nat y)" if "0 < x" "x < y" "y < 2 ^ 53" for x y :: int
    using that by (intro pattern_mono) (simp_all add: nat_less_iff zless_nat_conj)
  show ?thesis
    using assms p [of a] p [of b] m [of a b] m [of "- b" "- a"] by (auto simp: f64_key_of_int sgn_if)
qed


section \<open>Properties\<close>

text \<open>C22. A host cannot break the store: whatever data calls it makes, in whatever order, null pointers and wrong types included,
  the core it holds stays well formed with its books balanced, and every watcher of a key that changed has been told.\<close>

theorem host_calls_keep_store:
  assumes "sound c" and "(host_step fmt)\<^sup>*\<^sup>* (Some c) co"
  shows "\<exists>c'. co = Some c' \<and> sound c' \<and> srv c' = srv c \<and> (\<forall>k. view c' k = view c k \<or> touched c' k)"
  using host_run_ok [OF assms(2) refl assms(1)] sound_heeds [OF assms(1)] by (auto simp: heeds_def env_of_def)

theorem host_calls_keep_store_witness:
  "\<exists>c'. fst (ar_lpop (fst (ar_zadd (Some sample) (Some ''z'') 7 (Some ''m''))) None) = Some c' \<and> sound c'"
proof -
  let ?c1 = "fst (ar_zadd (Some sample) (Some ''z'') 7 (Some ''m''))"
  have "host_step (\<lambda>_. []) (Some sample) ?c1" by (rule host_zadd)
  moreover have "host_step (\<lambda>_. []) ?c1 (fst (ar_lpop ?c1 None))" by (rule host_lpop)
  ultimately have "(host_step (\<lambda>_. []))\<^sup>*\<^sup>* (Some sample) (fst (ar_lpop ?c1 None))" by simp
  then show ?thesis using host_calls_keep_store [OF sample_facts(3)] by blast
qed



end
